(* ===== verification/Jf_Prelude.thy ===== *)
theory Jf_Prelude
  imports Main "HOL-Library.Word"
begin

text \<open>
  Shared vocabulary of the development: the integer types of \<^verbatim>\<open>src/jiutai/jf_basic.h\<close>, the
  error codes of \<^verbatim>\<open>src/jiutai/jf_err.h\<close>, the two collections that carry the component proofs
  (\<open>bit_char\<close> for bit-level characterisations of word operations, \<open>jf_defs\<close> for the
  definitions a component's proofs unfold together), and the generic facts on lists and words that
  several components use.
\<close>

unbundle bit_operations_syntax

named_theorems bit_char \<open>bit-level characterisation of the word operations of the model\<close>
named_theorems jf_defs \<open>definitions unfolded together by the proofs of one component\<close>

section \<open>Integer types\<close>

type_synonym u8 = "8 word"
type_synonym u16 = "16 word"
type_synonym u32 = "32 word"
type_synonym u64 = "64 word"

section \<open>Error codes\<close>

text \<open>
  The library reports every failure by a code of \<^verbatim>\<open>jf_err.h\<close>. The code only ever compares the
  codes for equality, so they are the constructors of one datatype, named as in the header.
\<close>

datatype jf_err =
    JF_ERR_NO_ERROR
  | JF_ERR_OUT_OF_MEMORY
  | JF_ERR_NOT_FOUND
  | JF_ERR_OUT_OF_RANGE
  | JF_ERR_INVALID_PARAM
  | JF_ERR_REACH_MAX_RESOURCES
  | JF_ERR_HASH_ENTRY_NOT_FOUND
  | JF_ERR_INVALID_DATE
  | JF_ERR_INVALID_TIME
  | JF_ERR_HSM_STATE_NOT_FOUND
  | JF_ERR_INVALID_STRING
  | JF_ERR_SUBSTRING_NOT_FOUND
  | JF_ERR_JIUKUN_OUT_OF_MEMORY
  | JF_ERR_INVALID_JIUKUN_PAGE_ORDER
  | JF_ERR_MSG_QUEUE_FULL
  | JF_ERR_INCOMPLETE_DATA
  | JF_ERR_FAIL_GROW_JIUKUN_CACHE
  | JF_ERR_FAIL_CREATE_JIUKUN_CACHE
  | JF_ERR_UNSUPPORTED_MEMORY_SIZE

section \<open>Lists\<close>

lemma nth_list_update_if:
  "i < length xs \<Longrightarrow> xs[j := v] ! i = (if i = j then v else xs ! i)"
  by (simp add: nth_list_update)

section \<open>Words\<close>

lemma bit_word_out_of_range [simp]:
  fixes w :: "'a::len word"
  shows "LENGTH('a) \<le> n \<Longrightarrow> \<not> bit w n"
  by (meson bit_imp_le_length linorder_not_less)

section \<open>A pair of an encoder and a decoder\<close>

locale codec =
  fixes valid :: "'a \<Rightarrow> bool"
    and enc :: "'a \<Rightarrow> 'b option"
    and dec :: "'b \<Rightarrow> 'a option"
  assumes enc_defined: "valid x \<Longrightarrow> enc x \<noteq> None"
    and dec_enc: "valid x \<Longrightarrow> enc x = Some y \<Longrightarrow> dec y = Some x"
begin

lemma roundtrip: "valid x \<Longrightarrow> Option.bind (enc x) dec = Some x"
  using enc_defined [of x] dec_enc [of x] by auto

lemma enc_inject: "valid x \<Longrightarrow> valid y \<Longrightarrow> enc x = enc y \<longleftrightarrow> x = y"
  by (metis dec_enc enc_defined not_None_eq option.inject)

end

section \<open>Buffers\<close>

text \<open>Stores of consecutive elements into a buffer; \<open>None\<close> is a store outside of it.\<close>

definition putBytes :: "'a list \<Rightarrow> nat \<Rightarrow> 'a list \<Rightarrow> 'a list option" where
  "putBytes buf pos bs =
     (if pos + length bs \<le> length buf then Some (take pos buf @ bs @ drop (pos + length bs) buf) else None)"

lemma putBytes_Some:
  assumes "pos + length bs \<le> length buf"
  obtains buf' where "putBytes buf pos bs = Some buf'" "length buf' = length buf"
    "take (pos + length bs) buf' = take pos buf @ bs"
  using assms by (simp add: putBytes_def)

lemma length_putBytes: "putBytes buf pos bs = Some buf' \<Longrightarrow> length buf' = length buf"
  by (auto simp: putBytes_def split: if_splits)

text \<open>What a filled buffer holds: the old bytes up to \<open>pos\<close>, then \<open>bs\<close>.\<close>

definition filled :: "'a list \<Rightarrow> nat \<Rightarrow> 'a list \<Rightarrow> ('a list \<times> nat) option \<Rightarrow> bool" where
  "filled buf pos bs r \<longleftrightarrow>
     (\<exists>buf'. r = Some (buf', pos + length bs) \<and> length buf' = length buf \<and>
        take (pos + length bs) buf' = take pos buf @ bs)"

lemma filled_Nil: "filled buf pos [] (Some (buf, pos))"
  by (simp add: filled_def)

lemma filled_step:
  assumes "length buf' = length buf" "take (pos + length bs) buf' = take pos buf @ bs"
    "filled buf' (pos + length bs) cs r"
  shows "filled buf pos (bs @ cs) r"
  using assms by (auto simp: filled_def add.assoc)

lemma filled_put:
  assumes "pos + length bs \<le> length buf" "putBytes buf pos bs = Some buf'" "k \<le> length bs"
  shows "length buf' = length buf \<and> take (pos + k) buf' = take pos buf @ take k bs"
  using assms by (auto simp: putBytes_def)

end
