(* ===== verification/Jf_Bitop.thy ===== *)
theory Jf_Bitop
  imports Jf_Prelude
begin

text \<open>
  Bit fields in a 64-bit word (\<^verbatim>\<open>src/jiutai/jf_bitop.h\<close>) and the flags built on them
  (\<^verbatim>\<open>src/jiutai/jf_flag.h\<close>). A macro is a function of its arguments; a macro that assigns to its
  first argument returns the new value of it. Bit positions are natural numbers: every use in
  \<^verbatim>\<open>src/\<close> passes constants with \<open>left \<ge> right\<close>.
\<close>

section \<open>Bit fields\<close>

definition JF_BITOP_MASK :: "nat \<Rightarrow> nat \<Rightarrow> u64" where
  "JF_BITOP_MASK left right = push_bit right (push_bit ((left - right) + 1) 1 - 1)"

definition JF_BITOP_GET :: "u64 \<Rightarrow> nat \<Rightarrow> nat \<Rightarrow> u64" where
  "JF_BITOP_GET word left right = (drop_bit right word) AND JF_BITOP_MASK (left - right) 0"

definition JF_BITOP_SET :: "u64 \<Rightarrow> nat \<Rightarrow> nat \<Rightarrow> u64 \<Rightarrow> u64" where
  "JF_BITOP_SET word left right val =
     (word AND NOT (JF_BITOP_MASK left right)) OR
     push_bit right (val AND JF_BITOP_MASK (left - right) 0)"

definition JF_BITOP_CLEAR :: "u64 \<Rightarrow> nat \<Rightarrow> nat \<Rightarrow> u64" where
  "JF_BITOP_CLEAR word left right = JF_BITOP_SET word left right 0"

definition JF_BITOP_SHL :: "u64 \<Rightarrow> nat \<Rightarrow> u64" where
  "JF_BITOP_SHL word k = push_bit k word"

definition JF_BITOP_SHR :: "u64 \<Rightarrow> nat \<Rightarrow> u64" where
  "JF_BITOP_SHR word k = drop_bit k word"

definition JF_BITOP_ROL :: "u64 \<Rightarrow> nat \<Rightarrow> nat \<Rightarrow> u64" where
  "JF_BITOP_ROL word n k =
     (JF_BITOP_SHL word k AND JF_BITOP_MASK n 0) OR
     JF_BITOP_SHR (word AND JF_BITOP_MASK n 0) (n - k)"

section \<open>Flags\<close>

definition JF_FLAG_GET :: "u64 \<Rightarrow> nat \<Rightarrow> u64" where
  "JF_FLAG_GET flag pos = JF_BITOP_GET flag pos pos"

definition JF_FLAG_SET :: "u64 \<Rightarrow> nat \<Rightarrow> u64" where
  "JF_FLAG_SET flag pos = JF_BITOP_SET flag pos pos 1"

definition JF_FLAG_CLEAR :: "u64 \<Rightarrow> nat \<Rightarrow> u64" where
  "JF_FLAG_CLEAR flag pos = JF_BITOP_CLEAR flag pos pos"

definition JF_FLAG_SET_VALUE :: "u64 \<Rightarrow> nat \<Rightarrow> nat \<Rightarrow> u64 \<Rightarrow> u64" where
  "JF_FLAG_SET_VALUE flag left right val = JF_BITOP_SET flag left right val"

definition JF_FLAG_GET_VALUE :: "u64 \<Rightarrow> nat \<Rightarrow> nat \<Rightarrow> u64" where
  "JF_FLAG_GET_VALUE flag left right = JF_BITOP_GET flag left right"

section \<open>Bit-level characterisation\<close>

lemma push_bit_one_minus_one:
  "(push_bit n 1 - 1 :: 'a::len word) = mask n"
  by (simp add: mask_eq_exp_minus_1 push_bit_eq_mult)

lemma JF_BITOP_MASK_mask: "JF_BITOP_MASK left right = push_bit right (mask ((left - right) + 1))"
  by (simp only: JF_BITOP_MASK_def push_bit_one_minus_one)

lemma bit_JF_BITOP_MASK [bit_char]:
  "right \<le> left \<Longrightarrow> bit (JF_BITOP_MASK left right) i \<longleftrightarrow> i < 64 \<and> right \<le> i \<and> i \<le> left"
  by (auto simp: JF_BITOP_MASK_mask bit_simps)

lemma bit_JF_BITOP_GET [bit_char]:
  "right \<le> left \<Longrightarrow> bit (JF_BITOP_GET word left right) i \<longleftrightarrow> i \<le> left - right \<and> bit word (i + right)"
  by (auto simp: JF_BITOP_GET_def bit_simps bit_JF_BITOP_MASK add.commute dest: bit_imp_le_length)

lemma bit_JF_BITOP_SET [bit_char]:
  "right \<le> left \<Longrightarrow>
   bit (JF_BITOP_SET word left right val) i \<longleftrightarrow>
     i < 64 \<and> (if right \<le> i \<and> i \<le> left then bit val (i - right) else bit word i)"
  by (auto simp: JF_BITOP_SET_def bit_simps bit_JF_BITOP_MASK dest: bit_imp_le_length)

lemma bit_JF_BITOP_CLEAR [bit_char]:
  "right \<le> left \<Longrightarrow>
   bit (JF_BITOP_CLEAR word left right) i \<longleftrightarrow> \<not> (right \<le> i \<and> i \<le> left) \<and> bit word i"
  by (auto simp: JF_BITOP_CLEAR_def bit_JF_BITOP_SET dest: bit_imp_le_length)

lemma bit_JF_BITOP_ROL [bit_char]:
  "k \<le> n \<Longrightarrow>
   bit (JF_BITOP_ROL word n k) i \<longleftrightarrow>
     i < 64 \<and> i \<le> n \<and> (k \<le> i \<and> bit word (i - k) \<or> i \<le> k \<and> bit word (i + n - k))"
  by (auto simp: JF_BITOP_ROL_def JF_BITOP_SHL_def JF_BITOP_SHR_def bit_simps bit_JF_BITOP_MASK
        add.commute dest: bit_imp_le_length)

lemma JF_BITOP_GET_SET_same:
  "right \<le> left \<Longrightarrow> left < 64 \<Longrightarrow>
   JF_BITOP_GET (JF_BITOP_SET word left right val) left right = val AND mask (left - right + 1)"
  by (rule bit_eqI) (auto simp: bit_char bit_simps)

lemma JF_BITOP_GET_SET_other:
  "right \<le> left \<Longrightarrow> right' \<le> left' \<Longrightarrow> left' < right \<or> left < right' \<Longrightarrow>
   JF_BITOP_GET (JF_BITOP_SET word left right val) left' right' = JF_BITOP_GET word left' right'"
  by (rule bit_eqI) (auto simp: bit_char dest: bit_imp_le_length)

lemma JF_BITOP_GET_CLEAR_other:
  "right \<le> left \<Longrightarrow> right' \<le> left' \<Longrightarrow> left' < right \<or> left < right' \<Longrightarrow>
   JF_BITOP_GET (JF_BITOP_CLEAR word left right) left' right' = JF_BITOP_GET word left' right'"
  by (simp add: JF_BITOP_CLEAR_def JF_BITOP_GET_SET_other)

lemma word_and_mask_small:
  fixes v :: "'a::len word"
  assumes "unat v < 2 ^ n"
  shows "v AND mask n = v"
proof -
  have "unat (take_bit n v) = unat v"
    using assms by (simp add: unsigned_take_bit_eq take_bit_nat_eq_self)
  then have "take_bit n v = v" by (rule unsigned_word_eqI)
  then show ?thesis by (simp add: take_bit_eq_mask [symmetric])
qed

section \<open>Stores of single bits\<close>

text \<open>
  The contract shared by the stores of single bits of the library: the flags of a 64-bit word
  here, and the bit arrays of \<^verbatim>\<open>jf_bitarray.h\<close>. \<open>width\<close> bounds the positions the operations
  accept.
\<close>

locale bit_store =
  fixes width :: "'w \<Rightarrow> nat"
    and test :: "'w \<Rightarrow> nat \<Rightarrow> bool"
    and set1 :: "'w \<Rightarrow> nat \<Rightarrow> 'w"
    and clear1 :: "'w \<Rightarrow> nat \<Rightarrow> 'w"
    and same_rest :: "'w \<Rightarrow> 'w \<Rightarrow> bool"
  assumes width_set1: "i < width w \<Longrightarrow> width (set1 w i) = width w"
    and width_clear1: "i < width w \<Longrightarrow> width (clear1 w i) = width w"
    and test_set1: "i < width w \<Longrightarrow> j < width w \<Longrightarrow> test (set1 w i) j \<longleftrightarrow> i = j \<or> test w j"
    and test_clear1: "i < width w \<Longrightarrow> j < width w \<Longrightarrow> test (clear1 w i) j \<longleftrightarrow> i \<noteq> j \<and> test w j"
    and rest_refl: "same_rest w w"
    and rest_set1: "i < width v \<Longrightarrow> same_rest v w \<Longrightarrow> same_rest (set1 v i) w"
    and rest_clear1: "i < width v \<Longrightarrow> same_rest v w \<Longrightarrow> same_rest (clear1 v i) w"
    and rest_sym: "same_rest v w \<Longrightarrow> same_rest w v"
    and rest_trans: "same_rest u v \<Longrightarrow> same_rest v w \<Longrightarrow> same_rest u w"
    and store_ext: "same_rest v w \<Longrightarrow> width v = width w \<Longrightarrow>
        (\<And>i. i < width w \<Longrightarrow> test v i = test w i) \<Longrightarrow> v = w"
begin

lemma rest_set1_right: "i < width w \<Longrightarrow> same_rest v w \<Longrightarrow> same_rest v (set1 w i)"
  by (blast intro: rest_sym rest_set1)

lemma rest_clear1_right: "i < width w \<Longrightarrow> same_rest v w \<Longrightarrow> same_rest v (clear1 w i)"
  by (blast intro: rest_sym rest_clear1)

lemmas store_simps = width_set1 width_clear1 test_set1 test_clear1
lemmas store_rest = rest_refl rest_set1 rest_clear1 rest_set1_right rest_clear1_right

lemma set1_commute:
  "i < width w \<Longrightarrow> j < width w \<Longrightarrow> set1 (set1 w i) j = set1 (set1 w j) i"
  by (rule store_ext) (auto simp: store_simps intro!: store_rest)

lemma set1_absorb: "i < width w \<Longrightarrow> test w i \<Longrightarrow> set1 w i = w"
  by (rule store_ext) (auto simp: store_simps intro!: store_rest)

lemma clear1_absorb: "i < width w \<Longrightarrow> \<not> test w i \<Longrightarrow> clear1 w i = w"
  by (rule store_ext) (auto simp: store_simps intro!: store_rest)

lemma clear1_set1_cancel: "i < width w \<Longrightarrow> \<not> test w i \<Longrightarrow> clear1 (set1 w i) i = w"
  by (rule store_ext) (auto simp: store_simps intro!: store_rest)

lemma set1_clear1_cancel: "i < width w \<Longrightarrow> test w i \<Longrightarrow> set1 (clear1 w i) i = w"
  by (rule store_ext) (auto simp: store_simps intro!: store_rest)

end

lemma JF_FLAG_GET_bit: "JF_FLAG_GET flag pos = of_bool (bit flag pos)"
  by (rule bit_eqI) (auto simp: JF_FLAG_GET_def bit_char bit_simps)

lemma bit_JF_FLAG_SET [bit_char]: "bit (JF_FLAG_SET flag pos) i \<longleftrightarrow> i < 64 \<and> (i = pos \<or> bit flag i)"
  by (auto simp: JF_FLAG_SET_def bit_char dest: bit_imp_le_length)

lemma bit_JF_FLAG_CLEAR [bit_char]: "bit (JF_FLAG_CLEAR flag pos) i \<longleftrightarrow> i \<noteq> pos \<and> bit flag i"
  by (auto simp: JF_FLAG_CLEAR_def bit_char)

interpretation flag: bit_store "\<lambda>_. 64" "\<lambda>w i. JF_FLAG_GET w i \<noteq> 0" JF_FLAG_SET JF_FLAG_CLEAR
  "\<lambda>_ _. True"
  by unfold_locales (auto simp: JF_FLAG_GET_bit bit_char intro!: bit_eqI)

section \<open>Properties\<close>



text \<open>
  \<^verbatim>\<open>JF_BITOP_ROL\<close> is documented to rotate the \<open>n + 1\<close> bits \<open>n..0\<close> to the left, so that bit
  \<open>n\<close> comes back at position 0. It shifts the wrapped bits by \<open>n - k\<close> and not by \<open>n + 1 - k\<close>:
  rotating a word with only bit \<open>n\<close> set by one position gives the word with only bit 1 set.
\<close>

lemma JF_BITOP_ROL_top_bit:
  assumes "0 < n" and "n < 64"
  shows "JF_BITOP_ROL (push_bit n 1) n 1 = 2"
proof (rule bit_word_eqI)
  fix i assume "i < LENGTH(64)"
  then show "bit (JF_BITOP_ROL (push_bit n 1) n 1) i \<longleftrightarrow> bit (2 :: u64) i"
    using assms bit_exp_iff [where 'a = u64, of 1 i] by (auto simp: bit_char bit_simps)
qed

end
