(* ===== verification/Jf_Bitarray.thy ===== *)
theory Jf_Bitarray
  imports Jf_Bitop
begin

text \<open>
  Bit arrays of \<^verbatim>\<open>src/jiutai/jf_bitarray.h\<close>: an array of bytes, bit 0 being the most significant
  bit of byte 0. The macros update the array in place, so each loop is a function on the byte list
  that performs the assignments in the order of the source. \<open>None\<close> is a failed \<^verbatim>\<open>assert\<close> (or, in
  the three single-bit routines, an access outside the array).
\<close>

section \<open>Model\<close>

definition JF_BITARRAY_CHARS :: "u8 list \<Rightarrow> nat" where
  "JF_BITARRAY_CHARS ba = length ba"

definition JF_BITARRAY_BITS :: "u8 list \<Rightarrow> nat" where
  "JF_BITARRAY_BITS ba = JF_BITARRAY_CHARS ba * 8"

definition JF_BITARRAY_BIT_CHAR :: "nat \<Rightarrow> nat" where
  "JF_BITARRAY_BIT_CHAR b = b div 8"

definition JF_BITARRAY_BIT_IN_CHAR :: "nat \<Rightarrow> u8" where
  "JF_BITARRAY_BIT_IN_CHAR b = push_bit (8 - 1 - b mod 8) 1"

definition JF_BITARRAY_INIT :: "u8 list \<Rightarrow> u8 list" where
  "JF_BITARRAY_INIT ba = replicate (JF_BITARRAY_CHARS ba) 0"

definition JF_BITARRAY_SET :: "u8 list \<Rightarrow> u8 list" where
  "JF_BITARRAY_SET ba = replicate (JF_BITARRAY_CHARS ba) 0xFF"

definition JF_BITARRAY_BITS_TO_CHARS :: "nat \<Rightarrow> nat" where
  "JF_BITARRAY_BITS_TO_CHARS bits = (bits - 1) div 8 + 1"

text \<open>The four loops of \<^verbatim>\<open>JF_BITARRAY_LSHIFT\<close> and \<^verbatim>\<open>JF_BITARRAY_RSHIFT\<close> that move whole bytes.\<close>

function lshift_chars :: "nat \<Rightarrow> nat \<Rightarrow> u8 list \<Rightarrow> u8 list" where
  "lshift_chars index chars ba =
     (if index + chars < JF_BITARRAY_CHARS ba
      then lshift_chars (index + 1) chars (ba[index := ba ! (index + chars)])
      else ba)"
  by pat_completeness auto
termination
  by (relation "measure (\<lambda>(index, chars, ba). length ba - index)")
     (auto simp: JF_BITARRAY_CHARS_def)

fun lshift_zero :: "nat \<Rightarrow> u8 list \<Rightarrow> u8 list" where
  "lshift_zero chars ba =
     (if chars > 0 then lshift_zero (chars - 1) (ba[JF_BITARRAY_CHARS ba - chars := 0]) else ba)"

function rshift_chars :: "int \<Rightarrow> nat \<Rightarrow> u8 list \<Rightarrow> u8 list" where
  "rshift_chars index chars ba =
     (if index - int chars \<ge> 0
      then rshift_chars (index - 1) chars (ba[nat index := ba ! nat (index - int chars)])
      else ba)"
  by pat_completeness auto
termination
  by (relation "measure (\<lambda>(index, chars, ba). nat (index + 1))") auto

fun rshift_zero :: "nat \<Rightarrow> u8 list \<Rightarrow> u8 list" where
  "rshift_zero chars ba = (if chars > 0 then rshift_zero (chars - 1) (ba[chars - 1 := 0]) else ba)"

text \<open>The loops that shift the remaining (fewer than eight) bits across the bytes.\<close>

function lshift_bits :: "nat \<Rightarrow> nat \<Rightarrow> u8 list \<Rightarrow> u8 list" where
  "lshift_bits index remain ba =
     (if index + 1 < JF_BITARRAY_CHARS ba
      then lshift_bits (index + 1) remain
             (ba[index := push_bit remain (ba ! index) OR drop_bit (8 - remain) (ba ! (index + 1))])
      else ba[index := push_bit remain (ba ! index)])"
  by pat_completeness auto
termination
  by (relation "measure (\<lambda>(index, remain, ba). length ba - index)")
     (auto simp: JF_BITARRAY_CHARS_def)

function rshift_bits :: "int \<Rightarrow> nat \<Rightarrow> u8 list \<Rightarrow> u8 list" where
  "rshift_bits index remain ba =
     (if index - 1 \<ge> 0
      then rshift_bits (index - 1) remain
             (ba[nat index := drop_bit remain (ba ! nat index) OR
                push_bit (8 - remain) (ba ! nat (index - 1))])
      else ba[0 := drop_bit remain (ba ! 0)])"
  by pat_completeness auto
termination
  by (relation "measure (\<lambda>(index, remain, ba). nat index)") auto

declare lshift_chars.simps [simp del] lshift_zero.simps [simp del] rshift_chars.simps [simp del]
  rshift_zero.simps [simp del] lshift_bits.simps [simp del] rshift_bits.simps [simp del]

definition JF_BITARRAY_LSHIFT :: "u8 list \<Rightarrow> nat \<Rightarrow> u8 list option" where
  "JF_BITARRAY_LSHIFT ba shift =
     (if \<not> shift > 0 then None
      else if shift \<ge> JF_BITARRAY_BITS ba then Some (JF_BITARRAY_INIT ba)
      else
        let chars = shift div 8;
            remain = shift mod 8;
            ba = (if chars > 0 then lshift_zero chars (lshift_chars 0 chars ba) else ba)
        in Some (if remain > 0 then lshift_bits 0 remain ba else ba))"

definition JF_BITARRAY_RSHIFT :: "u8 list \<Rightarrow> nat \<Rightarrow> u8 list option" where
  "JF_BITARRAY_RSHIFT ba shift =
     (if \<not> shift > 0 then None
      else if shift \<ge> JF_BITARRAY_BITS ba then Some (JF_BITARRAY_INIT ba)
      else
        let chars = shift div 8;
            remain = shift mod 8;
            ba = (if chars > 0
                  then rshift_zero chars (rshift_chars (int (JF_BITARRAY_CHARS ba) - 1) chars ba)
                  else ba)
        in Some (if remain > 0 then rshift_bits (int (JF_BITARRAY_CHARS ba) - 1) remain ba else ba))"

text \<open>The bytewise macros; \<^verbatim>\<open>dest\<close> has the length of the sources (asserted), or \<open>None\<close>.\<close>

definition JF_BITARRAY_AND :: "u8 list \<Rightarrow> u8 list \<Rightarrow> u8 list \<Rightarrow> u8 list option" where
  "JF_BITARRAY_AND dest src1 src2 =
     (if length dest = length src1 \<and> length dest = length src2
      then Some (map2 (\<lambda>a b. a AND b) src1 src2) else None)"

definition JF_BITARRAY_OR :: "u8 list \<Rightarrow> u8 list \<Rightarrow> u8 list \<Rightarrow> u8 list option" where
  "JF_BITARRAY_OR dest src1 src2 =
     (if length dest = length src1 \<and> length dest = length src2
      then Some (map2 (\<lambda>a b. a OR b) src1 src2) else None)"

definition JF_BITARRAY_XOR :: "u8 list \<Rightarrow> u8 list \<Rightarrow> u8 list \<Rightarrow> u8 list option" where
  "JF_BITARRAY_XOR dest src1 src2 =
     (if length dest = length src1 \<and> length dest = length src2
      then Some (map2 (\<lambda>a b. a XOR b) src1 src2) else None)"

definition JF_BITARRAY_NOT :: "u8 list \<Rightarrow> u8 list \<Rightarrow> u8 list option" where
  "JF_BITARRAY_NOT dest src =
     (if length dest = length src then Some (map (\<lambda>a. NOT a) src) else None)"

definition JF_BITARRAY_COPY :: "u8 list \<Rightarrow> u8 list \<Rightarrow> u8 list option" where
  "JF_BITARRAY_COPY dest src = (if length dest = length src then Some src else None)"

text \<open>Increment and decrement run from the last byte to the first and stop at the first byte that
  absorbs the carry.\<close>

function increment_loop :: "int \<Rightarrow> u8 list \<Rightarrow> u8 list" where
  "increment_loop index ba =
     (if index \<ge> 0 then
        (if ba ! nat index \<noteq> 0xFF then ba[nat index := ba ! nat index + 1]
         else increment_loop (index - 1) (ba[nat index := 0]))
      else ba)"
  by pat_completeness auto
termination
  by (relation "measure (\<lambda>(index, ba). nat (index + 1))") auto

function decrement_loop :: "int \<Rightarrow> u8 list \<Rightarrow> u8 list" where
  "decrement_loop index ba =
     (if index \<ge> 0 then
        (if ba ! nat index \<ge> 1 then ba[nat index := ba ! nat index - 1]
         else decrement_loop (index - 1) (ba[nat index := 0xFF]))
      else ba)"
  by pat_completeness auto
termination
  by (relation "measure (\<lambda>(index, ba). nat (index + 1))") auto

declare increment_loop.simps [simp del] decrement_loop.simps [simp del]

definition JF_BITARRAY_INCREMENT :: "u8 list \<Rightarrow> u8 list" where
  "JF_BITARRAY_INCREMENT ba = increment_loop (int (JF_BITARRAY_CHARS ba) - 1) ba"

definition JF_BITARRAY_DECREMENT :: "u8 list \<Rightarrow> u8 list" where
  "JF_BITARRAY_DECREMENT ba = decrement_loop (int (JF_BITARRAY_CHARS ba) - 1) ba"

text \<open>
  The single-bit routines are functions and not macros: their parameter \<^verbatim>\<open>ba\<close> is a pointer, so
  the \<^verbatim>\<open>sizeof(ba)\<close> inside their assertion is the size of a pointer, eight bytes on the 64-bit
  targets of the build, whatever the length of the array.
\<close>

definition pointer_bits :: nat where
  "pointer_bits = 8 * 8"

definition jf_bitarray_setBit :: "u8 list \<Rightarrow> nat \<Rightarrow> u8 list option" where
  "jf_bitarray_setBit ba pos =
     (if pointer_bits > pos \<and> JF_BITARRAY_BIT_CHAR pos < length ba
      then Some (ba[JF_BITARRAY_BIT_CHAR pos :=
                    ba ! JF_BITARRAY_BIT_CHAR pos OR JF_BITARRAY_BIT_IN_CHAR pos])
      else None)"

definition jf_bitarray_clearBit :: "u8 list \<Rightarrow> nat \<Rightarrow> u8 list option" where
  "jf_bitarray_clearBit ba pos =
     (if pointer_bits > pos \<and> JF_BITARRAY_BIT_CHAR pos < length ba
      then let mask = NOT (JF_BITARRAY_BIT_IN_CHAR pos)
           in Some (ba[JF_BITARRAY_BIT_CHAR pos := ba ! JF_BITARRAY_BIT_CHAR pos AND mask])
      else None)"

definition jf_bitarray_testBit :: "u8 list \<Rightarrow> nat \<Rightarrow> bool option" where
  "jf_bitarray_testBit ba pos =
     (if pointer_bits > pos \<and> JF_BITARRAY_BIT_CHAR pos < length ba
      then Some (ba ! JF_BITARRAY_BIT_CHAR pos AND JF_BITARRAY_BIT_IN_CHAR pos \<noteq> 0)
      else None)"

definition jf_bitarray_testSetBit :: "u8 list \<Rightarrow> nat \<Rightarrow> (bool \<times> u8 list) option" where
  "jf_bitarray_testSetBit ba pos =
     (case jf_bitarray_testBit ba pos of None \<Rightarrow> None
      | Some oldbit \<Rightarrow> map_option (Pair oldbit) (jf_bitarray_setBit ba pos))"

definition jf_bitarray_testClearBit :: "u8 list \<Rightarrow> nat \<Rightarrow> (bool \<times> u8 list) option" where
  "jf_bitarray_testClearBit ba pos =
     (case jf_bitarray_testBit ba pos of None \<Rightarrow> None
      | Some oldbit \<Rightarrow> map_option (Pair oldbit) (jf_bitarray_clearBit ba pos))"

section \<open>The loops, byte by byte\<close>

lemma length_lshift_chars [simp]: "length (lshift_chars index chars ba) = length ba"
  by (induction index chars ba rule: lshift_chars.induct) (simp add: lshift_chars.simps)

lemma nth_lshift_chars:
  "0 < chars \<Longrightarrow> j < length ba \<Longrightarrow>
   lshift_chars index chars ba ! j =
     (if index \<le> j \<and> j + chars < length ba then ba ! (j + chars) else ba ! j)"
proof (induction index chars ba rule: lshift_chars.induct)
  case (1 index chars ba)
  then show ?case
    by (subst lshift_chars.simps, cases "j = index")
       (auto simp: JF_BITARRAY_CHARS_def nth_list_update)
qed

lemma length_lshift_zero [simp]: "length (lshift_zero chars ba) = length ba"
  by (induction chars ba rule: lshift_zero.induct) (simp add: lshift_zero.simps)

lemma nth_lshift_zero:
  "chars \<le> length ba \<Longrightarrow> j < length ba \<Longrightarrow>
   lshift_zero chars ba ! j = (if j + chars < length ba then ba ! j else 0)"
proof (induction chars ba rule: lshift_zero.induct)
  case (1 chars ba)
  then show ?case
    by (subst lshift_zero.simps) (auto simp: JF_BITARRAY_CHARS_def nth_list_update)
qed

lemma length_rshift_chars [simp]: "length (rshift_chars index chars ba) = length ba"
  by (induction index chars ba rule: rshift_chars.induct) (simp add: rshift_chars.simps)

lemma nth_rshift_chars:
  "0 < chars \<Longrightarrow> index < int (length ba) \<Longrightarrow> j < length ba \<Longrightarrow>
   rshift_chars index chars ba ! j =
     (if int j \<le> index \<and> chars \<le> j then ba ! (j - chars) else ba ! j)"
proof (induction index chars ba rule: rshift_chars.induct)
  case (1 index chars ba)
  show ?case
  proof (cases "index - int chars \<ge> 0")
    case True
    define ba' where "ba' = ba[nat index := ba ! nat (index - int chars)]"
    have "rshift_chars (index - 1) chars ba' ! j =
        (if int j \<le> index - 1 \<and> chars \<le> j then ba' ! (j - chars) else ba' ! j)"
      using "1.IH" [OF True] "1.prems" unfolding ba'_def by simp
    moreover have "nat (index - int chars) = nat index - chars"
      using True by (simp add: nat_diff_distrib')
    ultimately show ?thesis
      using True "1.prems" by (subst rshift_chars.simps) (auto simp: ba'_def nth_list_update)
  next
    case False
    with "1.prems" show ?thesis by (subst rshift_chars.simps) auto
  qed
qed

lemma length_rshift_zero [simp]: "length (rshift_zero chars ba) = length ba"
  by (induction chars ba rule: rshift_zero.induct) (simp add: rshift_zero.simps)

lemma nth_rshift_zero:
  "j < length ba \<Longrightarrow> rshift_zero chars ba ! j = (if chars \<le> j then ba ! j else 0)"
proof (induction chars ba rule: rshift_zero.induct)
  case (1 chars ba)
  then show ?case by (subst rshift_zero.simps) (auto simp: nth_list_update)
qed

lemma length_lshift_bits [simp]: "length (lshift_bits index remain ba) = length ba"
  by (induction index remain ba rule: lshift_bits.induct) (simp add: lshift_bits.simps)

lemma nth_lshift_bits:
  "index < length ba \<Longrightarrow> j < length ba \<Longrightarrow>
   lshift_bits index remain ba ! j =
     (if j < index then ba ! j
      else if j + 1 < length ba
      then push_bit remain (ba ! j) OR drop_bit (8 - remain) (ba ! (j + 1))
      else push_bit remain (ba ! j))"
proof (induction index remain ba rule: lshift_bits.induct)
  case (1 index remain ba)
  then show ?case
    by (subst lshift_bits.simps, cases "j = index")
       (auto simp: JF_BITARRAY_CHARS_def nth_list_update)
qed

lemma length_rshift_bits [simp]: "length (rshift_bits index remain ba) = length ba"
  by (induction index remain ba rule: rshift_bits.induct) (simp add: rshift_bits.simps)

lemma nth_rshift_bits:
  "0 \<le> index \<Longrightarrow> index < int (length ba) \<Longrightarrow> j < length ba \<Longrightarrow>
   rshift_bits index remain ba ! j =
     (if index < int j then ba ! j
      else if 0 < j
      then drop_bit remain (ba ! j) OR push_bit (8 - remain) (ba ! (j - 1))
      else drop_bit remain (ba ! j))"
proof (induction index remain ba rule: rshift_bits.induct)
  case (1 index remain ba)
  show ?case
  proof (cases "index - 1 \<ge> 0")
    case True
    then have "nat (index - 1) = nat index - 1" by simp
    with True 1 show ?thesis
      by (subst rshift_bits.simps) (auto simp: nth_list_update)
  next
    case False
    with "1.prems" show ?thesis by (subst rshift_bits.simps) (auto simp: nth_list_update)
  qed
qed

section \<open>The array as a sequence of bits\<close>

definition ba_bit :: "u8 list \<Rightarrow> nat \<Rightarrow> bool" where
  "ba_bit ba i \<longleftrightarrow> i < 8 * length ba \<and> bit (ba ! (i div 8)) (7 - i mod 8)"

lemma ba_bit_at: "j < length ba \<Longrightarrow> m < 8 \<Longrightarrow> ba_bit ba (8 * j + m) \<longleftrightarrow> bit (ba ! j) (7 - m)"
  by (simp add: ba_bit_def)

lemma ba_bit_ext:
  assumes len: "length ba = length bb"
    and eq: "\<And>i. i < 8 * length bb \<Longrightarrow> ba_bit ba i = ba_bit bb i"
  shows "ba = bb"
proof (rule nth_equalityI [OF len])
  fix j assume j: "j < length ba"
  show "ba ! j = bb ! j"
  proof (rule bit_word_eqI)
    fix n assume "n < LENGTH(8)"
    then obtain m where m: "m < 8" "n = 7 - m" by (intro that [of "7 - n"]) auto
    have "ba_bit ba (8 * j + m) = ba_bit bb (8 * j + m)"
      using j m len by (intro eq) simp
    with j m len show "bit (ba ! j) n = bit (bb ! j) n" by (simp add: ba_bit_at)
  qed
qed

text \<open>Reading a byte past the end as 0 removes the case distinction at the end of the array.\<close>

definition byte_at :: "u8 list \<Rightarrow> nat \<Rightarrow> u8" where
  "byte_at ba k = (if k < length ba then ba ! k else 0)"

lemma ba_bit_byte_at: "m < 8 \<Longrightarrow> ba_bit ba (8 * k + m) \<longleftrightarrow> bit (byte_at ba k) (7 - m)"
  by (auto simp: byte_at_def ba_bit_at) (simp add: ba_bit_def)

lemma ba_bit_pos: "p = 8 * k + m \<Longrightarrow> m < 8 \<Longrightarrow> ba_bit ba p \<longleftrightarrow> bit (byte_at ba k) (7 - m)"
  by (simp add: ba_bit_byte_at)

lemma u8_drop_all [simp]: "drop_bit 8 (x :: u8) = 0" and u8_push_all [simp]: "push_bit 8 (x :: u8) = 0"
  by (rule bit_word_eqI; simp add: bit_simps)+

lemma bit_shift_in_left:
  fixes x y :: u8
  assumes "m < 8" and "r < 8"
  shows "bit (push_bit r x OR drop_bit (8 - r) y) (7 - m) \<longleftrightarrow>
     (if m + r < 8 then bit x (7 - (m + r)) else bit y (7 - (m + r - 8)))"
proof -
  have "8 - r + (7 - m) = 7 - (m + r - 8)" if "\<not> m + r < 8" using assms that by simp
  then show ?thesis using assms by (auto simp: bit_simps)
qed

lemma bit_shift_in_right:
  fixes x y :: u8
  assumes "m < 8" and "r < 8"
  shows "bit (drop_bit r x OR push_bit (8 - r) y) (7 - m) \<longleftrightarrow>
     (if r \<le> m then bit x (7 - (m - r)) else bit y (7 - (m + 8 - r)))"
proof -
  have "r + (7 - m) = 7 - (m - r)" if "r \<le> m" using assms that by simp
  moreover have "7 - m - (8 - r) = 7 - (m + 8 - r)" if "\<not> r \<le> m" using assms that by simp
  ultimately show ?thesis using assms by (auto simp: bit_simps)
qed

lemma byte_at_lshift_chars:
  assumes "0 < chars" and "chars \<le> length ba"
  shows "byte_at (lshift_zero chars (lshift_chars 0 chars ba)) k = byte_at ba (k + chars)"
  using assms by (auto simp: byte_at_def nth_lshift_zero nth_lshift_chars)

lemma byte_at_lshift_bits:
  assumes "ba \<noteq> []"
  shows "byte_at (lshift_bits 0 r ba) k = push_bit r (byte_at ba k) OR drop_bit (8 - r) (byte_at ba (k + 1))"
  using assms by (auto simp: byte_at_def nth_lshift_bits)

lemma byte_at_rshift_chars:
  assumes "0 < chars"
  shows "byte_at (rshift_zero chars (rshift_chars (int (length ba) - 1) chars ba)) k =
     (if k < length ba \<and> chars \<le> k then byte_at ba (k - chars) else 0)"
  using assms by (auto simp: byte_at_def nth_rshift_zero nth_rshift_chars)

lemma byte_at_rshift_bits:
  assumes "k < length ba" and "j = int (length ba) - 1"
  shows "byte_at (rshift_bits j r ba) k =
     drop_bit r (byte_at ba k) OR push_bit (8 - r) (if 0 < k then byte_at ba (k - 1) else 0)"
  using assms by (auto simp: byte_at_def nth_rshift_bits)

lemma div_mod_8_split:
  obtains k m where "(i :: nat) = 8 * k + m" and "m < 8" and "k = i div 8"
proof (rule that [of "i div 8" "i mod 8"])
  show "i = 8 * (i div 8) + i mod 8" by simp
qed simp_all

lemma ba_bit_LSHIFT:
  assumes "JF_BITARRAY_LSHIFT ba shift = Some bb"
  shows "length bb = length ba" and "ba_bit bb i \<longleftrightarrow> ba_bit ba (i + shift)"
proof -
  show "length bb = length ba"
    using assms by (auto simp: JF_BITARRAY_LSHIFT_def Let_def JF_BITARRAY_INIT_def
        JF_BITARRAY_CHARS_def split: if_splits)
  show "ba_bit bb i \<longleftrightarrow> ba_bit ba (i + shift)"
  proof (cases "shift \<ge> 8 * length ba")
    case True
    with assms have "bb = replicate (length ba) 0"
      by (auto simp: JF_BITARRAY_LSHIFT_def JF_BITARRAY_BITS_def JF_BITARRAY_INIT_def
          JF_BITARRAY_CHARS_def split: if_splits)
    with True show ?thesis by (auto simp: ba_bit_def)
  next
    case False
    define c r where "c = shift div 8" and "r = shift mod 8"
    define b1 where "b1 = (if c > 0 then lshift_zero c (lshift_chars 0 c ba) else ba)"
    have sh: "shift = 8 * c + r" "r < 8" by (simp_all add: c_def r_def)
    have bb: "bb = (if r > 0 then lshift_bits 0 r b1 else b1)"
      using assms False by (auto simp: JF_BITARRAY_LSHIFT_def Let_def JF_BITARRAY_BITS_def
          JF_BITARRAY_CHARS_def b1_def c_def r_def split: if_splits)
    have c: "c \<le> length ba" and ne: "b1 \<noteq> []"
      using False sh by (auto simp: b1_def simp flip: length_greater_0_conv)
    have b1: "byte_at b1 k = byte_at ba (k + c)" for k
      using c by (auto simp: b1_def byte_at_lshift_chars)
    have byte: "byte_at bb k = push_bit r (byte_at ba (k + c)) OR drop_bit (8 - r) (byte_at ba (k + c + 1))"
      for k using ne by (simp add: bb byte_at_lshift_bits b1)
    obtain k m where i: "i = 8 * k + m" "m < 8" by (rule div_mod_8_split)
    have "ba_bit ba (i + shift) \<longleftrightarrow>
        (if m + r < 8 then bit (byte_at ba (k + c)) (7 - (m + r))
         else bit (byte_at ba (k + c + 1)) (7 - (m + r - 8)))"
      using i sh ba_bit_pos [of "i + shift" "k + c" "m + r" ba]
        ba_bit_pos [of "i + shift" "k + c + 1" "m + r - 8" ba] by simp
    then show ?thesis
      using i sh by (simp add: ba_bit_byte_at byte bit_shift_in_left)
  qed
qed

lemma ba_bit_RSHIFT:
  assumes "JF_BITARRAY_RSHIFT ba shift = Some bb"
  shows "length bb = length ba"
    and "ba_bit bb i \<longleftrightarrow> i < 8 * length ba \<and> shift \<le> i \<and> ba_bit ba (i - shift)"
proof -
  show len: "length bb = length ba"
    using assms by (auto simp: JF_BITARRAY_RSHIFT_def Let_def JF_BITARRAY_INIT_def
        JF_BITARRAY_CHARS_def split: if_splits)
  show "ba_bit bb i \<longleftrightarrow> i < 8 * length ba \<and> shift \<le> i \<and> ba_bit ba (i - shift)"
  proof (cases "shift \<ge> 8 * length ba \<or> i \<ge> 8 * length ba")
    case True
    with assms have "i \<ge> 8 * length ba \<or> bb = replicate (length ba) 0"
      by (auto simp: JF_BITARRAY_RSHIFT_def JF_BITARRAY_BITS_def JF_BITARRAY_INIT_def
          JF_BITARRAY_CHARS_def split: if_splits)
    with True len show ?thesis by (auto simp: ba_bit_def)
  next
    case False
    define c r where "c = shift div 8" and "r = shift mod 8"
    define b1 where "b1 = (if c > 0 then rshift_zero c (rshift_chars (int (length ba) - 1) c ba) else ba)"
    have sh: "shift = 8 * c + r" "r < 8" by (simp_all add: c_def r_def)
    have bb: "bb = (if r > 0 then rshift_bits (int (length b1) - 1) r b1 else b1)"
      using assms False by (auto simp: JF_BITARRAY_RSHIFT_def Let_def JF_BITARRAY_BITS_def
          JF_BITARRAY_CHARS_def b1_def c_def r_def split: if_splits)
    have lenb1: "length b1 = length ba" by (simp add: b1_def)
    have b1: "byte_at b1 k = (if c \<le> k then byte_at ba (k - c) else 0)" if "k < length ba" for k
      using that by (auto simp: b1_def byte_at_rshift_chars)
    have byte: "byte_at bb k = drop_bit r (if c \<le> k then byte_at ba (k - c) else 0) OR
        push_bit (8 - r) (if c < k then byte_at ba (k - 1 - c) else 0)"
      if "k < length ba" for k
      using that lenb1 by (auto simp: bb byte_at_rshift_bits b1)
    obtain k m where i: "i = 8 * k + m" "m < 8" by (rule div_mod_8_split)
    have k: "k < length ba" using False i by simp
    have le: "shift \<le> i \<longleftrightarrow> c < k \<or> c = k \<and> r \<le> m" using i sh by auto
    have hi: "ba_bit ba (i - shift) \<longleftrightarrow> bit (byte_at ba (k - c)) (7 - (m - r))"
      if "c \<le> k" "r \<le> m"
      by (rule ba_bit_pos) (use i sh that in arith)+
    have lo: "ba_bit ba (i - shift) \<longleftrightarrow> bit (byte_at ba (k - 1 - c)) (7 - (m + 8 - r))"
      if "c < k" "m < r"
      by (rule ba_bit_pos) (use i sh that in arith)+
    have "ba_bit bb i \<longleftrightarrow> (if r \<le> m then c \<le> k \<and> bit (byte_at ba (k - c)) (7 - (m - r))
        else c < k \<and> bit (byte_at ba (k - 1 - c)) (7 - (m + 8 - r)))"
      using i sh(2) k by (simp add: ba_bit_byte_at byte bit_shift_in_right)
    then show ?thesis
      using hi lo False le by auto
  qed
qed

lemma SHIFT_defined:
  "0 < shift \<Longrightarrow> (\<exists>l. JF_BITARRAY_LSHIFT ba shift = Some l) \<and> (\<exists>r. JF_BITARRAY_RSHIFT ba shift = Some r)"
  by (cases "JF_BITARRAY_BITS ba \<le> shift")
     (simp_all add: JF_BITARRAY_LSHIFT_def JF_BITARRAY_RSHIFT_def Let_def)

section \<open>The array as a big-endian number\<close>

definition ba_val :: "u8 list \<Rightarrow> nat" where
  "ba_val ba = foldl (\<lambda>v b. 256 * v + unat b) 0 ba"

lemma ba_val_Nil [simp]: "ba_val [] = 0"
  and ba_val_snoc [simp]: "ba_val (ba @ [b]) = 256 * ba_val ba + unat b"
  by (simp_all add: ba_val_def)

lemma unat_u8_less: "unat (b :: u8) < 256"
  using unsigned_less [of b] by simp

lemma ba_val_less: "ba_val ba < 256 ^ length ba"
proof (induction ba rule: rev_induct)
  case (snoc b ba)
  then have "256 * ba_val ba + 256 \<le> 256 * 256 ^ length ba" by simp
  then show ?case using unat_u8_less [of b] by (simp del: mult_le_cancel1)
qed simp

lemma ba_val_inject:
  "length ba = length bb \<Longrightarrow> ba_val ba = ba_val bb \<Longrightarrow> ba = bb"
proof (induction ba arbitrary: bb rule: rev_induct)
  case (snoc b ba)
  from snoc.prems(1) obtain b' bb' where bb: "bb = bb' @ [b']" by (cases bb rule: rev_cases) auto
  have "256 * ba_val ba + unat b = 256 * ba_val bb' + unat b'" using snoc.prems bb by simp
  moreover from this have "ba_val ba = ba_val bb'"
    using unat_u8_less [of b] unat_u8_less [of b'] by linarith
  ultimately have "ba_val ba = ba_val bb'" "unat b = unat b'" by simp_all
  then show ?case using snoc bb by (auto intro: unsigned_word_eqI)
qed simp

lemma length_increment_loop [simp]: "length (increment_loop index ba) = length ba"
  by (induction index ba rule: increment_loop.induct) (simp add: increment_loop.simps)

lemma length_decrement_loop [simp]: "length (decrement_loop index ba) = length ba"
  by (induction index ba rule: decrement_loop.induct) (simp add: decrement_loop.simps)

lemma increment_loop_step:
  "increment_loop (int (Suc n) - 1) ba =
     (if ba ! n \<noteq> 0xFF then ba[n := ba ! n + 1] else increment_loop (int n - 1) (ba[n := 0]))"
  by (subst increment_loop.simps) simp

lemma decrement_loop_step:
  "decrement_loop (int (Suc n) - 1) ba =
     (if ba ! n \<ge> 1 then ba[n := ba ! n - 1] else decrement_loop (int n - 1) (ba[n := 0xFF]))"
  by (subst decrement_loop.simps) simp

lemma take_Suc_via_drop:
  "n < length ba \<Longrightarrow> drop n bb = drop n ba \<Longrightarrow> length bb = length ba \<Longrightarrow>
   take (Suc n) bb = take n bb @ [ba ! n]"
  using hd_drop_conv_nth [of n ba] hd_drop_conv_nth [of n bb]
  by (simp add: take_Suc_conv_app_nth)

lemma increment_loop_val:
  "n \<le> length ba \<Longrightarrow>
   ba_val (take n (increment_loop (int n - 1) ba)) = (ba_val (take n ba) + 1) mod 256 ^ n \<and>
   drop n (increment_loop (int n - 1) ba) = drop n ba"
proof (induction n arbitrary: ba)
  case 0
  then show ?case by (subst (1 2) increment_loop.simps) simp
next
  case (Suc n)
  let ?b = "ba ! n" and ?v = "ba_val (take n ba)"
  have tk: "take (Suc n) ba = take n ba @ [?b]" using Suc.prems by (simp add: take_Suc_conv_app_nth)
  show ?case
  proof (cases "?b = 0xFF")
    case False
    then have "unat ?b \<noteq> 255" using unsigned_word_eqI [of ?b "0xFF"] by auto
    then have b: "unat (?b + 1) = unat ?b + 1" "unat ?b + 1 < 256"
      using unat_u8_less [of ?b] by (simp_all add: unat_word_ariths)
    have "256 * ?v + unat ?b + 1 < 256 ^ Suc n"
      using ba_val_less [of "take n ba"] b(2) Suc.prems by (simp add: min_absorb2)
    then show ?thesis
      using False Suc.prems b by (simp only: increment_loop_step tk) (simp add: take_Suc_conv_app_nth)
  next
    case True
    define bb where "bb = increment_loop (int n - 1) (ba[n := 0])"
    have ih: "ba_val (take n bb) = (?v + 1) mod 256 ^ n" "drop n bb = drop n (ba[n := 0])"
      using Suc.IH [of "ba[n := 0]"] Suc.prems by (simp_all add: bb_def)
    have "take (Suc n) bb = take n bb @ [0]"
      using take_Suc_via_drop [OF _ ih(2)] Suc.prems by (simp add: bb_def)
    moreover have "drop (Suc n) bb = drop (Suc n) ba"
      using arg_cong [OF ih(2), of "drop 1"] by simp
    moreover have "unat ?b = 255" using True by simp
    ultimately show ?thesis
      using True ih(1) unfolding increment_loop_step tk ba_val_snoc bb_def [symmetric]
      by (simp add: mult_mod_right)
  qed
qed

lemma pred_mod: "v < N \<Longrightarrow> (v + (N - 1)) mod N = (if v = 0 then N - 1 else v - 1)" for v N :: nat
  by (cases v) simp_all

lemma decrement_loop_val:
  "n \<le> length ba \<Longrightarrow>
   ba_val (take n (decrement_loop (int n - 1) ba)) = (ba_val (take n ba) + (256 ^ n - 1)) mod 256 ^ n \<and>
   drop n (decrement_loop (int n - 1) ba) = drop n ba"
proof (induction n arbitrary: ba)
  case 0
  then show ?case by (subst (1 2) decrement_loop.simps) simp
next
  case (Suc n)
  let ?b = "ba ! n" and ?v = "ba_val (take n ba)"
  have tk: "take (Suc n) ba = take n ba @ [?b]" using Suc.prems by (simp add: take_Suc_conv_app_nth)
  have v: "?v < 256 ^ n" using ba_val_less [of "take n ba"] Suc.prems by (simp add: min_absorb2)
  show ?case
  proof (cases "?b \<ge> 1")
    case True
    then have b: "unat (?b - 1) = unat ?b - 1" "1 \<le> unat ?b"
      by (simp_all add: unat_sub word_le_nat_alt)
    have "256 * ?v + unat ?b + (256 ^ Suc n - 1) = 256 * ?v + (unat ?b - 1) + 256 ^ Suc n"
      using b(2) by simp
    moreover have "256 * ?v + (unat ?b - 1) < 256 ^ Suc n"
      using v unat_u8_less [of ?b] by (simp add: less_diff_conv2)
    ultimately have "(256 * ?v + unat ?b + (256 ^ Suc n - 1)) mod 256 ^ Suc n = 256 * ?v + (unat ?b - 1)"
      by (simp only: mod_add_self2 mod_less)
    then show ?thesis
      using True Suc.prems b unfolding decrement_loop_step tk ba_val_snoc
      by (simp add: take_Suc_conv_app_nth)
  next
    case False
    define bb where "bb = decrement_loop (int n - 1) (ba[n := 0xFF])"
    have ih: "ba_val (take n bb) = (?v + (256 ^ n - 1)) mod 256 ^ n"
        "drop n bb = drop n (ba[n := 0xFF])"
      using Suc.IH [of "ba[n := 0xFF]"] Suc.prems by (simp_all add: bb_def)
    have tkb: "take (Suc n) bb = take n bb @ [0xFF]"
      using take_Suc_via_drop [OF _ ih(2)] Suc.prems by (simp add: bb_def)
    have dr: "drop (Suc n) bb = drop (Suc n) ba"
      using arg_cong [OF ih(2), of "drop 1"] by simp
    have b0: "unat ?b = 0" using False by (simp add: word_le_nat_alt)
    have "256 * ((?v + (256 ^ n - 1)) mod 256 ^ n) + 255 = (256 * ?v + (256 ^ Suc n - 1)) mod 256 ^ Suc n"
    proof -
      obtain N where "(256 :: nat) ^ n = Suc N" by (cases "(256 :: nat) ^ n") auto
      then show ?thesis using v pred_mod [OF v] pred_mod [of "256 * ?v" "256 ^ Suc n"] by auto
    qed
    then show ?thesis
      using False ih(1) dr tkb b0 unfolding decrement_loop_step tk ba_val_snoc bb_def [symmetric]
      by simp
  qed
qed

lemma ba_val_INCREMENT:
  "ba_val (JF_BITARRAY_INCREMENT ba) = (ba_val ba + 1) mod 256 ^ length ba"
  using increment_loop_val [of "length ba" ba]
  by (simp add: JF_BITARRAY_INCREMENT_def JF_BITARRAY_CHARS_def)

lemma ba_val_DECREMENT:
  "ba_val (JF_BITARRAY_DECREMENT ba) = (ba_val ba + (256 ^ length ba - 1)) mod 256 ^ length ba"
  using decrement_loop_val [of "length ba" ba]
  by (simp add: JF_BITARRAY_DECREMENT_def JF_BITARRAY_CHARS_def)

lemma length_INCREMENT [simp]: "length (JF_BITARRAY_INCREMENT ba) = length ba"
  and length_DECREMENT [simp]: "length (JF_BITARRAY_DECREMENT ba) = length ba"
  by (simp_all add: JF_BITARRAY_INCREMENT_def JF_BITARRAY_DECREMENT_def)

lemma DECREMENT_INCREMENT: "JF_BITARRAY_DECREMENT (JF_BITARRAY_INCREMENT ba) = ba"
proof (rule ba_val_inject)
  have "ba_val (JF_BITARRAY_DECREMENT (JF_BITARRAY_INCREMENT ba)) =
      (ba_val ba + 1 + (256 ^ length ba - 1)) mod 256 ^ length ba"
    by (simp only: ba_val_DECREMENT ba_val_INCREMENT length_INCREMENT mod_add_left_eq)
  then show "ba_val (JF_BITARRAY_DECREMENT (JF_BITARRAY_INCREMENT ba)) = ba_val ba"
    using ba_val_less [of ba] by simp
qed simp

lemma INCREMENT_DECREMENT: "JF_BITARRAY_INCREMENT (JF_BITARRAY_DECREMENT ba) = ba"
proof (rule ba_val_inject)
  have "ba_val (JF_BITARRAY_INCREMENT (JF_BITARRAY_DECREMENT ba)) =
      (ba_val ba + (256 ^ length ba - 1) + 1) mod 256 ^ length ba"
    by (simp only: ba_val_DECREMENT ba_val_INCREMENT length_DECREMENT mod_add_left_eq)
  then show "ba_val (JF_BITARRAY_INCREMENT (JF_BITARRAY_DECREMENT ba)) = ba_val ba"
    using ba_val_less [of ba] by simp
qed simp

section \<open>Bytewise operations\<close>

lemma ba_bit_map2:
  assumes "length a = length b" and "\<And>x y n. n < 8 \<Longrightarrow> bit (f x y :: u8) n \<longleftrightarrow> g (bit x n) (bit y n)"
  shows "i < 8 * length a \<Longrightarrow> ba_bit (map2 f a b) i \<longleftrightarrow> g (ba_bit a i) (ba_bit b i)"
  using assms by (simp add: ba_bit_def)

lemma ba_bit_map:
  assumes "\<And>x n. n < 8 \<Longrightarrow> bit (f x :: u8) n \<longleftrightarrow> g (bit (x :: u8) n)"
  shows "i < 8 * length a \<Longrightarrow> ba_bit (map f a) i \<longleftrightarrow> g (ba_bit a i)"
  using assms by (simp add: ba_bit_def)

lemma bitarray_logic:
  assumes "length dest = n" and "length a = n" and "length b = n" and "i < 8 * n"
  shows "ba_bit (the (JF_BITARRAY_AND dest a b)) i \<longleftrightarrow> ba_bit a i \<and> ba_bit b i"
    and "ba_bit (the (JF_BITARRAY_OR dest a b)) i \<longleftrightarrow> ba_bit a i \<or> ba_bit b i"
    and "ba_bit (the (JF_BITARRAY_XOR dest a b)) i \<longleftrightarrow> ba_bit a i \<noteq> ba_bit b i"
    and "ba_bit (the (JF_BITARRAY_NOT dest a)) i \<longleftrightarrow> \<not> ba_bit a i"
  using assms
  by (simp_all add: JF_BITARRAY_AND_def JF_BITARRAY_OR_def JF_BITARRAY_XOR_def JF_BITARRAY_NOT_def
      ba_bit_map [where g = Not] ba_bit_map2 [where g = "(\<and>)"] ba_bit_map2 [where g = "(\<or>)"]
      ba_bit_map2 [where g = "(\<noteq>)"] bit_simps)

section \<open>Single bits\<close>

lemma bit_BIT_IN_CHAR [bit_char]: "bit (JF_BITARRAY_BIT_IN_CHAR p) n \<longleftrightarrow> n = 7 - p mod 8"
proof -
  have "7 - p mod 8 < 8" by simp
  then show ?thesis unfolding JF_BITARRAY_BIT_IN_CHAR_def by (auto simp: bit_simps)
qed

lemma and_BIT_IN_CHAR: "x AND JF_BITARRAY_BIT_IN_CHAR p \<noteq> 0 \<longleftrightarrow> bit x (7 - p mod 8)"
  using bit_eq_iff [of "x AND JF_BITARRAY_BIT_IN_CHAR p" 0]
  by (auto simp: bit_char bit_simps bit_imp_le_length)

definition bit_range :: "u8 list \<Rightarrow> nat" where
  "bit_range ba = min pointer_bits (8 * length ba)"

lemma bit_range_iff: "pos < bit_range ba \<longleftrightarrow> pointer_bits > pos \<and> JF_BITARRAY_BIT_CHAR pos < length ba"
  by (auto simp: bit_range_def JF_BITARRAY_BIT_CHAR_def less_mult_imp_div_less)

lemma same_byte_bit:
  assumes "i div 8 = j div 8" and "7 - i mod 8 = 7 - j mod 8"
  shows "i = (j :: nat)"
proof -
  have "i mod 8 = j mod 8"
    using assms(2) mod_less_divisor [of 8 i] mod_less_divisor [of 8 j] by linarith
  with assms(1) show ?thesis by (metis div_mult_mod_eq)
qed

lemma testBit_eq: "jf_bitarray_testBit ba pos = (if pos < bit_range ba then Some (ba_bit ba pos) else None)"
  unfolding jf_bitarray_testBit_def bit_range_iff and_BIT_IN_CHAR
  by (auto simp: ba_bit_def JF_BITARRAY_BIT_CHAR_def)

lemma setBit_eq:
  "pos < bit_range ba \<Longrightarrow>
   \<exists>bb. jf_bitarray_setBit ba pos = Some bb \<and> length bb = length ba \<and>
     (\<forall>i. ba_bit bb i \<longleftrightarrow> i = pos \<or> ba_bit ba i)"
  unfolding jf_bitarray_setBit_def bit_range_iff
  by (auto simp: ba_bit_def nth_list_update bit_char bit_simps JF_BITARRAY_BIT_CHAR_def
      dest: same_byte_bit)

lemma clearBit_eq:
  "pos < bit_range ba \<Longrightarrow>
   \<exists>bb. jf_bitarray_clearBit ba pos = Some bb \<and> length bb = length ba \<and>
     (\<forall>i. ba_bit bb i \<longleftrightarrow> i \<noteq> pos \<and> ba_bit ba i)"
  unfolding jf_bitarray_clearBit_def bit_range_iff
  by (auto simp: ba_bit_def nth_list_update bit_char bit_simps JF_BITARRAY_BIT_CHAR_def Let_def
      dest: same_byte_bit)

lemma single_bit_out_of_range:
  "\<not> pos < bit_range ba \<Longrightarrow> jf_bitarray_setBit ba pos = None \<and> jf_bitarray_clearBit ba pos = None \<and>
     jf_bitarray_testBit ba pos = None"
  unfolding jf_bitarray_setBit_def jf_bitarray_clearBit_def jf_bitarray_testBit_def bit_range_iff
  by auto

text \<open>On the positions their assertion admits, the routines are a store of bits.\<close>

definition same_tail :: "u8 list \<Rightarrow> u8 list \<Rightarrow> bool" where
  "same_tail a b \<longleftrightarrow> length a = length b \<and> (\<forall>i\<in>{pointer_bits..<8 * length b}. ba_bit a i = ba_bit b i)"

lemma bit_range_cong: "length a = length b \<Longrightarrow> bit_range a = bit_range b"
  by (simp add: bit_range_def)

lemma the_setBit:
  assumes "pos < bit_range ba"
  shows "length (the (jf_bitarray_setBit ba pos)) = length ba"
    and "ba_bit (the (jf_bitarray_setBit ba pos)) i \<longleftrightarrow> i = pos \<or> ba_bit ba i"
  using setBit_eq [OF assms] by (metis option.sel)+

lemma the_clearBit:
  assumes "pos < bit_range ba"
  shows "length (the (jf_bitarray_clearBit ba pos)) = length ba"
    and "ba_bit (the (jf_bitarray_clearBit ba pos)) i \<longleftrightarrow> i \<noteq> pos \<and> ba_bit ba i"
  using clearBit_eq [OF assms] by (metis option.sel)+

lemmas the_bit_simps = the_setBit the_clearBit bit_range_cong [OF the_setBit(1)]
  bit_range_cong [OF the_clearBit(1)]

interpretation ba: bit_store bit_range "\<lambda>ba i. jf_bitarray_testBit ba i = Some True"
  "\<lambda>ba i. the (jf_bitarray_setBit ba i)" "\<lambda>ba i. the (jf_bitarray_clearBit ba i)" same_tail
proof unfold_locales
  fix v w :: "u8 list"
  assume tail: "same_tail v w" and "bit_range v = bit_range w"
    and eq: "\<And>i. i < bit_range w \<Longrightarrow>
      (jf_bitarray_testBit v i = Some True) = (jf_bitarray_testBit w i = Some True)"
  show "v = w"
  proof (rule ba_bit_ext)
    fix i assume i: "i < 8 * length w"
    show "ba_bit v i = ba_bit w i"
      using tail i eq [of i] bit_range_cong [of v w]
      by (cases "i < pointer_bits") (auto simp: testBit_eq bit_range_def same_tail_def)
  qed (use tail in \<open>simp add: same_tail_def\<close>)
qed (auto simp: the_bit_simps testBit_eq same_tail_def bit_range_def)

section \<open>Properties\<close>

text \<open>
  (C23) A left (right) shift by a positive number of bits succeeds, keeps the size of the array, and
  its bit \<open>i\<close> is bit \<open>i + shift\<close> (\<open>i - shift\<close>) of the argument, or 0 where that is outside the array.
\<close>

theorem bitarray_shift:
  assumes "0 < shift"
  shows "\<exists>l r. JF_BITARRAY_LSHIFT ba shift = Some l \<and> JF_BITARRAY_RSHIFT ba shift = Some r \<and>
    length l = length ba \<and> length r = length ba \<and>
    (\<forall>i. (ba_bit l i \<longleftrightarrow> ba_bit ba (i + shift)) \<and>
         (ba_bit r i \<longleftrightarrow> i < JF_BITARRAY_BITS ba \<and> shift \<le> i \<and> ba_bit ba (i - shift)))"
proof -
  obtain l r where lr: "JF_BITARRAY_LSHIFT ba shift = Some l" "JF_BITARRAY_RSHIFT ba shift = Some r"
    using SHIFT_defined [OF assms] by blast
  then show ?thesis
    using ba_bit_LSHIFT [OF lr(1)] ba_bit_RSHIFT [OF lr(2)]
    by (auto simp: JF_BITARRAY_BITS_def JF_BITARRAY_CHARS_def mult.commute)
qed

theorem bitarray_shift_witness:
  "\<exists>l r. JF_BITARRAY_LSHIFT [0xFF, 0x01, 0x80] 9 = Some l \<and> JF_BITARRAY_RSHIFT [0xFF, 0x01, 0x80] 9 = Some r \<and>
    length l = 3 \<and> length r = 3"
  using bitarray_shift [of 9 "[0xFF, 0x01, 0x80]"] by auto

text \<open>
  (C28) Read as a big-endian number, \<^verbatim>\<open>JF_BITARRAY_INCREMENT\<close> adds one and
  \<^verbatim>\<open>JF_BITARRAY_DECREMENT\<close> subtracts one modulo \<open>2\<close> to the number of bits of the array, and each
  undoes the other.
\<close>

theorem bitarray_increment_decrement:
  "ba_val (JF_BITARRAY_INCREMENT ba) = (ba_val ba + 1) mod 2 ^ JF_BITARRAY_BITS ba \<and>
   JF_BITARRAY_DECREMENT (JF_BITARRAY_INCREMENT ba) = ba \<and>
   JF_BITARRAY_INCREMENT (JF_BITARRAY_DECREMENT ba) = ba"
  using power_mult [of "2 :: nat" 8 "length ba"]
  by (simp add: ba_val_INCREMENT DECREMENT_INCREMENT INCREMENT_DECREMENT JF_BITARRAY_BITS_def
      JF_BITARRAY_CHARS_def mult.commute)

text \<open>
  (C29) At a position the assertion admits, \<^verbatim>\<open>jf_bitarray_testSetBit\<close> returns the old value of the
  bit and an array that differs from the argument in that bit only, which is now set; clearing it
  afterwards restores the argument when the bit was clear.
\<close>

theorem bitarray_testSetBit:
  assumes "pos < bit_range ba"
  shows "\<exists>bb. jf_bitarray_testSetBit ba pos = Some (ba_bit ba pos, bb) \<and>
    (\<forall>i. ba_bit bb i \<longleftrightarrow> i = pos \<or> ba_bit ba i) \<and>
    (\<not> ba_bit ba pos \<longrightarrow> jf_bitarray_testClearBit bb pos = Some (True, ba))"
proof -
  obtain bb where bb: "jf_bitarray_setBit ba pos = Some bb" "length bb = length ba"
    "\<forall>i. ba_bit bb i \<longleftrightarrow> i = pos \<or> ba_bit ba i" using setBit_eq [OF assms] by blast
  have p: "pos < bit_range bb" using assms bit_range_cong [OF bb(2)] by simp
  obtain bc where bc: "jf_bitarray_clearBit bb pos = Some bc" using clearBit_eq [OF p] by blast
  have "bc = ba" if "\<not> ba_bit ba pos"
    using ba.clear1_set1_cancel [OF assms] that assms by (simp add: testBit_eq bb(1) bc)
  moreover have "ba_bit bb pos" using bb(3) by blast
  ultimately have "\<not> ba_bit ba pos \<longrightarrow> jf_bitarray_testClearBit bb pos = Some (True, ba)"
    using bc p by (simp add: jf_bitarray_testClearBit_def testBit_eq)
  moreover have "jf_bitarray_testSetBit ba pos = Some (ba_bit ba pos, bb)"
    using assms bb(1) by (simp add: jf_bitarray_testSetBit_def testBit_eq)
  ultimately show ?thesis using bb(3) by blast
qed

theorem bitarray_testSetBit_witness:
  "\<exists>bb. jf_bitarray_testSetBit [0x00, 0x10] 12 = Some (ba_bit [0x00, 0x10] 12, bb) \<and>
    (\<forall>i. ba_bit bb i \<longleftrightarrow> i = 12 \<or> ba_bit [0x00, 0x10] i)"
  using bitarray_testSetBit [of 12 "[0x00, 0x10]"] by (auto simp: bit_range_def pointer_bits_def)

text \<open>
  The assertion of the single-bit routines takes the size of a pointer for the size of the
  array: for every position from 64 on, in an array of any length, it fails.
\<close>

lemma bitarray_bit_64_rejected:
  assumes "64 \<le> pos" and "pos < JF_BITARRAY_BITS ba"
  shows "jf_bitarray_setBit ba pos = None \<and> jf_bitarray_clearBit ba pos = None \<and>
    jf_bitarray_testBit ba pos = None"
  using assms by (intro single_bit_out_of_range) (simp add: bit_range_def pointer_bits_def)

end
