(* ===== verification/Jf_Listhead.thy ===== *)
theory Jf_Listhead
  imports Jf_Prelude "HOL-Library.Monad_Syntax"
begin

text \<open>
  The two intrusive lists: the circular doubly linked list of \<^verbatim>\<open>src/jiutai/jf_listhead.h\<close> and the
  list with a single-pointer head of \<^verbatim>\<open>src/jiutai/jf_hlisthead.h\<close>.

  The store is split by field: a state holds one function from addresses to values per structure
  member, and an assignment \<^verbatim>\<open>p->member = v\<close> is an update of that function at \<open>p\<close>. The
  operations are functions on the state that perform the assignments of the source in order; the
  predicates \<open>is_list\<close> and \<open>is_hlist\<close> say that the pointers of a state spell a given sequence of
  nodes. Both lists provide the interface \<open>intrusive_list\<close>.
\<close>

section \<open>The interface of an intrusive list\<close>

text \<open>
  \<open>rep s h xs\<close>: in state \<open>s\<close> the head \<open>h\<close> holds the nodes \<open>xs\<close>; \<open>fp h xs\<close> is the set of cells that
  list occupies and \<open>own n\<close> the cell of the node \<open>n\<close>. Operations on one list leave every list with
  a disjoint footprint alone.
\<close>

locale intrusive_list =
  fixes rep :: "'s \<Rightarrow> nat \<Rightarrow> nat list \<Rightarrow> bool"
    and fp :: "nat \<Rightarrow> nat list \<Rightarrow> 'c set"
    and own :: "nat \<Rightarrow> 'c"
    and add :: "nat \<Rightarrow> nat \<Rightarrow> 's \<Rightarrow> 's"
    and del :: "nat \<Rightarrow> 's \<Rightarrow> 's"
    and ok_node :: "nat \<Rightarrow> bool"
  assumes fp_Cons: "fp h (n # xs) = insert (own n) (fp h xs)"
    and own_inject: "own m = own n \<longleftrightarrow> m = n"
    and own_head: "rep s h xs \<Longrightarrow> own n \<in> fp h xs \<Longrightarrow> n \<notin> set xs \<Longrightarrow> own n \<in> fp h []"
    and rep_add: "rep s h xs \<Longrightarrow> own n \<notin> fp h xs \<Longrightarrow> ok_node n \<Longrightarrow> rep (add h n s) h (n # xs)"
    and rep_del: "rep s h xs \<Longrightarrow> n \<in> set xs \<Longrightarrow> rep (del n s) h (remove1 n xs)"
    and frame_add: "rep s h xs \<Longrightarrow> rep s k ys \<Longrightarrow> fp h xs \<inter> fp k ys = {} \<Longrightarrow> own n \<notin> fp k ys \<Longrightarrow>
        rep (add h n s) k ys"
    and frame_del: "rep s h xs \<Longrightarrow> rep s k ys \<Longrightarrow> fp h xs \<inter> fp k ys = {} \<Longrightarrow> n \<in> set xs \<Longrightarrow>
        rep (del n s) k ys"
begin

lemma fp_append: "fp h (xs @ ys) = own ` set xs \<union> fp h ys"
  by (induction xs) (auto simp: fp_Cons)

lemma own_in_fp: "n \<in> set xs \<Longrightarrow> own n \<in> fp h xs"
  by (induction xs) (auto simp: fp_Cons)

lemma fp_remove1: "fp h (remove1 n xs) \<subseteq> fp h xs"
  by (induction xs) (auto simp: fp_Cons)

lemma own_image: "own n \<in> own ` A \<longleftrightarrow> n \<in> A"
  by (auto simp: own_inject)

lemma rep_add_list:
  "rep s h xs \<Longrightarrow> distinct ns \<Longrightarrow> own ` set ns \<inter> fp h xs = {} \<Longrightarrow> \<forall>n\<in>set ns. ok_node n \<Longrightarrow>
   rep (fold (add h) ns s) h (rev ns @ xs)"
proof (induction ns arbitrary: s xs)
  case (Cons n ns)
  then have "rep (add h n s) h (n # xs)" by (intro rep_add) auto
  then show ?case using Cons.IH [of "add h n s" "n # xs"] Cons.prems
    by (auto simp: fp_Cons own_image)
qed simp

lemma rep_add_del: "rep s h xs \<Longrightarrow> own n \<notin> fp h xs \<Longrightarrow> ok_node n \<Longrightarrow> rep (del n (add h n s)) h xs"
  using rep_del [OF rep_add, of s h xs n n] by simp

lemma rep_del_list:
  "rep s h xs \<Longrightarrow> distinct ns \<Longrightarrow> set ns \<subseteq> set xs \<Longrightarrow> distinct xs \<Longrightarrow>
   \<exists>zs. rep (fold del ns s) h zs \<and> set zs = set xs - set ns"
proof (induction ns arbitrary: s xs)
  case (Cons n ns)
  then have "set ns \<subseteq> set (remove1 n xs)" by auto
  with Cons obtain zs where "rep (fold del ns (del n s)) h zs" "set zs = set (remove1 n xs) - set ns"
    using Cons.IH [of "del n s" "remove1 n xs"] rep_del [of s h xs n] by auto
  with Cons.prems show ?case by auto
qed auto

lemma rep_transfer:
  assumes "rep s h xs" and "rep s k ys" and disj: "fp h xs \<inter> fp k ys = {}"
    and n: "n \<in> set xs" "distinct xs" "ok_node n" "own n \<notin> fp h []"
  shows "rep (add k n (del n s)) h (remove1 n xs) \<and> rep (add k n (del n s)) k (n # ys)"
proof
  have del: "rep (del n s) h (remove1 n xs)" "rep (del n s) k ys"
    using assms rep_del frame_del by blast+
  have fresh: "own n \<notin> fp k ys" using own_in_fp [OF n(1)] disj by blast
  have "own n \<notin> fp h (remove1 n xs)" using own_head [OF del(1)] n by auto
  moreover have "fp k ys \<inter> fp h (remove1 n xs) = {}" using disj fp_remove1 [of h n xs] by blast
  ultimately show "rep (add k n (del n s)) h (remove1 n xs)" using frame_add [OF del(2,1)] by blast
  show "rep (add k n (del n s)) k (n # ys)" using rep_add [OF del(2) fresh] n by blast
qed

end

section \<open>Circular list: model\<close>

type_synonym addr = nat

definition NULL :: addr where
  "NULL = 0"

record jf_listhead =
  jl_pjlNext :: "addr \<Rightarrow> addr"
  jl_pjlPrev :: "addr \<Rightarrow> addr"

definition set_jlNext :: "addr \<Rightarrow> addr \<Rightarrow> jf_listhead \<Rightarrow> jf_listhead" where
  "set_jlNext p v s = s\<lparr>jl_pjlNext := (jl_pjlNext s)(p := v)\<rparr>"

definition set_jlPrev :: "addr \<Rightarrow> addr \<Rightarrow> jf_listhead \<Rightarrow> jf_listhead" where
  "set_jlPrev p v s = s\<lparr>jl_pjlPrev := (jl_pjlPrev s)(p := v)\<rparr>"

definition jf_listhead_init :: "addr \<Rightarrow> jf_listhead \<Rightarrow> jf_listhead" where
  "jf_listhead_init list s =
     (let s = set_jlNext list list s
      in set_jlPrev list list s)"

definition listAdd :: "addr \<Rightarrow> addr \<Rightarrow> addr \<Rightarrow> jf_listhead \<Rightarrow> jf_listhead" where
  "listAdd new prev next s =
     (let s = set_jlPrev next new s;
          s = set_jlNext new next s;
          s = set_jlPrev new prev s
      in set_jlNext prev new s)"

definition jf_listhead_add :: "addr \<Rightarrow> addr \<Rightarrow> jf_listhead \<Rightarrow> jf_listhead" where
  "jf_listhead_add head new s = listAdd new head (jl_pjlNext s head) s"

definition jf_listhead_addTail :: "addr \<Rightarrow> addr \<Rightarrow> jf_listhead \<Rightarrow> jf_listhead" where
  "jf_listhead_addTail head new s = listAdd new (jl_pjlPrev s head) head s"

definition listDel :: "addr \<Rightarrow> addr \<Rightarrow> jf_listhead \<Rightarrow> jf_listhead" where
  "listDel prev next s =
     (let s = set_jlPrev next prev s
      in set_jlNext prev next s)"

definition jf_listhead_del :: "addr \<Rightarrow> jf_listhead \<Rightarrow> jf_listhead" where
  "jf_listhead_del entry s =
     (let s = listDel (jl_pjlPrev s entry) (jl_pjlNext s entry) s;
          s = set_jlNext entry NULL s
      in set_jlPrev entry NULL s)"

definition jf_listhead_replace :: "addr \<Rightarrow> addr \<Rightarrow> jf_listhead \<Rightarrow> jf_listhead" where
  "jf_listhead_replace old new s =
     (let s = set_jlNext new (jl_pjlNext s old) s;
          s = set_jlPrev (jl_pjlNext s new) new s;
          s = set_jlPrev new (jl_pjlPrev s old) s
      in set_jlNext (jl_pjlPrev s new) new s)"

definition jf_listhead_replaceInit :: "addr \<Rightarrow> addr \<Rightarrow> jf_listhead \<Rightarrow> jf_listhead" where
  "jf_listhead_replaceInit old new s = jf_listhead_init old (jf_listhead_replace old new s)"

definition jf_listhead_delInit :: "addr \<Rightarrow> jf_listhead \<Rightarrow> jf_listhead" where
  "jf_listhead_delInit entry s =
     jf_listhead_init entry (listDel (jl_pjlPrev s entry) (jl_pjlNext s entry) s)"

definition jf_listhead_move :: "addr \<Rightarrow> addr \<Rightarrow> jf_listhead \<Rightarrow> jf_listhead" where
  "jf_listhead_move head list s =
     jf_listhead_add head list (listDel (jl_pjlPrev s list) (jl_pjlNext s list) s)"

definition jf_listhead_moveTail :: "addr \<Rightarrow> addr \<Rightarrow> jf_listhead \<Rightarrow> jf_listhead" where
  "jf_listhead_moveTail head list s =
     jf_listhead_addTail head list (listDel (jl_pjlPrev s list) (jl_pjlNext s list) s)"

definition jf_listhead_isLast :: "addr \<Rightarrow> addr \<Rightarrow> jf_listhead \<Rightarrow> bool" where
  "jf_listhead_isLast head entry s \<longleftrightarrow> jl_pjlNext s entry = head"

definition jf_listhead_isFirst :: "addr \<Rightarrow> addr \<Rightarrow> jf_listhead \<Rightarrow> bool" where
  "jf_listhead_isFirst head entry s \<longleftrightarrow> jl_pjlPrev s entry = head"

definition jf_listhead_isEmpty :: "addr \<Rightarrow> jf_listhead \<Rightarrow> bool" where
  "jf_listhead_isEmpty head s \<longleftrightarrow> jl_pjlNext s head = head"

definition listSplice :: "addr \<Rightarrow> addr \<Rightarrow> jf_listhead \<Rightarrow> jf_listhead" where
  "listSplice head list s =
     (let first = jl_pjlNext s list;
          last = jl_pjlPrev s list;
          at = jl_pjlNext s head;
          s = set_jlPrev first head s;
          s = set_jlNext head first s;
          s = set_jlNext last at s
      in set_jlPrev at last s)"

definition jf_listhead_splice :: "addr \<Rightarrow> addr \<Rightarrow> jf_listhead \<Rightarrow> jf_listhead" where
  "jf_listhead_splice head list s =
     (if \<not> jf_listhead_isEmpty list s then jf_listhead_init list (listSplice head list s) else s)"

definition listSpliceTail :: "addr \<Rightarrow> addr \<Rightarrow> jf_listhead \<Rightarrow> jf_listhead" where
  "listSpliceTail head list s =
     (let first = jl_pjlNext s list;
          last = jl_pjlPrev s list;
          at = jl_pjlPrev s head;
          s = set_jlPrev first at s;
          s = set_jlNext at first s;
          s = set_jlNext last head s
      in set_jlPrev head last s)"

definition jf_listhead_spliceTail :: "addr \<Rightarrow> addr \<Rightarrow> jf_listhead \<Rightarrow> jf_listhead" where
  "jf_listhead_spliceTail head list s =
     (if \<not> jf_listhead_isEmpty list s then jf_listhead_init list (listSpliceTail head list s) else s)"

definition jf_listhead_spliceInit :: "addr \<Rightarrow> addr \<Rightarrow> jf_listhead \<Rightarrow> jf_listhead" where
  "jf_listhead_spliceInit head list s =
     (if \<not> jf_listhead_isEmpty list s then jf_listhead_init list (listSplice head list s) else s)"

definition jf_listhead_split :: "addr \<Rightarrow> addr \<Rightarrow> addr \<Rightarrow> jf_listhead \<Rightarrow> jf_listhead" where
  "jf_listhead_split head list newhead s =
     (let first = jl_pjlNext s head;
          last = jl_pjlPrev s list;
          s = set_jlNext head list s;
          s = set_jlPrev list head s;
          s = set_jlNext newhead first s;
          s = set_jlPrev first newhead s;
          s = set_jlPrev newhead last s
      in set_jlNext last newhead s)"

text \<open>
  The loops of the four iteration macros, with the statement of the loop as a parameter
  \<open>body\<close> on the cursor and the state (the list and whatever else the loop changes). A loop over a
  list that does not lead back to its head does not end, so the loops are partial.
\<close>

partial_function (option) forEach_loop ::
  "('s \<Rightarrow> addr \<Rightarrow> addr) \<Rightarrow> addr \<Rightarrow> (addr \<Rightarrow> 's \<Rightarrow> 's) \<Rightarrow> addr \<Rightarrow> 's \<Rightarrow> 's option" where
  "forEach_loop step head body pos s =
     (if pos \<noteq> head then (let s = body pos s in forEach_loop step head body (step s pos) s) else Some s)"

definition jf_listhead_forEach :: "('s \<Rightarrow> jf_listhead) \<Rightarrow> addr \<Rightarrow> (addr \<Rightarrow> 's \<Rightarrow> 's) \<Rightarrow> 's \<Rightarrow> 's option" where
  "jf_listhead_forEach lh head body s =
     forEach_loop (\<lambda>s. jl_pjlNext (lh s)) head body (jl_pjlNext (lh s) head) s"

definition jf_listhead_forEachPrev :: "('s \<Rightarrow> jf_listhead) \<Rightarrow> addr \<Rightarrow> (addr \<Rightarrow> 's \<Rightarrow> 's) \<Rightarrow> 's \<Rightarrow> 's option" where
  "jf_listhead_forEachPrev lh head body s =
     forEach_loop (\<lambda>s. jl_pjlPrev (lh s)) head body (jl_pjlPrev (lh s) head) s"

partial_function (option) forEachSafe_loop ::
  "('s \<Rightarrow> addr \<Rightarrow> addr) \<Rightarrow> addr \<Rightarrow> (addr \<Rightarrow> 's \<Rightarrow> 's) \<Rightarrow> addr \<Rightarrow> addr \<Rightarrow> 's \<Rightarrow> 's option" where
  "forEachSafe_loop step head body pos n s =
     (if pos \<noteq> head then (let s = body pos s in forEachSafe_loop step head body n (step s n) s) else Some s)"

definition jf_listhead_forEachSafe :: "('s \<Rightarrow> jf_listhead) \<Rightarrow> addr \<Rightarrow> (addr \<Rightarrow> 's \<Rightarrow> 's) \<Rightarrow> 's \<Rightarrow> 's option" where
  "jf_listhead_forEachSafe lh head body s =
     (let pos = jl_pjlNext (lh s) head; n = jl_pjlNext (lh s) pos
      in forEachSafe_loop (\<lambda>s. jl_pjlNext (lh s)) head body pos n s)"

definition jf_listhead_forEachPrevSafe :: "('s \<Rightarrow> jf_listhead) \<Rightarrow> addr \<Rightarrow> (addr \<Rightarrow> 's \<Rightarrow> 's) \<Rightarrow> 's \<Rightarrow> 's option" where
  "jf_listhead_forEachPrevSafe lh head body s =
     (let pos = jl_pjlPrev (lh s) head; n = jl_pjlPrev (lh s) pos
      in forEachSafe_loop (\<lambda>s. jl_pjlPrev (lh s)) head body pos n s)"

section \<open>Circular list: pointers and sequences\<close>

definition link :: "addr \<Rightarrow> addr \<Rightarrow> jf_listhead \<Rightarrow> jf_listhead" where
  "link a b s = set_jlPrev b a (set_jlNext a b s)"

lemmas set_field_defs = set_jlNext_def set_jlPrev_def

lemma link_fields [simp]:
  "jl_pjlNext (link a b s) = (jl_pjlNext s)(a := b)" "jl_pjlPrev (link a b s) = (jl_pjlPrev s)(b := a)"
  by (simp_all add: link_def set_field_defs)

lemma init_link: "jf_listhead_init a s = link a a s"
  and listAdd_link: "listAdd n p q s = link p n (link n q s)"
  and listDel_link: "listDel p q s = link p q s"
  and listSplice_link: "listSplice h l s =
     link (jl_pjlPrev s l) (jl_pjlNext s h) (link h (jl_pjlNext s l) s)"
  and listSpliceTail_link: "listSpliceTail h l s =
     link (jl_pjlPrev s l) h (link (jl_pjlPrev s h) (jl_pjlNext s l) s)"
  and split_link: "jf_listhead_split h l n s =
     link (jl_pjlPrev s l) n (link n (jl_pjlNext s h) (link h l s))"
  by (simp_all add: jf_listhead_init_def listAdd_def listDel_def listSplice_def listSpliceTail_def
      jf_listhead_split_def link_def set_field_defs Let_def)

lemma replace_link:
  "jl_pjlNext s old \<noteq> old \<Longrightarrow> new \<noteq> old \<Longrightarrow>
   jf_listhead_replace old new s = link (jl_pjlPrev s old) new (link new (jl_pjlNext s old) s)"
  by (simp add: jf_listhead_replace_def link_def set_field_defs Let_def)

fun linked :: "jf_listhead \<Rightarrow> addr list \<Rightarrow> bool" where
  "linked s (x # y # zs) \<longleftrightarrow> jl_pjlNext s x = y \<and> jl_pjlPrev s y = x \<and> linked s (y # zs)"
| "linked s _ \<longleftrightarrow> True"

definition is_list :: "jf_listhead \<Rightarrow> addr \<Rightarrow> addr list \<Rightarrow> bool" where
  "is_list s h xs \<longleftrightarrow> distinct (h # xs) \<and> linked s (h # xs @ [h])"

lemma linked_append: "ys \<noteq> [] \<Longrightarrow> zs \<noteq> [] \<Longrightarrow> linked s (ys @ zs) \<longleftrightarrow>
    linked s ys \<and> jl_pjlNext s (last ys) = hd zs \<and> jl_pjlPrev s (hd zs) = last ys \<and> linked s zs"
  by (induction ys rule: induct_list012) (auto simp: neq_Nil_conv)

lemma linked_cong:
  "\<forall>x\<in>set (butlast ys). jl_pjlNext s x = jl_pjlNext t x \<Longrightarrow>
   \<forall>x\<in>set (tl ys). jl_pjlPrev s x = jl_pjlPrev t x \<Longrightarrow> linked s ys = linked t ys"
  by (induction ys rule: induct_list012) auto

lemma linked_link_other:
  "a \<notin> set (butlast ys) \<Longrightarrow> b \<notin> set (tl ys) \<Longrightarrow> linked (link a b s) ys = linked s ys"
  by (rule linked_cong) auto

lemma linked_join:
  assumes "ys \<noteq> []" and "zs \<noteq> []" and "linked s ys" and "linked s zs" and "p = last ys" and "q = hd zs"
    and "p \<notin> set (butlast ys)" "p \<notin> set (butlast zs)" "q \<notin> set (tl ys)" "q \<notin> set (tl zs)"
  shows "linked (link p q s) (ys @ zs)"
  using assms by (simp add: linked_append linked_link_other)

lemma last_notin_butlast: "distinct xs \<Longrightarrow> last xs \<notin> set (butlast xs)"
  by (cases xs rule: rev_cases) auto

lemma in_set_tlD: "x \<in> set (tl xs) \<Longrightarrow> x \<in> set xs"
  by (cases xs) auto

lemma hd_notin_tl: "distinct xs \<Longrightarrow> xs \<noteq> [] \<Longrightarrow> hd xs \<notin> set (tl xs)"
  by (cases xs) auto

text \<open>The ring of a list, cut between two positions: the last node before and the first after the cut.\<close>

definition before :: "addr \<Rightarrow> addr list \<Rightarrow> addr" where
  "before h as = last (h # as)"

definition after :: "addr \<Rightarrow> addr list \<Rightarrow> addr" where
  "after h bs = hd (bs @ [h])"

lemma before_simps [simp]: "before h [] = h" "before h (as @ [a]) = a"
  and after_simps [simp]: "after h [] = h" "after h (b # bs) = b"
  by (simp_all add: before_def after_def)

lemma is_list_cut: "is_list s h (as @ bs) \<longleftrightarrow> distinct (h # as @ bs) \<and> linked s (h # as) \<and>
    jl_pjlNext s (before h as) = after h bs \<and> jl_pjlPrev s (after h bs) = before h as \<and>
    linked s (bs @ [h])"
  using linked_append [of "h # as" "bs @ [h]" s] by (auto simp: is_list_def before_def after_def)

lemma before_in: "before h as \<in> set (h # as)" and after_in: "after h bs \<in> set (bs @ [h])"
  unfolding before_def after_def by (rule last_in_set, simp) (rule hd_in_set, simp)

lemma cut_ends:
  assumes "distinct (h # as @ bs)"
  shows "before h as \<notin> set (butlast (h # as))" "before h as \<notin> set bs"
    "after h bs \<notin> set as" "after h bs \<notin> set (tl (bs @ [h]))"
  using assms before_in [of h as] after_in [of h bs] last_notin_butlast [of "h # as"]
    hd_notin_tl [of "bs @ [h]"]
  unfolding before_def after_def by (auto simp del: last.simps butlast.simps)

lemma linked_close:
  assumes "distinct (h # as @ bs)" and "linked s (h # as)" and "linked s (bs @ [h])"
  shows "linked (link (before h as) (after h bs) s) (h # as @ bs @ [h])"
  using linked_join [of "h # as" "bs @ [h]" s "before h as" "after h bs"] cut_ends [OF assms(1)] assms
  by (simp add: before_def after_def)

lemma is_list_remove:
  assumes "is_list s h (as @ e # bs)"
  shows "is_list (link (before h as) (after h bs) s) h (as @ bs)"
    and "jl_pjlPrev s e = before h as" and "jl_pjlNext s e = after h bs"
proof -
  have c: "is_list s h (as @ e # bs)" "is_list s h ((as @ [e]) @ bs)" using assms by simp_all
  have d: "distinct (h # as @ bs)" and l: "linked s (h # as)" "linked s (bs @ [h])"
    using c(1) c(2) [unfolded is_list_cut] by (auto simp: is_list_cut)
  show "is_list (link (before h as) (after h bs) s) h (as @ bs)"
    using linked_close [OF d l] d by (simp add: is_list_def)
  show "jl_pjlPrev s e = before h as" "jl_pjlNext s e = after h bs"
    using c(1) c(2) [unfolded is_list_cut] by (auto simp: is_list_cut)
qed

lemma is_list_insert:
  assumes "is_list s h (as @ bs)" and n: "n \<notin> set (h # as @ bs)"
  shows "is_list (link (before h as) n (link n (after h bs) s)) h (as @ n # bs)"
proof -
  let ?t = "link n (after h bs) s"
  have d: "distinct (h # as @ bs)" and l: "linked s (h # as)" "linked s (bs @ [h])"
    using assms(1) by (simp_all add: is_list_cut)
  have d': "distinct (h # as @ n # bs)" using d n by auto
  have "linked ?t ([n] @ bs @ [h])"
    by (rule linked_join) (use cut_ends [OF d] n l in \<open>auto simp: after_def\<close>)
  moreover have "linked ?t (h # as)"
    using cut_ends [OF d] n l by (subst linked_link_other) (auto dest: in_set_butlastD split: if_splits)
  ultimately have "linked (link (before h as) (after h (n # bs)) ?t) (h # as @ (n # bs) @ [h])"
    by (intro linked_close) (use d' in simp_all)
  with d' show ?thesis by (simp add: is_list_def)
qed

lemma is_list_cong:
  assumes "\<And>x. x \<in> set (k # ys) \<Longrightarrow> jl_pjlNext s x = jl_pjlNext t x \<and> jl_pjlPrev s x = jl_pjlPrev t x"
  shows "is_list s k ys = is_list t k ys"
proof -
  have "linked s (k # ys @ [k]) = linked t (k # ys @ [k])"
    by (rule linked_cong) (use assms in \<open>auto simp: butlast_append\<close>)
  then show ?thesis by (simp add: is_list_def)
qed

lemma is_list_other:
  "a \<notin> set (k # ys) \<Longrightarrow> b \<notin> set (k # ys) \<Longrightarrow> is_list (link a b s) k ys = is_list s k ys"
  by (rule is_list_cong) auto

lemma is_list_clear:
  "e \<notin> set (k # ys) \<Longrightarrow> is_list (set_jlPrev e w (set_jlNext e v s)) k ys = is_list s k ys"
  by (rule is_list_cong) (auto simp: set_field_defs)

section \<open>Circular list: every operation\<close>

lemma is_list_distinct: "is_list s h xs \<Longrightarrow> distinct (h # xs)"
  by (simp add: is_list_def)

lemma is_list_next_head: "is_list s h xs \<Longrightarrow> jl_pjlNext s h = after h xs"
  and is_list_prev_head: "is_list s h xs \<Longrightarrow> jl_pjlPrev s h = before h xs"
  using is_list_cut [of s h "[]" xs] is_list_cut [of s h xs "[]"] by simp_all

lemma is_list_init: "is_list (jf_listhead_init h s) h []"
  by (simp add: is_list_def init_link)

lemma is_list_add: "is_list s h xs \<Longrightarrow> n \<notin> set (h # xs) \<Longrightarrow> is_list (jf_listhead_add h n s) h (n # xs)"
  using is_list_insert [of s h "[]" xs n]
  by (simp add: jf_listhead_add_def listAdd_link is_list_next_head)

lemma is_list_addTail:
  "is_list s h xs \<Longrightarrow> n \<notin> set (h # xs) \<Longrightarrow> is_list (jf_listhead_addTail h n s) h (xs @ [n])"
  using is_list_insert [of s h xs "[]" n]
  by (simp add: jf_listhead_addTail_def listAdd_link is_list_prev_head)

lemma listDel_unlink:
  "is_list s h (as @ e # bs) \<Longrightarrow> is_list (listDel (jl_pjlPrev s e) (jl_pjlNext s e) s) h (as @ bs)"
  by (simp add: listDel_link is_list_remove)

lemma remove1_cut: "n \<in> set xs \<Longrightarrow> distinct xs \<Longrightarrow>
   \<exists>as bs. xs = as @ n # bs \<and> remove1 n xs = as @ bs \<and> n \<notin> set as \<and> n \<notin> set bs"
  by (metis remove1_append remove1.simps(2) split_list distinct_append distinct.simps(2)
      disjoint_insert(1) list.simps(15))

lemma is_list_del: "is_list s h xs \<Longrightarrow> e \<in> set xs \<Longrightarrow> is_list (jf_listhead_del e s) h (remove1 e xs)"
  and is_list_delInit: "is_list s h xs \<Longrightarrow> e \<in> set xs \<Longrightarrow>
     is_list (jf_listhead_delInit e s) h (remove1 e xs) \<and> is_list (jf_listhead_delInit e s) e []"
proof -
  assume l: "is_list s h xs" and e: "e \<in> set xs"
  then obtain as bs where cut: "xs = as @ e # bs" "remove1 e xs = as @ bs" "e \<notin> set (h # as @ bs)"
    using remove1_cut [of e xs] is_list_distinct [OF l] by auto
  have "is_list (listDel (jl_pjlPrev s e) (jl_pjlNext s e) s) h (remove1 e xs)"
    using listDel_unlink l cut by simp
  then show "is_list (jf_listhead_del e s) h (remove1 e xs)"
    "is_list (jf_listhead_delInit e s) h (remove1 e xs) \<and> is_list (jf_listhead_delInit e s) e []"
    using cut(2,3)
    by (simp_all add: jf_listhead_del_def jf_listhead_delInit_def is_list_clear is_list_init Let_def)
      (simp add: init_link is_list_other)
qed

lemma is_list_replace:
  assumes l: "is_list s h (as @ old # bs)" and new: "new \<notin> set (h # as @ old # bs)"
  shows "is_list (jf_listhead_replace old new s) h (as @ new # bs)"
proof -
  have d: "distinct (h # as @ old # bs)" using l by (rule is_list_distinct)
  have "jl_pjlNext s old \<noteq> old" using is_list_remove(3) [OF l] d by (cases bs) auto
  then have "jf_listhead_replace old new s = link (before h as) new (link new (after h bs) s)"
    using replace_link [of s old new] is_list_remove(2,3) [OF l] new by simp
  moreover have "link (before h as) new (link new (after h bs) s) =
      link (before h as) new (link new (after h bs) (link (before h as) (after h bs) s))"
    using d by (simp add: link_def set_field_defs)
  moreover have "is_list (link (before h as) (after h bs) s) h (as @ bs)"
    using is_list_remove(1) [OF l] .
  ultimately show ?thesis using is_list_insert [of _ h as bs new] new by simp
qed

lemma listAdd_frame:
  "new \<notin> set (k # ys) \<Longrightarrow> prev \<notin> set (k # ys) \<Longrightarrow> next \<notin> set (k # ys) \<Longrightarrow>
   is_list (listAdd new prev next s) k ys = is_list s k ys"
  by (simp add: listAdd_link is_list_other)

lemma is_list_ends_frame:
  assumes "is_list s h xs" and "set (h # xs) \<inter> set (k # ys) = {}"
  shows "jl_pjlNext s h \<notin> set (k # ys)" and "jl_pjlPrev s h \<notin> set (k # ys)"
  using assms before_in [of h xs] after_in [of h xs]
  by (auto simp: is_list_next_head is_list_prev_head)

lemma is_list_add_frame:
  assumes "is_list s h xs" and "is_list s k ys" and "set (h # xs) \<inter> set (k # ys) = {}" and "n \<notin> set (k # ys)"
  shows "is_list (jf_listhead_add h n s) k ys" and "is_list (jf_listhead_addTail h n s) k ys"
  using assms is_list_ends_frame [OF assms(1,3)]
  by (auto simp: jf_listhead_add_def jf_listhead_addTail_def listAdd_frame)

lemma listDel_frame:
  assumes "is_list s h (as @ e # bs)" and "is_list s k ys" and "set (h # as @ bs) \<inter> set (k # ys) = {}"
  shows "is_list (listDel (jl_pjlPrev s e) (jl_pjlNext s e) s) k ys"
  using assms before_in [of h as] after_in [of h bs]
  by (subst listDel_link, subst is_list_other) (auto simp: is_list_remove)

lemma is_list_del_frame:
  assumes "is_list s h xs" and "is_list s k ys" and "set (h # xs) \<inter> set (k # ys) = {}" and "e \<in> set xs"
  shows "is_list (jf_listhead_del e s) k ys"
proof -
  obtain as bs where cut: "xs = as @ e # bs" using assms(4) split_list by fast
  with assms have "is_list (listDel (jl_pjlPrev s e) (jl_pjlNext s e) s) k ys"
    by (intro listDel_frame [of s h as e bs]) auto
  with assms cut show ?thesis by (auto simp: jf_listhead_del_def is_list_clear)
qed

lemma is_list_move_within:
  assumes "is_list s h (as @ e # bs)"
  shows "is_list (jf_listhead_move h e s) h (e # as @ bs)"
    and "is_list (jf_listhead_moveTail h e s) h (as @ bs @ [e])"
  using is_list_add [OF listDel_unlink [OF assms], of e] is_list_addTail [OF listDel_unlink [OF assms], of e]
    is_list_distinct [OF assms]
  by (auto simp: jf_listhead_move_def jf_listhead_moveTail_def)

lemma is_list_move_across:
  assumes k: "is_list s k (as @ e # bs)" and h: "is_list s h xs"
    and disj: "set (k # as @ e # bs) \<inter> set (h # xs) = {}"
  shows "is_list (jf_listhead_move h e s) h (e # xs)" "is_list (jf_listhead_move h e s) k (as @ bs)"
    "is_list (jf_listhead_moveTail h e s) h (xs @ [e])" "is_list (jf_listhead_moveTail h e s) k (as @ bs)"
proof -
  let ?t = "listDel (jl_pjlPrev s e) (jl_pjlNext s e) s"
  have t: "is_list ?t k (as @ bs)" "is_list ?t h xs"
    using listDel_unlink [OF k] listDel_frame [OF k h] disj by auto
  moreover have "e \<notin> set (h # xs)" "e \<notin> set (k # as @ bs)" "set (h # xs) \<inter> set (k # as @ bs) = {}"
    using disj is_list_distinct [OF k] by auto
  ultimately show "is_list (jf_listhead_move h e s) h (e # xs)" "is_list (jf_listhead_move h e s) k (as @ bs)"
    "is_list (jf_listhead_moveTail h e s) h (xs @ [e])" "is_list (jf_listhead_moveTail h e s) k (as @ bs)"
    unfolding jf_listhead_move_def jf_listhead_moveTail_def
    by (auto intro!: is_list_add is_list_addTail is_list_add_frame)
qed

lemma is_list_isEmpty: "is_list s h xs \<Longrightarrow> jf_listhead_isEmpty h s \<longleftrightarrow> xs = []"
  by (cases xs) (auto simp: jf_listhead_isEmpty_def is_list_def)

lemma is_list_isFirst: "is_list s h (as @ e # bs) \<Longrightarrow> jf_listhead_isFirst h e s \<longleftrightarrow> as = []"
  using is_list_remove(2) [of s h as e bs] is_list_distinct [of s h "as @ e # bs"]
  by (cases as rule: rev_cases) (auto simp: jf_listhead_isFirst_def)

lemma is_list_isLast: "is_list s h (as @ e # bs) \<Longrightarrow> jf_listhead_isLast h e s \<longleftrightarrow> bs = []"
  using is_list_remove(3) [of s h as e bs] is_list_distinct [of s h "as @ e # bs"]
  by (cases bs) (auto simp: jf_listhead_isLast_def)

lemma is_list_linked: "is_list s l ys \<Longrightarrow> linked s ys"
  using is_list_cut [of s l ys "[]"] by (cases ys) auto

lemma before_append: "ys \<noteq> [] \<Longrightarrow> before h (xs @ ys) = last ys"
  and after_append: "ys \<noteq> [] \<Longrightarrow> after h (ys @ xs) = hd ys"
  by (simp_all add: before_def after_def)

lemma linked_join_lists:
  assumes "linked s (h # xs)" and "linked s ys" and "ys \<noteq> []" and "distinct (h # xs @ ys)"
  shows "linked (link (before h xs) (hd ys) s) (h # xs @ ys)"
proof -
  have "hd ys \<notin> set xs" using assms(3,4) hd_in_set by fastforce
  moreover have "before h xs \<notin> set (butlast (h # xs))" "before h xs \<notin> set (butlast ys)"
    using cut_ends [OF assms(4)] in_set_butlastD by fast+
  moreover have "hd ys \<notin> set (tl ys)" using assms(3,4) by (intro hd_notin_tl) auto
  ultimately show ?thesis
    using linked_join [of "h # xs" ys s "before h xs" "hd ys"] assms
    by (auto simp: before_def simp del: last.simps butlast.simps)
qed

lemma splice_end:
  assumes "is_list s h xs" and "is_list s l ys" and "ys \<noteq> []"
    and "set (h # xs) \<inter> set (l # ys) = {}"
  shows "is_list (jf_listhead_init l (listSplice h l s)) h (ys @ xs)"
    and "is_list (jf_listhead_init l (listSpliceTail h l s)) h (xs @ ys)"
proof -
  have d: "distinct (h # ys @ xs)" "distinct (h # xs @ ys)" and l: "l \<notin> set (h # xs @ ys)"
    using assms is_list_distinct by fastforce+
  have ends: "jl_pjlPrev s l = last ys" "jl_pjlNext s l = hd ys"
    "jl_pjlNext s h = after h xs" "jl_pjlPrev s h = before h xs"
    using assms by (simp_all add: is_list_next_head is_list_prev_head before_def after_def)
  have lk: "linked s ys" "linked s (xs @ [h])" "linked s (h # xs)"
    using assms is_list_linked is_list_cut [of s h "[]" xs] is_list_cut [of s h xs "[]"] by auto
  let ?t = "link h (hd ys) s"
  have "linked ?t (h # ys)" using linked_join_lists [of s h "[]" ys] lk d assms(3) by simp
  moreover have "hd ys \<notin> set (xs @ [h])" using d hd_in_set [OF assms(3)] by auto
  then have "linked ?t (xs @ [h])"
    using lk(2) d by (subst linked_link_other) (auto dest: in_set_tlD)
  ultimately have "linked (link (before h ys) (after h xs) ?t) (h # ys @ xs @ [h])"
    using linked_close [OF d(1)] by blast
  with d l show "is_list (jf_listhead_init l (listSplice h l s)) h (ys @ xs)"
    by (simp add: is_list_other init_link listSplice_link ends)
      (simp add: is_list_def before_def assms(3))
  have "linked (link (before h xs) (hd ys) s) (h # xs @ ys)"
    using linked_join_lists [of s h xs ys] lk d assms(3) by simp
  then have "linked (link (before h (xs @ ys)) (after h []) (link (before h xs) (hd ys) s)) (h # (xs @ ys) @ [] @ [h])"
    using d by (intro linked_close) auto
  with d l show "is_list (jf_listhead_init l (listSpliceTail h l s)) h (xs @ ys)"
    by (simp add: is_list_other init_link listSpliceTail_link ends)
      (simp add: is_list_def before_append assms(3))
qed

lemma is_list_splice:
  assumes "is_list s h xs" and "is_list s l ys" and "set (h # xs) \<inter> set (l # ys) = {}"
  shows "is_list (jf_listhead_splice h l s) h (ys @ xs)" "is_list (jf_listhead_splice h l s) l []"
    "is_list (jf_listhead_spliceTail h l s) h (xs @ ys)" "is_list (jf_listhead_spliceTail h l s) l []"
    "jf_listhead_spliceInit h l s = jf_listhead_splice h l s"
  using assms splice_end [OF assms(1,2) _ assms(3)]
  by (auto simp: jf_listhead_splice_def jf_listhead_spliceTail_def jf_listhead_spliceInit_def
      is_list_isEmpty is_list_init)

lemma is_list_split:
  assumes s: "is_list s h (as @ l # bs)" and as: "as \<noteq> []" and n: "n \<notin> set (h # as @ l # bs)"
  shows "is_list (jf_listhead_split h l n s) h (l # bs)" and "is_list (jf_listhead_split h l n s) n as"
proof -
  have d: "distinct (h # as @ l # bs)" using s by (rule is_list_distinct)
  have ends: "jl_pjlPrev s l = last as" "jl_pjlNext s h = hd as"
    using is_list_remove(2) [OF s] is_list_next_head [OF s] as by (simp_all add: before_def after_append)
  have lk: "linked s (l # bs @ [h])" "linked s as"
    using s as linked_append [of "h # as" "l # bs @ [h]" s] linked_append [of "[h]" as s]
    by (auto simp: is_list_def)
  let ?t = "link h l s"
  have "is_list ?t h (l # bs)" using linked_close [of h "[]" "l # bs" s] d lk by (simp add: is_list_def)
  moreover have "hd as \<notin> set (h # l # bs)" "last as \<notin> set (h # l # bs)"
    using d hd_in_set [OF as] last_in_set [OF as] by auto
  moreover have "n \<notin> set (h # l # bs)" using n by simp
  ultimately show "is_list (jf_listhead_split h l n s) h (l # bs)"
    by (simp only: split_link ends is_list_other not_False_eq_True)
  have "linked ?t as"
    using lk(2) d by (subst linked_link_other) (auto dest: in_set_tlD in_set_butlastD)
  then have "linked (link n (hd as) ?t) (n # as)"
    using linked_join_lists [of ?t n "[]" as] d n as by simp
  then have "linked (link (before n as) (after n []) (link n (hd as) ?t)) (n # as @ [] @ [n])"
    using d n by (intro linked_close) auto
  then show "is_list (jf_listhead_split h l n s) n as"
    using d n as by (simp add: is_list_def split_link ends before_def)
qed

lemma link_same: "jl_pjlNext s a = b \<Longrightarrow> jl_pjlPrev s b = a \<Longrightarrow> link a b s = s"
  by (simp add: link_def set_field_defs fun_upd_idem)

lemma is_list_split_first:
  assumes s: "is_list s h (l # bs)" and n: "n \<notin> set (h # l # bs)"
  shows "is_list (jf_listhead_split h l n s) h (n # l # bs)"
proof -
  have e: "jl_pjlNext s h = l" "jl_pjlPrev s l = h"
    using is_list_next_head [OF s] is_list_remove(2) [of s h "[]"] s by simp_all
  then show ?thesis
    using is_list_insert [of s h "[]" "l # bs" n] s n by (simp add: split_link link_same)
qed

section \<open>Circular list: iteration\<close>

lemmas forEach_loop_step = forEach_loop.simps [of step head body pos s for step head body pos s]
lemmas forEachSafe_loop_step =
  forEachSafe_loop.simps [of step head body pos n s for step head body pos n s]

lemma forEach_loop_list:
  assumes "\<And>x t. x \<in> set bs \<Longrightarrow> is_list (lh t) h (as @ bs) \<Longrightarrow> is_list (lh (body x t)) h (as @ bs)"
    and "is_list (lh s) h (as @ bs)"
  shows "forEach_loop (\<lambda>s. jl_pjlNext (lh s)) h body (after h bs) s = Some (fold body bs s)"
  using assms
proof (induction bs arbitrary: as s)
  case Nil
  then show ?case by (simp add: forEach_loop_step)
next
  case (Cons b bs)
  let ?t = "body b s"
  have t: "is_list (lh ?t) h (as @ b # bs)" using Cons.prems by simp
  have "forEach_loop (\<lambda>s. jl_pjlNext (lh s)) h body (after h bs) ?t = Some (fold body bs ?t)"
    using Cons.IH [of "as @ [b]" ?t] Cons.prems(1) t by simp
  moreover have "b \<noteq> h" using is_list_distinct [OF t] by auto
  ultimately show ?case
    by (subst forEach_loop_step) (simp add: Let_def is_list_remove(3) [OF t])
qed

lemma forEachPrev_loop_list:
  assumes "\<And>x t. x \<in> set as \<Longrightarrow> is_list (lh t) h (as @ bs) \<Longrightarrow> is_list (lh (body x t)) h (as @ bs)"
    and "is_list (lh s) h (as @ bs)"
  shows "forEach_loop (\<lambda>s. jl_pjlPrev (lh s)) h body (before h as) s = Some (fold body (rev as) s)"
  using assms
proof (induction as arbitrary: bs s rule: rev_induct)
  case Nil
  then show ?case by (simp add: forEach_loop_step)
next
  case (snoc a as)
  let ?t = "body a s"
  have t: "is_list (lh ?t) h (as @ a # bs)" using snoc.prems by simp
  have "forEach_loop (\<lambda>s. jl_pjlPrev (lh s)) h body (before h as) ?t = Some (fold body (rev as) ?t)"
    using snoc.IH [of "a # bs" ?t] snoc.prems(1) t by simp
  moreover have "a \<noteq> h" using is_list_distinct [OF t] by auto
  ultimately show ?case
    by (subst forEach_loop_step) (simp add: Let_def is_list_remove(2) [OF t])
qed

text \<open>
  The safe loop reads the next cursor before it runs the statement, which may therefore unlink the
  entry at the cursor: \<open>rest bs s\<close> only has to imply that the entries \<open>bs\<close> still to be visited are
  the end of the list.
\<close>

lemma forEachSafe_loop_list:
  assumes tail: "\<And>bs t. rest bs t \<Longrightarrow> \<exists>as. is_list (lh t) h (as @ bs)"
    and step: "\<And>b bs t. rest (b # bs) t \<Longrightarrow> rest bs (body b t)"
  shows "rest bs s \<Longrightarrow> n = jl_pjlNext (lh s) (after h bs) \<Longrightarrow>
    forEachSafe_loop (\<lambda>s. jl_pjlNext (lh s)) h body (after h bs) n s = Some (fold body bs s) \<and>
    rest [] (fold body bs s)"
proof (induction bs arbitrary: s n)
  case Nil
  then show ?case by (simp add: forEachSafe_loop_step)
next
  case (Cons b bs)
  obtain as where l: "is_list (lh s) h (as @ b # bs)" using tail Cons.prems(1) by blast
  have "n = after h bs" using Cons.prems(2) is_list_remove(3) [OF l] by simp
  moreover have "b \<noteq> h" using is_list_distinct [OF l] by auto
  ultimately show ?case
    using Cons.IH [OF step [OF Cons.prems(1)] refl]
    by (subst forEachSafe_loop_step) (simp add: Let_def)
qed

lemma forEachSafe_list:
  assumes "is_list (lh s) h xs" and "rest xs s"
    and "\<And>bs t. rest bs t \<Longrightarrow> \<exists>as. is_list (lh t) h (as @ bs)"
    and "\<And>b bs t. rest (b # bs) t \<Longrightarrow> rest bs (body b t)"
  shows "jf_listhead_forEachSafe lh h body s = Some (fold body xs s) \<and> rest [] (fold body xs s)"
  using forEachSafe_loop_list [of rest lh h body xs s, OF assms(3,4,2) refl] assms(1)
  by (simp add: jf_listhead_forEachSafe_def Let_def is_list_next_head)

section \<open>Circular list: the interface\<close>

interpretation lh: intrusive_list is_list "\<lambda>h xs. set (h # xs)" "\<lambda>n. n" jf_listhead_add jf_listhead_del
  "\<lambda>_. True"
proof unfold_locales
  show "is_list s h xs \<Longrightarrow> n \<notin> set (h # xs) \<Longrightarrow> is_list (jf_listhead_add h n s) h (n # xs)" for s h xs n
    by (rule is_list_add)
  show "is_list s h xs \<Longrightarrow> n \<in> set xs \<Longrightarrow> is_list (jf_listhead_del n s) h (remove1 n xs)" for s h xs n
    by (rule is_list_del)
  show "is_list (jf_listhead_add h n s) k ys"
    if "is_list s h xs" "is_list s k ys" "set (h # xs) \<inter> set (k # ys) = {}" "n \<notin> set (k # ys)"
    for s h xs k ys n using that by (rule is_list_add_frame)
  show "is_list (jf_listhead_del n s) k ys"
    if "is_list s h xs" "is_list s k ys" "set (h # xs) \<inter> set (k # ys) = {}" "n \<in> set xs"
    for s h xs k ys n using that by (rule is_list_del_frame)
qed auto

section \<open>Single-pointer head: model\<close>

text \<open>
  A node's \<^verbatim>\<open>jhn_ppjhnPrev\<close> is the address of the pointer that points to the node: the
  \<^verbatim>\<open>jh_pjhnFirst\<close> of a head or the \<^verbatim>\<open>jhn_pjhnNext\<close> of another node. A store through the null
  pointer is \<open>None\<close>.
\<close>

datatype hcell = HNull | HFirst addr | HNext addr

record jf_hlisthead =
  jh_pjhnFirst :: "addr \<Rightarrow> addr"
  jhn_pjhnNext :: "addr \<Rightarrow> addr"
  jhn_ppjhnPrev :: "addr \<Rightarrow> hcell"

fun hput :: "hcell \<Rightarrow> addr \<Rightarrow> jf_hlisthead \<Rightarrow> jf_hlisthead option" where
  "hput HNull v s = None"
| "hput (HFirst h) v s = Some (s\<lparr>jh_pjhnFirst := (jh_pjhnFirst s)(h := v)\<rparr>)"
| "hput (HNext n) v s = Some (s\<lparr>jhn_pjhnNext := (jhn_pjhnNext s)(n := v)\<rparr>)"

definition set_hPrev :: "addr \<Rightarrow> hcell \<Rightarrow> jf_hlisthead \<Rightarrow> jf_hlisthead" where
  "set_hPrev n c s = s\<lparr>jhn_ppjhnPrev := (jhn_ppjhnPrev s)(n := c)\<rparr>"

definition set_hNext :: "addr \<Rightarrow> addr \<Rightarrow> jf_hlisthead \<Rightarrow> jf_hlisthead" where
  "set_hNext n v s = s\<lparr>jhn_pjhnNext := (jhn_pjhnNext s)(n := v)\<rparr>"

definition JF_HLISTHEAD_INIT :: "addr \<Rightarrow> jf_hlisthead \<Rightarrow> jf_hlisthead" where
  "JF_HLISTHEAD_INIT h s = s\<lparr>jh_pjhnFirst := (jh_pjhnFirst s)(h := NULL)\<rparr>"

definition JF_HLISTHEAD_INIT_NODE :: "addr \<Rightarrow> jf_hlisthead \<Rightarrow> jf_hlisthead" where
  "JF_HLISTHEAD_INIT_NODE n s = set_hPrev n HNull (set_hNext n NULL s)"

definition hlistDel :: "addr \<Rightarrow> jf_hlisthead \<Rightarrow> jf_hlisthead option" where
  "hlistDel n s =
     (let next = jhn_pjhnNext s n;
          pprev = jhn_ppjhnPrev s n
      in case hput pprev next s of
           None \<Rightarrow> None
         | Some s \<Rightarrow> Some (if next \<noteq> NULL then set_hPrev next pprev s else s))"

definition jf_hlisthead_del :: "addr \<Rightarrow> jf_hlisthead \<Rightarrow> jf_hlisthead option" where
  "jf_hlisthead_del n s =
     (case hlistDel n s of None \<Rightarrow> None | Some s \<Rightarrow> Some (set_hPrev n HNull (set_hNext n NULL s)))"

definition jf_hlisthead_delInit :: "addr \<Rightarrow> jf_hlisthead \<Rightarrow> jf_hlisthead option" where
  "jf_hlisthead_delInit n s =
     (if jhn_ppjhnPrev s n \<noteq> HNull
      then case hlistDel n s of None \<Rightarrow> None | Some s \<Rightarrow> Some (JF_HLISTHEAD_INIT_NODE n s)
      else Some s)"

definition jf_hlisthead_addHead :: "addr \<Rightarrow> addr \<Rightarrow> jf_hlisthead \<Rightarrow> jf_hlisthead" where
  "jf_hlisthead_addHead h n s =
     (let first = jh_pjhnFirst s h;
          s = set_hNext n first s;
          s = (if first \<noteq> NULL then set_hPrev first (HNext n) s else s);
          s = s\<lparr>jh_pjhnFirst := (jh_pjhnFirst s)(h := n)\<rparr>
      in set_hPrev n (HFirst h) s)"

partial_function (option) hforEach_loop ::
  "('s \<Rightarrow> jf_hlisthead) \<Rightarrow> (addr \<Rightarrow> 's \<Rightarrow> 's) \<Rightarrow> addr \<Rightarrow> 's \<Rightarrow> 's option" where
  "hforEach_loop hl body pos s =
     (if pos \<noteq> NULL then (let s = body pos s in hforEach_loop hl body (jhn_pjhnNext (hl s) pos) s) else Some s)"

definition jf_hlisthead_forEach :: "('s \<Rightarrow> jf_hlisthead) \<Rightarrow> addr \<Rightarrow> (addr \<Rightarrow> 's \<Rightarrow> 's) \<Rightarrow> 's \<Rightarrow> 's option" where
  "jf_hlisthead_forEach hl head body s = hforEach_loop hl body (jh_pjhnFirst (hl s) head) s"

partial_function (option) hforEachSafe_loop ::
  "('s \<Rightarrow> jf_hlisthead) \<Rightarrow> (addr \<Rightarrow> 's \<Rightarrow> 's) \<Rightarrow> addr \<Rightarrow> 's \<Rightarrow> 's option" where
  "hforEachSafe_loop hl body pos s =
     (if pos \<noteq> NULL then
        (let n = jhn_pjhnNext (hl s) pos; s = body pos s in hforEachSafe_loop hl body n s)
      else Some s)"

definition jf_hlisthead_forEachSafe :: "('s \<Rightarrow> jf_hlisthead) \<Rightarrow> addr \<Rightarrow> (addr \<Rightarrow> 's \<Rightarrow> 's) \<Rightarrow> 's \<Rightarrow> 's option" where
  "jf_hlisthead_forEachSafe hl head body s = hforEachSafe_loop hl body (jh_pjhnFirst (hl s) head) s"

section \<open>Single-pointer head: pointers and sequences\<close>

fun hget :: "hcell \<Rightarrow> jf_hlisthead \<Rightarrow> addr" where
  "hget HNull s = NULL"
| "hget (HFirst h) s = jh_pjhnFirst s h"
| "hget (HNext n) s = jhn_pjhnNext s n"

fun hchain :: "jf_hlisthead \<Rightarrow> hcell \<Rightarrow> addr list \<Rightarrow> bool" where
  "hchain s c [] \<longleftrightarrow> hget c s = NULL"
| "hchain s c (x # xs) \<longleftrightarrow> hget c s = x \<and> jhn_ppjhnPrev s x = c \<and> hchain s (HNext x) xs"

definition is_hlist :: "jf_hlisthead \<Rightarrow> addr \<Rightarrow> addr list \<Rightarrow> bool" where
  "is_hlist s h xs \<longleftrightarrow> distinct (NULL # xs) \<and> hchain s (HFirst h) xs"

lemma hchain_cong:
  "hget c s = hget c t \<Longrightarrow> (\<And>x. x \<in> set xs \<Longrightarrow> jhn_pjhnNext s x = jhn_pjhnNext t x \<and>
     jhn_ppjhnPrev s x = jhn_ppjhnPrev t x) \<Longrightarrow> hchain s c xs = hchain t c xs"
  by (induction xs arbitrary: c) auto

lemma is_hlist_cong:
  "jh_pjhnFirst s h = jh_pjhnFirst t h \<Longrightarrow> (\<And>x. x \<in> set xs \<Longrightarrow> jhn_pjhnNext s x = jhn_pjhnNext t x \<and>
     jhn_ppjhnPrev s x = jhn_ppjhnPrev t x) \<Longrightarrow> is_hlist s h xs = is_hlist t h xs"
  unfolding is_hlist_def using hchain_cong [of "HFirst h" s t xs] by simp

lemma is_hlist_init: "is_hlist (JF_HLISTHEAD_INIT h s) h []"
  by (simp add: is_hlist_def JF_HLISTHEAD_INIT_def)

lemma hput_eq: "hput c v s = Some t \<Longrightarrow> hget d t = (if d = c then v else hget d s) \<and> jhn_ppjhnPrev t = jhn_ppjhnPrev s"
  by (cases c; cases d) auto

lemma hget_set [simp]:
  "hget c (set_hPrev n d s) = hget c s" "jhn_pjhnNext (set_hPrev n d s) = jhn_pjhnNext s"
  "jh_pjhnFirst (set_hPrev n d s) = jh_pjhnFirst s"
  "jhn_ppjhnPrev (set_hPrev n d s) = (jhn_ppjhnPrev s)(n := d)"
  "hget c (set_hNext n v s) = (if c = HNext n then v else hget c s)"
  "jhn_pjhnNext (set_hNext n v s) = (jhn_pjhnNext s)(n := v)"
  "jh_pjhnFirst (set_hNext n v s) = jh_pjhnFirst s"
  "jhn_ppjhnPrev (set_hNext n v s) = jhn_ppjhnPrev s"
  by (cases c; simp add: set_hPrev_def set_hNext_def)+

lemma hlistDel_fields:
  assumes "hlistDel e s = Some t"
  shows "hget c t = (if c = jhn_ppjhnPrev s e then jhn_pjhnNext s e else hget c s)"
    and "jhn_ppjhnPrev t x = (if x = jhn_pjhnNext s e \<and> x \<noteq> NULL then jhn_ppjhnPrev s e else jhn_ppjhnPrev s x)"
  using assms hput_eq [of "jhn_ppjhnPrev s e" "jhn_pjhnNext s e" s _ c]
  by (auto simp: hlistDel_def Let_def split: option.splits)

lemma hlistDel_next:
  assumes "hlistDel e s = Some t"
  shows "jhn_pjhnNext t x = (if HNext x = jhn_ppjhnPrev s e then jhn_pjhnNext s e else jhn_pjhnNext s x)"
  using hlistDel_fields(1) [OF assms, of "HNext x"] by simp

lemma hchain_member:
  assumes "hchain s c (as @ e # bs)"
  shows "jhn_ppjhnPrev s e = (if as = [] then c else HNext (last as))"
    and "jhn_pjhnNext s e = (if bs = [] then NULL else hd bs)"
proof -
  show "jhn_ppjhnPrev s e = (if as = [] then c else HNext (last as))"
    using assms by (induction as arbitrary: c) auto
  show "jhn_pjhnNext s e = (if bs = [] then NULL else hd bs)"
    using assms by (induction as arbitrary: c) (cases bs, auto)
qed

lemma hchain_hlistDel:
  assumes t: "hlistDel e s = Some t"
  shows "hchain s c (as @ e # bs) \<Longrightarrow> distinct (NULL # as @ e # bs) \<Longrightarrow> \<forall>x\<in>set (as @ e # bs). c \<noteq> HNext x \<Longrightarrow>
     hchain t c (as @ bs)"
proof (induction as arbitrary: c)
  case Nil
  show ?case
  proof (cases bs)
    case Nil
    with Nil.prems show ?thesis by (simp add: hlistDel_fields [OF t])
  next
    case (Cons b bs')
    with Nil.prems have "hchain s (HNext b) bs'" "jhn_pjhnNext s e = b" "jhn_ppjhnPrev s e = c" by simp_all
    moreover from this have "hchain t (HNext b) bs'"
      using Nil.prems Cons
      by (subst hchain_cong [of _ t s]) (auto simp: hlistDel_next [OF t] hlistDel_fields(2) [OF t])
    ultimately show ?thesis using Nil.prems Cons by (simp add: hlistDel_fields [OF t])
  qed
next
  case (Cons a as)
  have e: "jhn_ppjhnPrev s e = HNext (last (a # as))" "jhn_pjhnNext s e = (if bs = [] then NULL else hd bs)"
    using hchain_member [OF Cons.prems(1)] by simp_all
  have "hchain t (HNext a) (as @ bs)"
    using Cons.prems by (intro Cons.IH) auto
  moreover have "a \<noteq> jhn_pjhnNext s e" using Cons.prems(2) e(2) by (cases bs) auto
  moreover have "c \<noteq> HNext (last (a # as))" using Cons.prems(3) last_in_set [of "a # as"] by auto
  ultimately show ?case using Cons.prems(1) e(1) by (simp add: hlistDel_fields [OF t] del: last.simps)
qed

lemma is_hlist_first: "is_hlist s h xs \<Longrightarrow> jh_pjhnFirst s h = (if xs = [] then NULL else hd xs)"
  by (cases xs) (auto simp: is_hlist_def)

lemma is_hlist_addHead:
  assumes "is_hlist s h xs" and "n \<noteq> NULL" and "n \<notin> set xs"
  shows "is_hlist (jf_hlisthead_addHead h n s) h (n # xs)"
proof (cases xs)
  case (Cons x ys)
  then have "hchain s (HNext x) ys" using assms(1) by (simp add: is_hlist_def)
  then have "hchain (jf_hlisthead_addHead h n s) (HNext x) ys"
    using assms Cons by (subst hchain_cong [of _ _ s])
      (auto simp: jf_hlisthead_addHead_def Let_def is_hlist_first is_hlist_def)
  then show ?thesis
    using assms Cons is_hlist_first [OF assms(1)]
    by (simp add: is_hlist_def jf_hlisthead_addHead_def Let_def)
qed (use assms is_hlist_first [OF assms(1)] in \<open>simp add: is_hlist_def jf_hlisthead_addHead_def Let_def\<close>)

lemma hlistDel_defined: "jhn_ppjhnPrev s e \<noteq> HNull \<Longrightarrow> \<exists>t. hlistDel e s = Some t"
  by (cases "jhn_ppjhnPrev s e") (auto simp: hlistDel_def Let_def)

lemma is_hlist_pprev:
  "is_hlist s h (as @ e # bs) \<Longrightarrow> jhn_ppjhnPrev s e = (if as = [] then HFirst h else HNext (last as))"
  "is_hlist s h (as @ e # bs) \<Longrightarrow> jhn_pjhnNext s e = (if bs = [] then NULL else hd bs)"
  using hchain_member [of s "HFirst h" as e bs] by (simp_all add: is_hlist_def)

lemma is_hlist_clear:
  "e \<notin> set xs \<Longrightarrow> is_hlist (set_hPrev e c (set_hNext e v s)) h xs = is_hlist s h xs"
  by (rule is_hlist_cong) auto

lemma is_hlist_del:
  assumes l: "is_hlist s h (as @ e # bs)"
  shows "\<exists>t. jf_hlisthead_del e s = Some t \<and> jf_hlisthead_delInit e s = Some t \<and> is_hlist t h (as @ bs)"
proof -
  have pp: "jhn_ppjhnPrev s e \<noteq> HNull" using is_hlist_pprev [OF l] by simp
  then obtain t where t: "hlistDel e s = Some t" using hlistDel_defined by blast
  have "hchain t (HFirst h) (as @ bs)"
    using hchain_hlistDel [OF t] l by (simp add: is_hlist_def)
  then have "is_hlist t h (as @ bs)" using l by (auto simp: is_hlist_def)
  moreover have "e \<notin> set (as @ bs)" using l by (auto simp: is_hlist_def)
  ultimately show ?thesis
    using t pp by (simp add: jf_hlisthead_del_def jf_hlisthead_delInit_def JF_HLISTHEAD_INIT_NODE_def
        is_hlist_clear)
qed

lemma hget_HFirst: "jh_pjhnFirst s h = hget (HFirst h) s"
  by simp

lemma hlistDel_first:
  assumes "hlistDel e s = Some t"
  shows "jh_pjhnFirst t h = (if HFirst h = jhn_ppjhnPrev s e then jhn_pjhnNext s e else jh_pjhnFirst s h)"
  using hlistDel_fields(1) [OF assms, of "HFirst h"] by simp

lemma is_hlist_del_frame:
  assumes l: "is_hlist s h (as @ e # bs)" and k: "is_hlist s k ys"
    and disj: "h \<noteq> k" "set (as @ e # bs) \<inter> set ys = {}" and d: "jf_hlisthead_del e s = Some t"
  shows "is_hlist t k ys"
proof -
  from d obtain u where u: "hlistDel e s = Some u" "t = set_hPrev e HNull (set_hNext e NULL u)"
    by (auto simp: jf_hlisthead_del_def split: option.splits)
  have "last as \<notin> set ys" if "as \<noteq> []" using that disj last_in_set by fastforce
  moreover have "hd bs \<notin> set ys" if "bs \<noteq> []" using that disj hd_in_set by fastforce
  ultimately have "is_hlist u k ys = is_hlist s k ys"
    using disj by (intro is_hlist_cong)
      (auto simp: hlistDel_first [OF u(1)] hlistDel_next [OF u(1)] hlistDel_fields(2) [OF u(1)]
        is_hlist_pprev [OF l])
  moreover have "e \<notin> set ys" using disj by auto
  ultimately show ?thesis using k u(2) by (simp add: is_hlist_clear)
qed

lemma is_hlist_addHead_frame:
  assumes "is_hlist s h xs" and "is_hlist s k ys" and "h \<noteq> k" "set xs \<inter> set ys = {}" and "n \<notin> set ys"
  shows "is_hlist (jf_hlisthead_addHead h n s) k ys"
proof -
  have "hd xs \<notin> set ys" if "xs \<noteq> []" using that assms(4) hd_in_set by fastforce
  then have "is_hlist (jf_hlisthead_addHead h n s) k ys = is_hlist s k ys"
    using assms by (intro is_hlist_cong) (auto simp: jf_hlisthead_addHead_def Let_def is_hlist_first)
  with assms(2) show ?thesis by simp
qed

interpretation hl: intrusive_list is_hlist "\<lambda>h xs. insert (Inl h) (Inr ` set xs)" Inr
  jf_hlisthead_addHead "\<lambda>n s. the (jf_hlisthead_del n s)" "\<lambda>n. n \<noteq> NULL"
proof unfold_locales
  show "is_hlist s h xs \<Longrightarrow> n \<in> set xs \<Longrightarrow> is_hlist (the (jf_hlisthead_del n s)) h (remove1 n xs)" for s h xs n
    using remove1_cut [of n xs] is_hlist_del [of s h _ n] by (fastforce simp: is_hlist_def)
  show "is_hlist (the (jf_hlisthead_del n s)) k ys"
    if "is_hlist s h xs" "is_hlist s k ys"
      "insert (Inl h) (Inr ` set xs) \<inter> insert (Inl k) (Inr ` set ys) = {}" "n \<in> set xs" for s h xs k ys n
  proof -
    note l = that
    obtain as bs where xs: "xs = as @ n # bs" using l(4) split_list by fast
    obtain t where "jf_hlisthead_del n s = Some t" using is_hlist_del l(1) xs by blast
    moreover have "h \<noteq> k" "set xs \<inter> set ys = {}" using l(3) by auto
    ultimately show ?thesis using is_hlist_del_frame [of s h as n bs k ys t] l(1,2) xs by simp
  qed
qed (auto intro!: is_hlist_addHead is_hlist_addHead_frame)

lemma hforEach_loop_list:
  assumes "\<And>x t. x \<in> set bs \<Longrightarrow> is_hlist (hl t) h (as @ bs) \<Longrightarrow> is_hlist (hl (body x t)) h (as @ bs)"
    and "is_hlist (hl s) h (as @ bs)"
  shows "hforEach_loop hl body (if bs = [] then NULL else hd bs) s = Some (fold body bs s)"
  using assms
proof (induction bs arbitrary: as s)
  case Nil
  then show ?case by (simp add: hforEach_loop.simps [of hl body NULL])
next
  case (Cons b bs)
  let ?t = "body b s"
  have t: "is_hlist (hl ?t) h (as @ b # bs)" using Cons.prems by simp
  have "hforEach_loop hl body (if bs = [] then NULL else hd bs) ?t = Some (fold body bs ?t)"
    using Cons.IH [of "as @ [b]" ?t] Cons.prems(1) t by simp
  moreover have "b \<noteq> NULL" using t by (auto simp: is_hlist_def)
  ultimately show ?case
    using is_hlist_pprev(2) [OF t] by (simp add: hforEach_loop.simps [of hl body b] Let_def)
qed

section \<open>Properties\<close>


definition ring3 :: jf_listhead where
  "ring3 = jf_listhead_addTail 1 3 (jf_listhead_addTail 1 2 (jf_listhead_init 1
     \<lparr>jl_pjlNext = \<lambda>_. NULL, jl_pjlPrev = \<lambda>_. NULL\<rparr>))"

lemma ring3_list: "is_list ring3 1 [2, 3]"
  unfolding ring3_def using is_list_addTail [OF is_list_addTail [OF is_list_init [of 1], of 2], of 3] by simp


text \<open>
  (C25) Splicing the list at \<open>l\<close> into the list at \<open>h\<close> gives the concatenation at \<open>h\<close> and an empty list at
  \<open>l\<close>, at the head or at the tail; splitting that concatenation again at the first node of the old
  list gives the two lists back, for a non-empty spliced list.
\<close>

theorem listhead_splice_split:
  assumes "is_list s h (x # xs)" and "is_list s l ys" and "ys \<noteq> []"
    and "set (h # x # xs) \<inter> set (l # ys) = {}"
  shows "is_list (jf_listhead_splice h l s) h (ys @ x # xs) \<and> is_list (jf_listhead_splice h l s) l [] \<and>
    is_list (jf_listhead_spliceTail h l s) h (x # xs @ ys) \<and> is_list (jf_listhead_spliceTail h l s) l [] \<and>
    is_list (jf_listhead_split h x l (jf_listhead_splice h l s)) h (x # xs) \<and>
    is_list (jf_listhead_split h x l (jf_listhead_splice h l s)) l ys"
proof -
  note sp = is_list_splice [OF assms(1,2,4)]
  have "l \<notin> set (h # ys @ x # xs)" using assms(4) is_list_distinct [OF assms(2)] by auto
  then show ?thesis using sp is_list_split [OF sp(1) assms(3), of l] by simp
qed

lemma two_rings: "is_list (jf_listhead_add 5 6 (jf_listhead_init 5 ring3)) 1 [2, 3]"
    "is_list (jf_listhead_add 5 6 (jf_listhead_init 5 ring3)) 5 [6]"
proof -
  have "is_list (jf_listhead_init 5 ring3) 1 [2, 3]" using ring3_list by (simp add: init_link is_list_other)
  then show "is_list (jf_listhead_add 5 6 (jf_listhead_init 5 ring3)) 1 [2, 3]"
    using is_list_add_frame [OF is_list_init [of 5 ring3], of 1 "[2, 3]" 6] by simp
  show "is_list (jf_listhead_add 5 6 (jf_listhead_init 5 ring3)) 5 [6]"
    using is_list_add [OF is_list_init [of 5 ring3], of 6] by simp
qed

theorem listhead_splice_split_witness:
  "let s = jf_listhead_add 5 6 (jf_listhead_init 5 ring3) in
   is_list (jf_listhead_splice 1 5 s) 1 [6, 2, 3] \<and> is_list (jf_listhead_split 1 2 5 (jf_listhead_splice 1 5 s)) 5 [6]"
  using listhead_splice_split [of _ 1 2 "[3]" 5 "[6]", OF two_rings] by (simp add: Let_def)

text \<open>
  (C30) The safe iteration may delete the entry at its cursor: it ends, runs its statement on every
  entry in order, and with \<^verbatim>\<open>jf_listhead_del\<close> as the statement leaves the list empty.
\<close>

theorem listhead_drain:
  assumes "is_list s h xs"
  shows "\<exists>t. jf_listhead_forEachSafe (\<lambda>s. s) h jf_listhead_del s = Some t \<and>
    t = fold jf_listhead_del xs s \<and> is_list t h []"
proof -
  have del: "is_list (jf_listhead_del b t) h bs" if "is_list t h (b # bs)" for b bs t
    using is_list_del [OF that, of b] by simp
  show ?thesis
    using forEachSafe_list [of "\<lambda>s. s" s h xs "\<lambda>bs t. is_list t h bs" jf_listhead_del] assms del
    by (metis append_Nil)
qed

theorem listhead_drain_witness:
  "\<exists>t. jf_listhead_forEachSafe (\<lambda>s. s) 1 jf_listhead_del ring3 = Some t \<and> is_list t 1 []"
  using listhead_drain [OF ring3_list] by blast

text \<open>
  Splitting at the first node of a list removes nothing, so \<open>newhead\<close> ought to become an empty
  list. Instead \<^verbatim>\<open>jf_listhead_split\<close> links \<open>newhead\<close> into the ring of \<open>head\<close>, in front of that node.
\<close>

lemma listhead_split_first:
  assumes "is_list s h (l # bs)" and "n \<notin> set (h # l # bs)"
  shows "is_list (jf_listhead_split h l n s) h (n # l # bs) \<and>
    \<not> jf_listhead_isEmpty n (jf_listhead_split h l n s)"
proof -
  have l: "is_list (jf_listhead_split h l n s) h ([] @ n # l # bs)"
    using is_list_split_first [OF assms] by simp
  then show ?thesis
    using is_list_remove(3) [OF l] assms(2) by (auto simp: jf_listhead_isEmpty_def)
qed

text \<open>
  (C31) In the list with a single-pointer head, a node that is in the list is deleted without a store
  through a null pointer, wherever it stands; the rest of the list and every other list keep their
  nodes and order, and \<^verbatim>\<open>jf_hlisthead_delInit\<close> does the same. Adding the node to the other list
  afterwards moves it from the one list to the front of the other.
\<close>

theorem hlisthead_del:
  assumes "is_hlist s h (as @ e # bs)" and "is_hlist s k ys" and "h \<noteq> k" and "set (as @ e # bs) \<inter> set ys = {}"
  shows "\<exists>t. jf_hlisthead_del e s = Some t \<and> jf_hlisthead_delInit e s = Some t \<and>
    is_hlist t h (as @ bs) \<and> is_hlist t k ys \<and>
    is_hlist (jf_hlisthead_addHead k e t) h (as @ bs) \<and> is_hlist (jf_hlisthead_addHead k e t) k (e # ys)"
proof -
  obtain t where t: "jf_hlisthead_del e s = Some t" "jf_hlisthead_delInit e s = Some t" "is_hlist t h (as @ bs)"
    using is_hlist_del [OF assms(1)] by blast
  have e: "e \<noteq> NULL" "distinct (as @ e # bs)" using assms(1) by (auto simp: is_hlist_def)
  have "is_hlist (jf_hlisthead_addHead k e t) h (as @ bs) \<and> is_hlist (jf_hlisthead_addHead k e t) k (e # ys)"
    using hl.rep_transfer [OF assms(1,2), of e] assms(3,4) e t(1) by (auto simp: remove1_append)
  with t is_hlist_del_frame [OF assms t(1)] show ?thesis by blast
qed

lemma hlist2: "is_hlist (jf_hlisthead_addHead 1 7 (jf_hlisthead_addHead 1 8
     \<lparr>jh_pjhnFirst = \<lambda>_. NULL, jhn_pjhnNext = \<lambda>_. NULL, jhn_ppjhnPrev = \<lambda>_. HNull\<rparr>)) 1 [7, 8]"
  and hlist0: "is_hlist (jf_hlisthead_addHead 1 7 (jf_hlisthead_addHead 1 8
     \<lparr>jh_pjhnFirst = \<lambda>_. NULL, jhn_pjhnNext = \<lambda>_. NULL, jhn_ppjhnPrev = \<lambda>_. HNull\<rparr>)) 2 []"
  by (simp_all add: is_hlist_def jf_hlisthead_addHead_def NULL_def Let_def)

theorem hlisthead_del_witness:
  "\<exists>t. jf_hlisthead_del 8 (jf_hlisthead_addHead 1 7 (jf_hlisthead_addHead 1 8
     \<lparr>jh_pjhnFirst = \<lambda>_. NULL, jhn_pjhnNext = \<lambda>_. NULL, jhn_ppjhnPrev = \<lambda>_. HNull\<rparr>)) = Some t \<and> is_hlist t 1 [7]"
  using hlisthead_del [of _ 1 "[7]" 8 "[]" 2 "[]"] hlist2 hlist0 by force

end
