(* ===== verification/Jf_Base64.thy ===== *)
theory Jf_Base64
  imports Jf_Prelude
begin

text \<open>
  Base64 of \<^verbatim>\<open>src/encode/base64.c\<close>. A pointer into the input is the list of the bytes from it to the
  end (for a string, including the terminating zero, so that \<^verbatim>\<open>input <= pstrInput + sInput\<close> is that the
  list is not empty). The output buffer is a list of the allocated size and an index into it; a
  store outside of it is \<open>None\<close>. \<open>alloc\<close> is \<^verbatim>\<open>jf_jiukun_allocMemory\<close>: the contents of the memory it
  returns, or \<open>None\<close>. The array \<^verbatim>\<open>in\<close> of the decoder is not initialised by the code, so its contents
  are an argument.
\<close>

section \<open>Model\<close>

definition ls_cBase64 :: "u8 list" where
  "ls_cBase64 = map of_char (''ABCDEFGHIJKLMNOPQRSTUVWXYZ'' @
     ''abcdefghijklmnopqrstuvwxyz0123456789+/'')"

definition ls_cDecode :: "u8 list" where
  "ls_cDecode = map of_char (''|$$$}rstuvwxyz{$$$$$$$>?@'' @
     ''ABCDEFGHIJKLMNOPQRSTUVW$$$$$$XYZ'' @
     ''['' @ [CHR 0x5C] @ '']^_`abcdefghijklmnopq'')"

definition encodeChar :: "u8 \<Rightarrow> u8" where
  "encodeChar w = ls_cBase64 ! unat w"

definition encodeBlock :: "u8 list \<Rightarrow> nat \<Rightarrow> u8 list" where
  "encodeBlock inp len =
     (let out = replicate 4 (of_char CHR ''='')
      in if len = 1 then
           (let out = out[0 := encodeChar (drop_bit 2 (inp ! 0))]
            in out[1 := encodeChar (push_bit 4 (inp ! 0 AND 0x03))])
         else if len = 2 then
           (let out = out[0 := encodeChar (drop_bit 2 (inp ! 0))];
                out = out[1 := encodeChar (push_bit 4 (inp ! 0 AND 0x03) OR drop_bit 4 (inp ! 1 AND 0xf0))]
            in out[2 := encodeChar (push_bit 2 (inp ! 1 AND 0x0f))])
         else if len = 3 then
           (let out = out[0 := encodeChar (drop_bit 2 (inp ! 0))];
                out = out[1 := encodeChar (push_bit 4 (inp ! 0 AND 0x03) OR drop_bit 4 (inp ! 1 AND 0xf0))];
                out = out[2 := encodeChar (push_bit 2 (inp ! 1 AND 0x0f) OR drop_bit 6 (inp ! 2 AND 0xc0))]
            in out[3 := encodeChar (inp ! 2 AND 0x3f)])
         else out)"

definition decodeBlock :: "u8 list \<Rightarrow> u8 list" where
  "decodeBlock inp =
     [push_bit 2 (inp ! 0) OR drop_bit 4 (inp ! 1),
      push_bit 4 (inp ! 1) OR drop_bit 2 (inp ! 2),
      (push_bit 6 (inp ! 2) AND 0xc0) OR inp ! 3]"

function encode_loop :: "u8 list \<Rightarrow> u8 list \<Rightarrow> nat \<Rightarrow> (u8 list \<times> nat) option" where
  "encode_loop inp buf out =
     (if length inp > 0 then
        (case putBytes buf out (if length inp > 3 then encodeBlock inp 3 else encodeBlock inp (length inp)) of
           None \<Rightarrow> None
         | Some buf \<Rightarrow> encode_loop (drop 3 inp) buf (out + 4))
      else Some (buf, out))"
  by pat_completeness auto
termination
  by (relation "measure (\<lambda>(inp, buf, out). length inp)") auto

declare encode_loop.simps [simp del]

text \<open>The result is the string up to its terminating zero; a size that overflows is undefined.\<close>

definition jf_encode_encodeBase64 :: "(nat \<Rightarrow> u8 list option) \<Rightarrow> u8 list \<Rightarrow> (jf_err + u8 list) option" where
  "jf_encode_encodeBase64 alloc pu8Input =
     (let sInput = length pu8Input
      in if sInput = 0 \<or> sInput * 4 \<ge> 2 ^ 31 then None
         else case alloc (sInput * 4 div 3 + 6) of
                None \<Rightarrow> Some (Inl JF_ERR_JIUKUN_OUT_OF_MEMORY)
              | Some buf \<Rightarrow>
                  (case encode_loop pu8Input buf 0 of
                     None \<Rightarrow> None
                   | Some (buf, out) \<Rightarrow>
                       (case putBytes buf out [0] of
                          None \<Rightarrow> None
                        | Some buf \<Rightarrow> Some (Inr (take out buf)))))"

definition decodeChar :: "u8 \<Rightarrow> u8" where
  "decodeChar c =
     (let v = (if c < 0x2B \<or> c > 0x7A then 0 else ls_cDecode ! unat (c - 0x2B))
      in if v \<noteq> 0 then (if v = of_char CHR ''$'' then 0 else v - 0x3D) else v)"

fun nextSymbol :: "u8 list \<Rightarrow> u8 \<times> u8 list" where
  "nextSymbol [] = (0, [])"
| "nextSymbol (c # input) = (let v = decodeChar c in if v = 0 then nextSymbol input else (v, input))"

function readGroup :: "nat \<Rightarrow> nat \<Rightarrow> u8 list \<Rightarrow> u8 list \<Rightarrow> nat \<times> u8 list \<times> u8 list" where
  "readGroup i len inp input =
     (if i < 4 \<and> input \<noteq> [] then
        (let (v, input) = nextSymbol input
         in if input \<noteq> []
            then readGroup (i + 1) (len + 1) (if v \<noteq> 0 then inp[i := v - 1] else inp) input
            else readGroup (i + 1) len (inp[i := 0]) input)
      else (len, inp, input))"
  by pat_completeness auto
termination
  by (relation "measure (\<lambda>(i, len, inp, input). 4 - i)") auto

declare readGroup.simps [simp del]

lemma length_nextSymbol: "input \<noteq> [] \<Longrightarrow> length (snd (nextSymbol input)) < length input"
proof (induction input)
  case (Cons c input)
  then show ?case by (cases "input = []") (auto simp: Let_def)
qed simp

lemma length_readGroup: "length (snd (snd (readGroup i len inp input))) \<le> length input"
proof (induction i len inp input rule: readGroup.induct)
  case (1 i len inp input)
  obtain v r where n: "nextSymbol input = (v, r)" by (cases "nextSymbol input")
  have "length r \<le> length input" using length_nextSymbol [of input] n by (cases input) auto
  with 1 n show ?case by (subst readGroup.simps) (fastforce simp: Let_def intro: order_trans)
qed

lemma length_readGroup_0:
  assumes "input \<noteq> []"
  shows "length (snd (snd (readGroup 0 0 inp input))) < length input"
proof -
  obtain v r where n: "nextSymbol input = (v, r)" by (cases "nextSymbol input")
  then have "length r < length input" using length_nextSymbol [OF assms] by simp
  then show ?thesis
    using assms n length_readGroup [of 1 _ _ r] by (subst readGroup.simps) (auto simp: Let_def intro: le_less_trans)
qed

function decode_loop :: "u8 list \<Rightarrow> u8 list \<Rightarrow> u8 list \<Rightarrow> nat \<Rightarrow> (u8 list \<times> nat) option" where
  "decode_loop inp input buf out =
     (if input \<noteq> [] then
        (let r = readGroup 0 0 inp input; len = fst r; inp = fst (snd r); input = snd (snd r)
         in if len \<noteq> 0 then
              (case putBytes buf out (decodeBlock inp) of
                 None \<Rightarrow> None
               | Some buf \<Rightarrow> decode_loop inp input buf (out + len - 1))
            else decode_loop inp input buf out)
      else Some (buf, out))"
  by pat_completeness auto
termination
  by (relation "measure (\<lambda>(inp, input, buf, out). length input)") (auto simp: length_readGroup_0)

declare decode_loop.simps [simp del]

definition jf_encode_decodeBase64 ::
  "(nat \<Rightarrow> u8 list option) \<Rightarrow> u8 list \<Rightarrow> u8 list \<Rightarrow> (jf_err + u8 list) option" where
  "jf_encode_decodeBase64 alloc inp pstrInput =
     (let sInput = length pstrInput
      in if sInput = 0 \<or> sInput * 3 \<ge> 2 ^ 31 then None
         else case alloc (sInput * 3 div 4 + 6) of
                None \<Rightarrow> Some (Inl JF_ERR_JIUKUN_OUT_OF_MEMORY)
              | Some buf \<Rightarrow>
                  (case decode_loop inp (pstrInput @ [0]) buf 0 of
                     None \<Rightarrow> None
                   | Some (buf, out) \<Rightarrow>
                       (case putBytes buf out [0] of
                          None \<Rightarrow> None
                        | Some buf \<Rightarrow> Some (Inr (take out buf)))))"

section \<open>Symbols\<close>

lemma ls_cBase64_eq:
  "ls_cBase64 =
    [65, 66, 67, 68, 69, 70, 71, 72, 73, 74, 75, 76, 77, 78, 79, 80, 81, 82, 83, 84,
     85, 86, 87, 88, 89, 90, 97, 98, 99, 100, 101, 102, 103, 104, 105, 106, 107, 108, 109, 110,
     111, 112, 113, 114, 115, 116, 117, 118, 119, 120, 121, 122, 48, 49, 50, 51, 52, 53, 54, 55,
     56, 57, 43, 47]"
  by (simp add: ls_cBase64_def of_char_def)

lemma ls_cDecode_eq:
  "ls_cDecode =
    [124, 36, 36, 36, 125, 114, 115, 116, 117, 118, 119, 120, 121, 122, 123, 36, 36, 36, 36, 36,
     36, 36, 62, 63, 64, 65, 66, 67, 68, 69, 70, 71, 72, 73, 74, 75, 76, 77, 78, 79,
     80, 81, 82, 83, 84, 85, 86, 87, 36, 36, 36, 36, 36, 36, 88, 89, 90, 91, 92, 93,
     94, 95, 96, 97, 98, 99, 100, 101, 102, 103, 104, 105, 106, 107, 108, 109, 110, 111, 112, 113]"
  by (simp add: ls_cDecode_def of_char_def)

lemma of_char_marks: "of_char CHR ''$'' = (0x24 :: u8)" "of_char CHR ''='' = (0x3D :: u8)"
  by (simp_all add: of_char_def)

lemma decode_table: "map decodeChar ls_cBase64 = map (\<lambda>k. of_nat k + 1) [0..<64]"
  by (simp add: ls_cBase64_eq ls_cDecode_eq decodeChar_def of_char_marks upt_rec)

lemma decodeChar_encodeChar:
  assumes "w < 64"
  shows "decodeChar (encodeChar w) = w + 1"
proof -
  have w: "unat w < 64" using assms by (simp add: word_less_nat_alt)
  have "map decodeChar ls_cBase64 ! unat w = of_nat (unat w) + 1"
    using w by (simp add: decode_table del: of_nat_unat)
  moreover have "unat w < length ls_cBase64" using w by (simp add: ls_cBase64_eq)
  ultimately show ?thesis by (simp add: encodeChar_def)
qed

lemma sextet_plus_1:
  assumes "w < 64"
  shows "w + 1 \<noteq> (0 :: u8)"
proof
  assume "w + 1 = 0"
  then have "w = -1" by (simp add: add_eq_0_iff2)
  with assms show False by simp
qed

lemma nextSymbol_encodeChar:
  assumes "w < 64"
  shows "nextSymbol (encodeChar w # input) = (w + 1, input)"
  using decodeChar_encodeChar [OF assms] sextet_plus_1 [OF assms] by simp

lemma skip_eq:
  "nextSymbol (0x3D # input) = nextSymbol input"
  "nextSymbol (0 # input) = nextSymbol input"
  by (simp_all add: decodeChar_def ls_cDecode_eq of_char_marks)


section \<open>Blocks\<close>

lemma mask_numerals:
  "(3 :: u8) = mask 2" "(15 :: u8) = mask 4" "(63 :: u8) = mask 6"
  "(0xf0 :: u8) = push_bit 4 (mask 4)" "(0xc0 :: u8) = push_bit 6 (mask 2)"
  by (simp_all add: mask_eq_exp_minus_1 push_bit_eq_mult)

lemma less_64I:
  assumes "take_bit 6 w = w"
  shows "(w :: u8) < 64"
proof -
  have "unat w = take_bit 6 (unat w)" using assms by (metis unsigned_take_bit_eq)
  also have "\<dots> < 2 ^ 6" by (rule take_bit_nat_less_exp)
  finally show ?thesis by (simp add: word_less_nat_alt)
qed

lemma u8_eqI:
  assumes "bit v 0 = bit w 0" "bit v 1 = bit w 1" "bit v 2 = bit w 2" "bit v 3 = bit w 3"
    "bit v 4 = bit w 4" "bit v 5 = bit w 5" "bit v 6 = bit w 6" "bit v 7 = bit w 7"
  shows "(v :: u8) = w"
proof (rule bit_word_eqI)
  fix n :: nat
  assume "n < LENGTH(8)"
  then have "n = 0 \<or> n = 1 \<or> n = 2 \<or> n = 3 \<or> n = 4 \<or> n = 5 \<or> n = 6 \<or> n = 7" by simp presburger
  then show "bit v n = bit w n" using assms by (elim disjE) simp_all
qed

text \<open>The four groups of six bits of three bytes.\<close>

definition sextet0 :: "u8 \<Rightarrow> u8" where
  "sextet0 a = drop_bit 2 a"

definition sextet1 :: "u8 \<Rightarrow> u8 \<Rightarrow> u8" where
  "sextet1 a b = push_bit 4 (a AND 3) OR drop_bit 4 (b AND 0xf0)"

definition sextet2 :: "u8 \<Rightarrow> u8 \<Rightarrow> u8" where
  "sextet2 b c = push_bit 2 (b AND 15) OR drop_bit 6 (c AND 0xc0)"

definition sextet3 :: "u8 \<Rightarrow> u8" where
  "sextet3 c = c AND 63"

lemmas sextet_defs = sextet0_def sextet1_def sextet2_def sextet3_def

lemma sextet_less: "sextet0 a < 64" "sextet1 a b < 64" "sextet2 b c < 64" "sextet3 c < 64"
  unfolding mask_numerals sextet_defs
  by (rule less_64I, rule bit_word_eqI, auto simp: bit_simps dest: bit_imp_le_length)+

lemma sextet_join:
  "push_bit 2 (sextet0 a) OR drop_bit 4 (sextet1 a b) = a"
  "push_bit 4 (sextet1 a b) OR drop_bit 2 (sextet2 b c) = b"
  "(push_bit 6 (sextet2 b c) AND 0xc0) OR sextet3 c = c"
  unfolding mask_numerals sextet_defs
  by (rule u8_eqI; simp add: bit_simps)+

lemma encodeBlock_eq:
  "encodeBlock [a] (Suc 0) = [encodeChar (sextet0 a), encodeChar (sextet1 a 0), 0x3D, 0x3D]"
  "encodeBlock [a, b] 2 = [encodeChar (sextet0 a), encodeChar (sextet1 a b), encodeChar (sextet2 b 0), 0x3D]"
  "encodeBlock (a # b # c # xs) 3 =
     [encodeChar (sextet0 a), encodeChar (sextet1 a b), encodeChar (sextet2 b c), encodeChar (sextet3 c)]"
proof -
  have "replicate 4 (0x3D :: u8) = [0x3D, 0x3D, 0x3D, 0x3D]" by (simp add: numeral_eq_Suc)
  then show
    "encodeBlock [a] (Suc 0) = [encodeChar (sextet0 a), encodeChar (sextet1 a 0), 0x3D, 0x3D]"
    "encodeBlock [a, b] 2 = [encodeChar (sextet0 a), encodeChar (sextet1 a b), encodeChar (sextet2 b 0), 0x3D]"
    "encodeBlock (a # b # c # xs) 3 =
       [encodeChar (sextet0 a), encodeChar (sextet1 a b), encodeChar (sextet2 b c), encodeChar (sextet3 c)]"
    by (simp_all add: encodeBlock_def sextet_defs Let_def of_char_marks numeral_2_eq_2 numeral_3_eq_3)
qed

section \<open>The encoder\<close>

text \<open>The reference: the blocks of three bytes, one after the other.\<close>

fun base64 :: "u8 list \<Rightarrow> u8 list" where
  "base64 [] = []"
| "base64 [a] = encodeBlock [a] 1"
| "base64 [a, b] = encodeBlock [a, b] 2"
| "base64 (a # b # c # xs) = encodeBlock [a, b, c] 3 @ base64 xs"

lemma length_encodeBlock [simp]: "length (encodeBlock inp len) = 4"
  by (simp add: encodeBlock_def Let_def)

lemma encode_loop_3:
  "encode_loop (a # b # c # xs) buf out =
     (case putBytes buf out (encodeBlock [a, b, c] 3) of
        None \<Rightarrow> None
      | Some buf \<Rightarrow> encode_loop xs buf (out + 4))"
proof -
  have "drop 3 (a # b # c # xs) = xs" by (simp add: numeral_3_eq_3)
  then show ?thesis
    by (cases xs; subst encode_loop.simps) (simp_all add: encodeBlock_eq cong: option.case_cong flip: numeral_3_eq_3)
qed

lemma length_base64: "length (base64 xs) = 4 * ((length xs + 2) div 3)"
proof (induction xs rule: base64.induct)
  case (4 a b c xs)
  have "(length xs + 2 + 3) div 3 = (length xs + 2) div 3 + 1" by (rule div_add_self2) simp
  with 4 show ?case by simp
qed simp_all

lemma encode_loop_base64:
  "out + length (base64 xs) \<le> length buf \<Longrightarrow> filled buf out (base64 xs) (encode_loop xs buf out)"
proof (induction xs arbitrary: buf out rule: base64.induct)
  case 1
  then show ?case by (subst encode_loop.simps) (simp add: filled_Nil)
next
  case (2 a)
  then show ?case
    by (subst encode_loop.simps) (simp add: encode_loop.simps putBytes_def filled_def)
next
  case (3 a b)
  then show ?case
    by (subst encode_loop.simps) (simp add: encode_loop.simps putBytes_def filled_def numeral_2_eq_2)
next
  case (4 a b c xs)
  let ?bs = "encodeBlock [a, b, c] 3"
  obtain buf' where b: "putBytes buf out ?bs = Some buf'" "length buf' = length buf"
      "take (out + length ?bs) buf' = take out buf @ ?bs"
    using 4(2) by (elim putBytes_Some [of out ?bs buf, rotated]) simp
  have "encode_loop (a # b # c # xs) buf out = encode_loop xs buf' (out + length ?bs)"
    using b(1) by (simp add: encode_loop_3)
  with 4 b(2,3) show ?case by (auto intro!: filled_step [of buf'])
qed

section \<open>The decoder on what the encoder wrote\<close>

lemma readGroup_char:
  assumes "i < 4" "w < 64" "r \<noteq> []"
  shows "readGroup i len inp (encodeChar w # r) = readGroup (Suc i) (Suc len) (inp[i := w]) r"
  using assms by (subst readGroup.simps) (simp add: nextSymbol_encodeChar sextet_plus_1 del: nextSymbol.simps(2))

lemma readGroup_last:
  assumes "i < 4" "input \<noteq> []" "nextSymbol input = (0, [])"
  shows "readGroup i len inp input = (len, inp[i := 0], [])"
  using assms by (subst readGroup.simps) (simp add: readGroup.simps [of _ _ _ "[]"])

lemma readGroup_full: "4 \<le> i \<Longrightarrow> readGroup i len inp input = (len, inp, input)"
  by (simp add: readGroup.simps)

lemma readGroup_blocks:
  assumes "length inp = 4"
  shows "input \<noteq> [] \<Longrightarrow> readGroup 0 0 inp (encodeBlock [a, b, c] 3 @ input) =
      (4, [sextet0 a, sextet1 a b, sextet2 b c, sextet3 c], input)"
    and "readGroup 0 0 inp (encodeBlock [a, b] 2 @ [0]) =
      (3, [sextet0 a, sextet1 a b, sextet2 b 0, 0], [])"
    and "readGroup 0 0 inp (encodeBlock [a] (Suc 0) @ [0]) =
      (2, [sextet0 a, sextet1 a 0, 0, inp ! 3], [])"
    and "readGroup 0 0 inp [0] = (0, inp[0 := 0], [])"
proof -
  obtain p q r t where inp: "inp = [p, q, r, t]"
    using assms by (auto simp: numeral_eq_Suc length_Suc_conv)
  note rules = readGroup_char readGroup_last skip_eq sextet_less readGroup_full
  show "input \<noteq> [] \<Longrightarrow> readGroup 0 0 inp (encodeBlock [a, b, c] 3 @ input) =
      (4, [sextet0 a, sextet1 a b, sextet2 b c, sextet3 c], input)"
    unfolding inp encodeBlock_eq by (simp add: rules del: nextSymbol.simps(2))
  show "readGroup 0 0 inp (encodeBlock [a, b] 2 @ [0]) = (3, [sextet0 a, sextet1 a b, sextet2 b 0, 0], [])"
    unfolding inp encodeBlock_eq by (simp add: rules del: nextSymbol.simps(2))
  show "readGroup 0 0 inp (encodeBlock [a] (Suc 0) @ [0]) = (2, [sextet0 a, sextet1 a 0, 0, inp ! 3], [])"
    unfolding inp encodeBlock_eq by (simp add: rules del: nextSymbol.simps(2))
  show "readGroup 0 0 inp [0] = (0, inp[0 := 0], [])"
    unfolding inp by (simp add: rules del: nextSymbol.simps(2))
qed

lemma length_decodeBlock [simp]: "length (decodeBlock inp) = 3"
  by (simp add: decodeBlock_def)

lemma decode_loop_Nil: "decode_loop inp [] buf out = Some (buf, out)"
  by (simp add: decode_loop.simps)

lemma decode_loop_empty_group:
  "input \<noteq> [] \<Longrightarrow> readGroup 0 0 inp input = (0, inp', input') \<Longrightarrow>
    decode_loop inp input buf out = decode_loop inp' input' buf out"
  by (subst decode_loop.simps) simp

lemma decode_loop_group:
  assumes "input \<noteq> []" "readGroup 0 0 inp input = (Suc k, inp', input')" "k \<le> 3"
    and "take k (decodeBlock inp') = bs" "out + 3 \<le> length buf"
    and "\<And>buf'. length buf' = length buf \<Longrightarrow> filled buf' (out + k) cs (decode_loop inp' input' buf' (out + k))"
  shows "filled buf out (bs @ cs) (decode_loop inp input buf out)"
proof -
  obtain buf' where p: "putBytes buf out (decodeBlock inp') = Some buf'"
    using putBytes_Some [of out "decodeBlock inp'" buf] assms(5) by (metis length_decodeBlock)
  then have b: "length buf' = length buf \<and> take (out + k) buf' = take out buf @ bs"
    using filled_put [OF _ p, of k] assms(3-5) by simp
  have "length bs = k" using assms(3,4) by auto
  moreover have "decode_loop inp input buf out = decode_loop inp' input' buf' (out + k)"
    using assms(1,2) p by (subst decode_loop.simps) simp
  ultimately show ?thesis using assms(6) [of buf'] b by (auto intro!: filled_step [of buf'])
qed

lemma decode_loop_base64:
  "length inp = 4 \<Longrightarrow> out + length xs + 3 \<le> length buf \<Longrightarrow>
    filled buf out xs (decode_loop inp (base64 xs @ [0]) buf out)"
proof (induction xs arbitrary: inp buf out rule: base64.induct)
  case 1
  then show ?case
    using decode_loop_empty_group [OF _ readGroup_blocks(4) [OF 1(1)]] by (simp add: decode_loop_Nil filled_Nil)
next
  case (2 a)
  show ?case
    using 2 decode_loop_group [where cs = "[]", OF _ readGroup_blocks(3) [OF 2(1), unfolded numeral_2_eq_2], of a "[a]" out buf]
    by (simp add: decode_loop_Nil filled_Nil decodeBlock_def sextet_join)
next
  case (3 a b)
  show ?case
    using 3 decode_loop_group [where cs = "[]", OF _ readGroup_blocks(2) [OF 3(1), unfolded numeral_3_eq_3], of a b "[a, b]" out buf]
    by (simp add: decode_loop_Nil filled_Nil decodeBlock_def sextet_join)
next
  case (4 a b c xs)
  have "readGroup 0 0 inp (base64 (a # b # c # xs) @ [0]) =
      (Suc 3, [sextet0 a, sextet1 a b, sextet2 b c, sextet3 c], base64 xs @ [0])"
    using readGroup_blocks(1) [OF 4(2), of "base64 xs @ [0]" a b c] by simp
  then show ?case
    using 4 decode_loop_group [where cs = xs and bs = "[a, b, c]"]
    by (simp add: decodeBlock_def sextet_join)
qed

section \<open>The two functions\<close>

text \<open>What the code relies on of the memory allocator: the memory has the size asked for.\<close>

definition alloc_sized :: "(nat \<Rightarrow> u8 list option) \<Rightarrow> bool" where
  "alloc_sized alloc \<longleftrightarrow> (\<forall>n buf. alloc n = Some buf \<longrightarrow> length buf = n)"

lemma filledE:
  assumes "filled buf 0 bs r"
  obtains buf' where "r = Some (buf', length bs)" "length buf' = length buf" "take (length bs) buf' = bs"
  using assms by (auto simp: filled_def)

lemma terminated:
  assumes "pos < length buf"
  obtains buf' where "putBytes buf pos [0] = Some buf'" "take pos buf' = take pos buf"
  using assms by (simp add: putBytes_def)

lemma encodeBase64_eq:
  assumes "alloc_sized alloc" "alloc (length xs * 4 div 3 + 6) = Some buf" "xs \<noteq> []" "length xs * 4 < 2 ^ 31"
  shows "jf_encode_encodeBase64 alloc xs = Some (Inr (base64 xs))"
proof -
  have len: "length buf = length xs * 4 div 3 + 6" using assms(1,2) by (simp add: alloc_sized_def)
  then have fit: "length (base64 xs) < length buf" by (simp add: length_base64)
  then obtain buf' where b: "encode_loop xs buf 0 = Some (buf', length (base64 xs))"
      "length buf' = length buf" "take (length (base64 xs)) buf' = base64 xs"
    using encode_loop_base64 [of 0 xs buf] by (auto elim: filledE)
  then obtain buf'' where "putBytes buf' (length (base64 xs)) [0] = Some buf''"
      "take (length (base64 xs)) buf'' = base64 xs"
    using fit terminated [of "length (base64 xs)" buf'] by metis
  then show ?thesis using assms(2-) b by (simp add: jf_encode_encodeBase64_def Let_def)
qed

lemma decodeBase64_base64:
  assumes "alloc_sized alloc" "alloc (length (base64 xs) * 3 div 4 + 6) = Some buf" "length inp = 4" "xs \<noteq> []"
    "length (base64 xs) * 3 < 2 ^ 31"
  shows "jf_encode_decodeBase64 alloc inp (base64 xs) = Some (Inr xs)"
proof -
  have len: "length buf = length (base64 xs) * 3 div 4 + 6" using assms(1,2) by (simp add: alloc_sized_def)
  then have fit: "length xs + 3 \<le> length buf" by (simp add: length_base64)
  then obtain buf' where b: "decode_loop inp (base64 xs @ [0]) buf 0 = Some (buf', length xs)"
      "length buf' = length buf" "take (length xs) buf' = xs"
    using decode_loop_base64 [OF assms(3), of 0 xs buf] by (auto elim: filledE)
  then obtain buf'' where "putBytes buf' (length xs) [0] = Some buf''" "take (length xs) buf'' = xs"
    using fit terminated [of "length xs" buf'] by (metis add_lessD1 le_eq_less_or_eq less_add_same_cancel1 zero_less_numeral)
  moreover have "length (base64 xs) \<noteq> 0"
    using assms(4) by (cases xs rule: base64.cases) (simp_all add: length_base64)
  ultimately show ?thesis using assms(2,5) b by (simp add: jf_encode_decodeBase64_def Let_def)
qed

text \<open>On any input, a group of the decoder yields fewer bytes than three quarters of what it consumes.\<close>

lemma readGroup_len:
  assumes "i \<le> 4"
  shows "fst (readGroup i len inp input) + length (snd (snd (readGroup i len inp input))) \<le> len + length input
    \<and> fst (readGroup i len inp input) + i \<le> len + 4"
  using assms
proof (induction i len inp input rule: readGroup.induct)
  case (1 i len inp input)
  obtain v r where n: "nextSymbol input = (v, r)" by (cases "nextSymbol input")
  have r: "length r < length input" if "input \<noteq> []" using length_nextSymbol [OF that] n by simp
  show ?case
  proof (cases "i < 4 \<and> input \<noteq> []")
    case True
    show ?thesis
    proof (cases "r = []")
      case True
      with \<open>i < 4 \<and> input \<noteq> []\<close> n show ?thesis
        by (simp add: readGroup.simps [of i] readGroup.simps [of _ _ _ "[]"])
    next
      case False
      with 1(1) [OF \<open>i < 4 \<and> input \<noteq> []\<close> n [symmetric]] \<open>i < 4 \<and> input \<noteq> []\<close> r n show ?thesis
        by (subst (1 2 3) readGroup.simps) auto
    qed
  next
    case False
    then have "readGroup i len inp input = (len, inp, input)" by (subst readGroup.simps) auto
    with 1(3) show ?thesis by simp
  qed
qed

lemma decode_loop_safe:
  assumes "4 * out + 3 * length input \<le> 3 * (n + 1)" "n * 3 div 4 + 6 \<le> length buf"
  shows "\<exists>buf' out'. decode_loop inp input buf out = Some (buf', out') \<and> length buf' = length buf \<and>
    4 * out' \<le> 3 * (n + 1)"
  using assms
proof (induction inp input buf out rule: decode_loop.induct)
  case (1 inp input buf out)
  obtain len inp' input' where r: "readGroup 0 0 inp input = (len, inp', input')" by (cases "readGroup 0 0 inp input")
  have l: "len + length input' \<le> length input" "len \<le> 4"
    using readGroup_len [of 0 0 inp input] r by simp_all
  consider "input = []" | "input \<noteq> []" "len = 0" | "input \<noteq> []" "len \<noteq> 0" by blast
  then show ?case
  proof cases
    case 1
    then show ?thesis using \<open>4 * out + _ \<le> _\<close> by (simp add: decode_loop_Nil)
  next
    case 2
    have "4 * out + 3 * length input' \<le> 3 * (n + 1)" using l(1) "1.prems"(1) by simp
    with 2 "1.IH"(2) r "1.prems"(2) show ?thesis by (simp add: decode_loop_empty_group)
  next
    case 3
    then have "4 * out \<le> 3 * n" using "1.prems"(1) by (cases input) simp_all
    then have "out + 3 \<le> length buf" using "1.prems"(2) by simp
    then obtain buf' where p: "putBytes buf out (decodeBlock inp') = Some buf'" "length buf' = length buf"
      by (auto intro: putBytes_Some [of out "decodeBlock inp'" buf])
    have "4 * (out + len - 1) + 3 * length input' \<le> 3 * (n + 1)" using l "1.prems"(1) 3(2) by simp
    then have "\<exists>buf'' out'. decode_loop inp' input' buf' (out + len - 1) = Some (buf'', out') \<and>
        length buf'' = length buf' \<and> 4 * out' \<le> 3 * (n + 1)"
      using "1.IH"(1) [OF 3(1) refl] r 3(2) p "1.prems"(2) by force
    then show ?thesis using 3 r p by (subst decode_loop.simps) simp
  qed
qed

section \<open>The pair as a codec\<close>

definition base64_valid :: "u8 list \<Rightarrow> bool" where
  "base64_valid xs \<longleftrightarrow> xs \<noteq> [] \<and> 4 * (length xs + 2) < 2 ^ 31"

definition returned :: "(jf_err + 'a) option \<Rightarrow> 'a option" where
  "returned r = (case r of Some (Inr x) \<Rightarrow> Some x | _ \<Rightarrow> None)"

locale memory_provider =
  fixes alloc :: "nat \<Rightarrow> u8 list option"
  assumes sized: "alloc_sized alloc"
    and provides: "alloc n \<noteq> None"
begin

lemma encode_returns: "base64_valid xs \<Longrightarrow> jf_encode_encodeBase64 alloc xs = Some (Inr (base64 xs))"
  using encodeBase64_eq [OF sized] provides by (force simp: base64_valid_def)

lemma decode_returns:
  "base64_valid xs \<Longrightarrow> length inp = 4 \<Longrightarrow> jf_encode_decodeBase64 alloc inp (base64 xs) = Some (Inr xs)"
  using decodeBase64_base64 [OF sized _ _, of xs] provides by (force simp: base64_valid_def length_base64)

end

sublocale memory_provider \<subseteq> b64: codec base64_valid
  "\<lambda>xs. returned (jf_encode_encodeBase64 alloc xs)" "\<lambda>s. returned (jf_encode_decodeBase64 alloc [0, 0, 0, 0] s)"
  by unfold_locales (auto simp: encode_returns decode_returns returned_def)

definition zeroed :: "nat \<Rightarrow> u8 list option" where
  "zeroed n = Some (replicate n 0)"

interpretation zeroed: memory_provider zeroed
  by unfold_locales (simp_all add: zeroed_def alloc_sized_def)

section \<open>Properties\<close>

text \<open>
  (C7) Decoding what \<^verbatim>\<open>jf_encode_encodeBase64\<close> wrote gives the bytes back, for every non-empty input whose
  size fits the signed arithmetic of the code, whatever the uninitialised array of the decoder holds.
\<close>
theorem base64_roundtrip:
  assumes "alloc_sized alloc" "\<And>n. alloc n \<noteq> None" "length inp = 4"
    and "xs \<noteq> []" "4 * (length xs + 2) < 2 ^ 31"
  shows "\<exists>s. jf_encode_encodeBase64 alloc xs = Some (Inr s) \<and> length s = 4 * ((length xs + 2) div 3) \<and>
    jf_encode_decodeBase64 alloc inp s = Some (Inr xs)"
proof -
  have m: "memory_provider alloc" using assms(1,2) by unfold_locales
  have "base64_valid xs" using assms(4,5) by (simp add: base64_valid_def)
  then show ?thesis
    using memory_provider.encode_returns [OF m] memory_provider.decode_returns [OF m _ assms(3)]
    by (simp add: length_base64)
qed

theorem base64_roundtrip_witness:
  "\<exists>s. jf_encode_encodeBase64 (\<lambda>n. Some (replicate n 7)) [1, 2, 3, 4] = Some (Inr s) \<and> length s = 8 \<and>
    jf_encode_decodeBase64 (\<lambda>n. Some (replicate n 7)) [9, 9, 9, 9] s = Some (Inr [1, 2, 3, 4])"
  using base64_roundtrip [of "\<lambda>n. Some (replicate n 7)" "[9, 9, 9, 9]" "[1, 2, 3, 4]"]
  by (simp add: alloc_sized_def)



end
