(* ===== verification/Jf_Clib.thy ===== *)
theory Jf_Clib
  imports Jf_Prelude
begin

text \<open>
  What the sources use of the C library: the conversions of \<^verbatim>\<open>printf\<close> and \<^verbatim>\<open>scanf\<close>, character classes and the
  string functions. A string is the list of its characters before the terminating zero.
\<close>

section \<open>Hexadecimal numbers and buffers\<close>

definition hexDigit :: "nat \<Rightarrow> char" where
  "hexDigit n = ''0123456789abcdef'' ! n"

text \<open>\<^verbatim>\<open>%0<w>x\<close>: at least \<open>w\<close> digits.\<close>

fun hexString :: "nat \<Rightarrow> nat \<Rightarrow> string" where
  "hexString w n =
     (if n < 16 then replicate (w - 1) CHR ''0'' @ [hexDigit n]
      else hexString (w - 1) (n div 16) @ [hexDigit (n mod 16)])"

declare hexString.simps [simp del]

definition sprintf :: "nat \<Rightarrow> string \<Rightarrow> string option" where
  "sprintf sStr s = (if length s + 1 \<le> sStr then Some s else None)"

definition strcat :: "nat \<Rightarrow> string \<Rightarrow> string \<Rightarrow> string option" where
  "strcat sStr s t = (if length s + length t + 1 \<le> sStr then Some (s @ t) else None)"

definition isprint :: "u8 \<Rightarrow> bool" where
  "isprint c \<longleftrightarrow> 0x20 \<le> c \<and> c \<le> 0x7e"

definition isspace :: "char \<Rightarrow> bool" where
  "isspace c \<longleftrightarrow> c = CHR '' '' \<or> c \<in> {CHR 0x09, CHR 0x0A, CHR 0x0B, CHR 0x0C, CHR 0x0D}"

definition xdigit :: "char \<Rightarrow> nat option" where
  "xdigit c =
     (let n = of_char c :: nat
      in if 48 \<le> n \<and> n \<le> 57 then Some (n - 48)
         else if 65 \<le> n \<and> n \<le> 70 then Some (n - 55)
         else if 97 \<le> n \<and> n \<le> 102 then Some (n - 87)
         else None)"

text \<open>\<^verbatim>\<open>sscanf(s, "%x", &v)\<close>: the value, or \<open>None\<close> when nothing matches and \<^verbatim>\<open>v\<close> is left alone.\<close>

fun scanDigits :: "u32 \<Rightarrow> string \<Rightarrow> u32" where
  "scanDigits v [] = v"
| "scanDigits v (c # s) = (case xdigit c of None \<Rightarrow> v | Some d \<Rightarrow> scanDigits (16 * v + of_nat d) s)"

definition scanUnsigned :: "string \<Rightarrow> u32 option" where
  "scanUnsigned s =
     (let s = (if take 2 s \<in> {''0x'', ''0X''} then drop 2 s else s)
      in if s \<noteq> [] \<and> xdigit (hd s) \<noteq> None then Some (scanDigits 0 s) else None)"

definition sscanf_x :: "string \<Rightarrow> u32 option" where
  "sscanf_x s =
     (let s = dropWhile isspace s
      in case s of
           [] \<Rightarrow> None
         | c # t \<Rightarrow> if c = CHR ''-'' then map_option uminus (scanUnsigned t)
                    else if c = CHR ''+'' then scanUnsigned t
                    else scanUnsigned s)"

section \<open>Decimal numbers\<close>

definition isdigit :: "char \<Rightarrow> bool" where
  "isdigit c \<longleftrightarrow> c \<in> set ''0123456789''"

definition digitOf :: "char \<Rightarrow> nat" where
  "digitOf c = of_char c - 48"

fun decDigits :: "nat \<Rightarrow> string" where
  "decDigits n = (if n < 10 then [hexDigit n] else decDigits (n div 10) @ [hexDigit (n mod 10)])"

declare decDigits.simps [simp del]

text \<open>\<^verbatim>\<open>%d\<close>, \<^verbatim>\<open>%<w>d\<close> and \<^verbatim>\<open>%0<w>d\<close>.\<close>

definition printInt :: "int \<Rightarrow> string" where
  "printInt i = (if i < 0 then ''-'' @ decDigits (nat (- i)) else decDigits (nat i))"

definition printPadded :: "nat \<Rightarrow> int \<Rightarrow> string" where
  "printPadded w i = replicate (w - length (printInt i)) CHR '' '' @ printInt i"

definition printZeros :: "nat \<Rightarrow> int \<Rightarrow> string" where
  "printZeros w i =
     (if i < 0 then ''-'' @ replicate (w - length (printInt i)) CHR ''0'' @ decDigits (nat (- i))
      else replicate (w - length (printInt i)) CHR ''0'' @ printInt i)"

fun decValue :: "nat \<Rightarrow> string \<Rightarrow> nat" where
  "decValue v [] = v"
| "decValue v (c # s) = (if isdigit c then decValue (10 * v + digitOf c) s else v)"

text \<open>\<^verbatim>\<open>%<w>d\<close> of \<^verbatim>\<open>sscanf\<close>: at most \<open>w\<close> characters after the blanks, a sign included.\<close>

definition scanInt :: "nat \<Rightarrow> string \<Rightarrow> int option" where
  "scanInt w s =
     (let s = take w (dropWhile isspace s);
          neg = (s \<noteq> [] \<and> hd s = CHR ''-'');
          s = (if s \<noteq> [] \<and> hd s \<in> {CHR ''-'', CHR ''+''} then tl s else s)
      in if s \<noteq> [] \<and> isdigit (hd s)
         then Some (if neg then - int (decValue 0 s) else int (decValue 0 s)) else None)"

text \<open>What \<^verbatim>\<open>snprintf(p, n, ...)\<close> leaves at \<^verbatim>\<open>p\<close>.\<close>

definition snprintf :: "nat \<Rightarrow> string \<Rightarrow> string" where
  "snprintf n s = take (n - 1) s"

definition strchr :: "string \<Rightarrow> char \<Rightarrow> nat option" where
  "strchr s c = (if c \<in> set s then Some (length (takeWhile (\<lambda>d. d \<noteq> c) s)) else None)"

section \<open>Lemmas\<close>

lemma length_hexString: "n < 16 ^ w \<Longrightarrow> 0 < w \<Longrightarrow> length (hexString w n) = w"
proof (induction w n rule: hexString.induct)
  case (1 w n)
  show ?case
  proof (cases "n < 16")
    case True
    then show ?thesis using 1(3) by (subst hexString.simps) simp
  next
    case False
    obtain v where w: "w = Suc v" using 1(3) by (cases w) auto
    have "v \<noteq> 0" using False 1(2) w by (cases v) auto
    moreover have "n div 16 < 16 ^ v" using 1(2) w by (simp add: less_mult_imp_div_less mult.commute)
    ultimately have "length (hexString v (n div 16)) = v" using 1(1) False w by simp
    then show ?thesis using False w by (subst hexString.simps) simp
  qed
qed

lemma hexString_2: "n < 256 \<Longrightarrow> hexString 2 n = [hexDigit (n div 16), hexDigit (n mod 16)]"
  by (cases "n < 16") (simp_all add: hexString.simps hexDigit_def less_mult_imp_div_less)

lemma digits_table:
  "map xdigit ''0123456789abcdef'' = map Some [0..<16]"
  by (simp add: xdigit_def upt_rec)

lemma hexDigit:
  assumes "n < 16"
  shows "xdigit (hexDigit n) = Some n" "hexDigit n \<noteq> CHR 0x00" "\<not> isspace (hexDigit n)"
    "hexDigit n \<notin> {CHR ''-'', CHR ''+'', CHR ''x'', CHR ''X''}"
proof -
  have *: "hexDigit n \<in> set ''0123456789abcdef''" using assms unfolding hexDigit_def by (intro nth_mem) simp
  have "map xdigit ''0123456789abcdef'' ! n = xdigit (hexDigit n)"
    using assms unfolding hexDigit_def by (intro nth_map) simp
  then show "xdigit (hexDigit n) = Some n" using assms unfolding digits_table by simp
  show "hexDigit n \<noteq> CHR 0x00" "\<not> isspace (hexDigit n)" "hexDigit n \<notin> {CHR ''-'', CHR ''+'', CHR ''x'', CHR ''X''}"
    using * by (auto simp: isspace_def)
qed

lemma scan_digits:
  assumes "n < 256"
  shows "sscanf_x [hexDigit (n div 16), hexDigit (n mod 16)] = Some (of_nat n)"
proof -
  have d: "n div 16 < 16" "n mod 16 < 16" using assms by simp_all
  have "16 * of_nat (n div 16) + of_nat (n mod 16) = (of_nat n :: u32)"
    by (metis of_nat_add of_nat_mult of_nat_numeral mult_div_mod_eq)
  then show ?thesis
    using hexDigit [OF d(1)] hexDigit [OF d(2)]
    by (auto simp: sscanf_x_def scanUnsigned_def Let_def)
qed

lemma decDigit:
  assumes "n < 10"
  shows "isdigit (hexDigit n)" "digitOf (hexDigit n) = n"
proof -
  have *: "n \<in> {0, 1, 2, 3, 4, 5, 6, 7, 8, 9}" using assms by auto
  show "isdigit (hexDigit n)" "digitOf (hexDigit n) = n"
    using * by (auto simp: isdigit_def hexDigit_def digitOf_def)
qed

lemma decValue_append: "list_all isdigit s \<Longrightarrow> decValue v (s @ t) = decValue (decValue v s) t"
  by (induction s arbitrary: v) simp_all

lemma decDigits_digits: "list_all isdigit (decDigits n) \<and> decDigits n \<noteq> []"
  by (induction n rule: decDigits.induct) (subst (1 2) decDigits.simps, simp add: decDigit)

lemma decValue_decDigits: "decValue 0 (decDigits n) = n"
proof (induction n rule: decDigits.induct)
  case (1 n)
  then show ?case
    by (subst decDigits.simps) (simp add: decDigit decValue_append decDigits_digits)
qed

lemma decValue_zeros: "decValue 0 (replicate k CHR ''0'' @ s) = decValue 0 s"
  by (induction k) (simp_all add: isdigit_def digitOf_def)

lemma length_decDigits: "n < 10 ^ w \<Longrightarrow> 0 < w \<Longrightarrow> length (decDigits n) \<le> w"
proof (induction n arbitrary: w rule: decDigits.induct)
  case (1 n)
  show ?case
  proof (cases "n < 10")
    case True
    then show ?thesis using 1(3) by (subst decDigits.simps) simp
  next
    case False
    obtain v where w: "w = Suc v" using 1(3) by (cases w) auto
    have "v \<noteq> 0" using False 1(2) w by (cases v) auto
    moreover have "n div 10 < 10 ^ v" using 1(2) w by (simp add: less_mult_imp_div_less mult.commute)
    ultimately have "length (decDigits (n div 10)) \<le> v" using 1(1) False by simp
    then show ?thesis using False w by (subst decDigits.simps) simp
  qed
qed

lemma strchr_append: "c \<notin> set a \<Longrightarrow> strchr (a @ c # b) c = Some (length a)"
  by (induction a) (auto simp: strchr_def)

lemma isdigit_marks: "isdigit c \<Longrightarrow> \<not> isspace c \<and> c \<noteq> CHR ''-'' \<and> c \<noteq> CHR ''+'' \<and> c \<noteq> CHR ''/'' \<and> c \<noteq> CHR ''.''"
  by (auto simp: isdigit_def isspace_def)

lemma scanInt_digits:
  assumes "list_all isdigit s" "s \<noteq> []" "length s \<le> w"
  shows "scanInt w (replicate k CHR '' '' @ s) = Some (int (decValue 0 s))"
proof -
  obtain c t where s: "s = c # t" using assms(2) by (cases s) auto
  have "dropWhile isspace (replicate k CHR '' '' @ s) = s"
    using assms(1) isdigit_marks [of c] by (induction k) (simp_all add: s isspace_def)
  then show ?thesis
    using assms isdigit_marks [of c] by (auto simp: scanInt_def s Let_def)
qed

lemma zeros_digits: "list_all isdigit (replicate k CHR ''0'')"
  by (induction k) (simp_all add: isdigit_def)

lemma printZeros_digits:
  assumes "0 \<le> i" "i < 10 ^ w" "0 < w"
  shows "list_all isdigit (printZeros w i)" "printZeros w i \<noteq> []" "length (printZeros w i) = w"
    "decValue 0 (printZeros w i) = nat i"
proof -
  have "length (decDigits (nat i)) \<le> w" using assms by (intro length_decDigits) (simp_all add: nat_less_iff)
  then show "list_all isdigit (printZeros w i)" "printZeros w i \<noteq> []" "length (printZeros w i) = w"
    "decValue 0 (printZeros w i) = nat i"
    using assms decDigits_digits [of "nat i"] zeros_digits [of "w - length (decDigits (nat i))"]
    by (simp_all add: printZeros_def printInt_def decValue_zeros decValue_decDigits)
qed

lemma scan_printZeros:
  assumes "0 \<le> i" "i < 10 ^ w" "0 < w"
  shows "scanInt w (printZeros w i) = Some i"
  using scanInt_digits [of "printZeros w i" w 0] printZeros_digits [OF assms] assms(1) by simp

lemma scan_printPadded:
  assumes "0 \<le> i" "i < 10 ^ w" "0 < w"
  shows "scanInt w (printPadded w i) = Some i"
proof -
  have "length (decDigits (nat i)) \<le> w" using assms by (intro length_decDigits) (simp_all add: nat_less_iff)
  then show ?thesis
    using scanInt_digits [of "decDigits (nat i)" w] decDigits_digits [of "nat i"] assms(1)
    by (simp add: printPadded_def printInt_def decValue_decDigits)
qed

lemma length_printPadded:
  assumes "0 \<le> i" "i < 10 ^ w" "0 < w"
  shows "length (printPadded w i) = w"
proof -
  have "length (decDigits (nat i)) \<le> w" using assms by (intro length_decDigits) (simp_all add: nat_less_iff)
  then show ?thesis using assms by (simp add: printPadded_def printInt_def)
qed

lemma separator_not_in_number:
  assumes "0 \<le> i" "\<not> isdigit c" "c \<noteq> CHR '' ''"
  shows "c \<notin> set (printPadded w i)" "c \<notin> set (printZeros w i)"
proof -
  have "CHR ''0'' \<noteq> c" using assms(2) by (auto simp: isdigit_def)
  then show "c \<notin> set (printPadded w i)" "c \<notin> set (printZeros w i)"
    using assms decDigits_digits [of "nat i"] by (auto simp: printPadded_def printZeros_def printInt_def list_all_iff)
qed

end
