(* ===== verification/Jf_Hex.thy ===== *)
theory Jf_Hex
  imports Jf_Clib
begin

text \<open>
  Hexadecimal text of \<^verbatim>\<open>src/jiutai/jf_hex.c\<close>: the lines of a dump and the conversion of bytes to hexadecimal digits
  and back. A line is built by \<^verbatim>\<open>sprintf\<close> and \<^verbatim>\<open>strcat\<close> in a buffer of \<open>sStr\<close> bytes: it is the string the buffer
  holds, and a store past the buffer (the terminating zero included) is \<open>None\<close>, as is a failed assertion.
\<close>

section \<open>Lines of a dump\<close>

definition JF_HEX_BYTE_HEXSTR_HEADER_LEN :: nat where
  "JF_HEX_BYTE_HEXSTR_HEADER_LEN = 11"

definition JF_HEX_MIN_BYTE_HEXSTR_LEN :: nat where
  "JF_HEX_MIN_BYTE_HEXSTR_LEN = JF_HEX_BYTE_HEXSTR_HEADER_LEN + 3"

definition JF_HEX_MIN_BYTE_HEXSTR_WITH_ASCII_LEN :: nat where
  "JF_HEX_MIN_BYTE_HEXSTR_WITH_ASCII_LEN = 63"

definition JF_HEX_MAX_BYTE_HEXSTR_WITH_ASCII_LEN :: nat where
  "JF_HEX_MAX_BYTE_HEXSTR_WITH_ASCII_LEN = 78"

definition JF_HEX_MAX_BYTE_PER_HEXSTR_LINE :: nat where
  "JF_HEX_MAX_BYTE_PER_HEXSTR_LINE = 16"

definition JF_HEX_WORD_HEXSTR_HEADER_LEN :: nat where
  "JF_HEX_WORD_HEXSTR_HEADER_LEN = 11"

definition JF_HEX_MIN_WORD_HEXSTR_LEN :: nat where
  "JF_HEX_MIN_WORD_HEXSTR_LEN = JF_HEX_WORD_HEXSTR_HEADER_LEN + 5"

definition JF_HEX_MAX_WORD_PER_HEXSTR_LINE :: nat where
  "JF_HEX_MAX_WORD_PER_HEXSTR_LINE = 16"

lemmas hex_constants =
  JF_HEX_BYTE_HEXSTR_HEADER_LEN_def JF_HEX_MIN_BYTE_HEXSTR_LEN_def JF_HEX_MIN_BYTE_HEXSTR_WITH_ASCII_LEN_def
  JF_HEX_MAX_BYTE_HEXSTR_WITH_ASCII_LEN_def JF_HEX_MAX_BYTE_PER_HEXSTR_LINE_def JF_HEX_WORD_HEXSTR_HEADER_LEN_def
  JF_HEX_MIN_WORD_HEXSTR_LEN_def JF_HEX_MAX_WORD_PER_HEXSTR_LINE_def

text \<open>A loop that appends one piece after the other.\<close>

fun strcat_all :: "nat \<Rightarrow> string \<Rightarrow> string list \<Rightarrow> string option" where
  "strcat_all sStr s [] = Some s"
| "strcat_all sStr s (t # ts) = (case strcat sStr s t of None \<Rightarrow> None | Some s \<Rightarrow> strcat_all sStr s ts)"

definition hexHeader :: "nat \<Rightarrow> string" where
  "hexHeader sOffset = hexString 8 sOffset @ ''h:''"

definition byteText :: "u8 \<Rightarrow> string" where
  "byteText b = '' '' @ hexString 2 (unat b)"

definition wordText :: "u16 \<Rightarrow> string" where
  "wordText w = '' '' @ hexString 4 (unat w)"

definition asciiText :: "u8 \<Rightarrow> string" where
  "asciiText b = (if isprint b then [char_of (unat b)] else ''.'')"

definition jf_hex_convertByteDataToString :: "u8 list \<Rightarrow> nat \<Rightarrow> nat \<Rightarrow> (string \<times> nat) option" where
  "jf_hex_convertByteDataToString pu8Data sOffset sStr =
     (let sData = length pu8Data
      in if sData \<noteq> 0 \<and> sOffset < sData \<and> sStr \<ge> JF_HEX_MIN_BYTE_HEXSTR_LEN then
           (let sLimited = (sStr - JF_HEX_BYTE_HEXSTR_HEADER_LEN) div 3;
                sLimited = (if sLimited > JF_HEX_MAX_BYTE_PER_HEXSTR_LINE then JF_HEX_MAX_BYTE_PER_HEXSTR_LINE else sLimited);
                sLen = sData - sOffset;
                sLimited = (if sLimited > sLen then sLen else sLimited)
            in case sprintf sStr (hexHeader sOffset) of
                 None \<Rightarrow> None
               | Some s \<Rightarrow>
                   (case strcat_all sStr s (map (\<lambda>sLen. byteText (pu8Data ! (sOffset + sLen))) [0..<sLimited]) of
                      None \<Rightarrow> None
                    | Some s \<Rightarrow> Some (s, sLimited)))
         else None)"

definition jf_hex_convertWordDataToString :: "u16 list \<Rightarrow> nat \<Rightarrow> nat \<Rightarrow> (string \<times> nat) option" where
  "jf_hex_convertWordDataToString pu16Data sOffset sStr =
     (let sData = length pu16Data
      in if sData \<noteq> 0 \<and> sOffset < sData \<and> sStr \<ge> JF_HEX_MIN_WORD_HEXSTR_LEN then
           (let sLimited = (sStr - JF_HEX_WORD_HEXSTR_HEADER_LEN) div 5;
                sLimited = (if sLimited > JF_HEX_MAX_WORD_PER_HEXSTR_LINE then JF_HEX_MAX_WORD_PER_HEXSTR_LINE else sLimited);
                sLen = sData - sOffset;
                sLimited = (if sLimited > sLen then sLen else sLimited)
            in case sprintf sStr (hexHeader sOffset) of
                 None \<Rightarrow> None
               | Some s \<Rightarrow>
                   (case strcat_all sStr s (map (\<lambda>sLen. wordText (pu16Data ! (sOffset + sLen))) [0..<sLimited]) of
                      None \<Rightarrow> None
                    | Some s \<Rightarrow> Some (s, sLimited)))
         else None)"

definition jf_hex_convertByteDataToStringWithAscii :: "u8 list \<Rightarrow> nat \<Rightarrow> nat \<Rightarrow> (string \<times> nat) option" where
  "jf_hex_convertByteDataToStringWithAscii pu8Data sOffset sStr =
     (let sData = length pu8Data
      in if sData \<noteq> 0 \<and> sOffset < sData \<and> sStr \<ge> JF_HEX_MIN_BYTE_HEXSTR_WITH_ASCII_LEN then
           (let sLen = sData - sOffset;
                sLimited = JF_HEX_MAX_BYTE_PER_HEXSTR_LINE;
                sLimited = (if sLimited > sLen then sLen else sLimited)
            in case sprintf sStr (hexHeader sOffset) of
                 None \<Rightarrow> None
               | Some s \<Rightarrow>
                   (case strcat_all sStr s (map (\<lambda>sLen. byteText (pu8Data ! (sOffset + sLen))) [0..<sLimited]) of
                      None \<Rightarrow> None
                    | Some s \<Rightarrow>
                        (case strcat_all sStr s (map (\<lambda>sLen. ''   '') [sLimited..<JF_HEX_MAX_BYTE_PER_HEXSTR_LINE]) of
                           None \<Rightarrow> None
                         | Some s \<Rightarrow>
                             (case strcat sStr s '' ; '' of
                                None \<Rightarrow> None
                              | Some s \<Rightarrow>
                                  (case strcat_all sStr s
                                     (map (\<lambda>sLen. asciiText (pu8Data ! (sOffset + sLen))) [0..<sLimited]) of
                                     None \<Rightarrow> None
                                   | Some s \<Rightarrow> Some (s, sLimited))))))
         else None)"

text \<open>The dump prints the lines; a line that consumes nothing would repeat forever, so the loop has fuel.\<close>

fun dump_loop :: "nat \<Rightarrow> u8 list \<Rightarrow> nat \<Rightarrow> string list option" where
  "dump_loop fuel pu8Data sIndex =
     (if sIndex < length pu8Data then
        (case fuel of
           0 \<Rightarrow> None
         | Suc fuel \<Rightarrow>
             (case jf_hex_convertByteDataToStringWithAscii pu8Data sIndex JF_HEX_MAX_BYTE_HEXSTR_WITH_ASCII_LEN of
                None \<Rightarrow> None
              | Some (strLine, sDumped) \<Rightarrow>
                  (if sDumped > 0 then map_option (Cons strLine) (dump_loop fuel pu8Data (sIndex + sDumped))
                   else dump_loop fuel pu8Data sIndex)))
      else Some [])"

declare dump_loop.simps [simp del]

definition jf_hex_dumpByteDataBuffer :: "nat \<Rightarrow> u8 list \<Rightarrow> string list option" where
  "jf_hex_dumpByteDataBuffer fuel pu8Data = dump_loop fuel pu8Data 0"

section \<open>Digits\<close>

definition strncpy_2 :: "string \<Rightarrow> nat \<Rightarrow> string" where
  "strncpy_2 pstr start = takeWhile (\<lambda>c. c \<noteq> CHR 0x00) (take 2 (drop start pstr))"

function fromHex_loop :: "string \<Rightarrow> nat \<Rightarrow> u32 \<Rightarrow> nat \<Rightarrow> u8 list \<Rightarrow> u8 list" where
  "fromHex_loop pstr sHexLen u32Hex start pu8Hex =
     (if length pu8Hex < sHexLen \<and> start + 2 \<le> length pstr then
        (let u32Hex = (case sscanf_x (strncpy_2 pstr start) of None \<Rightarrow> u32Hex | Some v \<Rightarrow> v)
         in fromHex_loop pstr sHexLen u32Hex (start + 2) (pu8Hex @ [ucast u32Hex]))
      else pu8Hex)"
  by pat_completeness auto
termination
  by (relation "measure (\<lambda>(pstr, sHexLen, u32Hex, start, pu8Hex). length pstr - start)") auto

declare fromHex_loop.simps [simp del]

text \<open>The bytes stored at \<^verbatim>\<open>pu8Hex\<close>; their number is the value returned.\<close>

definition jf_hex_convertStringToHex :: "string \<Rightarrow> nat \<Rightarrow> u8 list option" where
  "jf_hex_convertStringToHex pstr sHexLen =
     (if length pstr > 0 \<and> sHexLen > 0 then Some (fromHex_loop pstr sHexLen 0 0 []) else None)"

function toHex_loop :: "string \<Rightarrow> nat \<Rightarrow> u8 list \<Rightarrow> nat \<Rightarrow> (string \<times> nat) option" where
  "toHex_loop pstr sLen pu8Hex sIndex =
     (if sLen + 2 \<le> length pstr \<and> sIndex < length pu8Hex then
        (case putBytes pstr sLen (hexString 2 (unat (pu8Hex ! sIndex)) @ [CHR 0x00]) of
           None \<Rightarrow> None
         | Some pstr \<Rightarrow> toHex_loop pstr (sLen + 2) pu8Hex (sIndex + 1))
      else Some (pstr, sLen))"
  by pat_completeness auto
termination
  by (relation "measure (\<lambda>(pstr, sLen, pu8Hex, sIndex). length pu8Hex - sIndex)") auto

declare toHex_loop.simps [simp del]

text \<open>The buffer \<open>pstr\<close> of \<^verbatim>\<open>sStr\<close> characters and the length returned.\<close>

definition jf_hex_convertHexToString :: "string \<Rightarrow> u8 list \<Rightarrow> (string \<times> nat) option" where
  "jf_hex_convertHexToString pstr pu8Hex = toHex_loop pstr 0 pu8Hex 0"

section \<open>Text of the pieces\<close>

lemma length_texts:
  "length (byteText b) = 3" "length (wordText w) = 5" "length (asciiText b) = 1"
  "n < 2 ^ 31 \<Longrightarrow> length (hexHeader n) = 10"
  using unsigned_less [of b, where ?'a = nat] unsigned_less [of w, where ?'a = nat]
  by (simp_all add: byteText_def wordText_def asciiText_def hexHeader_def length_hexString)

lemma length_concat_const: "(\<And>x. length (f x) = k) \<Longrightarrow> length (concat (map f xs)) = k * length xs"
  by (induction xs) simp_all

lemma strcat_all_eq:
  "length s + 1 \<le> sStr \<Longrightarrow>
    strcat_all sStr s ts = (if length s + length (concat ts) + 1 \<le> sStr then Some (s @ concat ts) else None)"
  by (induction ts arbitrary: s) (auto simp: strcat_def)

section \<open>Lines\<close>

text \<open>The text of a line of the dump: the offset, up to sixteen bytes, their characters.\<close>

definition lineBytes :: "u8 list \<Rightarrow> nat \<Rightarrow> u8 list" where
  "lineBytes pu8Data sOffset = take 16 (drop sOffset pu8Data)"

definition asciiLine :: "u8 list \<Rightarrow> nat \<Rightarrow> string" where
  "asciiLine pu8Data sOffset =
     (let bs = lineBytes pu8Data sOffset
      in hexHeader sOffset @ concat (map byteText bs) @ replicate (48 - 3 * length bs) CHR '' '' @ '' ; '' @
         concat (map asciiText bs))"

lemma map_lineBytes:
  "map (\<lambda>i. f (pu8Data ! (sOffset + i))) [0..<min 16 (length pu8Data - sOffset)] = map f (lineBytes pu8Data sOffset)"
  by (rule nth_equalityI) (auto simp: lineBytes_def)

lemma length_lineBytes: "length (lineBytes pu8Data sOffset) = min 16 (length pu8Data - sOffset)"
  by (auto simp: lineBytes_def)

lemma concat_spaces: "concat (map (\<lambda>i. ''   '') [k..<16]) = replicate (48 - 3 * k) CHR '' ''"
proof -
  have "concat (map (\<lambda>i. ''   '') xs) = replicate (3 * length xs) CHR '' ''" for xs :: "nat list"
    by (induction xs) (simp_all add: numeral_3_eq_3)
  from this [of "[k..<16]"] show ?thesis by (simp add: diff_mult_distrib2)
qed

lemma withAscii_eq:
  assumes "sOffset < length pu8Data" "63 \<le> sStr" "length pu8Data \<le> 2 ^ 31"
  shows "jf_hex_convertByteDataToStringWithAscii pu8Data sOffset sStr =
    (let n = min 16 (length pu8Data - sOffset)
     in if 62 + n \<le> sStr then Some (asciiLine pu8Data sOffset, n) else None)"
proof -
  let ?n = "min 16 (length pu8Data - sOffset)" and ?bs = "lineBytes pu8Data sOffset"
  have n: "(if 16 > length pu8Data - sOffset then length pu8Data - sOffset else 16) = ?n" by auto
  have h: "length (hexHeader sOffset) = 10" using assms(1,3) by (simp add: length_texts)
  have l: "length (concat (map byteText ?bs)) = 3 * ?n" "length (concat (map asciiText ?bs)) = ?n"
    using length_concat_const [of byteText 3 ?bs] length_concat_const [of asciiText 1 ?bs]
    by (simp_all add: length_texts length_lineBytes)
  have m: "map (\<lambda>i. byteText (pu8Data ! (sOffset + i))) [0..<?n] = map byteText ?bs"
    "map (\<lambda>i. asciiText (pu8Data ! (sOffset + i))) [0..<?n] = map asciiText ?bs"
    by (rule map_lineBytes)+
  have "pu8Data \<noteq> []" "3 * ?n + (48 - 3 * ?n) = 48" using assms(1) by auto
  then show ?thesis
    using assms h l
    by (simp add: jf_hex_convertByteDataToStringWithAscii_def hex_constants n m sprintf_def strcat_all_eq strcat_def
        concat_spaces asciiLine_def length_lineBytes Let_def del: upt_conv_Cons)
qed

lemma min_div_fits: "k * min b (min a (m div k)) \<le> (m :: nat)"
proof -
  have "k * min b (min a (m div k)) \<le> k * (m div k)" by (intro mult_le_mono2) auto
  also have "\<dots> \<le> m" by (rule times_div_less_eq_dividend)
  finally show ?thesis .
qed

lemma if_min: "(if b < a then b else a) = min b (a :: nat)"
  by simp

text \<open>The lines without characters are cut to the buffer, so they always fit.\<close>

lemma byteLine_fits:
  assumes "sOffset < length pu8Data" "14 \<le> sStr" "length pu8Data \<le> 2 ^ 31"
  shows "\<exists>s. jf_hex_convertByteDataToString pu8Data sOffset sStr =
    Some (s, min (length pu8Data - sOffset) (min 16 ((sStr - 11) div 3))) \<and> length s < sStr"
proof -
  define n where "n = min (length pu8Data - sOffset) (min 16 ((sStr - 11) div 3))"
  define ts where "ts = map (\<lambda>i. byteText (pu8Data ! (sOffset + i))) [0..<n]"
  have h: "length (hexHeader sOffset) = 10" using assms(1,3) by (simp add: length_texts)
  have "length (concat ts) = 3 * n"
    using length_concat_const [of "\<lambda>i. byteText (pu8Data ! (sOffset + i))" 3 "[0..<n]"] by (simp add: length_texts ts_def)
  then have f: "length (hexHeader sOffset) + length (concat ts) + 1 \<le> sStr"
    using min_div_fits [of 3 "length pu8Data - sOffset" 16 "sStr - 11"] h assms(2) by (simp flip: n_def)
  have "pu8Data \<noteq> []" using assms(1) by auto
  then have "jf_hex_convertByteDataToString pu8Data sOffset sStr = Some (hexHeader sOffset @ concat ts, n)"
    unfolding jf_hex_convertByteDataToString_def Let_def hex_constants if_min n_def [symmetric] ts_def [symmetric]
    using assms h f by (simp add: sprintf_def strcat_all_eq)
  then show ?thesis unfolding n_def [symmetric] using f by simp
qed

lemma wordLine_fits:
  assumes "sOffset < length pu16Data" "16 \<le> sStr" "length pu16Data \<le> 2 ^ 31"
  shows "\<exists>s. jf_hex_convertWordDataToString pu16Data sOffset sStr =
    Some (s, min (length pu16Data - sOffset) (min 16 ((sStr - 11) div 5))) \<and> length s < sStr"
proof -
  define n where "n = min (length pu16Data - sOffset) (min 16 ((sStr - 11) div 5))"
  define ts where "ts = map (\<lambda>i. wordText (pu16Data ! (sOffset + i))) [0..<n]"
  have h: "length (hexHeader sOffset) = 10" using assms(1,3) by (simp add: length_texts)
  have "length (concat ts) = 5 * n"
    using length_concat_const [of "\<lambda>i. wordText (pu16Data ! (sOffset + i))" 5 "[0..<n]"] by (simp add: length_texts ts_def)
  then have f: "length (hexHeader sOffset) + length (concat ts) + 1 \<le> sStr"
    using min_div_fits [of 5 "length pu16Data - sOffset" 16 "sStr - 11"] h assms(2) by (simp flip: n_def)
  have "pu16Data \<noteq> []" using assms(1) by auto
  then have "jf_hex_convertWordDataToString pu16Data sOffset sStr = Some (hexHeader sOffset @ concat ts, n)"
    unfolding jf_hex_convertWordDataToString_def Let_def hex_constants if_min n_def [symmetric] ts_def [symmetric]
    using assms h f by (simp add: sprintf_def strcat_all_eq)
  then show ?thesis unfolding n_def [symmetric] using f by simp
qed

section \<open>The dump\<close>

lemma dump_loop_eq:
  assumes "length pu8Data \<le> 2 ^ 31" "length pu8Data \<le> sIndex + 16 * fuel"
  shows "dump_loop fuel pu8Data sIndex =
    Some (map (\<lambda>k. asciiLine pu8Data (sIndex + 16 * k)) [0..<(length pu8Data - sIndex + 15) div 16])"
  using assms(2)
proof (induction fuel arbitrary: sIndex)
  case 0
  then show ?case by (simp add: dump_loop.simps)
next
  case (Suc fuel)
  let ?n = "length pu8Data - sIndex"
  show ?case
  proof (cases "sIndex < length pu8Data")
    case True
    let ?k = "min 16 ?n"
    have c: "jf_hex_convertByteDataToStringWithAscii pu8Data sIndex 78 = Some (asciiLine pu8Data sIndex, ?k)"
      using withAscii_eq [OF True _ assms(1), of 78] by (simp add: Let_def)
    have IH: "dump_loop fuel pu8Data (sIndex + ?k) =
        Some (map (\<lambda>k. asciiLine pu8Data (sIndex + ?k + 16 * k)) [0..<(length pu8Data - (sIndex + ?k) + 15) div 16])"
      using Suc by (simp add: min_def)
    have m: "(?n + 15) div 16 = Suc ((length pu8Data - (sIndex + ?k) + 15) div 16)"
      using True by (auto simp: min_def)
    have e: "map (\<lambda>k. asciiLine pu8Data (sIndex + ?k + 16 * k)) [0..<(length pu8Data - (sIndex + ?k) + 15) div 16] =
      map (\<lambda>k. asciiLine pu8Data (sIndex + 16 * Suc k)) [0..<(length pu8Data - (sIndex + ?k) + 15) div 16]"
      by (rule map_cong) (auto simp: min_def add.assoc)
    have "dump_loop (Suc fuel) pu8Data sIndex = map_option (Cons (asciiLine pu8Data sIndex)) (dump_loop fuel pu8Data (sIndex + ?k))"
      using True c by (subst dump_loop.simps) (simp add: hex_constants)
    then show ?thesis unfolding m map_upt_Suc using IH e by simp
  next
    case False
    then show ?thesis by (simp add: dump_loop.simps)
  qed
qed

section \<open>Digits\<close>

definition hexText :: "u8 list \<Rightarrow> string" where
  "hexText bs = concat (map (\<lambda>b. hexString 2 (unat b)) bs)"

lemma hexText_simps: "hexText [] = []" "hexText (b # bs) = hexString 2 (unat b) @ hexText bs"
  by (simp_all add: hexText_def)

lemma length_hexByte [simp]: "length (hexString 2 (unat (b :: u8))) = 2"
  using unsigned_less [of b, where ?'a = nat] by (simp add: length_hexString)

lemma length_hexText [simp]: "length (hexText bs) = 2 * length bs"
  by (induction bs) (simp_all add: hexText_simps)

lemma toHex_loop_eq:
  assumes "sIndex \<le> length pu8Hex" "sLen + 2 * (length pu8Hex - sIndex) + 1 \<le> length pstr"
  shows "filled pstr sLen (hexText (drop sIndex pu8Hex)) (toHex_loop pstr sLen pu8Hex sIndex)"
  using assms
proof (induction pstr sLen pu8Hex sIndex rule: toHex_loop.induct)
  case (1 pstr sLen pu8Hex sIndex)
  show ?case
  proof (cases "sIndex < length pu8Hex")
    case True
    let ?t = "hexString 2 (unat (pu8Hex ! sIndex))"
    have g: "sLen + 2 \<le> length pstr \<and> sIndex < length pu8Hex" using True 1(3) by simp
    obtain pstr' where p: "putBytes pstr sLen (?t @ [CHR 0x00]) = Some pstr'"
      using 1(3) True by (auto intro: putBytes_Some [of sLen "?t @ [CHR 0x00]" pstr])
    then have l: "length pstr' = length pstr" "take (sLen + 2) pstr' = take sLen pstr @ ?t"
      using filled_put [OF _ p, of 2] 1(3) True by simp_all
    have "filled pstr' (sLen + 2) (hexText (drop (Suc sIndex) pu8Hex)) (toHex_loop pstr' (sLen + 2) pu8Hex (Suc sIndex))"
      using 1(1) [OF g p] 1(3) True l by simp
    then have "filled pstr sLen (?t @ hexText (drop (Suc sIndex) pu8Hex)) (toHex_loop pstr' (sLen + 2) pu8Hex (Suc sIndex))"
      using l by (intro filled_step [of pstr']) simp_all
    moreover have "toHex_loop pstr sLen pu8Hex sIndex = toHex_loop pstr' (sLen + 2) pu8Hex (Suc sIndex)"
      using g p by (subst toHex_loop.simps) simp
    ultimately show ?thesis using True by (simp add: hexText_simps flip: Cons_nth_drop_Suc)
  next
    case False
    then show ?thesis using 1(2) by (simp add: toHex_loop.simps filled_Nil hexText_simps)
  qed
qed

text \<open>The terminating zero goes past the buffer when the digits fill it exactly.\<close>

lemma fills_exactly_step:
  "0 < d \<Longrightarrow> even (d + 2) \<and> 2 \<le> d + 2 \<and> d + 2 \<le> 2 * (m + 1) \<longleftrightarrow> even d \<and> 2 \<le> d \<and> d \<le> 2 * (m :: nat)"
  by presburger

lemma toHex_loop_None:
  assumes "sIndex \<le> length pu8Hex" "sLen \<le> length pstr"
  shows "toHex_loop pstr sLen pu8Hex sIndex = None \<longleftrightarrow>
    even (length pstr - sLen) \<and> 2 \<le> length pstr - sLen \<and> length pstr - sLen \<le> 2 * (length pu8Hex - sIndex)"
  using assms
proof (induction pstr sLen pu8Hex sIndex rule: toHex_loop.induct)
  case (1 pstr sLen pu8Hex sIndex)
  let ?t = "hexString 2 (unat (pu8Hex ! sIndex)) @ [CHR 0x00]"
  consider "\<not> (sLen + 2 \<le> length pstr \<and> sIndex < length pu8Hex)"
    | "sLen + 2 = length pstr" "sIndex < length pu8Hex"
    | "sLen + 3 \<le> length pstr" "sIndex < length pu8Hex" by linarith
  then show ?case
  proof cases
    case 1
    then have "toHex_loop pstr sLen pu8Hex sIndex = Some (pstr, sLen)" by (subst toHex_loop.simps) auto
    with 1 \<open>sIndex \<le> _\<close> show ?thesis by auto
  next
    case 2
    then have "putBytes pstr sLen ?t = None" by (simp add: putBytes_def)
    then have "toHex_loop pstr sLen pu8Hex sIndex = None" using 2 by (subst toHex_loop.simps) simp
    moreover have "length pstr - sLen = 2" using 2 by simp
    ultimately show ?thesis using 2 by simp
  next
    case 3
    then obtain pstr' where p: "putBytes pstr sLen ?t = Some pstr'" "length pstr' = length pstr"
      by (auto intro: putBytes_Some [of sLen ?t pstr])
    have "toHex_loop pstr sLen pu8Hex sIndex = toHex_loop pstr' (sLen + 2) pu8Hex (sIndex + 1)"
      using 3 p by (subst toHex_loop.simps) simp
    moreover have "toHex_loop pstr' (sLen + 2) pu8Hex (sIndex + 1) = None \<longleftrightarrow>
        even (length pstr - (sLen + 2)) \<and> 2 \<le> length pstr - (sLen + 2) \<and>
        length pstr - (sLen + 2) \<le> 2 * (length pu8Hex - (sIndex + 1))"
      using "1.IH" [OF _ p(1)] p(2) 3 by simp
    moreover have "length pstr - sLen = length pstr - (sLen + 2) + 2"
      "length pu8Hex - sIndex = length pu8Hex - (sIndex + 1) + 1" "0 < length pstr - (sLen + 2)"
      using 3 by simp_all
    ultimately show ?thesis by (simp only: fills_exactly_step)
  qed
qed

lemma strncpy_2_digits:
  "strncpy_2 (pre @ hexString 2 (unat (b :: u8)) @ post) (length pre) = hexString 2 (unat b)"
proof -
  have b: "unat b < 256" using unsigned_less [of b, where ?'a = nat] by simp
  then have "unat b div 16 < 16" "unat b mod 16 < 16" by simp_all
  then show ?thesis by (simp add: strncpy_2_def hexString_2 [OF b] hexDigit(2))
qed

lemma fromHex_loop_hexText:
  "length acc + length bs \<le> sHexLen \<Longrightarrow>
    fromHex_loop (pre @ hexText bs) sHexLen u32Hex (length pre) acc = acc @ bs"
proof (induction bs arbitrary: pre u32Hex acc)
  case Nil
  then show ?case by (subst fromHex_loop.simps) (simp add: hexText_simps)
next
  case (Cons b bs)
  let ?t = "hexString 2 (unat b)"
  have b: "unat b < 256" using unsigned_less [of b, where ?'a = nat] by simp
  have "sscanf_x (strncpy_2 (pre @ ?t @ hexText bs) (length pre)) = Some (of_nat (unat b))"
    unfolding strncpy_2_digits unfolding hexString_2 [OF b] by (rule scan_digits [OF b])
  moreover have "ucast (of_nat (unat b) :: u32) = b" 
    using b by (intro word_unat_eq_iff [THEN iffD2]) (simp add: unsigned_ucast_eq unsigned_of_nat take_bit_nat_eq_self_iff take_bit_word_eq_self)
  ultimately have "fromHex_loop (pre @ ?t @ hexText bs) sHexLen u32Hex (length pre) acc =
      fromHex_loop ((pre @ ?t) @ hexText bs) sHexLen (of_nat (unat b)) (length (pre @ ?t)) (acc @ [b])"
    using Cons.prems by (subst fromHex_loop.simps) (simp add: Let_def)
  then show ?case using Cons.IH [of "acc @ [b]" "pre @ ?t"] Cons.prems by (simp add: hexText_simps)
qed

section \<open>Properties\<close>

text \<open>
  (C27) Bytes written as hexadecimal digits into a buffer with room for the terminating zero are read
  back by \<^verbatim>\<open>jf_hex_convertStringToHex\<close>.
\<close>
theorem hex_roundtrip:
  assumes "bs \<noteq> []" "2 * length bs + 1 \<le> length pstr"
  shows "\<exists>pstr'. jf_hex_convertHexToString pstr bs = Some (pstr', 2 * length bs) \<and> length pstr' = length pstr \<and>
    jf_hex_convertStringToHex (take (2 * length bs) pstr') (length bs) = Some bs"
proof -
  obtain pstr' where "toHex_loop pstr 0 bs 0 = Some (pstr', 2 * length bs)" "length pstr' = length pstr"
      "take (2 * length bs) pstr' = hexText bs"
    using toHex_loop_eq [of 0 bs 0 pstr] assms(2) by (auto simp: filled_def)
  moreover have "fromHex_loop (hexText bs) (length bs) 0 0 [] = bs"
    using fromHex_loop_hexText [of "[]" bs "length bs" "[]" 0] by simp
  moreover have "pstr' \<noteq> []" "hexText bs \<noteq> []"
    using assms length_hexText [of bs] \<open>length pstr' = _\<close> by fastforce+
  ultimately show ?thesis
    using assms(1) by (simp add: jf_hex_convertHexToString_def jf_hex_convertStringToHex_def)
qed

theorem hex_roundtrip_witness:
  "\<exists>pstr'. jf_hex_convertHexToString (replicate 5 CHR ''?'') [0x0f, 0xa0] = Some (pstr', 4) \<and> length pstr' = 5 \<and>
    jf_hex_convertStringToHex (take 4 pstr') 2 = Some [0x0f, 0xa0]"
  using hex_roundtrip [of "[0x0f, 0xa0]" "replicate 5 CHR ''?''"] by (simp add: eval_nat_numeral)

text \<open>
  (C35) The dump prints one line for every sixteen bytes, each at its offset, and never stores past its line
  buffer of 78 characters: one round of the loop for each line is enough.
\<close>
theorem hex_dump_lines:
  assumes "length pu8Data \<le> 2 ^ 31" "(length pu8Data + 15) div 16 \<le> fuel"
  shows "jf_hex_dumpByteDataBuffer fuel pu8Data =
    Some (map (\<lambda>k. asciiLine pu8Data (16 * k)) [0..<(length pu8Data + 15) div 16])"
  using dump_loop_eq [OF assms(1), of 0 fuel] assms(2) by (simp add: jf_hex_dumpByteDataBuffer_def)

theorem hex_dump_lines_witness:
  "jf_hex_dumpByteDataBuffer 3 (replicate 40 7) = Some (map (\<lambda>k. asciiLine (replicate 40 7) (16 * k)) [0..<3])"
  using hex_dump_lines [of "replicate 40 7" 3] by simp

text \<open>
  (C36) Where the writers store past the end of their buffer: \<^verbatim>\<open>jf_hex_convertHexToString\<close> exactly when the digits
  fill the buffer, and the line with characters, although its assertion accepts 63 bytes, exactly when the
  buffer has less than 62 bytes more than the line has data.
\<close>
theorem hex_writers_overflow:
  assumes "sOffset < length pu8Data" "length pu8Data \<le> 2 ^ 31" "63 \<le> sStr"
  shows "(jf_hex_convertHexToString pstr bs = None \<longleftrightarrow>
      even (length pstr) \<and> 2 \<le> length pstr \<and> length pstr \<le> 2 * length bs) \<and>
    (jf_hex_convertByteDataToStringWithAscii pu8Data sOffset sStr = None \<longleftrightarrow>
      sStr < 62 + min 16 (length pu8Data - sOffset))"
  using toHex_loop_None [of 0 bs 0 pstr] withAscii_eq [of sOffset pu8Data sStr] assms
  by (simp add: jf_hex_convertHexToString_def Let_def)

theorem hex_writers_overflow_witness:
  "jf_hex_convertHexToString ''????'' [1, 2] = None \<and>
    jf_hex_convertByteDataToStringWithAscii (replicate 16 7) 0 63 = None"
  using hex_writers_overflow [of 0 "replicate 16 7" 63 "''????''" "[1, 2]"] by simp

end
