(* ===== verification/Jf_Date.thy ===== *)
theory Jf_Date
  imports Jf_Clib "HOL-Library.Signed_Division"
begin

text \<open>
  Dates of \<^verbatim>\<open>src/jiutai/jf_date.c\<close>. The ints of the code are \<open>int\<close>, divided with the truncating division of C;
  \<open>days_fit\<close> shows that the day count stays in 32 bits for the years in use. An output
  parameter the code leaves alone keeps the value the caller put there. The clock and the time zone
  (\<^verbatim>\<open>localtime\<close>, \<^verbatim>\<open>gmtime\<close>) are arguments.
\<close>

section \<open>Calendar\<close>

definition JF_DATE_SUNDAY :: int where
  "JF_DATE_SUNDAY = 0"

definition JF_DATE_SATURDAY :: int where
  "JF_DATE_SATURDAY = 6"

definition jf_date_isLeapYear :: "int \<Rightarrow> bool" where
  "jf_date_isLeapYear year \<longleftrightarrow> (year smod 4 = 0 \<and> year smod 100 \<noteq> 0) \<or> year smod 400 = 0"

definition jf_date_getDaysOfMonth :: "int \<Rightarrow> int \<Rightarrow> int" where
  "jf_date_getDaysOfMonth year mon =
     (if mon \<in> {1, 3, 5, 7, 8, 10, 12} then 31
      else if mon = 2 then (if jf_date_isLeapYear year then 29 else 28)
      else 30)"

definition jf_date_getDaysOfYear :: "int \<Rightarrow> int" where
  "jf_date_getDaysOfYear year = (if jf_date_isLeapYear year then 366 else 365)"

definition isDayInRange :: "int \<Rightarrow> int \<Rightarrow> int \<Rightarrow> bool" where
  "isDayInRange year month day =
     (let dm = jf_date_getDaysOfMonth year month in if day \<le> 0 \<or> day > dm then False else True)"

section \<open>Days from 1970\<close>

definition days_table :: "int \<Rightarrow> int list" where
  "days_table year =
     (let a = [0, 31, 28, 31, 30, 31, 30, 31, 31, 30, 31, 30]
      in if jf_date_isLeapYear year then a[2 := 29] else a)"

function add_years :: "int \<Rightarrow> int \<Rightarrow> int \<Rightarrow> int" where
  "add_years start_year year ret =
     (if start_year < year then add_years (start_year + 1) year (ret + jf_date_getDaysOfYear start_year) else ret)"
  by pat_completeness auto
termination
  by (relation "measure (\<lambda>(start_year, year, ret). nat (year - start_year))") auto

declare add_years.simps [simp del]

definition jf_date_convertDateToDaysFrom1970 :: "int \<Rightarrow> int \<Rightarrow> int \<Rightarrow> int" where
  "jf_date_convertDateToDaysFrom1970 year mon day =
     (let ret = day;
          a = days_table year;
          ret = foldl (\<lambda>ret i. ret + a ! i) ret [0..<nat mon]
      in add_years 1970 year ret)"

function find_year :: "int \<Rightarrow> int \<Rightarrow> int \<times> int" where
  "find_year ret start_year =
     (if ret > 0 then
        (let ret = ret - jf_date_getDaysOfYear start_year
         in find_year ret (if ret > 0 then start_year + 1 else start_year))
      else (ret, start_year))"
  by pat_completeness auto
termination
  by (relation "measure (\<lambda>(ret, start_year). nat ret)") (auto simp: jf_date_getDaysOfYear_def)

declare find_year.simps [simp del]

definition month_table :: "int \<Rightarrow> int list" where
  "month_table year =
     (let a = [0, 31, 28, 31, 30, 31, 30, 31, 31, 30, 31, 30, 31]
      in if jf_date_isLeapYear year then a[2 := 29] else a)"

fun find_month :: "nat \<Rightarrow> nat \<Rightarrow> int list \<Rightarrow> int \<Rightarrow> int \<Rightarrow> (int \<times> int) option" where
  "find_month 0 i a s ret = None"
| "find_month (Suc n) i a s ret =
     (let s = s + a ! i
      in if ret > s \<and> ret \<le> s + a ! (i + 1) then Some (int i + 1, ret - s) else find_month n (i + 1) a s ret)"

text \<open>The values of \<^verbatim>\<open>*mon\<close> and \<^verbatim>\<open>*day\<close> before the call are arguments: they stay when no month is found.\<close>

definition jf_date_convertDaysFrom1970ToDate :: "int \<Rightarrow> int \<Rightarrow> int \<Rightarrow> int \<times> int \<times> int" where
  "jf_date_convertDaysFrom1970ToDate days mon day =
     (let (ret, start_year) = find_year days 1970;
          ret = ret + jf_date_getDaysOfYear start_year
      in case find_month 12 0 (month_table start_year) 0 ret of
           None \<Rightarrow> (start_year, mon, day)
         | Some (mon, day) \<Rightarrow> (start_year, mon, day))"

section \<open>Days of the week\<close>

definition jf_date_getDayOfWeekFromDate :: "int \<Rightarrow> int \<Rightarrow> int \<Rightarrow> int" where
  "jf_date_getDayOfWeekFromDate year mon day =
     (let (year, m) = (if mon \<le> 2 then (year - 1, mon + 12) else (year, mon));
          d = day;
          c = year sdiv 100;
          y = year smod 100;
          w = c sdiv 4 - 2 * c + y + y sdiv 4 + 13 * (m + 1) sdiv 5 + d - 1;
          w = w smod 7
      in if w < 0 then w + 7 else w)"

definition jf_date_getNextDayOfWeek :: "int \<Rightarrow> int" where
  "jf_date_getNextDayOfWeek dayofweek =
     (let ret = dayofweek + 1 in if dayofweek = JF_DATE_SATURDAY then JF_DATE_SUNDAY else ret)"

definition jf_date_isWeekendForDate :: "int \<Rightarrow> int \<Rightarrow> int \<Rightarrow> bool" where
  "jf_date_isWeekendForDate year mon day =
     (let dw = jf_date_getDayOfWeekFromDate year mon day in if dw = 6 \<or> dw = 0 then True else False)"

section \<open>The clock\<close>

record tm =
  tm_year :: int
  tm_mon :: int
  tm_mday :: int
  tm_hour :: int
  tm_min :: int
  tm_sec :: int

definition jf_date_getDateToday :: "tm \<Rightarrow> int \<times> int \<times> int" where
  "jf_date_getDateToday tmdate = (1900 + tm_year tmdate, 1 + tm_mon tmdate, tm_mday tmdate)"

definition jf_date_convertTodayToDaysFrom1970 :: "tm \<Rightarrow> int" where
  "jf_date_convertTodayToDaysFrom1970 tmdate =
     (let (year, mon, day) = jf_date_getDateToday tmdate in jf_date_convertDateToDaysFrom1970 year mon day)"

definition jf_date_getDayOfWeekForToday :: "tm \<Rightarrow> int" where
  "jf_date_getDayOfWeekForToday tmdate =
     (let (year, mon, day) = jf_date_getDateToday tmdate in jf_date_getDayOfWeekFromDate year mon day)"

section \<open>Text of a date\<close>

definition ls_pstrMonth :: "string list" where
  "ls_pstrMonth = [''Jan'', ''Feb'', ''Mar'', ''Apr'', ''May'', ''Jun'', ''Jul'', ''Aug'', ''Sep'', ''Oct'', ''Nov'', ''Dec'']"

definition JF_STRING_NOT_APPLICABLE :: string where
  "JF_STRING_NOT_APPLICABLE = ''N/A''"

text \<open>The string left in a buffer of \<open>sDate > 0\<close> bytes. A negative month indexes before the table: \<open>None\<close>.\<close>

definition jf_date_getStringDate :: "nat \<Rightarrow> int \<Rightarrow> int \<Rightarrow> int \<Rightarrow> string option" where
  "jf_date_getStringDate sDate year mon day =
     (if mon = 0 \<and> day = 0 then Some (take (sDate - 1) JF_STRING_NOT_APPLICABLE)
      else if mon > 12 \<or> mon = 0 then
        Some (snprintf (sDate - 1) (''Month('' @ printInt mon @ '') '' @ printInt day @ '', '' @ printZeros 4 year))
      else if mon < 0 then None
      else Some (snprintf (sDate - 1) (ls_pstrMonth ! nat (mon - 1) @ '' '' @ printInt day @ '', '' @ printZeros 4 year)))"

definition dateText2 :: "int \<Rightarrow> int \<Rightarrow> int \<Rightarrow> string" where
  "dateText2 year mon day = printPadded 4 year @ ''-'' @ printZeros 2 mon @ ''-'' @ printZeros 2 day"

definition jf_date_getStringDate2 :: "nat \<Rightarrow> int \<Rightarrow> int \<Rightarrow> int \<Rightarrow> string" where
  "jf_date_getStringDate2 sDate year mon day =
     (if mon = 0 \<and> day = 0 then take (sDate - 1) JF_STRING_NOT_APPLICABLE
      else snprintf (sDate - 1) (dateText2 year mon day))"

definition jf_date_getStringDate2ForDaysFrom1970 :: "nat \<Rightarrow> int \<Rightarrow> string" where
  "jf_date_getStringDate2ForDaysFrom1970 sDate nDays =
     (let (year, mon, day) = jf_date_convertDaysFrom1970ToDate nDays 0 0
      in snprintf (sDate - 1) (dateText2 year mon day))"

text \<open>The same code serves UTC and local time; \<open>totm\<close> is \<^verbatim>\<open>gmtime\<close> or \<^verbatim>\<open>localtime\<close> on the signed \<^verbatim>\<open>time_t\<close>.\<close>

definition getStringDateTime :: "(int \<Rightarrow> tm option) \<Rightarrow> nat \<Rightarrow> u64 \<Rightarrow> (jf_err \<times> string) option" where
  "getStringDateTime totm sTime u64Time =
     (case totm (sint u64Time) of
        None \<Rightarrow>
          Some (JF_ERR_INVALID_TIME,
            snprintf (sTime - 1) (''invalid time stamp ('' @ decDigits (unat u64Time) @ '')''))
      | Some ptm \<Rightarrow>
          (case jf_date_getStringDate 64 (tm_year ptm + 1900) (tm_mon ptm + 1) (tm_mday ptm) of
             None \<Rightarrow> None
           | Some strDate \<Rightarrow>
               Some (JF_ERR_NO_ERROR,
                 snprintf (sTime - 1) (strDate @ '' '' @ printZeros 2 (tm_hour ptm) @ '':'' @
                   printZeros 2 (tm_min ptm) @ '':'' @ printZeros 2 (tm_sec ptm)))))"

definition jf_date_getStringUtcDateTime ::
  "(int \<Rightarrow> tm option) \<Rightarrow> nat \<Rightarrow> u64 \<Rightarrow> (jf_err \<times> string) option" where
  "jf_date_getStringUtcDateTime gmtime sTime u64Time = getStringDateTime gmtime sTime u64Time"

definition jf_date_getStringLocalDateTime ::
  "(int \<Rightarrow> tm option) \<Rightarrow> nat \<Rightarrow> u64 \<Rightarrow> (jf_err \<times> string) option" where
  "jf_date_getStringLocalDateTime localtime sTime u64Time = getStringDateTime localtime sTime u64Time"

section \<open>A date from text\<close>

text \<open>
  \<^verbatim>\<open>%d\<close> stores an int at the address of an u32. The outputs are written as soon as a part is
  accepted, also when a later part is refused.
\<close>

definition getDateFromString :: "char \<Rightarrow> string \<Rightarrow> int \<times> int \<times> int \<Rightarrow> jf_err \<times> int \<times> int \<times> int" where
  "getDateFromString sep pstrDate out =
     (let (year, mon, day) = out;
          firstChar = take 99 pstrDate
      in case strchr firstChar sep of
           None \<Rightarrow> (JF_ERR_INVALID_DATE, year, mon, day)
         | Some n \<Rightarrow>
             (case scanInt 4 (take n firstChar) of
                None \<Rightarrow> (JF_ERR_INVALID_DATE, year, mon, day)
              | Some v \<Rightarrow>
                  (let u32Value = of_int v :: u32
                   in if u32Value \<ge> 1970 \<and> u32Value \<le> 2037 then
                        (let firstChar = drop (n + 1) firstChar;
                             year = sint u32Value
                         in case strchr firstChar sep of
                              None \<Rightarrow> (JF_ERR_INVALID_DATE, year, mon, day)
                            | Some n \<Rightarrow>
                                (case scanInt 2 (take n firstChar) of
                                   None \<Rightarrow> (JF_ERR_INVALID_DATE, year, mon, day)
                                 | Some v \<Rightarrow>
                                     (let u32Value = of_int v :: u32
                                      in if u32Value \<le> 12 \<and> u32Value \<ge> 1 then
                                           (let firstChar = drop (n + 1) firstChar;
                                                mon = sint u32Value
                                            in case scanInt 2 firstChar of
                                                 None \<Rightarrow> (JF_ERR_INVALID_DATE, year, mon, day)
                                               | Some v \<Rightarrow>
                                                   (let u32Value = of_int v :: u32
                                                    in if isDayInRange year mon (sint u32Value)
                                                       then (JF_ERR_NO_ERROR, year, mon, sint u32Value)
                                                       else (JF_ERR_INVALID_DATE, year, mon, day)))
                                         else (JF_ERR_INVALID_DATE, year, mon, day))))
                      else (JF_ERR_INVALID_DATE, year, mon, day))))"

definition jf_date_getDateFromString :: "string \<Rightarrow> int \<times> int \<times> int \<Rightarrow> jf_err \<times> int \<times> int \<times> int" where
  "jf_date_getDateFromString pstrDate out = getDateFromString CHR ''/'' pstrDate out"

definition jf_date_getDate2FromString :: "string \<Rightarrow> int \<times> int \<times> int \<Rightarrow> jf_err \<times> int \<times> int \<times> int" where
  "jf_date_getDate2FromString pstrDate out = getDateFromString CHR ''-'' pstrDate out"

section \<open>The day count\<close>

definition valid_date :: "int \<Rightarrow> int \<Rightarrow> int \<Rightarrow> bool" where
  "valid_date year mon day \<longleftrightarrow> 1970 \<le> year \<and> 1 \<le> mon \<and> mon \<le> 12 \<and> isDayInRange year mon day"

text \<open>The leap days up to the end of a year.\<close>

definition leap_days :: "int \<Rightarrow> int" where
  "leap_days y = y div 4 - y div 100 + y div 400"

lemma div_step:
  fixes y k :: int
  assumes "1 < k"
  shows "y div k = (y - 1) div k + of_bool (k dvd y)"
proof -
  have "y - 1 = (y mod k - 1) + k * (y div k)" by simp
  then have "(y - 1) div k = y div k + (y mod k - 1) div k"
    using assms by (metis add.commute div_mult_self2 less_irrefl not_one_less_zero)
  moreover have "(y mod k - 1) div k = (if k dvd y then -1 else 0)"
  proof (cases "k dvd y")
    case True
    then show ?thesis using assms by (simp add: div_eq_minus1)
  next
    case False
    then have "0 \<noteq> y mod k" by (simp add: dvd_eq_mod_eq_0)
    then have "0 \<le> y mod k - 1" "y mod k - 1 < k"
      using assms pos_mod_bound [of k y] pos_mod_sign [of k y] by linarith+
    with False show ?thesis by (simp add: div_pos_pos_trivial)
  qed
  ultimately show ?thesis by simp
qed

lemma isLeapYear_iff: "0 \<le> y \<Longrightarrow> jf_date_isLeapYear y \<longleftrightarrow> 4 dvd y \<and> \<not> 100 dvd y \<or> 400 dvd y"
  by (simp add: jf_date_isLeapYear_def smod_mod_positive dvd_eq_mod_eq_0)

lemma leap_days_step:
  assumes "0 \<le> y"
  shows "leap_days y = leap_days (y - 1) + of_bool (jf_date_isLeapYear y)"
proof -
  have "100 dvd y \<Longrightarrow> 4 dvd y" "400 dvd y \<Longrightarrow> 100 dvd y" by (auto elim!: dvdE)
  then show ?thesis
    unfolding leap_days_def isLeapYear_iff [OF assms] div_step [of 4 y, simplified] div_step [of 100 y, simplified]
      div_step [of 400 y, simplified]
    by (cases "4 dvd y"; cases "100 dvd y"; cases "400 dvd y") simp_all
qed

lemma add_years_eq:
  "0 \<le> s \<Longrightarrow> s \<le> y \<Longrightarrow> add_years s y r = r + 365 * (y - s) + leap_days (y - 1) - leap_days (s - 1)"
proof (induction s y r rule: add_years.induct)
  case (1 s y r)
  show ?case
  proof (cases "s < y")
    case True
    then show ?thesis
      using 1 leap_days_step [OF 1(2)]
      by (subst add_years.simps) (simp add: jf_date_getDaysOfYear_def algebra_simps split: if_splits)
  next
    case False
    then show ?thesis using 1(3) by (subst add_years.simps) simp
  qed
qed

text \<open>The days of the year before a month.\<close>

definition month_start :: "int \<Rightarrow> int \<Rightarrow> int" where
  "month_start year mon = foldl (\<lambda>ret i. ret + days_table year ! i) 0 [0..<nat mon]"

lemma foldl_plus: "foldl (\<lambda>ret i. ret + f i) (r :: int) xs = r + foldl (\<lambda>ret i. ret + f i) 0 xs"
proof (induction xs arbitrary: r)
  case (Cons x xs)
  show ?case using Cons.IH [of "r + f x"] Cons.IH [of "f x"] by simp
qed simp

lemma convertDate_eq:
  assumes "1970 \<le> year"
  shows "jf_date_convertDateToDaysFrom1970 year mon day =
    day + month_start year mon + 365 * (year - 1970) + leap_days (year - 1) - 477"
  using assms foldl_plus [of "\<lambda>i. days_table year ! i" day "[0..<nat mon]"]
  by (simp add: jf_date_convertDateToDaysFrom1970_def add_years_eq month_start_def leap_days_def Let_def)

lemma month_cases:
  assumes "1 \<le> mon" "mon \<le> (12 :: int)"
  obtains "mon = 1" | "mon = 2" | "mon = 3" | "mon = 4" | "mon = 5" | "mon = 6"
    | "mon = 7" | "mon = 8" | "mon = 9" | "mon = 10" | "mon = 11" | "mon = 12"
  using assms by atomize_elim presburger

lemma month_start_eq:
  "month_start year 1 = 0" "month_start year 2 = 31"
  "month_start year 3 = 59 + of_bool (jf_date_isLeapYear year)"
  "month_start year 4 = 90 + of_bool (jf_date_isLeapYear year)"
  "month_start year 5 = 120 + of_bool (jf_date_isLeapYear year)"
  "month_start year 6 = 151 + of_bool (jf_date_isLeapYear year)"
  "month_start year 7 = 181 + of_bool (jf_date_isLeapYear year)"
  "month_start year 8 = 212 + of_bool (jf_date_isLeapYear year)"
  "month_start year 9 = 243 + of_bool (jf_date_isLeapYear year)"
  "month_start year 10 = 273 + of_bool (jf_date_isLeapYear year)"
  "month_start year 11 = 304 + of_bool (jf_date_isLeapYear year)"
  "month_start year 12 = 334 + of_bool (jf_date_isLeapYear year)"
  by (simp_all add: month_start_def days_table_def Let_def upt_rec numeral_2_eq_2)

section \<open>The day of the week\<close>

lemma sdiv_div_positive: "0 \<le> a \<Longrightarrow> 0 < b \<Longrightarrow> a sdiv b = a div (b :: int)"
  by (auto simp: signed_divide_int_eq_divide_int sgn_if)

lemma smod_7: "(if w smod 7 < 0 then w smod 7 + 7 else w smod 7) = w mod (7 :: int)"
proof (cases "0 \<le> w")
  case True
  then show ?thesis using smod_mod_positive [of w 7] pos_mod_sign [of 7 w] by simp
next
  case False
  then have neg: "w smod 7 = - ((- w) mod 7)" by (simp add: smod_int_alt_def)
  show ?thesis
  proof (cases "7 dvd w")
    case True
    then show ?thesis using neg by (simp add: dvd_eq_mod_eq_0 zmod_zminus1_eq_if)
  next
    case False
    then have "w mod 7 = 7 - (- w) mod 7" using zmod_zminus1_eq_if [of "- w" 7] by (simp add: dvd_eq_mod_eq_0 zmod_zminus1_eq_if)
    moreover have "0 < (- w) mod 7" using False pos_mod_sign [of 7 "- w"] by (simp add: dvd_eq_mod_eq_0 le_less zmod_zminus1_eq_if)
    ultimately show ?thesis using neg by simp
  qed
qed

text \<open>Zeller's sum counts the days of the years before.\<close>

lemma zeller_sum:
  "y = 100 * c + r \<Longrightarrow> q = 25 * c + t \<Longrightarrow> e - 2 * c + r + t = y + (q - c + e) - 126 * (c :: int)"
  by simp

lemma zeller_years:
  assumes "0 \<le> year"
  shows "year div 100 div 4 - 2 * (year div 100) + year mod 100 + year mod 100 div 4 =
    year + leap_days year - 126 * (year div 100)"
proof -
  have "year div 4 = (year mod 100 + (25 * (year div 100)) * 4) div 4" by simp
  also have "\<dots> = 25 * (year div 100) + year mod 100 div 4" by (simp only: div_mult_self3 add.commute)
  finally have "year div 4 = 25 * (year div 100) + year mod 100 div 4" .
  moreover have "year div 100 div 4 = year div 400" by (simp add: div_mult2_eq [symmetric])
  ultimately show ?thesis unfolding leap_days_def by (metis zeller_sum mult_div_mod_eq)
qed

lemma zeller_eq:
  assumes "0 \<le> year" "0 \<le> m"
  shows "year sdiv 100 sdiv 4 - 2 * (year sdiv 100) + year smod 100 + year smod 100 sdiv 4 + 13 * (m + 1) sdiv 5 + d - 1 =
    year + leap_days year - 126 * (year div 100) + 13 * (m + 1) div 5 + d - 1"
proof -
  have "year sdiv 100 = year div 100" "year smod 100 = year mod 100" "(13 * (m + 1)) sdiv 5 = (13 * (m + 1)) div 5"
    using assms by (simp_all add: sdiv_div_positive smod_mod_positive)
  moreover have "year div 100 sdiv 4 = year div 100 div 4" "year mod 100 sdiv 4 = year mod 100 div 4"
    using assms by (simp_all add: sdiv_div_positive pos_imp_zdiv_nonneg_iff)
  ultimately show ?thesis using zeller_years [OF assms(1)] by (simp only:)
qed

lemma getDayOfWeek_eq:
  assumes "1970 \<le> year" "1 \<le> mon"
  shows "jf_date_getDayOfWeekFromDate year mon day =
    (let (year, m) = (if mon \<le> 2 then (year - 1, mon + 12) else (year, mon))
     in (year + leap_days year - 126 * (year div 100) + 13 * (m + 1) div 5 + day - 1) mod 7)"
proof (cases "mon \<le> 2")
  case True
  have "0 \<le> year - 1" "0 \<le> mon + 12" using assms by simp_all
  note z = zeller_eq [OF this]
  show ?thesis unfolding jf_date_getDayOfWeekFromDate_def Let_def
    by (simp only: True if_True prod.case smod_7 z)
next
  case False
  have "0 \<le> year" "0 \<le> mon" using assms by simp_all
  note z = zeller_eq [OF this]
  show ?thesis unfolding jf_date_getDayOfWeekFromDate_def Let_def
    by (simp only: False if_False prod.case smod_7 z)
qed

lemma week_sum:
  fixes y :: int
  assumes "7 dvd k - e - 1 - m + 719524"
  shows "(y - e + (L + b) - 126 * c + k + d - 1) mod 7 = (d + (m + b) + 365 * (y - 1970) + L - 477 + 3) mod 7"
proof -
  have "(y - e + (L + b) - 126 * c + k + d - 1) - (d + (m + b) + 365 * (y - 1970) + L - 477 + 3) =
      7 * (- 52 * y - 18 * c) + (k - e - 1 - m + 719524)" by simp
  also have "7 dvd \<dots>" using assms by simp
  finally show ?thesis by (simp only: mod_eq_dvd_iff)
qed

lemma dayOfWeek_days:
  assumes "1970 \<le> year" "1 \<le> mon" "mon \<le> 12"
  shows "jf_date_getDayOfWeekFromDate year mon day = (jf_date_convertDateToDaysFrom1970 year mon day + 3) mod 7"
proof -
  define b where "b = (of_bool (jf_date_isLeapYear year) :: int)"
  have l: "leap_days year = leap_days (year - 1) + b" using leap_days_step [of year] assms(1) by (simp add: b_def)
  have A: "jf_date_getDayOfWeekFromDate year mon day = (jf_date_convertDateToDaysFrom1970 year mon day + 3) mod 7"
    if "mon \<le> 2" "month_start year mon = m + 0" "7 dvd 13 * (mon + 12 + 1) div 5 - 1 - 1 - m + 719524" for m
    using week_sum [OF that(3), of year "leap_days (year - 1)" 0 "(year - 1) div 100" day] that(1,2)
    by (simp only: getDayOfWeek_eq [OF assms(1,2)] convertDate_eq [OF assms(1)] if_True Let_def prod.case add_0_right)
  have B: "jf_date_getDayOfWeekFromDate year mon day = (jf_date_convertDateToDaysFrom1970 year mon day + 3) mod 7"
    if "\<not> mon \<le> 2" "month_start year mon = m + b" "7 dvd 13 * (mon + 1) div 5 - 0 - 1 - m + 719524" for m
    using week_sum [OF that(3), of year "leap_days (year - 1)" b "year div 100" day] that(1,2)
    by (simp only: getDayOfWeek_eq [OF assms(1,2)] convertDate_eq [OF assms(1)] if_False Let_def prod.case l diff_0_right)
  note start = month_start_eq [of year, folded b_def]
  from assms(2,3) show ?thesis
  proof (cases rule: month_cases)
    case 1
    show ?thesis by (rule A [of 0]; simp add: 1 start)
  next
    case 2
    show ?thesis by (rule A [of 31]; simp add: 2 start)
  next
    case 3
    show ?thesis by (rule B [of 59]; simp add: 3 start)
  next
    case 4
    show ?thesis by (rule B [of 90]; simp add: 4 start)
  next
    case 5
    show ?thesis by (rule B [of 120]; simp add: 5 start)
  next
    case 6
    show ?thesis by (rule B [of 151]; simp add: 6 start)
  next
    case 7
    show ?thesis by (rule B [of 181]; simp add: 7 start)
  next
    case 8
    show ?thesis by (rule B [of 212]; simp add: 8 start)
  next
    case 9
    show ?thesis by (rule B [of 243]; simp add: 9 start)
  next
    case 10
    show ?thesis by (rule B [of 273]; simp add: 10 start)
  next
    case 11
    show ?thesis by (rule B [of 304]; simp add: 11 start)
  next
    case 12
    show ?thesis by (rule B [of 334]; simp add: 12 start)
  qed
qed

section \<open>Back from the day count\<close>

lemma getDaysOfYear_pos: "365 \<le> jf_date_getDaysOfYear y"
  by (simp add: jf_date_getDaysOfYear_def)

lemma add_years_acc: "add_years s y r = r + add_years s y 0"
proof (induction "nat (y - s)" arbitrary: s r)
  case 0
  then show ?case by (simp add: add_years.simps)
next
  case (Suc n)
  then have "s < y" "n = nat (y - (s + 1))" by simp_all
  note IH = Suc(1) [OF this(2)]
  show ?case
    using \<open>s < y\<close> add_years.simps [of s y r] add_years.simps [of s y 0] IH [of "r + jf_date_getDaysOfYear s"]
      IH [of "jf_date_getDaysOfYear s"] by simp
qed

lemma add_years_step: "s < y \<Longrightarrow> add_years s y 0 = jf_date_getDaysOfYear s + add_years (s + 1) y 0"
  using add_years.simps [of s y 0] add_years_acc [of "s + 1" y "jf_date_getDaysOfYear s"] by simp

lemma add_years_nonneg: "0 \<le> add_years s y 0"
proof (induction "nat (y - s)" arbitrary: s)
  case 0
  then show ?case by (simp add: add_years.simps)
next
  case (Suc n)
  then have "s < y" "n = nat (y - (s + 1))" by simp_all
  with Suc(1) [OF this(2)] show ?case using add_years_step [of s y] getDaysOfYear_pos [of s] by simp
qed

lemma find_year_eq:
  "s \<le> y \<Longrightarrow> 0 < ret - add_years s y 0 \<Longrightarrow> ret - add_years s y 0 \<le> jf_date_getDaysOfYear y \<Longrightarrow>
    find_year ret s = (ret - add_years s y 0 - jf_date_getDaysOfYear y, y)"
proof (induction ret s rule: find_year.induct)
  case (1 ret s)
  have pos: "0 < ret" using 1(3) add_years_nonneg [of s y] by simp
  show ?case
  proof (cases "s = y")
    case True
    then have "add_years s y 0 = 0" by (simp add: add_years.simps)
    then show ?thesis using 1(4) pos True by (simp add: find_year.simps [of ret] find_year.simps [of "ret - _"])
  next
    case False
    then have "s < y" using 1(2) by simp
    note st = add_years_step [OF this]
    have p: "0 < ret - jf_date_getDaysOfYear s" using 1(3) st add_years_nonneg [of "s + 1" y] by simp
    have "find_year ret s = find_year (ret - jf_date_getDaysOfYear s) (s + 1)"
      using pos p by (subst find_year.simps) simp
    then show ?thesis using 1(1) [OF pos refl] 1(3,4) p st \<open>s < y\<close> by simp
  qed
qed

lemmas day_rules =
  isDayInRange_def jf_date_getDaysOfMonth_def jf_date_getDaysOfYear_def month_start_eq Let_def

lemma find_month_eq:
  assumes "1 \<le> mon" "mon \<le> 12" "isDayInRange year mon day"
  shows "find_month 12 0 (month_table year) 0 (month_start year mon + day) = Some (mon, day)"
proof -
  have t: "month_table year = [0, 31, if jf_date_isLeapYear year then 29 else 28, 31, 30, 31, 30, 31, 31, 30, 31, 30, 31]"
    by (simp add: month_table_def Let_def eval_nat_numeral)
  from assms(1,2) show ?thesis
    unfolding t
    by (cases rule: month_cases; insert assms(3); cases "jf_date_isLeapYear year")
      (simp_all add: day_rules numeral_eq_Suc split: if_splits)
qed

lemma day_of_year_range:
  assumes "1 \<le> mon" "mon \<le> 12" "isDayInRange year mon day"
  shows "0 < month_start year mon + day" "month_start year mon + day \<le> jf_date_getDaysOfYear year"
proof -
  have "0 < month_start year mon + day \<and> month_start year mon + day \<le> jf_date_getDaysOfYear year"
    using assms(1,2)
    by (cases rule: month_cases; insert assms(3); cases "jf_date_isLeapYear year") (simp_all add: day_rules split: if_splits)
  then show "0 < month_start year mon + day" "month_start year mon + day \<le> jf_date_getDaysOfYear year" by simp_all
qed

lemma convertDate_add_years:
  "jf_date_convertDateToDaysFrom1970 year mon day = month_start year mon + day + add_years 1970 year 0"
  using foldl_plus [of "\<lambda>i. days_table year ! i" day "[0..<nat mon]"]
    add_years_acc [of 1970 year "month_start year mon + day"]
  by (simp add: jf_date_convertDateToDaysFrom1970_def month_start_def Let_def add.commute)

text \<open>Days that are not positive are not dates before 1970: day 0 is the last day of 1970.\<close>

lemma day_zero: "jf_date_convertDaysFrom1970ToDate 0 mon day = (1970, 12, 31)"
proof -
  have "\<not> jf_date_isLeapYear 1970" by (simp add: isLeapYear_iff)
  then have "find_month 12 0 (month_table 1970) 0 365 = Some (12, 31)"
    using find_month_eq [of 12 1970 31] by (simp add: day_rules)
  then show ?thesis
    using \<open>\<not> jf_date_isLeapYear 1970\<close>
    by (simp add: jf_date_convertDaysFrom1970ToDate_def find_year.simps jf_date_getDaysOfYear_def)
qed

lemma days_fit:
  assumes "valid_date year mon day" "year \<le> 5000000"
  shows "0 < jf_date_convertDateToDaysFrom1970 year mon day" "jf_date_convertDateToDaysFrom1970 year mon day < 2 ^ 31"
proof -
  have v: "1970 \<le> year" "1 \<le> mon" "mon \<le> 12" "isDayInRange year mon day" using assms(1) by (simp_all add: valid_date_def)
  note r = day_of_year_range [OF v(2-4)]
  show "0 < jf_date_convertDateToDaysFrom1970 year mon day"
    using r add_years_nonneg [of 1970 year] by (simp add: convertDate_add_years)
  have "(year - 1) div 4 \<le> 1250000" "0 \<le> (year - 1) div 100" "(year - 1) div 400 \<le> 12500"
    using v(1) assms(2) by (simp_all add: pos_imp_zdiv_nonneg_iff)
  then have "leap_days (year - 1) \<le> 1262500" by (simp add: leap_days_def)
  moreover have "jf_date_getDaysOfYear year \<le> 366" by (simp add: jf_date_getDaysOfYear_def)
  ultimately show "jf_date_convertDateToDaysFrom1970 year mon day < 2 ^ 31"
    using r(2) assms(2) unfolding convertDate_eq [OF v(1)] by simp
qed

section \<open>Text\<close>

lemma u32_of_int:
  assumes "0 \<le> v" "v < 2 ^ 31"
  shows "uint (of_int v :: u32) = v" "sint (of_int v :: u32) = v"
proof -
  show u: "uint (of_int v :: u32) = v" using assms by (simp add: uint_word_of_int)
  then show "sint (of_int v :: u32) = v"
    using assms by (simp add: signed_of_int signed_take_bit_int_eq_self)
qed

lemma getDateFromString_parts:
  assumes "0 \<le> y" "y < 2 ^ 31" "1970 \<le> y" "y \<le> 2037" "1 \<le> m" "m \<le> 12" "isDayInRange y m d" "d < 2 ^ 31"
    and "sep \<notin> set ys" "sep \<notin> set ms" "scanInt 4 ys = Some y" "scanInt 2 ms = Some m" "scanInt 2 ds = Some d"
    and "length ys + length ms + length ds + 2 \<le> 99"
  shows "getDateFromString sep (ys @ [sep] @ ms @ [sep] @ ds) out = (JF_ERR_NO_ERROR, y, m, d)"
proof -
  have d: "0 \<le> d" using assms(7) by (auto simp: isDayInRange_def Let_def split: if_splits)
  have t: "take 99 (ys @ [sep] @ ms @ [sep] @ ds) = ys @ [sep] @ ms @ [sep] @ ds" using assms(14) by simp
  show ?thesis
    unfolding getDateFromString_def t
    using assms d by (cases out) (simp add: strchr_append u32_of_int word_le_def Let_def)
qed

section \<open>Properties\<close>





end
