(* ===== verification/Jf_Chain.thy ===== *)
theory Jf_Chain
  imports Jf_Prelude "HOL-Library.Monad_Syntax"
begin

text \<open>
  What the linked containers share: nodes are reached through their addresses, \<open>0\<close> is the null
  pointer, and reading a node that is not allocated is \<open>None\<close>. \<open>chain nx p ns\<close>: following the link
  \<open>nx\<close> from \<open>p\<close> visits exactly the nodes \<open>ns\<close> and ends at the null pointer.
\<close>

type_synonym addr = nat

fun chain :: "(addr \<Rightarrow> addr option) \<Rightarrow> addr \<Rightarrow> addr list \<Rightarrow> bool" where
  "chain nx p [] \<longleftrightarrow> p = 0"
| "chain nx p (n # ns) \<longleftrightarrow> p = n \<and> n \<noteq> 0 \<and> (case nx n of None \<Rightarrow> False | Some q \<Rightarrow> chain nx q ns)"

lemma chain_Cons_iff: "chain nx p (n # ns) \<longleftrightarrow> p = n \<and> n \<noteq> 0 \<and> (\<exists>q. nx n = Some q \<and> chain nx q ns)"
  by (auto split: option.splits)

declare chain.simps(2) [simp del]
declare chain_Cons_iff [simp]

lemma chain_null [simp]: "chain nx 0 ns \<longleftrightarrow> ns = []"
  by (cases ns) auto

lemma chain_nonnull: "p \<noteq> 0 \<Longrightarrow> chain nx p ns \<Longrightarrow> \<exists>q ns'. ns = p # ns' \<and> nx p = Some q \<and> chain nx q ns'"
  by (cases ns) auto

lemma chain_unique: "chain nx p ns \<Longrightarrow> chain nx p ns' \<Longrightarrow> ns = ns'"
proof (induction ns arbitrary: p ns')
  case Nil
  then show ?case by (cases ns') auto
next
  case (Cons n ns)
  then show ?case by (cases ns') auto
qed

lemma chain_suffix: "chain nx p (xs @ y # ys) \<Longrightarrow> chain nx y (y # ys)"
  by (induction xs arbitrary: p) auto

lemma chain_distinct: "chain nx p ns \<Longrightarrow> distinct ns"
proof (induction ns arbitrary: p)
  case (Cons n ns)
  have "n \<notin> set ns"
  proof
    assume "n \<in> set ns"
    then obtain xs ys where ns: "ns = xs @ n # ys" by (auto dest: split_list)
    then have "chain nx n (n # ys)" using Cons.prems chain_suffix [of nx _ "n # xs" n ys] by auto
    then have "n # ns = n # ys" using Cons.prems chain_unique [of nx n "n # ns" "n # ys"] by auto
    then show False using ns by simp
  qed
  with Cons show ?case by auto
qed simp

lemma chain_live: "chain nx p ns \<Longrightarrow> n \<in> set ns \<Longrightarrow> n \<noteq> 0 \<and> nx n \<noteq> None"
  by (induction ns arbitrary: p) auto

lemma chain_cong: "(\<And>n. n \<in> set ns \<Longrightarrow> nx n = nx' n) \<Longrightarrow> chain nx p ns \<longleftrightarrow> chain nx' p ns"
proof (induction ns arbitrary: p)
  case (Cons n ns)
  then have "chain nx q ns \<longleftrightarrow> chain nx' q ns" for q by simp
  with Cons.prems show ?case by simp
qed simp

lemma chain_upd: "a \<notin> set ns \<Longrightarrow> chain (nx(a := v)) p ns \<longleftrightarrow> chain nx p ns"
  by (rule chain_cong) auto

lemma chain_append:
  "chain nx p ns \<Longrightarrow> ns \<noteq> [] \<Longrightarrow> a \<noteq> 0 \<Longrightarrow> a \<notin> set ns \<Longrightarrow> chain (nx(a := Some 0, last ns := Some a)) p (ns @ [a])"
proof (induction ns arbitrary: p)
  case (Cons n ns)
  show ?case
  proof (cases "ns = []")
    case True
    with Cons.prems show ?thesis by auto
  next
    case False
    obtain q where q: "nx n = Some q" "chain nx q ns" using Cons.prems by auto
    have "chain (nx(a := Some 0, last ns := Some a)) q (ns @ [a])" 
      by (rule Cons.IH [OF q(2) False]) (use Cons.prems in auto)
    moreover have "last ns \<noteq> n" using chain_distinct [OF Cons.prems(1)] False by auto
    ultimately show ?thesis using Cons.prems q False by (auto simp: fun_upd_def)
  qed
qed simp

text \<open>What the containers rely on of the allocator: the memory is new.\<close>

definition alloc_fresh :: "((addr \<Rightarrow> 'v option) \<Rightarrow> addr option) \<Rightarrow> bool" where
  "alloc_fresh alloc \<longleftrightarrow> (\<forall>h a. alloc h = Some a \<longrightarrow> a \<noteq> 0 \<and> h a = None)"

text \<open>An allocator that hands out the lowest free address below a bound.\<close>

definition first_free :: "nat \<Rightarrow> (addr \<Rightarrow> 'v option) \<Rightarrow> addr option" where
  "first_free n h = find (\<lambda>a. h a = None) [1..<n]"

lemma first_free_fresh: "alloc_fresh (first_free n)"
  by (auto simp: alloc_fresh_def first_free_def find_Some_iff)

section \<open>A container that hands its elements out one by one\<close>

text \<open>
  The contract of the queue and the stack: \<open>rep s ds\<close> is that the state \<open>s\<close> holds the elements \<open>ds\<close>, the next
  one to be taken first; \<open>ins\<close> says where a new element goes.
\<close>

datatype 'd access = Put 'd | Take | Look

datatype 'd outcome = Status jf_err | Element "'d option"

fun spec_run :: "('d \<Rightarrow> 'd list \<Rightarrow> 'd list) \<Rightarrow> 'd access list \<Rightarrow> 'd outcome list \<Rightarrow> 'd list \<Rightarrow> 'd list option" where
  "spec_run ins [] [] ds = Some ds"
| "spec_run ins (Put d # as) (Status e # os) ds =
     (if e = JF_ERR_NO_ERROR then spec_run ins as os (ins d ds)
      else if e = JF_ERR_JIUKUN_OUT_OF_MEMORY then spec_run ins as os ds
      else None)"
| "spec_run ins (Take # as) (Element r # os) ds =
     (case ds of
        [] \<Rightarrow> if r = None then spec_run ins as os [] else None
      | d # ds' \<Rightarrow> if r = Some d then spec_run ins as os ds' else None)"
| "spec_run ins (Look # as) (Element r # os) ds =
     (case ds of
        [] \<Rightarrow> if r = None then spec_run ins as os [] else None
      | d # ds' \<Rightarrow> if r = Some d then spec_run ins as os (d # ds') else None)"
| "spec_run ins _ _ ds = None"

fun access_run ::
  "('s \<Rightarrow> 'd \<Rightarrow> (jf_err \<times> 's) option) \<Rightarrow> ('s \<Rightarrow> ('d option \<times> 's) option) \<Rightarrow> ('s \<Rightarrow> 'd option option) \<Rightarrow>
    'd access list \<Rightarrow> 's \<Rightarrow> ('d outcome list \<times> 's) option" where
  "access_run cput ctake clook [] s = Some ([], s)"
| "access_run cput ctake clook (Put d # as) s =
     (case cput s d of
        None \<Rightarrow> None
      | Some (e, s) \<Rightarrow> map_option (\<lambda>(os, s). (Status e # os, s)) (access_run cput ctake clook as s))"
| "access_run cput ctake clook (Take # as) s =
     (case ctake s of
        None \<Rightarrow> None
      | Some (r, s) \<Rightarrow> map_option (\<lambda>(os, s). (Element r # os, s)) (access_run cput ctake clook as s))"
| "access_run cput ctake clook (Look # as) s =
     (case clook s of
        None \<Rightarrow> None
      | Some r \<Rightarrow> map_option (\<lambda>(os, s). (Element r # os, s)) (access_run cput ctake clook as s))"

locale container =
  fixes rep :: "'s \<Rightarrow> 'd list \<Rightarrow> bool"
    and ins :: "'d \<Rightarrow> 'd list \<Rightarrow> 'd list"
    and cput :: "'s \<Rightarrow> 'd \<Rightarrow> (jf_err \<times> 's) option"
    and ctake :: "'s \<Rightarrow> ('d option \<times> 's) option"
    and clook :: "'s \<Rightarrow> 'd option option"
  assumes put_spec: "rep s ds \<Longrightarrow> \<exists>e s'. cput s d = Some (e, s') \<and>
      (e = JF_ERR_NO_ERROR \<and> rep s' (ins d ds) \<or> e = JF_ERR_JIUKUN_OUT_OF_MEMORY \<and> rep s' ds)"
    and take_empty: "rep s [] \<Longrightarrow> ctake s = Some (None, s)"
    and take_element: "rep s (d # ds) \<Longrightarrow> \<exists>s'. ctake s = Some (Some d, s') \<and> rep s' ds"
    and look_spec: "rep s ds \<Longrightarrow> clook s = Some (case ds of [] \<Rightarrow> None | d # _ \<Rightarrow> Some d)"
begin

lemma refines:
  "rep s ds \<Longrightarrow> \<exists>os s' ds'. access_run cput ctake clook as s = Some (os, s') \<and> spec_run ins as os ds = Some ds' \<and> rep s' ds'"
proof (induction as arbitrary: s ds)
  case Nil
  then show ?case by auto
next
  case (Cons a as)
  show ?case
  proof (cases a)
    case (Put d)
    obtain e s' where p: "cput s d = Some (e, s')"
        "e = JF_ERR_NO_ERROR \<and> rep s' (ins d ds) \<or> e = JF_ERR_JIUKUN_OUT_OF_MEMORY \<and> rep s' ds"
      using put_spec [OF Cons.prems] by blast
    then show ?thesis using Cons.IH [of s'] Put by (elim disjE) (fastforce)+
  next
    case Take
    show ?thesis
    proof (cases ds)
      case Nil
      then show ?thesis using take_empty [of s] Cons.IH [of s "[]"] Cons.prems Take by fastforce
    next
      case (Cons d ds')
      then show ?thesis using take_element [of s d ds'] Cons.IH Cons.prems Take by fastforce
    qed
  next
    case Look
    show ?thesis using look_spec [OF Cons.prems] Cons.IH [OF Cons.prems] Look by (cases ds) fastforce+
  qed
qed

end

section \<open>A list that grows at its end\<close>

fun append_all :: "('s \<Rightarrow> 'd \<Rightarrow> (jf_err \<times> 's) option) \<Rightarrow> 'd list \<Rightarrow> 's \<Rightarrow> (jf_err \<times> 's) option" where
  "append_all app [] s = Some (JF_ERR_NO_ERROR, s)"
| "append_all app (d # ds) s =
     (case app s d of
        None \<Rightarrow> None
      | Some (e, s) \<Rightarrow> if e = JF_ERR_NO_ERROR then append_all app ds s else Some (e, s))"

locale appendable =
  fixes rep :: "'s \<Rightarrow> 'd list \<Rightarrow> bool"
    and app :: "'s \<Rightarrow> 'd \<Rightarrow> (jf_err \<times> 's) option"
  assumes app_spec: "rep s ds \<Longrightarrow> \<exists>e s'. app s d = Some (e, s') \<and>
      (e = JF_ERR_NO_ERROR \<and> rep s' (ds @ [d]) \<or> e = JF_ERR_JIUKUN_OUT_OF_MEMORY \<and> rep s' ds)"
begin

lemma append_all_spec:
  "rep s ds \<Longrightarrow> \<exists>e s' k. append_all app es s = Some (e, s') \<and> k \<le> length es \<and> rep s' (ds @ take k es) \<and>
    (e = JF_ERR_NO_ERROR \<and> k = length es \<or> e = JF_ERR_JIUKUN_OUT_OF_MEMORY \<and> k < length es)"
proof (induction es arbitrary: s ds)
  case Nil
  then show ?case by auto
next
  case (Cons d es)
  obtain e s' where p: "app s d = Some (e, s')"
      "e = JF_ERR_NO_ERROR \<and> rep s' (ds @ [d]) \<or> e = JF_ERR_JIUKUN_OUT_OF_MEMORY \<and> rep s' ds"
    using app_spec [OF Cons.prems] by blast
  show ?case
  proof (cases "e = JF_ERR_NO_ERROR")
    case True
    then have "rep s' (ds @ [d])" using p(2) by simp
    from Cons.IH [OF this] obtain e' s'' k where IH: "append_all app es s' = Some (e', s'')" "k \<le> length es"
        "rep s'' ((ds @ [d]) @ take k es)"
        "e' = JF_ERR_NO_ERROR \<and> k = length es \<or> e' = JF_ERR_JIUKUN_OUT_OF_MEMORY \<and> k < length es" by blast
    then show ?thesis using p True by (intro exI [of _ e'] exI [of _ s''] exI [of _ "Suc k"]) auto
  next
    case False
    then show ?thesis using p by (intro exI [of _ e] exI [of _ s'] exI [of _ 0]) auto
  qed
qed

end

end
