(* ===== verification/Jf_Linklist.thy ===== *)
theory Jf_Linklist
  imports Jf_Chain
begin

text \<open>
  The lists of \<^verbatim>\<open>src/jiutai/jf_linklist.c\<close> (singly linked) and \<^verbatim>\<open>src/jiutai/jf_dlinklist.c\<close> (doubly linked): nodes in a
  heap, as for the queue. The callback of an iteration gets the heap, the node and its argument and
  returns a status and the new heap and argument. The search callback is a predicate on the data.
\<close>

section \<open>Linked list\<close>

record 'd jf_linklist_node =
  jln_pjlnNext :: addr
  jln_pData :: 'd

record jf_linklist =
  jl_pjlnHead :: addr

type_synonym 'd link_heap = "addr \<Rightarrow> 'd jf_linklist_node option"

definition jf_linklist_init :: jf_linklist where
  "jf_linklist_init = \<lparr>jl_pjlnHead = 0\<rparr>"

partial_function (option) free_link_nodes :: "'d link_heap \<Rightarrow> addr \<Rightarrow> 'd list \<Rightarrow> ('d link_heap \<times> 'd list) option" where
  "free_link_nodes h pjln freed =
     (if pjln \<noteq> 0 then
        Option.bind (h pjln) (\<lambda>n. free_link_nodes (h(pjln := None)) (jln_pjlnNext n) (freed @ [jln_pData n]))
      else Some (h, freed))"

text \<open>The data is released only when there is a callback.\<close>

definition freeLinklist :: "'d link_heap \<Rightarrow> jf_linklist \<Rightarrow> bool \<Rightarrow> ('d list \<times> 'd link_heap \<times> jf_linklist) option" where
  "freeLinklist h pList fnFreeData =
     (case free_link_nodes h (jl_pjlnHead pList) [] of
        None \<Rightarrow> None
      | Some (h, freed) \<Rightarrow> Some (if fnFreeData then freed else [], h, jf_linklist_init))"

definition jf_linklist_fini :: "'d link_heap \<Rightarrow> jf_linklist \<Rightarrow> ('d list \<times> 'd link_heap \<times> jf_linklist) option" where
  "jf_linklist_fini h pList = freeLinklist h pList False"

definition jf_linklist_finiListAndData :: "'d link_heap \<Rightarrow> jf_linklist \<Rightarrow> ('d list \<times> 'd link_heap \<times> jf_linklist) option" where
  "jf_linklist_finiListAndData h pList = freeLinklist h pList True"

partial_function (option) last_link_node :: "'d link_heap \<Rightarrow> addr \<Rightarrow> addr option" where
  "last_link_node h pjln =
     Option.bind (h pjln) (\<lambda>n. if jln_pjlnNext n \<noteq> 0 then last_link_node h (jln_pjlnNext n) else Some pjln)"

definition set_link_next :: "'d link_heap \<Rightarrow> addr \<Rightarrow> addr \<Rightarrow> 'd link_heap option" where
  "set_link_next h a q = map_option (\<lambda>n. h(a \<mapsto> n\<lparr>jln_pjlnNext := q\<rparr>)) (h a)"

definition jf_linklist_appendTo ::
  "('d link_heap \<Rightarrow> addr option) \<Rightarrow> 'd link_heap \<Rightarrow> jf_linklist \<Rightarrow> 'd \<Rightarrow> (jf_err \<times> 'd link_heap \<times> jf_linklist) option" where
  "jf_linklist_appendTo alloc h pList pData =
     (case alloc h of
        None \<Rightarrow> Some (JF_ERR_JIUKUN_OUT_OF_MEMORY, h, pList)
      | Some pNode \<Rightarrow>
          (let h = h(pNode \<mapsto> \<lparr>jln_pjlnNext = 0, jln_pData = pData\<rparr>)
           in if jl_pjlnHead pList = 0 then Some (JF_ERR_NO_ERROR, h, pList\<lparr>jl_pjlnHead := pNode\<rparr>)
              else
                (case last_link_node h (jl_pjlnHead pList) of
                   None \<Rightarrow> None
                 | Some pjln \<Rightarrow> map_option (\<lambda>h. (JF_ERR_NO_ERROR, h, pList)) (set_link_next h pjln pNode))))"

partial_function (option) remove_loop :: "'d link_heap \<Rightarrow> addr \<Rightarrow> addr \<Rightarrow> 'd \<Rightarrow> 'd link_heap option" where
  "remove_loop h pjln pNext pData =
     (if pNext \<noteq> 0 then
        Option.bind (h pNext)
          (\<lambda>n. if jln_pData n = pData
               then map_option (\<lambda>h. h(pNext := None)) (set_link_next h pjln (jln_pjlnNext n))
               else Option.bind (h pjln)
                      (\<lambda>m. Option.bind (h (jln_pjlnNext m)) (\<lambda>k. remove_loop h (jln_pjlnNext m) (jln_pjlnNext k) pData)))
      else Some h)"

definition jf_linklist_remove ::
  "'d link_heap \<Rightarrow> jf_linklist \<Rightarrow> 'd \<Rightarrow> (jf_err \<times> 'd link_heap \<times> jf_linklist) option" where
  "jf_linklist_remove h pList pData =
     (if jl_pjlnHead pList = 0 then Some (JF_ERR_NO_ERROR, h, pList)
      else
        (case h (jl_pjlnHead pList) of
           None \<Rightarrow> None
         | Some n \<Rightarrow>
             (if jln_pData n = pData then
                Some (JF_ERR_NO_ERROR, h(jl_pjlnHead pList := None), pList\<lparr>jl_pjlnHead := jln_pjlnNext n\<rparr>)
              else map_option (\<lambda>h. (JF_ERR_NO_ERROR, h, pList)) (remove_loop h (jl_pjlnHead pList) (jln_pjlnNext n) pData))))"

definition jf_linklist_insertTo ::
  "('d link_heap \<Rightarrow> addr option) \<Rightarrow> 'd link_heap \<Rightarrow> jf_linklist \<Rightarrow> 'd \<Rightarrow> (jf_err \<times> 'd link_heap \<times> jf_linklist) option" where
  "jf_linklist_insertTo alloc h pList pData =
     (case alloc h of
        None \<Rightarrow> Some (JF_ERR_JIUKUN_OUT_OF_MEMORY, h, pList)
      | Some pNode \<Rightarrow>
          Some (JF_ERR_NO_ERROR, h(pNode \<mapsto> \<lparr>jln_pjlnNext = jl_pjlnHead pList, jln_pData = pData\<rparr>),
            pList\<lparr>jl_pjlnHead := pNode\<rparr>))"

partial_function (option) iterate_loop ::
  "('d link_heap \<Rightarrow> addr \<Rightarrow> 'a \<Rightarrow> jf_err \<times> 'd link_heap \<times> 'a) \<Rightarrow> 'd link_heap \<Rightarrow> addr \<Rightarrow> 'a \<Rightarrow> (jf_err \<times> 'd link_heap \<times> 'a) option" where
  "iterate_loop fnOpNode h pjln pArg =
     (if pjln \<noteq> 0 then
        Option.bind (h pjln)
          (\<lambda>n. let r = fnOpNode h pjln pArg
               in if fst r = JF_ERR_NO_ERROR
                  then iterate_loop fnOpNode (fst (snd r)) (jln_pjlnNext n) (snd (snd r))
                  else Some r)
      else Some (JF_ERR_NO_ERROR, h, pArg))"

definition jf_linklist_iterate ::
  "('d link_heap \<Rightarrow> addr \<Rightarrow> 'a \<Rightarrow> jf_err \<times> 'd link_heap \<times> 'a) \<Rightarrow> 'd link_heap \<Rightarrow> jf_linklist \<Rightarrow> 'a \<Rightarrow>
    (jf_err \<times> 'd link_heap \<times> 'a) option" where
  "jf_linklist_iterate fnOpNode h pList pArg = iterate_loop fnOpNode h (jl_pjlnHead pList) pArg"

definition jf_linklist_isEmpty :: "jf_linklist \<Rightarrow> bool" where
  "jf_linklist_isEmpty pList = (if jl_pjlnHead pList = 0 then True else False)"

definition jf_linklist_getFirstNode :: "jf_linklist \<Rightarrow> addr" where
  "jf_linklist_getFirstNode pList = jl_pjlnHead pList"

definition jf_linklist_getNextNode :: "'d link_heap \<Rightarrow> addr \<Rightarrow> addr option" where
  "jf_linklist_getNextNode h pNode = map_option jln_pjlnNext (h pNode)"

definition jf_linklist_getDataFromNode :: "'d link_heap \<Rightarrow> addr \<Rightarrow> 'd option" where
  "jf_linklist_getDataFromNode h pNode = map_option jln_pData (h pNode)"

section \<open>Doubly linked list\<close>

record 'd jf_dlinklist_node =
  jdn_pjdnNext :: addr
  jdn_pjdnPrev :: addr
  jdn_pData :: 'd

record jf_dlinklist =
  jd_pjdnHead :: addr
  jd_pjdnTail :: addr

type_synonym 'd dlink_heap = "addr \<Rightarrow> 'd jf_dlinklist_node option"

definition jf_dlinklist_init :: jf_dlinklist where
  "jf_dlinklist_init = \<lparr>jd_pjdnHead = 0, jd_pjdnTail = 0\<rparr>"

partial_function (option) free_dlink_nodes :: "'d dlink_heap \<Rightarrow> addr \<Rightarrow> 'd list \<Rightarrow> ('d dlink_heap \<times> 'd list) option" where
  "free_dlink_nodes h pjdn freed =
     (if pjdn \<noteq> 0 then
        Option.bind (h pjdn) (\<lambda>n. free_dlink_nodes (h(pjdn := None)) (jdn_pjdnNext n) (freed @ [jdn_pData n]))
      else Some (h, freed))"

definition jf_dlinklist_fini :: "'d dlink_heap \<Rightarrow> jf_dlinklist \<Rightarrow> ('d dlink_heap \<times> jf_dlinklist) option" where
  "jf_dlinklist_fini h pList =
     (case free_dlink_nodes h (jd_pjdnHead pList) [] of None \<Rightarrow> None | Some (h, _) \<Rightarrow> Some (h, jf_dlinklist_init))"

definition jf_dlinklist_finiListAndData ::
  "'d dlink_heap \<Rightarrow> jf_dlinklist \<Rightarrow> ('d list \<times> 'd dlink_heap \<times> jf_dlinklist) option" where
  "jf_dlinklist_finiListAndData h pList =
     (case free_dlink_nodes h (jd_pjdnHead pList) [] of None \<Rightarrow> None | Some (h, freed) \<Rightarrow> Some (freed, h, jf_dlinklist_init))"

definition jf_dlinklist_removeAllNodes ::
  "'d dlink_heap \<Rightarrow> jf_dlinklist \<Rightarrow> ('d list \<times> 'd dlink_heap \<times> jf_dlinklist) option" where
  "jf_dlinklist_removeAllNodes h pList =
     (case free_dlink_nodes h (jd_pjdnHead pList) [] of None \<Rightarrow> None | Some (h, freed) \<Rightarrow> Some (freed, h, jf_dlinklist_init))"

text \<open>The searches share one loop, forwards or backwards: the node found, or null.\<close>

partial_function (option) find_dlink_node ::
  "('d jf_dlinklist_node \<Rightarrow> addr) \<Rightarrow> 'd dlink_heap \<Rightarrow> ('d \<Rightarrow> bool) \<Rightarrow> addr \<Rightarrow> addr option" where
  "find_dlink_node step h fnFindData pjdn =
     (if pjdn \<noteq> 0 then
        Option.bind (h pjdn) (\<lambda>n. if fnFindData (jdn_pData n) then Some pjdn else find_dlink_node step h fnFindData (step n))
      else Some 0)"

definition found_node :: "addr \<Rightarrow> jf_err \<times> addr" where
  "found_node a = (if a \<noteq> 0 then JF_ERR_NO_ERROR else JF_ERR_NOT_FOUND, a)"

definition found_data :: "'d dlink_heap \<Rightarrow> addr \<Rightarrow> jf_err \<times> 'd option" where
  "found_data h a = (if a \<noteq> 0 then (JF_ERR_NO_ERROR, map_option jdn_pData (h a)) else (JF_ERR_NOT_FOUND, None))"

definition jf_dlinklist_findFirstData ::
  "'d dlink_heap \<Rightarrow> jf_dlinklist \<Rightarrow> ('d \<Rightarrow> bool) \<Rightarrow> (jf_err \<times> 'd option) option" where
  "jf_dlinklist_findFirstData h pList fnFindData =
     map_option (found_data h) (find_dlink_node jdn_pjdnNext h fnFindData (jd_pjdnHead pList))"

definition jf_dlinklist_findFirstNode :: "'d dlink_heap \<Rightarrow> jf_dlinklist \<Rightarrow> ('d \<Rightarrow> bool) \<Rightarrow> (jf_err \<times> addr) option" where
  "jf_dlinklist_findFirstNode h pList fnFindData =
     map_option found_node (find_dlink_node jdn_pjdnNext h fnFindData (jd_pjdnHead pList))"

definition jf_dlinklist_findLastData ::
  "'d dlink_heap \<Rightarrow> jf_dlinklist \<Rightarrow> ('d \<Rightarrow> bool) \<Rightarrow> (jf_err \<times> 'd option) option" where
  "jf_dlinklist_findLastData h pList fnFindData =
     map_option (found_data h) (find_dlink_node jdn_pjdnPrev h fnFindData (jd_pjdnTail pList))"

definition jf_dlinklist_findLastNode :: "'d dlink_heap \<Rightarrow> jf_dlinklist \<Rightarrow> ('d \<Rightarrow> bool) \<Rightarrow> (jf_err \<times> addr) option" where
  "jf_dlinklist_findLastNode h pList fnFindData =
     map_option found_node (find_dlink_node jdn_pjdnPrev h fnFindData (jd_pjdnTail pList))"

definition jf_dlinklist_findNextNode :: "'d dlink_heap \<Rightarrow> addr \<Rightarrow> ('d \<Rightarrow> bool) \<Rightarrow> (jf_err \<times> addr) option" where
  "jf_dlinklist_findNextNode h pNode fnFindData =
     (case h pNode of
        None \<Rightarrow> None
      | Some n \<Rightarrow> map_option found_node (find_dlink_node jdn_pjdnNext h fnFindData (jdn_pjdnNext n)))"

definition jf_dlinklist_findPrevNode :: "'d dlink_heap \<Rightarrow> addr \<Rightarrow> ('d \<Rightarrow> bool) \<Rightarrow> (jf_err \<times> addr) option" where
  "jf_dlinklist_findPrevNode h pNode fnFindData =
     (case h pNode of
        None \<Rightarrow> None
      | Some n \<Rightarrow> map_option found_node (find_dlink_node jdn_pjdnPrev h fnFindData (jdn_pjdnPrev n)))"

definition jf_dlinklist_appendTo ::
  "('d dlink_heap \<Rightarrow> addr option) \<Rightarrow> 'd dlink_heap \<Rightarrow> jf_dlinklist \<Rightarrow> 'd \<Rightarrow> (jf_err \<times> 'd dlink_heap \<times> jf_dlinklist) option" where
  "jf_dlinklist_appendTo alloc h pList pData =
     (case alloc h of
        None \<Rightarrow> Some (JF_ERR_JIUKUN_OUT_OF_MEMORY, h, pList)
      | Some pNode \<Rightarrow>
          (let node = \<lparr>jdn_pjdnNext = 0, jdn_pjdnPrev = 0, jdn_pData = pData\<rparr>
           in if jd_pjdnHead pList = 0 then
                Some (JF_ERR_NO_ERROR, h(pNode \<mapsto> node), pList\<lparr>jd_pjdnHead := pNode, jd_pjdnTail := pNode\<rparr>)
              else
                (let h = h(pNode \<mapsto> node\<lparr>jdn_pjdnPrev := jd_pjdnTail pList\<rparr>)
                 in case h (jd_pjdnTail pList) of
                      None \<Rightarrow> None
                    | Some t \<Rightarrow>
                        Some (JF_ERR_NO_ERROR, h(jd_pjdnTail pList \<mapsto> t\<lparr>jdn_pjdnNext := pNode\<rparr>),
                          pList\<lparr>jd_pjdnTail := pNode\<rparr>))))"

partial_function (option) diterate_loop ::
  "('d dlink_heap \<Rightarrow> addr \<Rightarrow> 'a \<Rightarrow> jf_err \<times> 'd dlink_heap \<times> 'a) \<Rightarrow> 'd dlink_heap \<Rightarrow> addr \<Rightarrow> 'a \<Rightarrow> (jf_err \<times> 'd dlink_heap \<times> 'a) option" where
  "diterate_loop fnOpNode h pjdn pArg =
     (if pjdn \<noteq> 0 then
        Option.bind (h pjdn)
          (\<lambda>n. let r = fnOpNode h pjdn pArg
               in if fst r = JF_ERR_NO_ERROR
                  then diterate_loop fnOpNode (fst (snd r)) (jdn_pjdnNext n) (snd (snd r))
                  else Some r)
      else Some (JF_ERR_NO_ERROR, h, pArg))"

definition jf_dlinklist_iterate ::
  "('d dlink_heap \<Rightarrow> addr \<Rightarrow> 'a \<Rightarrow> jf_err \<times> 'd dlink_heap \<times> 'a) \<Rightarrow> 'd dlink_heap \<Rightarrow> jf_dlinklist \<Rightarrow> 'a \<Rightarrow>
    (jf_err \<times> 'd dlink_heap \<times> 'a) option" where
  "jf_dlinklist_iterate fnOpNode h pList pArg = diterate_loop fnOpNode h (jd_pjdnHead pList) pArg"

definition jf_dlinklist_getDataFromNode :: "'d dlink_heap \<Rightarrow> addr \<Rightarrow> 'd option" where
  "jf_dlinklist_getDataFromNode h pNode = map_option jdn_pData (h pNode)"

definition jf_dlinklist_getFirstNode :: "jf_dlinklist \<Rightarrow> addr" where
  "jf_dlinklist_getFirstNode pList = jd_pjdnHead pList"

definition jf_dlinklist_getLastNode :: "jf_dlinklist \<Rightarrow> addr" where
  "jf_dlinklist_getLastNode pList = jd_pjdnTail pList"

definition jf_dlinklist_getNextNode :: "'d dlink_heap \<Rightarrow> addr \<Rightarrow> addr option" where
  "jf_dlinklist_getNextNode h pNode = map_option jdn_pjdnNext (h pNode)"

definition jf_dlinklist_getPrevNode :: "'d dlink_heap \<Rightarrow> addr \<Rightarrow> addr option" where
  "jf_dlinklist_getPrevNode h pNode = map_option jdn_pjdnPrev (h pNode)"

section \<open>What the heap of a linked list holds\<close>

definition lnext :: "'d link_heap \<Rightarrow> addr \<Rightarrow> addr option" where
  "lnext h = (\<lambda>a. map_option jln_pjlnNext (h a))"

definition ldata :: "'d link_heap \<Rightarrow> addr \<Rightarrow> 'd option" where
  "ldata h = (\<lambda>a. map_option jln_pData (h a))"

definition is_link :: "'d link_heap \<Rightarrow> jf_linklist \<Rightarrow> 'd list \<Rightarrow> bool" where
  "is_link h l ds \<longleftrightarrow> (\<exists>ns. chain (lnext h) (jl_pjlnHead l) ns \<and> map (ldata h) ns = map Some ds)"

lemma lnext_upd [simp]:
  "lnext (h(a \<mapsto> n)) = (lnext h)(a := Some (jln_pjlnNext n))" "lnext (h(a := None)) = (lnext h)(a := None)"
  by (auto simp: lnext_def)

lemma ldata_upd [simp]:
  "ldata (h(a \<mapsto> n)) = (ldata h)(a := Some (jln_pData n))" "ldata (h(a := None)) = (ldata h)(a := None)"
  by (auto simp: ldata_def)

lemma is_linkI: "chain (lnext h) (jl_pjlnHead l) ns \<Longrightarrow> map (ldata h) ns = map Some ds \<Longrightarrow> is_link h l ds"
  by (auto simp: is_link_def)

lemma is_linkE:
  assumes "is_link h l ds"
  obtains ns where "chain (lnext h) (jl_pjlnHead l) ns" "map (ldata h) ns = map Some ds"
  using assms unfolding is_link_def by blast

lemma is_link_init: "is_link h jf_linklist_init []"
  by (simp add: is_link_def jf_linklist_init_def)

lemma not_in_chain: "chain (lnext h) p ns \<Longrightarrow> h a = None \<Longrightarrow> a \<notin> set ns"
  using chain_live [of "lnext h" p ns a] by (auto simp: lnext_def)

lemma last_link_node_eq: "chain (lnext h) p ns \<Longrightarrow> ns \<noteq> [] \<Longrightarrow> last_link_node h p = Some (last ns)"
proof (induction ns arbitrary: p)
  case (Cons n ns)
  then obtain m where m: "p = n" "n \<noteq> 0" "h n = Some m" "chain (lnext h) (jln_pjlnNext m) ns" by (auto simp: lnext_def)
  show ?case
  proof (cases "ns = []")
    case True
    then show ?thesis using m by (subst last_link_node.simps) simp
  next
    case False
    then have "jln_pjlnNext m \<noteq> 0" using m(4) by (metis chain_null)
    then show ?thesis using Cons.IH [OF m(4) False] m False by (subst last_link_node.simps) simp
  qed
qed simp

lemma linklist_append:
  assumes l: "is_link h l ds" and a: "a \<noteq> 0" "h a = None" and alloc: "alloc h = Some a"
  shows "\<exists>h' l'. jf_linklist_appendTo alloc h l d = Some (JF_ERR_NO_ERROR, h', l') \<and> is_link h' l' (ds @ [d])"
proof -
  obtain ns where ns: "chain (lnext h) (jl_pjlnHead l) ns" "map (ldata h) ns = map Some ds" using l by (rule is_linkE)
  have an: "a \<notin> set ns" by (rule not_in_chain [OF ns(1) a(2)])
  let ?h = "h(a \<mapsto> \<lparr>jln_pjlnNext = 0, jln_pData = d\<rparr>)"
  have c: "chain (lnext ?h) (jl_pjlnHead l) ns" using ns(1) an by (simp add: chain_upd)
  show ?thesis
  proof (cases "ns = []")
    case True
    then have "jl_pjlnHead l = 0" "ds = []" using ns by auto
    moreover have "is_link ?h (l\<lparr>jl_pjlnHead := a\<rparr>) [d]" using a(1) by (intro is_linkI [of _ _ "[a]"]) simp_all
    ultimately show ?thesis using alloc by (simp add: jf_linklist_appendTo_def Let_def)
  next
    case False
    then have hd: "jl_pjlnHead l \<noteq> 0" using ns(1) by (metis chain_null)
    have la: "last ns \<noteq> a" using an False by auto
    obtain t where t: "h (last ns) = Some t" using chain_live [OF ns(1), of "last ns"] False by (auto simp: lnext_def)
    let ?h' = "?h(last ns \<mapsto> t\<lparr>jln_pjlnNext := a\<rparr>)"
    have "jf_linklist_appendTo alloc h l d = Some (JF_ERR_NO_ERROR, ?h', l)"
      using alloc hd last_link_node_eq [OF c False] t la by (simp add: jf_linklist_appendTo_def set_link_next_def Let_def)
    moreover have "is_link ?h' l (ds @ [d])"
    proof (rule is_linkI)
      show "chain (lnext ?h') (jl_pjlnHead l) (ns @ [a])" using chain_append [OF ns(1) False a(1) an] by simp
      have "ldata h (last ns) = Some (jln_pData t)" using t by (simp add: ldata_def)
      then have "map (ldata ?h') ns = map (ldata h) ns" "ldata ?h' a = Some d" using an la by auto
      then show "map (ldata ?h') (ns @ [a]) = map Some (ds @ [d])" using ns(2) by (simp only: map_append list.map)
    qed
    ultimately show ?thesis by blast
  qed
qed

lemma linklist_insert:
  assumes l: "is_link h l ds" and a: "a \<noteq> 0" "h a = None" and alloc: "alloc h = Some a"
  shows "\<exists>h' l'. jf_linklist_insertTo alloc h l d = Some (JF_ERR_NO_ERROR, h', l') \<and> is_link h' l' (d # ds)"
proof -
  obtain ns where ns: "chain (lnext h) (jl_pjlnHead l) ns" "map (ldata h) ns = map Some ds" using l by (rule is_linkE)
  have "a \<notin> set ns" by (rule not_in_chain [OF ns(1) a(2)])
  then have "is_link (h(a \<mapsto> \<lparr>jln_pjlnNext = jl_pjlnHead l, jln_pData = d\<rparr>)) (l\<lparr>jl_pjlnHead := a\<rparr>) (d # ds)"
    using ns a(1) by (intro is_linkI [of _ _ "a # ns"]) (simp_all add: chain_upd)
  then show ?thesis by (simp add: jf_linklist_insertTo_def alloc)
qed

lemma remove_loop_eq:
  "chain (lnext h) a (a # ns) \<Longrightarrow> lnext h a = Some q \<Longrightarrow> map (ldata h) ns = map Some ds \<Longrightarrow>
    \<exists>h' ns'. remove_loop h a q d = Some h' \<and> chain (lnext h') a (a # ns') \<and> map (ldata h') ns' = map Some (remove1 d ds) \<and>
      (\<forall>x. x \<notin> set (a # ns) \<longrightarrow> h' x = h x) \<and> ldata h' a = ldata h a"
proof (induction ns arbitrary: a q ds)
  case Nil
  then show ?case by (subst remove_loop.simps) auto
next
  case (Cons n ns)
  obtain e es where ds: "ds = e # es" using Cons.prems(3) by (cases ds) auto
  obtain m nd where m: "h a = Some m" "jln_pjlnNext m = n" "q = n" "h n = Some nd" "jln_pData nd = e" "n \<noteq> 0" "a \<noteq> 0"
      "chain (lnext h) (jln_pjlnNext nd) ns" "map (ldata h) ns = map Some es"
    using Cons.prems ds by (auto simp: lnext_def ldata_def)
  have dist: "a \<noteq> n" "a \<notin> set ns" "n \<notin> set ns" using chain_distinct [OF Cons.prems(1)] by auto
  show ?case
  proof (cases "e = d")
    case True
    let ?h = "(h(a \<mapsto> m\<lparr>jln_pjlnNext := jln_pjlnNext nd\<rparr>))(n := None)"
    have "remove_loop h a q d = Some ?h" using m dist True by (subst remove_loop.simps) (simp add: set_link_next_def)
    moreover have "chain (lnext ?h) a (a # ns)" using m dist by (simp add: chain_upd)
    moreover have "map (ldata ?h) ns = map Some (remove1 d ds)" using m(9) dist ds True by simp
    moreover have "ldata ?h a = ldata h a" using m dist by (simp add: ldata_def)
    moreover have "\<forall>x. x \<notin> set (a # n # ns) \<longrightarrow> ?h x = h x" by simp
    ultimately show ?thesis by blast
  next
    case False
    have r: "remove_loop h a q d = remove_loop h n (jln_pjlnNext nd) d" using m False by (subst remove_loop.simps) simp
    have "chain (lnext h) n (n # ns)" "lnext h n = Some (jln_pjlnNext nd)" using m by (simp_all add: lnext_def)
    from Cons.IH [OF this m(9)] obtain h' ns' where IH: "remove_loop h n (jln_pjlnNext nd) d = Some h'"
        "chain (lnext h') n (n # ns')" "map (ldata h') ns' = map Some (remove1 d es)"
        "\<forall>x. x \<notin> set (n # ns) \<longrightarrow> h' x = h x" "ldata h' n = ldata h n" by blast
    have "h' a = h a" using IH(4) dist by simp
    then have "lnext h' a = Some n" "ldata h' a = ldata h a" using m by (simp_all add: lnext_def ldata_def)
    moreover have "map (ldata h') (n # ns') = map Some (remove1 d ds)"
      using IH(3,5) ds False m by (simp add: ldata_def)
    moreover have "chain (lnext h') a (a # n # ns')" using IH(2) m(7) \<open>lnext h' a = Some n\<close> by simp
    moreover have "\<forall>x. x \<notin> set (a # n # ns) \<longrightarrow> h' x = h x" using IH(4) by simp
    ultimately show ?thesis using r IH(1) by metis
  qed
qed

lemma linklist_remove:
  assumes "is_link h l ds"
  shows "\<exists>h' l'. jf_linklist_remove h l d = Some (JF_ERR_NO_ERROR, h', l') \<and> is_link h' l' (remove1 d ds)"
proof -
  obtain ns where ns: "chain (lnext h) (jl_pjlnHead l) ns" "map (ldata h) ns = map Some ds" using assms by (rule is_linkE)
  show ?thesis
  proof (cases ns)
    case Nil
    then show ?thesis using ns assms by (auto simp: jf_linklist_remove_def)
  next
    case (Cons a ns')
    obtain e es where ds: "ds = e # es" using ns(2) Cons by (cases ds) auto
    obtain m where m: "jl_pjlnHead l = a" "a \<noteq> 0" "h a = Some m" "jln_pData m = e" "chain (lnext h) (jln_pjlnNext m) ns'"
        "map (ldata h) ns' = map Some es"
      using ns Cons ds by (auto simp: lnext_def ldata_def)
    show ?thesis
    proof (cases "e = d")
      case True
      have "a \<notin> set ns'" using chain_distinct [OF ns(1)] Cons by simp
      then have "is_link (h(a := None)) (l\<lparr>jl_pjlnHead := jln_pjlnNext m\<rparr>) es"
        using m by (intro is_linkI [of _ _ ns']) (simp_all add: chain_upd)
      then show ?thesis using m True ds by (simp add: jf_linklist_remove_def)
    next
      case False
      have "chain (lnext h) a (a # ns')" "lnext h a = Some (jln_pjlnNext m)" using m by (simp_all add: lnext_def)
      from remove_loop_eq [OF this m(6), of d] obtain h' ns'' where r: "remove_loop h a (jln_pjlnNext m) d = Some h'"
          "chain (lnext h') a (a # ns'')" "map (ldata h') ns'' = map Some (remove1 d es)" "ldata h' a = ldata h a" by blast
      then have "is_link h' l (remove1 d ds)"
        using m ds False by (intro is_linkI [of _ _ "a # ns''"]) (simp_all add: ldata_def)
      then show ?thesis using m r(1) False by (simp add: jf_linklist_remove_def)
    qed
  qed
qed

section \<open>Iteration\<close>

text \<open>The callbacks on the nodes in order, up to the first failure.\<close>

fun visit_all :: "('h \<Rightarrow> addr \<Rightarrow> 'a \<Rightarrow> jf_err \<times> 'h \<times> 'a) \<Rightarrow> 'h \<Rightarrow> addr list \<Rightarrow> 'a \<Rightarrow> jf_err \<times> 'h \<times> 'a" where
  "visit_all fn h [] arg = (JF_ERR_NO_ERROR, h, arg)"
| "visit_all fn h (n # ns) arg =
     (let r = fn h n arg in if fst r = JF_ERR_NO_ERROR then visit_all fn (fst (snd r)) ns (snd (snd r)) else r)"

text \<open>A callback that changes only the node it gets (it may release it).\<close>

definition local_callback :: "((addr \<Rightarrow> 'n option) \<Rightarrow> addr \<Rightarrow> 'a \<Rightarrow> jf_err \<times> (addr \<Rightarrow> 'n option) \<times> 'a) \<Rightarrow> bool" where
  "local_callback fn \<longleftrightarrow> (\<forall>h a arg x. x \<noteq> a \<longrightarrow> fst (snd (fn h a arg)) x = h x)"

lemma iterate_loop_eq:
  "local_callback fn \<Longrightarrow> chain (lnext h) p ns \<Longrightarrow> iterate_loop fn h p arg = Some (visit_all fn h ns arg)"
proof (induction ns arbitrary: h p arg)
  case Nil
  then show ?case by (subst iterate_loop.simps) simp
next
  case (Cons n ns)
  then obtain m where m: "p = n" "n \<noteq> 0" "h n = Some m" "chain (lnext h) (jln_pjlnNext m) ns" by (auto simp: lnext_def)
  let ?h = "fst (snd (fn h n arg))"
  have "n \<notin> set ns" using chain_distinct [OF Cons.prems(2)] by simp
  then have "?h x = h x" if "x \<in> set ns" for x
    using that Cons.prems(1) unfolding local_callback_def by (metis (no_types))
  then have "lnext h x = lnext ?h x" if "x \<in> set ns" for x using that by (simp add: lnext_def)
  then have "chain (lnext ?h) (jln_pjlnNext m) ns" using m(4) by (simp add: chain_cong [of ns "lnext h" "lnext ?h"])
  then show ?case using Cons.IH [OF Cons.prems(1)] m by (subst iterate_loop.simps) (simp add: Let_def)
qed

section \<open>What the heap of a doubly linked list holds\<close>

definition dnext :: "'d dlink_heap \<Rightarrow> addr \<Rightarrow> addr option" where
  "dnext h = (\<lambda>a. map_option jdn_pjdnNext (h a))"

definition dprev :: "'d dlink_heap \<Rightarrow> addr \<Rightarrow> addr option" where
  "dprev h = (\<lambda>a. map_option jdn_pjdnPrev (h a))"

definition ddata :: "'d dlink_heap \<Rightarrow> addr \<Rightarrow> 'd option" where
  "ddata h = (\<lambda>a. map_option jdn_pData (h a))"

text \<open>The same nodes forwards from the head and backwards from the tail.\<close>

definition dnodes :: "'d dlink_heap \<Rightarrow> jf_dlinklist \<Rightarrow> addr list \<Rightarrow> 'd list \<Rightarrow> bool" where
  "dnodes h l ns ds \<longleftrightarrow>
     chain (dnext h) (jd_pjdnHead l) ns \<and> chain (dprev h) (jd_pjdnTail l) (rev ns) \<and> map (ddata h) ns = map Some ds"

definition is_dlink :: "'d dlink_heap \<times> jf_dlinklist \<Rightarrow> 'd list \<Rightarrow> bool" where
  "is_dlink s ds \<longleftrightarrow> (\<exists>ns. dnodes (fst s) (snd s) ns ds)"

lemma dnext_upd [simp]:
  "dnext (h(a \<mapsto> n)) = (dnext h)(a := Some (jdn_pjdnNext n))" "dnext (h(a := None)) = (dnext h)(a := None)"
  by (auto simp: dnext_def)

lemma dprev_upd [simp]:
  "dprev (h(a \<mapsto> n)) = (dprev h)(a := Some (jdn_pjdnPrev n))" "dprev (h(a := None)) = (dprev h)(a := None)"
  by (auto simp: dprev_def)

lemma ddata_upd [simp]:
  "ddata (h(a \<mapsto> n)) = (ddata h)(a := Some (jdn_pData n))" "ddata (h(a := None)) = (ddata h)(a := None)"
  by (auto simp: ddata_def)

lemma is_dlink_init: "is_dlink (h, jf_dlinklist_init) []"
  by (simp add: is_dlink_def dnodes_def jf_dlinklist_init_def)

lemma dlinklist_append:
  assumes l: "dnodes h l ns ds" and a: "a \<noteq> 0" "h a = None" and alloc: "alloc h = Some a"
  shows "\<exists>h' l'. jf_dlinklist_appendTo alloc h l d = Some (JF_ERR_NO_ERROR, h', l') \<and> dnodes h' l' (ns @ [a]) (ds @ [d])"
proof (cases "ns = []")
  case True
  then have "jd_pjdnHead l = 0" "ds = []" using l by (auto simp: dnodes_def)
  with True a alloc show ?thesis by (auto simp: jf_dlinklist_appendTo_def dnodes_def Let_def)
next
  case False
  have c: "chain (dnext h) (jd_pjdnHead l) ns" "chain (dprev h) (jd_pjdnTail l) (rev ns)" "map (ddata h) ns = map Some ds"
    using l by (simp_all add: dnodes_def)
  have hd: "jd_pjdnHead l \<noteq> 0" using c(1) False by (metis chain_null)
  have tl: "jd_pjdnTail l = last ns" using c(2) False by (cases ns rule: rev_cases) auto
  have an: "a \<notin> set ns" using chain_live [OF c(1), of a] a(2) by (auto simp: dnext_def)
  have la: "last ns \<noteq> a" using an False by auto
  obtain t where t: "h (last ns) = Some t" using chain_live [OF c(1), of "last ns"] False by (auto simp: dnext_def)
  let ?h = "h(a \<mapsto> \<lparr>jdn_pjdnNext = 0, jdn_pjdnPrev = last ns, jdn_pData = d\<rparr>, last ns \<mapsto> t\<lparr>jdn_pjdnNext := a\<rparr>)"
  have "jf_dlinklist_appendTo alloc h l d = Some (JF_ERR_NO_ERROR, ?h, l\<lparr>jd_pjdnTail := a\<rparr>)"
    using alloc hd t la tl by (simp add: jf_dlinklist_appendTo_def Let_def)
  moreover have "dnodes ?h (l\<lparr>jd_pjdnTail := a\<rparr>) (ns @ [a]) (ds @ [d])"
    unfolding dnodes_def
  proof (intro conjI)
    show "chain (dnext ?h) (jd_pjdnHead (l\<lparr>jd_pjdnTail := a\<rparr>)) (ns @ [a])"
      using chain_append [OF c(1) False a(1) an] by simp
    have "dprev h (last ns) = Some (jdn_pjdnPrev t)" using t by (simp add: dprev_def)
    then have "chain (dprev ?h) (last ns) (rev ns) \<longleftrightarrow> chain (dprev h) (last ns) (rev ns)"
      using an by (intro chain_cong) auto
    then show "chain (dprev ?h) (jd_pjdnTail (l\<lparr>jd_pjdnTail := a\<rparr>)) (rev (ns @ [a]))"
      using c(2) tl a(1) la by simp
    have "ddata h (last ns) = Some (jdn_pData t)" using t by (simp add: ddata_def)
    then have "map (ddata ?h) ns = map (ddata h) ns" "ddata ?h a = Some d" using an la by auto
    then show "map (ddata ?h) (ns @ [a]) = map Some (ds @ [d])" using c(3) by (simp only: map_append list.map)
  qed
  ultimately show ?thesis by blast
qed

text \<open>A search returns the first node on its way whose data satisfies the predicate, or null.\<close>

lemma find_dlink_node_eq:
  assumes "\<And>a. a \<in> set ns \<Longrightarrow> nx a = map_option step (h a)"
  shows "chain nx p ns \<Longrightarrow> map (ddata h) ns = map Some ds \<Longrightarrow>
    find_dlink_node step h P p = Some (case find (\<lambda>(a, d). P d) (zip ns ds) of None \<Rightarrow> 0 | Some (a, d) \<Rightarrow> a)"
  using assms
proof (induction ns arbitrary: p ds)
  case Nil
  then show ?case by (subst find_dlink_node.simps) simp
next
  case (Cons n ns)
  obtain d ds' where ds: "ds = d # ds'" using Cons.prems(2) by (cases ds) auto
  obtain m where m: "p = n" "n \<noteq> 0" "h n = Some m" "chain nx (step m) ns" "jdn_pData m = d" "map (ddata h) ns = map Some ds'"
    using Cons.prems ds by (auto simp: ddata_def)
  show ?case using Cons.IH [OF m(4,6)] Cons.prems(3) m ds by (subst find_dlink_node.simps) simp
qed

lemma found_data_eq:
  "chain nx p ns \<Longrightarrow> map (ddata h) ns = map Some ds \<Longrightarrow>
    found_data h (case find (\<lambda>(a, d). P d) (zip ns ds) of None \<Rightarrow> 0 | Some (a, d) \<Rightarrow> a) =
      (case find P ds of None \<Rightarrow> (JF_ERR_NOT_FOUND, None) | Some d \<Rightarrow> (JF_ERR_NO_ERROR, Some d))"
proof (induction ns arbitrary: p ds)
  case Nil
  then show ?case by (simp add: found_data_def)
next
  case (Cons n ns)
  obtain d ds' where ds: "ds = d # ds'" using Cons.prems(2) by (cases ds) auto
  obtain q where q: "p = n" "n \<noteq> 0" "chain nx q ns" "ddata h n = Some d" "map (ddata h) ns = map Some ds'"
    using Cons.prems ds by auto
  show ?case
  proof (cases "P d")
    case True
    then show ?thesis using q ds by (simp add: found_data_def ddata_def)
  next
    case False
    then show ?thesis using Cons.IH [OF q(3,5)] ds by simp
  qed
qed

lemma dlinklist_find:
  assumes "dnodes h l ns ds"
  shows "jf_dlinklist_findFirstData h l P =
      Some (case find P ds of None \<Rightarrow> (JF_ERR_NOT_FOUND, None) | Some d \<Rightarrow> (JF_ERR_NO_ERROR, Some d))"
    "jf_dlinklist_findLastData h l P =
      Some (case find P (rev ds) of None \<Rightarrow> (JF_ERR_NOT_FOUND, None) | Some d \<Rightarrow> (JF_ERR_NO_ERROR, Some d))"
proof -
  have c: "chain (dnext h) (jd_pjdnHead l) ns" "chain (dprev h) (jd_pjdnTail l) (rev ns)" "map (ddata h) ns = map Some ds"
    "map (ddata h) (rev ns) = map Some (rev ds)"
    using assms by (simp_all add: dnodes_def flip: rev_map)
  show "jf_dlinklist_findFirstData h l P =
      Some (case find P ds of None \<Rightarrow> (JF_ERR_NOT_FOUND, None) | Some d \<Rightarrow> (JF_ERR_NO_ERROR, Some d))"
    using find_dlink_node_eq [of ns "dnext h" jdn_pjdnNext h, OF _ c(1,3)] found_data_eq [OF c(1,3)]
    by (simp add: jf_dlinklist_findFirstData_def dnext_def)
  show "jf_dlinklist_findLastData h l P =
      Some (case find P (rev ds) of None \<Rightarrow> (JF_ERR_NOT_FOUND, None) | Some d \<Rightarrow> (JF_ERR_NO_ERROR, Some d))"
    using find_dlink_node_eq [of "rev ns" "dprev h" jdn_pjdnPrev h, OF _ c(2,4)] found_data_eq [OF c(2,4)]
    by (simp add: jf_dlinklist_findLastData_def dprev_def)
qed

section \<open>The contract of appending\<close>

definition link_append :: "('d link_heap \<Rightarrow> addr option) \<Rightarrow> 'd link_heap \<times> jf_linklist \<Rightarrow> 'd \<Rightarrow> (jf_err \<times> 'd link_heap \<times> jf_linklist) option" where
  "link_append alloc s d = jf_linklist_appendTo alloc (fst s) (snd s) d"

definition dlink_append :: "('d dlink_heap \<Rightarrow> addr option) \<Rightarrow> 'd dlink_heap \<times> jf_dlinklist \<Rightarrow> 'd \<Rightarrow> (jf_err \<times> 'd dlink_heap \<times> jf_dlinklist) option" where
  "dlink_append alloc s d = jf_dlinklist_appendTo alloc (fst s) (snd s) d"

lemma link_append_spec:
  assumes "alloc_fresh alloc" "is_link (fst s) (snd s) ds"
  shows "\<exists>e s'. link_append alloc s d = Some (e, s') \<and>
    (e = JF_ERR_NO_ERROR \<and> is_link (fst s') (snd s') (ds @ [d]) \<or> e = JF_ERR_JIUKUN_OUT_OF_MEMORY \<and> is_link (fst s') (snd s') ds)"
proof (cases "alloc (fst s)")
  case None
  then show ?thesis using assms(2) by (simp add: link_append_def jf_linklist_appendTo_def)
next
  case (Some a)
  have "a \<noteq> 0" "fst s a = None" using assms(1) Some by (auto simp: alloc_fresh_def)
  with linklist_append [OF assms(2), of a alloc d] Some show ?thesis unfolding link_append_def by fastforce
qed

lemma dlink_append_spec:
  assumes "alloc_fresh alloc" "is_dlink s ds"
  shows "\<exists>e s'. dlink_append alloc s d = Some (e, s') \<and>
    (e = JF_ERR_NO_ERROR \<and> is_dlink s' (ds @ [d]) \<or> e = JF_ERR_JIUKUN_OUT_OF_MEMORY \<and> is_dlink s' ds)"
proof (cases "alloc (fst s)")
  case None
  then show ?thesis using assms(2) by (simp add: dlink_append_def jf_dlinklist_appendTo_def)
next
  case (Some a)
  obtain ns where ns: "dnodes (fst s) (snd s) ns ds" using assms(2) unfolding is_dlink_def by blast
  have "a \<noteq> 0" "fst s a = None" using assms(1) Some by (auto simp: alloc_fresh_def)
  with dlinklist_append [OF ns, of a alloc d] Some show ?thesis unfolding dlink_append_def is_dlink_def by fastforce
qed

interpretation link_list: appendable "\<lambda>s. is_link (fst s) (snd s)" "link_append (first_free 1000)"
  by unfold_locales (rule link_append_spec [OF first_free_fresh])

interpretation dlink_list: appendable is_dlink "dlink_append (first_free 1000)"
  by unfold_locales (rule dlink_append_spec [OF first_free_fresh])

lemma dlink_append_all:
  assumes "alloc_fresh alloc" "is_dlink s ds"
  shows "\<exists>e s' k. append_all (dlink_append alloc) es s = Some (e, s') \<and> k \<le> length es \<and> is_dlink s' (ds @ take k es) \<and>
    (e = JF_ERR_NO_ERROR \<and> k = length es \<or> e = JF_ERR_JIUKUN_OUT_OF_MEMORY \<and> k < length es)"
  using assms(2) by (intro appendable.append_all_spec appendable.intro dlink_append_spec [OF assms(1)])

section \<open>Properties\<close>


definition drop_node :: "nat link_heap \<Rightarrow> addr \<Rightarrow> nat \<Rightarrow> jf_err \<times> nat link_heap \<times> nat" where
  "drop_node h a count = (JF_ERR_NO_ERROR, h(a := None), count + 1)"

definition demo_heap :: "nat link_heap" where
  "demo_heap = [1 \<mapsto> \<lparr>jln_pjlnNext = 2, jln_pData = 5\<rparr>, 2 \<mapsto> \<lparr>jln_pjlnNext = 3, jln_pData = 6\<rparr>,
     3 \<mapsto> \<lparr>jln_pjlnNext = 0, jln_pData = 5\<rparr>]"


text \<open>
  (C24) A doubly linked list built by appending holds the elements in order, forwards and backwards; the
  searches from the head and from the tail return the first and the last element that satisfies the
  predicate, and \<^verbatim>\<open>JF_ERR_NOT_FOUND\<close> when there is none.
\<close>
theorem dlinklist_append_find:
  assumes "alloc_fresh alloc" "is_dlink s ds"
  shows "\<exists>e s' k. append_all (dlink_append alloc) es s = Some (e, s') \<and> k \<le> length es \<and>
    (e = JF_ERR_NO_ERROR \<and> k = length es \<or> e = JF_ERR_JIUKUN_OUT_OF_MEMORY \<and> k < length es) \<and>
    jf_dlinklist_findFirstData (fst s') (snd s') P =
      Some (case find P (ds @ take k es) of None \<Rightarrow> (JF_ERR_NOT_FOUND, None) | Some d \<Rightarrow> (JF_ERR_NO_ERROR, Some d)) \<and>
    jf_dlinklist_findLastData (fst s') (snd s') P =
      Some (case find P (rev (ds @ take k es)) of None \<Rightarrow> (JF_ERR_NOT_FOUND, None) | Some d \<Rightarrow> (JF_ERR_NO_ERROR, Some d))"
proof -
  obtain e s' k where r: "append_all (dlink_append alloc) es s = Some (e, s')" "k \<le> length es" "is_dlink s' (ds @ take k es)"
      "e = JF_ERR_NO_ERROR \<and> k = length es \<or> e = JF_ERR_JIUKUN_OUT_OF_MEMORY \<and> k < length es"
    using dlink_append_all [OF assms] by blast
  obtain ns where "dnodes (fst s') (snd s') ns (ds @ take k es)" using r(3) unfolding is_dlink_def by blast
  then show ?thesis using r dlinklist_find by blast
qed

theorem dlinklist_append_find_witness:
  "\<exists>e s' k. append_all (dlink_append (first_free 9)) [4, 5, 6 :: nat] (\<lambda>_. None, jf_dlinklist_init) = Some (e, s') \<and> k \<le> length [4, 5, 6 :: nat] \<and>
    (e = JF_ERR_NO_ERROR \<and> k = length [4, 5, 6 :: nat] \<or> e = JF_ERR_JIUKUN_OUT_OF_MEMORY \<and> k < length [4, 5, 6 :: nat]) \<and>
    jf_dlinklist_findFirstData (fst s') (snd s') even =
      Some (case find even ([] @ take k [4, 5, 6]) of None \<Rightarrow> (JF_ERR_NOT_FOUND, None) | Some d \<Rightarrow> (JF_ERR_NO_ERROR, Some d)) \<and>
    jf_dlinklist_findLastData (fst s') (snd s') even =
      Some (case find even (rev ([] @ take k [4, 5, 6])) of None \<Rightarrow> (JF_ERR_NOT_FOUND, None) | Some d \<Rightarrow> (JF_ERR_NO_ERROR, Some d))"
  by (rule dlinklist_append_find [OF first_free_fresh is_dlink_init])

end
