(* ===== verification/Jf_Queue.thy ===== *)
theory Jf_Queue
  imports Jf_Chain
begin

text \<open>
  The queue of \<^verbatim>\<open>src/jiutai/jf_queue.c\<close> and the stack of \<^verbatim>\<open>src/jiutai/jf_stack.c\<close>: singly linked nodes in a heap. An
  operation returns \<open>None\<close> when it reads or writes a node that is not allocated. \<open>alloc\<close> is the
  allocator; the data a finalisation releases is returned as the list of the calls of the callback.
  The null pointer returned for an empty container is \<open>None\<close> in the data.
\<close>

section \<open>Queue\<close>

record 'd jf_queue_node =
  jqn_pData :: 'd
  jqn_pjqnNext :: addr

record jf_queue =
  jq_pjqnHead :: addr
  jq_pjqnTail :: addr

type_synonym 'd queue_heap = "addr \<Rightarrow> 'd jf_queue_node option"

definition jf_queue_init :: jf_queue where
  "jf_queue_init = \<lparr>jq_pjqnHead = 0, jq_pjqnTail = 0\<rparr>"

partial_function (option) free_queue_nodes :: "'d queue_heap \<Rightarrow> addr \<Rightarrow> 'd list \<Rightarrow> ('d queue_heap \<times> 'd list) option" where
  "free_queue_nodes h temp freed =
     (if temp \<noteq> 0 then
        Option.bind (h temp) (\<lambda>n. free_queue_nodes (h(temp := None)) (jqn_pjqnNext n) (freed @ [jqn_pData n]))
      else Some (h, freed))"

text \<open>\<^verbatim>\<open>jf_queue_fini\<close> frees the nodes and leaves the queue as it is.\<close>

definition jf_queue_fini :: "'d queue_heap \<Rightarrow> jf_queue \<Rightarrow> ('d queue_heap \<times> jf_queue) option" where
  "jf_queue_fini h pQueue =
     (case free_queue_nodes h (jq_pjqnHead pQueue) [] of None \<Rightarrow> None | Some (h, _) \<Rightarrow> Some (h, pQueue))"

definition jf_queue_finiQueueAndData ::
  "'d queue_heap \<Rightarrow> jf_queue \<Rightarrow> ('d list \<times> 'd queue_heap \<times> jf_queue) option" where
  "jf_queue_finiQueueAndData h pQueue =
     (case free_queue_nodes h (jq_pjqnHead pQueue) [] of
        None \<Rightarrow> None
      | Some (h, freed) \<Rightarrow> Some (freed, h, jf_queue_init))"

definition jf_queue_isEmpty :: "jf_queue \<Rightarrow> bool" where
  "jf_queue_isEmpty pQueue = (if jq_pjqnHead pQueue = 0 then True else False)"

definition jf_queue_enqueue ::
  "('d queue_heap \<Rightarrow> addr option) \<Rightarrow> 'd queue_heap \<Rightarrow> jf_queue \<Rightarrow> 'd \<Rightarrow> (jf_err \<times> 'd queue_heap \<times> jf_queue) option" where
  "jf_queue_enqueue alloc h pQueue data =
     (case alloc h of
        None \<Rightarrow> Some (JF_ERR_JIUKUN_OUT_OF_MEMORY, h, pQueue)
      | Some pjqn \<Rightarrow>
          (let h = h(pjqn \<mapsto> \<lparr>jqn_pData = data, jqn_pjqnNext = 0\<rparr>)
           in if jq_pjqnHead pQueue = 0 then
                Some (JF_ERR_NO_ERROR, h, pQueue\<lparr>jq_pjqnHead := pjqn, jq_pjqnTail := pjqn\<rparr>)
              else
                (case h (jq_pjqnTail pQueue) of
                   None \<Rightarrow> None
                 | Some t \<Rightarrow>
                     Some (JF_ERR_NO_ERROR, h(jq_pjqnTail pQueue \<mapsto> t\<lparr>jqn_pjqnNext := pjqn\<rparr>),
                       pQueue\<lparr>jq_pjqnTail := pjqn\<rparr>))))"

definition jf_queue_dequeue :: "'d queue_heap \<Rightarrow> jf_queue \<Rightarrow> ('d option \<times> 'd queue_heap \<times> jf_queue) option" where
  "jf_queue_dequeue h pQueue =
     (if jq_pjqnHead pQueue = 0 then Some (None, h, pQueue)
      else
        (let temp = jq_pjqnHead pQueue
         in case h temp of
              None \<Rightarrow> None
            | Some n \<Rightarrow>
                (let retval = jqn_pData n;
                     pQueue = pQueue\<lparr>jq_pjqnHead := jqn_pjqnNext n\<rparr>;
                     pQueue = (if jq_pjqnHead pQueue = 0 then pQueue\<lparr>jq_pjqnTail := 0\<rparr> else pQueue)
                 in Some (Some retval, h(temp := None), pQueue))))"

definition jf_queue_peek :: "'d queue_heap \<Rightarrow> jf_queue \<Rightarrow> 'd option option" where
  "jf_queue_peek h pQueue =
     (if jq_pjqnHead pQueue = 0 then Some None else map_option (\<lambda>n. Some (jqn_pData n)) (h (jq_pjqnHead pQueue)))"

section \<open>Stack\<close>

record 'd jf_stack_node =
  jsn_pData :: 'd
  jsn_pjsnNext :: addr

type_synonym 'd stack_heap = "addr \<Rightarrow> 'd jf_stack_node option"

definition jf_stack_init :: addr where
  "jf_stack_init = 0"

definition jf_stack_push ::
  "('d stack_heap \<Rightarrow> addr option) \<Rightarrow> 'd stack_heap \<Rightarrow> addr \<Rightarrow> 'd \<Rightarrow> (jf_err \<times> 'd stack_heap \<times> addr) option" where
  "jf_stack_push alloc h ppStack data =
     (case alloc h of
        None \<Rightarrow> Some (JF_ERR_JIUKUN_OUT_OF_MEMORY, h, ppStack)
      | Some retval \<Rightarrow> Some (JF_ERR_NO_ERROR, h(retval \<mapsto> \<lparr>jsn_pData = data, jsn_pjsnNext = ppStack\<rparr>), retval))"

definition jf_stack_pop :: "'d stack_heap \<Rightarrow> addr \<Rightarrow> ('d option \<times> 'd stack_heap \<times> addr) option" where
  "jf_stack_pop h ppStack =
     (if ppStack \<noteq> 0 then
        (case h ppStack of
           None \<Rightarrow> None
         | Some n \<Rightarrow> Some (Some (jsn_pData n), h(ppStack := None), jsn_pjsnNext n))
      else Some (None, h, ppStack))"

definition jf_stack_peek :: "'d stack_heap \<Rightarrow> addr \<Rightarrow> 'd option option" where
  "jf_stack_peek h ppStack =
     (if ppStack \<noteq> 0 then map_option (\<lambda>n. Some (jsn_pData n)) (h ppStack) else Some None)"

text \<open>The loop pops before it tests.\<close>

partial_function (option) clear_loop :: "'d stack_heap \<Rightarrow> addr \<Rightarrow> 'd stack_heap option" where
  "clear_loop h temp =
     Option.bind (jf_stack_pop h temp)
       (\<lambda>r. if snd (snd r) \<noteq> 0 then clear_loop (fst (snd r)) (snd (snd r)) else Some (fst (snd r)))"

definition jf_stack_clear :: "'d stack_heap \<Rightarrow> addr \<Rightarrow> ('d stack_heap \<times> addr) option" where
  "jf_stack_clear h ppStack = map_option (\<lambda>h. (h, 0)) (clear_loop h ppStack)"

section \<open>What the heap holds\<close>

definition qnext :: "'d queue_heap \<Rightarrow> addr \<Rightarrow> addr option" where
  "qnext h = (\<lambda>a. map_option jqn_pjqnNext (h a))"

definition qdata :: "'d queue_heap \<Rightarrow> addr \<Rightarrow> 'd option" where
  "qdata h = (\<lambda>a. map_option jqn_pData (h a))"

text \<open>The nodes \<open>ns\<close> hold the elements \<open>ds\<close>; the tail points to the last node.\<close>

definition queue_nodes :: "'d queue_heap \<Rightarrow> jf_queue \<Rightarrow> addr list \<Rightarrow> 'd list \<Rightarrow> bool" where
  "queue_nodes h q ns ds \<longleftrightarrow>
     chain (qnext h) (jq_pjqnHead q) ns \<and> jq_pjqnTail q = (if ns = [] then 0 else last ns) \<and>
     map (qdata h) ns = map Some ds"

definition is_queue :: "'d queue_heap \<times> jf_queue \<Rightarrow> 'd list \<Rightarrow> bool" where
  "is_queue s ds \<longleftrightarrow> (\<exists>ns. queue_nodes (fst s) (snd s) ns ds)"

lemma qnext_upd [simp]:
  "qnext (h(a \<mapsto> n)) = (qnext h)(a := Some (jqn_pjqnNext n))" "qnext (h(a := None)) = (qnext h)(a := None)"
  by (auto simp: qnext_def)

lemma qdata_upd [simp]:
  "qdata (h(a \<mapsto> n)) = (qdata h)(a := Some (jqn_pData n))" "qdata (h(a := None)) = (qdata h)(a := None)"
  by (auto simp: qdata_def)

lemma queue_init: "is_queue (h, jf_queue_init) []"
  by (simp add: is_queue_def queue_nodes_def jf_queue_init_def)

lemma queue_nodes_empty: "jq_pjqnHead q = 0 \<Longrightarrow> queue_nodes h q ns ds \<Longrightarrow> ns = [] \<and> ds = [] \<and> jq_pjqnTail q = 0"
  by (auto simp: queue_nodes_def)

lemma queue_nodes_ConsE:
  assumes "queue_nodes h q ns (d # ds)"
  obtains n ns' where "ns = jq_pjqnHead q # ns'" "jq_pjqnHead q \<noteq> 0" "h (jq_pjqnHead q) = Some n" "jqn_pData n = d"
    "chain (qnext h) (jqn_pjqnNext n) ns'" "map (qdata h) ns' = map Some ds"
  using assms by (cases ns) (auto simp: queue_nodes_def qnext_def qdata_def)

lemma queue_nodes_enqueue:
  assumes q: "queue_nodes h q ns ds" and a: "a \<noteq> 0" "h a = None" and alloc: "alloc h = Some a"
  shows "\<exists>h' q'. jf_queue_enqueue alloc h q d = Some (JF_ERR_NO_ERROR, h', q') \<and> queue_nodes h' q' (ns @ [a]) (ds @ [d])"
proof (cases "ns = []")
  case True
  then have "jq_pjqnHead q = 0" "ds = []" using q by (auto simp: queue_nodes_def)
  with True a alloc show ?thesis
    by (auto simp: jf_queue_enqueue_def queue_nodes_def Let_def qnext_def)
next
  case False
  have c: "chain (qnext h) (jq_pjqnHead q) ns" "jq_pjqnTail q = last ns" using q False by (simp_all add: queue_nodes_def)
  have hd: "jq_pjqnHead q \<noteq> 0" using c(1) False by (metis chain_null)
  have an: "a \<notin> set ns" using chain_live [OF c(1), of a] a(2) by (auto simp: qnext_def)
  obtain t where t: "h (last ns) = Some t" using chain_live [OF c(1), of "last ns"] False by (auto simp: qnext_def)
  have la: "last ns \<noteq> a" using an False by auto
  let ?h = "h(a \<mapsto> \<lparr>jqn_pData = d, jqn_pjqnNext = 0\<rparr>, last ns \<mapsto> t\<lparr>jqn_pjqnNext := a\<rparr>)"
  have "jf_queue_enqueue alloc h q d = Some (JF_ERR_NO_ERROR, ?h, q\<lparr>jq_pjqnTail := a\<rparr>)"
    using alloc hd t la by (simp add: jf_queue_enqueue_def c(2) Let_def)
  moreover have "queue_nodes ?h (q\<lparr>jq_pjqnTail := a\<rparr>) (ns @ [a]) (ds @ [d])"
    unfolding queue_nodes_def
  proof (intro conjI)
    show "chain (qnext ?h) (jq_pjqnHead (q\<lparr>jq_pjqnTail := a\<rparr>)) (ns @ [a])"
      using chain_append [OF c(1) False a(1) an] by simp
    have "qdata h (last ns) = Some (jqn_pData t)" using t by (simp add: qdata_def)
    then have "map (qdata ?h) ns = map (qdata h) ns" "qdata ?h a = Some d" using an la by auto
    then show "map (qdata ?h) (ns @ [a]) = map Some (ds @ [d])" using q by (simp only: queue_nodes_def map_append list.map)
  qed simp
  ultimately show ?thesis by blast
qed

lemma queue_nodes_dequeue:
  assumes q: "queue_nodes h q ns (d # ds)"
  shows "\<exists>h' q' ns'. jf_queue_dequeue h q = Some (Some d, h', q') \<and> queue_nodes h' q' ns' ds"
proof -
  obtain n ns' where n: "ns = jq_pjqnHead q # ns'" "jq_pjqnHead q \<noteq> 0" "h (jq_pjqnHead q) = Some n" "jqn_pData n = d"
    "chain (qnext h) (jqn_pjqnNext n) ns'" "map (qdata h) ns' = map Some ds"
    using q by (rule queue_nodes_ConsE)
  have "distinct ns" using q by (auto simp: queue_nodes_def dest: chain_distinct)
  then have notin: "jq_pjqnHead q \<notin> set ns'" using n(1) by simp
  let ?h = "h(jq_pjqnHead q := None)"
  let ?q = "if jqn_pjqnNext n = 0 then q\<lparr>jq_pjqnHead := 0, jq_pjqnTail := 0\<rparr> else q\<lparr>jq_pjqnHead := jqn_pjqnNext n\<rparr>"
  have "jf_queue_dequeue h q = Some (Some d, ?h, ?q)"
    using n(2-4) by (simp add: jf_queue_dequeue_def Let_def)
  moreover have e: "jqn_pjqnNext n = 0 \<longleftrightarrow> ns' = []" using n(5) by (cases ns') auto
  have "queue_nodes ?h ?q ns' ds"
    unfolding queue_nodes_def
  proof (intro conjI)
    show "jq_pjqnTail ?q = (if ns' = [] then 0 else last ns')"
      using q n(1) e by (simp add: queue_nodes_def)
    show "chain (qnext ?h) (jq_pjqnHead ?q) ns'" using n(5) notin e by (simp add: chain_upd)
    show "map (qdata ?h) ns' = map Some ds" using n(6) notin by simp
  qed
  ultimately show ?thesis by blast
qed

lemma free_queue_nodes_eq:
  "chain (qnext h) p ns \<Longrightarrow> map (qdata h) ns = map Some ds \<Longrightarrow>
    free_queue_nodes h p freed = Some (\<lambda>a. if a \<in> set ns then None else h a, freed @ ds)"
proof (induction ns arbitrary: h p ds freed)
  case Nil
  then show ?case by (subst free_queue_nodes.simps) simp
next
  case (Cons n ns)
  obtain d ds' where ds: "ds = d # ds'" using Cons.prems(2) by (cases ds) auto
  obtain m where m: "p = n" "n \<noteq> 0" "h n = Some m" "chain (qnext h) (jqn_pjqnNext m) ns" "jqn_pData m = d"
    using Cons.prems ds by (auto simp: qnext_def qdata_def)
  have notin: "n \<notin> set ns" using chain_distinct [OF Cons.prems(1)] by simp
  have c: "chain (qnext (h(n := None))) (jqn_pjqnNext m) ns" using m(4) notin by (simp add: chain_upd)
  have d: "map (qdata (h(n := None))) ns = map Some ds'" using Cons.prems(2) notin ds by simp
  have "free_queue_nodes h p freed = free_queue_nodes (h(n := None)) (jqn_pjqnNext m) (freed @ [d])"
    using m by (subst free_queue_nodes.simps) simp
  also have "\<dots> = Some (\<lambda>a. if a \<in> set ns then None else (h(n := None)) a, (freed @ [d]) @ ds')"
    by (rule Cons.IH [OF c d])
  also have "(\<lambda>a. if a \<in> set ns then None else (h(n := None)) a) = (\<lambda>a. if a \<in> set (n # ns) then None else h a)"
    by auto
  finally show ?case using ds by simp
qed

section \<open>Stack\<close>

definition snext :: "'d stack_heap \<Rightarrow> addr \<Rightarrow> addr option" where
  "snext h = (\<lambda>a. map_option jsn_pjsnNext (h a))"

definition sdata :: "'d stack_heap \<Rightarrow> addr \<Rightarrow> 'd option" where
  "sdata h = (\<lambda>a. map_option jsn_pData (h a))"

definition is_stack :: "'d stack_heap \<times> addr \<Rightarrow> 'd list \<Rightarrow> bool" where
  "is_stack s ds \<longleftrightarrow> (\<exists>ns. chain (snext (fst s)) (snd s) ns \<and> map (sdata (fst s)) ns = map Some ds)"

lemma snext_upd [simp]:
  "snext (h(a \<mapsto> n)) = (snext h)(a := Some (jsn_pjsnNext n))" "snext (h(a := None)) = (snext h)(a := None)"
  by (auto simp: snext_def)

lemma sdata_upd [simp]:
  "sdata (h(a \<mapsto> n)) = (sdata h)(a := Some (jsn_pData n))" "sdata (h(a := None)) = (sdata h)(a := None)"
  by (auto simp: sdata_def)

lemma is_stackI: "chain (snext h) p ns \<Longrightarrow> map (sdata h) ns = map Some ds \<Longrightarrow> is_stack (h, p) ds"
  by (auto simp: is_stack_def)

lemma stack_init: "is_stack (h, jf_stack_init) []"
  by (simp add: is_stack_def jf_stack_init_def)

lemma stack_push:
  assumes s: "is_stack (h, p) ds" and a: "a \<noteq> 0" "h a = None" and alloc: "alloc h = Some a"
  shows "\<exists>h'. jf_stack_push alloc h p d = Some (JF_ERR_NO_ERROR, h', a) \<and> is_stack (h', a) (d # ds)"
proof -
  obtain ns where ns: "chain (snext h) p ns" "map (sdata h) ns = map Some ds" using s by (auto simp: is_stack_def)
  have "a \<notin> set ns" using chain_live [OF ns(1), of a] a(2) by (auto simp: snext_def)
  then have "is_stack (h(a \<mapsto> \<lparr>jsn_pData = d, jsn_pjsnNext = p\<rparr>), a) (d # ds)"
    using ns a(1) by (intro is_stackI [of _ _ "a # ns"]) (simp_all add: chain_upd)
  then show ?thesis by (simp add: jf_stack_push_def alloc)
qed

lemma stack_pop:
  assumes "is_stack (h, p) (d # ds)"
  shows "\<exists>h' p'. jf_stack_pop h p = Some (Some d, h', p') \<and> is_stack (h', p') ds"
proof -
  obtain ns where ns: "chain (snext h) p ns" "map (sdata h) ns = map Some (d # ds)"
    using assms unfolding is_stack_def fst_conv snd_conv by blast
  then obtain n ns' where n: "ns = p # ns'" "p \<noteq> 0" "h p = Some n" "jsn_pData n = d" "chain (snext h) (jsn_pjsnNext n) ns'"
      "map (sdata h) ns' = map Some ds"
    by (cases ns) (auto simp: snext_def sdata_def)
  have "p \<notin> set ns'" using chain_distinct [OF ns(1)] n(1) by simp
  then have "is_stack (h(p := None), jsn_pjsnNext n) ds"
    using n by (intro is_stackI [of _ _ ns']) (simp_all add: chain_upd)
  then show ?thesis using n by (simp add: jf_stack_pop_def)
qed

lemma clear_loop_eq:
  "chain (snext h) p ns \<Longrightarrow> clear_loop h p = Some (\<lambda>a. if a \<in> set ns then None else h a)"
proof (induction ns arbitrary: h p)
  case Nil
  then show ?case by (subst clear_loop.simps) (simp add: jf_stack_pop_def)
next
  case (Cons n ns)
  obtain m where m: "p = n" "n \<noteq> 0" "h n = Some m" "chain (snext h) (jsn_pjsnNext m) ns"
    using Cons.prems by (auto simp: snext_def)
  have notin: "n \<notin> set ns" using chain_distinct [OF Cons.prems] by simp
  have c: "chain (snext (h(n := None))) (jsn_pjsnNext m) ns" using m(4) notin by (simp add: chain_upd)
  have p: "jf_stack_pop h p = Some (Some (jsn_pData m), h(n := None), jsn_pjsnNext m)" using m by (simp add: jf_stack_pop_def)
  have e: "(\<lambda>a. if a \<in> set (n # ns) then None else h a) = (\<lambda>a. if a \<in> set ns then None else (h(n := None)) a)" by auto
  show ?case
  proof (cases "jsn_pjsnNext m = 0")
    case True
    then have "ns = []" using m(4) by simp
    then show ?thesis unfolding e using p True by (subst clear_loop.simps) (simp add: fun_upd_def)
  next
    case False
    then have "clear_loop h p = clear_loop (h(n := None)) (jsn_pjsnNext m)" using p by (subst clear_loop.simps) simp
    also have "\<dots> = Some (\<lambda>a. if a \<in> set ns then None else (h(n := None)) a)" by (rule Cons.IH [OF c])
    finally show ?thesis unfolding e .
  qed
qed

section \<open>The contract\<close>

text \<open>The operations on the pair of a heap and a container.\<close>

definition queue_put :: "('d queue_heap \<Rightarrow> addr option) \<Rightarrow> 'd queue_heap \<times> jf_queue \<Rightarrow> 'd \<Rightarrow> (jf_err \<times> 'd queue_heap \<times> jf_queue) option" where
  "queue_put alloc s d = jf_queue_enqueue alloc (fst s) (snd s) d"

definition queue_take :: "'d queue_heap \<times> jf_queue \<Rightarrow> ('d option \<times> 'd queue_heap \<times> jf_queue) option" where
  "queue_take s = jf_queue_dequeue (fst s) (snd s)"

definition queue_look :: "'d queue_heap \<times> jf_queue \<Rightarrow> 'd option option" where
  "queue_look s = jf_queue_peek (fst s) (snd s)"

definition stack_put :: "('d stack_heap \<Rightarrow> addr option) \<Rightarrow> 'd stack_heap \<times> addr \<Rightarrow> 'd \<Rightarrow> (jf_err \<times> 'd stack_heap \<times> addr) option" where
  "stack_put alloc s d = jf_stack_push alloc (fst s) (snd s) d"

definition stack_take :: "'d stack_heap \<times> addr \<Rightarrow> ('d option \<times> 'd stack_heap \<times> addr) option" where
  "stack_take s = jf_stack_pop (fst s) (snd s)"

definition stack_look :: "'d stack_heap \<times> addr \<Rightarrow> 'd option option" where
  "stack_look s = jf_stack_peek (fst s) (snd s)"

lemmas access_defs = queue_put_def queue_take_def queue_look_def stack_put_def stack_take_def stack_look_def

lemma queue_put_spec:
  assumes "alloc_fresh alloc" "is_queue s ds"
  shows "\<exists>e s'. queue_put alloc s d = Some (e, s') \<and>
    (e = JF_ERR_NO_ERROR \<and> is_queue s' (ds @ [d]) \<or> e = JF_ERR_JIUKUN_OUT_OF_MEMORY \<and> is_queue s' ds)"
proof (cases "alloc (fst s)")
  case None
  then show ?thesis using assms(2) by (simp add: queue_put_def jf_queue_enqueue_def)
next
  case (Some a)
  obtain ns where ns: "queue_nodes (fst s) (snd s) ns ds" using assms(2) unfolding is_queue_def by blast
  have "a \<noteq> 0" "fst s a = None" using assms(1) Some by (auto simp: alloc_fresh_def)
  with queue_nodes_enqueue [OF ns, of a alloc d] Some show ?thesis unfolding queue_put_def is_queue_def by fastforce
qed

lemma queue_take_empty: "is_queue s [] \<Longrightarrow> queue_take s = Some (None, s)"
  by (auto simp: is_queue_def queue_nodes_def queue_take_def jf_queue_dequeue_def)

lemma queue_take_element:
  assumes "is_queue s (d # ds)"
  shows "\<exists>s'. queue_take s = Some (Some d, s') \<and> is_queue s' ds"
proof -
  obtain ns where "queue_nodes (fst s) (snd s) ns (d # ds)" using assms unfolding is_queue_def by blast
  from queue_nodes_dequeue [OF this] show ?thesis unfolding queue_take_def is_queue_def by fastforce
qed

lemma queue_look_spec:
  assumes "is_queue s ds"
  shows "queue_look s = Some (case ds of [] \<Rightarrow> None | d # _ \<Rightarrow> Some d)"
proof -
  obtain ns where ns: "queue_nodes (fst s) (snd s) ns ds" using assms unfolding is_queue_def by blast
  show ?thesis
  proof (cases ds)
    case Nil
    then show ?thesis using ns by (auto simp: queue_look_def jf_queue_peek_def queue_nodes_def)
  next
    case (Cons d ds')
    with ns have "queue_nodes (fst s) (snd s) ns (d # ds')" by simp
    then show ?thesis using Cons by (auto simp: queue_look_def jf_queue_peek_def elim: queue_nodes_ConsE)
  qed
qed

locale queue_memory =
  fixes alloc :: "'d queue_heap \<Rightarrow> addr option"
  assumes fresh: "alloc_fresh alloc"

sublocale queue_memory \<subseteq> fifo: container is_queue "\<lambda>d ds. ds @ [d]" "queue_put alloc" queue_take queue_look
  by unfold_locales (rule queue_put_spec [OF fresh] queue_take_empty queue_take_element queue_look_spec; assumption)+

context queue_memory
begin

lemma queue_refines:
  "is_queue s ds \<Longrightarrow> \<exists>os s' ds'. access_run (queue_put alloc) queue_take queue_look as s = Some (os, s') \<and>
    spec_run (\<lambda>d ds. ds @ [d]) as os ds = Some ds' \<and> is_queue s' ds'"
  by (rule fifo.refines)

end

interpretation queue1000: queue_memory "first_free 1000"
  by unfold_locales (rule first_free_fresh)

lemma stack_put_spec:
  assumes "alloc_fresh alloc" "is_stack s ds"
  shows "\<exists>e s'. stack_put alloc s d = Some (e, s') \<and>
    (e = JF_ERR_NO_ERROR \<and> is_stack s' (d # ds) \<or> e = JF_ERR_JIUKUN_OUT_OF_MEMORY \<and> is_stack s' ds)"
proof (cases "alloc (fst s)")
  case None
  then show ?thesis using assms(2) by (simp add: stack_put_def jf_stack_push_def)
next
  case (Some a)
  have "a \<noteq> 0" "fst s a = None" using assms(1) Some by (auto simp: alloc_fresh_def)
  with stack_push [of "fst s" "snd s" ds a alloc d] assms(2) Some show ?thesis unfolding stack_put_def by fastforce
qed

lemma stack_take_empty: "is_stack s [] \<Longrightarrow> stack_take s = Some (None, s)"
  by (cases s) (auto simp: is_stack_def stack_take_def jf_stack_pop_def)

lemma stack_take_element: "is_stack s (d # ds) \<Longrightarrow> \<exists>s'. stack_take s = Some (Some d, s') \<and> is_stack s' ds"
  using stack_pop [of "fst s" "snd s" d ds] unfolding stack_take_def by fastforce

lemma stack_look_spec:
  assumes "is_stack s ds"
  shows "stack_look s = Some (case ds of [] \<Rightarrow> None | d # _ \<Rightarrow> Some d)"
proof -
  obtain ns where ns: "chain (snext (fst s)) (snd s) ns" "map (sdata (fst s)) ns = map Some ds"
    using assms unfolding is_stack_def by blast
  then show ?thesis by (cases ns; cases ds) (auto simp: stack_look_def jf_stack_peek_def sdata_def)
qed

locale stack_memory =
  fixes alloc :: "'d stack_heap \<Rightarrow> addr option"
  assumes fresh: "alloc_fresh alloc"

sublocale stack_memory \<subseteq> lifo: container is_stack "\<lambda>d ds. d # ds" "stack_put alloc" stack_take stack_look
  by unfold_locales (rule stack_put_spec [OF fresh] stack_take_empty stack_take_element stack_look_spec; assumption)+

context stack_memory
begin

lemma stack_refines:
  "is_stack s ds \<Longrightarrow> \<exists>os s' ds'. access_run (stack_put alloc) stack_take stack_look as s = Some (os, s') \<and>
    spec_run (\<lambda>d ds. d # ds) as os ds = Some ds' \<and> is_stack s' ds'"
  by (rule lifo.refines)

end

interpretation stack1000: stack_memory "first_free 1000"
  by unfold_locales (rule first_free_fresh)

section \<open>Properties\<close>

text \<open>
  (C18) Every sequence of operations on the queue behaves as on a list with elements added at the end, and
  every sequence on the stack as on a list with elements added in front, both taken from the front: no
  operation touches a node that is not allocated, and a failed allocation changes nothing.
\<close>
theorem queue_and_stack_refine_lists:
  assumes "alloc_fresh alloc" "is_queue q ds" "alloc_fresh alloc'" "is_stack t es"
  shows "(\<exists>os q' ds'. access_run (queue_put alloc) queue_take queue_look as q = Some (os, q') \<and>
      spec_run (\<lambda>d ds. ds @ [d]) as os ds = Some ds' \<and> is_queue q' ds') \<and>
    (\<exists>os t' es'. access_run (stack_put alloc') stack_take stack_look as t = Some (os, t') \<and>
      spec_run (\<lambda>d ds. d # ds) as os es = Some es' \<and> is_stack t' es')"
proof
  show "\<exists>os q' ds'. access_run (queue_put alloc) queue_take queue_look as q = Some (os, q') \<and>
      spec_run (\<lambda>d ds. ds @ [d]) as os ds = Some ds' \<and> is_queue q' ds'"
    using assms(1,2) by (intro queue_memory.queue_refines) (simp_all add: queue_memory_def)
  show "\<exists>os t' es'. access_run (stack_put alloc') stack_take stack_look as t = Some (os, t') \<and>
      spec_run (\<lambda>d ds. d # ds) as os es = Some es' \<and> is_stack t' es'"
    using assms(3,4) by (intro stack_memory.stack_refines) (simp_all add: stack_memory_def)
qed

theorem queue_and_stack_refine_lists_witness:
  "(\<exists>os q' ds'. access_run (queue_put (first_free 9)) queue_take queue_look [Put (5 :: nat), Put 6, Take, Look, Take, Take]
      (\<lambda>_. None, jf_queue_init) = Some (os, q') \<and>
      spec_run (\<lambda>d ds. ds @ [d]) [Put 5, Put 6, Take, Look, Take, Take] os [] = Some ds' \<and> is_queue q' ds') \<and>
    (\<exists>os t' es'. access_run (stack_put (first_free 9)) stack_take stack_look [Put (5 :: nat), Put 6, Take, Look, Take, Take]
      (\<lambda>_. None, jf_stack_init) = Some (os, t') \<and>
      spec_run (\<lambda>d ds. d # ds) [Put 5, Put 6, Take, Look, Take, Take] os [] = Some es' \<and> is_stack t' es')"
  by (rule queue_and_stack_refine_lists [OF first_free_fresh queue_init first_free_fresh stack_init])

text \<open>
  Finalisation releases every node once and no other; \<^verbatim>\<open>jf_queue_finiQueueAndData\<close> also hands every element to the
  callback, in the order of the queue, and leaves an empty queue.
\<close>

lemma queue_fini_frees:
  assumes "queue_nodes h q ns ds"
  shows "jf_queue_fini h q = Some (\<lambda>a. if a \<in> set ns then None else h a, q)"
    "jf_queue_finiQueueAndData h q = Some (ds, \<lambda>a. if a \<in> set ns then None else h a, jf_queue_init)"
  using assms free_queue_nodes_eq [of h "jq_pjqnHead q" ns ds "[]"]
  by (simp_all add: queue_nodes_def jf_queue_fini_def jf_queue_finiQueueAndData_def)

lemma stack_clear_frees:
  "chain (snext h) p ns \<Longrightarrow> jf_stack_clear h p = Some (\<lambda>a. if a \<in> set ns then None else h a, 0)"
  by (simp add: jf_stack_clear_def clear_loop_eq)

end
