(* ===== verification/Jf_Dispatcher.thy ===== *)
theory Jf_Dispatcher
  imports Jf_Queue
begin

text \<open>
  The messages of \<^verbatim>\<open>src/dispatcher/common/dispatchercommon.c\<close> and the queue of messages with priorities of
  \<^verbatim>\<open>src/dispatcher/common/prioqueue.c\<close>, on top of \<^verbatim>\<open>jf_queue\<close>. The bytes of a message are read through the
  structure of its header, so a message is its header and its payload; messages live in a heap and
  are counted by references. The mutex and the logging are left out: each operation holds the lock.
\<close>

section \<open>Messages\<close>

definition JF_MESSAGING_PRIO_LOW :: u8 where
  "JF_MESSAGING_PRIO_LOW = 0"

definition JF_MESSAGING_PRIO_MID :: u8 where
  "JF_MESSAGING_PRIO_MID = 1"

definition JF_MESSAGING_PRIO_HIGH :: u8 where
  "JF_MESSAGING_PRIO_HIGH = 2"

record jf_messaging_header =
  jmh_u16MsgId :: u16
  jmh_u8MsgPrio :: u8
  jmh_u32TransactionId :: u32
  jmh_u32PayloadSize :: u32
  jmh_u32SourceId :: u32
  jmh_u32DestinationId :: u32

definition sizeof_header :: int where
  "sizeof_header = 24"

record messaging_msg =
  msg_header :: jf_messaging_header
  msg_payload :: "u8 list"

record dispatcher_msg =
  dm_nRef :: int
  dm_sMsg :: int
  dm_u8Msg :: messaging_msg

type_synonym msg_heap = "addr \<Rightarrow> dispatcher_msg option"

definition getMessagingMsgSize :: "messaging_msg \<Rightarrow> int" where
  "getMessagingMsgSize pu8Msg =
     sint (of_int (sizeof_header + uint (jmh_u32PayloadSize (msg_header pu8Msg))) :: u32)"

definition initMessagingMsgHeader :: "u32 \<Rightarrow> u16 \<Rightarrow> u8 \<Rightarrow> u32 \<Rightarrow> messaging_msg \<Rightarrow> messaging_msg" where
  "initMessagingMsgHeader currentId u16MsgId u8MsgPrio u32PayloadSize pu8Msg =
     pu8Msg\<lparr>msg_header := \<lparr>jmh_u16MsgId = u16MsgId, jmh_u8MsgPrio = u8MsgPrio, jmh_u32TransactionId = 0,
       jmh_u32PayloadSize = u32PayloadSize, jmh_u32SourceId = currentId, jmh_u32DestinationId = 0\<rparr>\<rparr>"

definition getMessagingMsgPrio :: "messaging_msg \<Rightarrow> u8" where
  "getMessagingMsgPrio pu8Msg = jmh_u8MsgPrio (msg_header pu8Msg)"

definition getMessagingMsgId :: "messaging_msg \<Rightarrow> u16" where
  "getMessagingMsgId pu8Msg = jmh_u16MsgId (msg_header pu8Msg)"

definition setMessagingMsgId :: "messaging_msg \<Rightarrow> u16 \<Rightarrow> messaging_msg" where
  "setMessagingMsgId pu8Msg u16MsgId = pu8Msg\<lparr>msg_header := (msg_header pu8Msg)\<lparr>jmh_u16MsgId := u16MsgId\<rparr>\<rparr>"

definition setMessagingMsgSourceId :: "messaging_msg \<Rightarrow> u32 \<Rightarrow> messaging_msg" where
  "setMessagingMsgSourceId pu8Msg sourceId = pu8Msg\<lparr>msg_header := (msg_header pu8Msg)\<lparr>jmh_u32SourceId := sourceId\<rparr>\<rparr>"

definition getMessagingMsgSourceId :: "messaging_msg \<Rightarrow> u32" where
  "getMessagingMsgSourceId pu8Msg = jmh_u32SourceId (msg_header pu8Msg)"

definition setMessagingMsgDestinationId :: "messaging_msg \<Rightarrow> u32 \<Rightarrow> messaging_msg" where
  "setMessagingMsgDestinationId pu8Msg destinationId =
     pu8Msg\<lparr>msg_header := (msg_header pu8Msg)\<lparr>jmh_u32DestinationId := destinationId\<rparr>\<rparr>"

definition getMessagingMsgDestinationId :: "messaging_msg \<Rightarrow> u32" where
  "getMessagingMsgDestinationId pu8Msg = jmh_u32DestinationId (msg_header pu8Msg)"

definition setMessagingMsgTransactionId :: "messaging_msg \<Rightarrow> u32 \<Rightarrow> messaging_msg" where
  "setMessagingMsgTransactionId pu8Msg transactionId =
     pu8Msg\<lparr>msg_header := (msg_header pu8Msg)\<lparr>jmh_u32TransactionId := transactionId\<rparr>\<rparr>"

definition getMessagingMsgTransactionId :: "messaging_msg \<Rightarrow> u32" where
  "getMessagingMsgTransactionId pu8Msg = jmh_u32TransactionId (msg_header pu8Msg)"

definition setMessagingMsgPayloadSize :: "messaging_msg \<Rightarrow> u32 \<Rightarrow> messaging_msg" where
  "setMessagingMsgPayloadSize pu8Msg u32PayloadSize =
     pu8Msg\<lparr>msg_header := (msg_header pu8Msg)\<lparr>jmh_u32PayloadSize := u32PayloadSize\<rparr>\<rparr>"

text \<open>The first comparison is unsigned (with \<^verbatim>\<open>sizeof\<close>), the second one signed.\<close>

definition isMessagingFullMsg :: "messaging_msg \<Rightarrow> int \<Rightarrow> jf_err" where
  "isMessagingFullMsg pu8Msg sMsg =
     (if 0 \<le> sMsg \<and> sMsg < sizeof_header then JF_ERR_INCOMPLETE_DATA
      else
        (let sz = getMessagingMsgSize pu8Msg
         in if sMsg < sz then JF_ERR_INCOMPLETE_DATA else JF_ERR_NO_ERROR))"

definition destroyDispatcherMsg :: "msg_heap \<Rightarrow> addr \<Rightarrow> msg_heap" where
  "destroyDispatcherMsg mh pMsg = mh(pMsg := None)"

definition createDispatcherMsg ::
  "(msg_heap \<Rightarrow> addr option) \<Rightarrow> msg_heap \<Rightarrow> messaging_msg \<Rightarrow> int \<Rightarrow> jf_err \<times> msg_heap \<times> addr option" where
  "createDispatcherMsg alloc mh pu8Msg sMsg =
     (case alloc mh of
        None \<Rightarrow> (JF_ERR_JIUKUN_OUT_OF_MEMORY, mh, None)
      | Some pdm \<Rightarrow> (JF_ERR_NO_ERROR, mh(pdm \<mapsto> \<lparr>dm_nRef = 1, dm_sMsg = sMsg, dm_u8Msg = pu8Msg\<rparr>), Some pdm))"

definition incDispatcherMsgRef :: "dispatcher_msg \<Rightarrow> dispatcher_msg" where
  "incDispatcherMsgRef pdm = pdm\<lparr>dm_nRef := dm_nRef pdm + 1\<rparr>"

definition decDispatcherMsgRef :: "dispatcher_msg \<Rightarrow> dispatcher_msg" where
  "decDispatcherMsgRef pdm = pdm\<lparr>dm_nRef := dm_nRef pdm - 1\<rparr>"

definition getDispatcherMsgRef :: "dispatcher_msg \<Rightarrow> int" where
  "getDispatcherMsgRef pdm = dm_nRef pdm"

definition getDispatcherMsgSourceId :: "dispatcher_msg \<Rightarrow> u32" where
  "getDispatcherMsgSourceId pdm = getMessagingMsgSourceId (dm_u8Msg pdm)"

definition getDispatcherMsgDestinationId :: "dispatcher_msg \<Rightarrow> u32" where
  "getDispatcherMsgDestinationId pdm = getMessagingMsgDestinationId (dm_u8Msg pdm)"

definition getDispatcherMsgId :: "dispatcher_msg \<Rightarrow> u16" where
  "getDispatcherMsgId pdm = getMessagingMsgId (dm_u8Msg pdm)"

definition getDispatcherMsgPrio :: "dispatcher_msg \<Rightarrow> u8" where
  "getDispatcherMsgPrio pdm = getMessagingMsgPrio (dm_u8Msg pdm)"

definition freeDispatcherMsg :: "msg_heap \<Rightarrow> addr \<Rightarrow> msg_heap option" where
  "freeDispatcherMsg mh pMsg =
     (case mh pMsg of
        None \<Rightarrow> None
      | Some m \<Rightarrow>
          (let m = decDispatcherMsgRef m;
               mh = mh(pMsg \<mapsto> m)
           in if getDispatcherMsgRef m \<le> 0 then Some (destroyDispatcherMsg mh pMsg) else Some mh))"

definition fnFreeDispatcherMsg :: "msg_heap \<Rightarrow> addr \<Rightarrow> msg_heap" where
  "fnFreeDispatcherMsg mh ppData = destroyDispatcherMsg mh ppData"

section \<open>Queue with priorities\<close>

record internal_dispatcher_prio_queue =
  idpq_jqMsg :: jf_queue
  idpq_u32NumOfHighPrioMsg :: u32
  idpq_u32NumOfMidPrioMsg :: u32
  idpq_u32NumOfLowPrioMsg :: u32
  idpq_u32MaxNumMsg :: u32

text \<open>The queue with the heap of its nodes (their data are addresses of messages) and the heap of messages.\<close>

record prio_state =
  pq_nodes :: "addr queue_heap"
  pq_msgs :: msg_heap
  pq_queue :: internal_dispatcher_prio_queue

definition getNumOfMsgInDispatcherPrioQueue :: "internal_dispatcher_prio_queue \<Rightarrow> u32" where
  "getNumOfMsgInDispatcherPrioQueue q =
     idpq_u32NumOfHighPrioMsg q + idpq_u32NumOfMidPrioMsg q + idpq_u32NumOfLowPrioMsg q"

definition incNumOfMsgInDispatcherPrioQueue :: "internal_dispatcher_prio_queue \<Rightarrow> u8 \<Rightarrow> internal_dispatcher_prio_queue" where
  "incNumOfMsgInDispatcherPrioQueue q u8MsgPrio =
     (if u8MsgPrio = JF_MESSAGING_PRIO_HIGH then q\<lparr>idpq_u32NumOfHighPrioMsg := idpq_u32NumOfHighPrioMsg q + 1\<rparr>
      else if u8MsgPrio = JF_MESSAGING_PRIO_MID then q\<lparr>idpq_u32NumOfMidPrioMsg := idpq_u32NumOfMidPrioMsg q + 1\<rparr>
      else q\<lparr>idpq_u32NumOfLowPrioMsg := idpq_u32NumOfLowPrioMsg q + 1\<rparr>)"

definition decNumOfMsgInDispatcherPrioQueue :: "internal_dispatcher_prio_queue \<Rightarrow> u8 \<Rightarrow> internal_dispatcher_prio_queue" where
  "decNumOfMsgInDispatcherPrioQueue q u8MsgPrio =
     (if u8MsgPrio = JF_MESSAGING_PRIO_HIGH then q\<lparr>idpq_u32NumOfHighPrioMsg := idpq_u32NumOfHighPrioMsg q - 1\<rparr>
      else if u8MsgPrio = JF_MESSAGING_PRIO_MID then q\<lparr>idpq_u32NumOfMidPrioMsg := idpq_u32NumOfMidPrioMsg q - 1\<rparr>
      else q\<lparr>idpq_u32NumOfLowPrioMsg := idpq_u32NumOfLowPrioMsg q - 1\<rparr>)"

text \<open>Which messages may push out the oldest one.\<close>

definition mayDequeue :: "internal_dispatcher_prio_queue \<Rightarrow> u8 \<Rightarrow> bool" where
  "mayDequeue q u8MsgPrio =
     (if u8MsgPrio = JF_MESSAGING_PRIO_HIGH then True
      else if u8MsgPrio = JF_MESSAGING_PRIO_MID then idpq_u32NumOfHighPrioMsg q = 0
      else idpq_u32NumOfHighPrioMsg q = 0 \<and> idpq_u32NumOfMidPrioMsg q = 0)"

text \<open>With nothing in the queue, the null message is released: \<open>None\<close>.\<close>

definition canDispatcherMsgBeQueued :: "prio_state \<Rightarrow> u8 \<Rightarrow> (bool \<times> prio_state) option" where
  "canDispatcherMsgBeQueued s u8MsgPrio =
     (let q = pq_queue s
      in if getNumOfMsgInDispatcherPrioQueue q < idpq_u32MaxNumMsg q then Some (True, s)
         else if mayDequeue q u8MsgPrio then
           (case jf_queue_dequeue (pq_nodes s) (idpq_jqMsg q) of
              None \<Rightarrow> None
            | Some (msg, nodes, jq) \<Rightarrow>
                (case msg of
                   None \<Rightarrow> None
                 | Some m \<Rightarrow>
                     (case freeDispatcherMsg (pq_msgs s) m of
                        None \<Rightarrow> None
                      | Some msgs \<Rightarrow>
                          Some (True, \<lparr>pq_nodes = nodes, pq_msgs = msgs,
                            pq_queue = decNumOfMsgInDispatcherPrioQueue (q\<lparr>idpq_jqMsg := jq\<rparr>) u8MsgPrio\<rparr>))))
         else Some (False, s))"

text \<open>The outcomes of the allocation and of the creation of the mutex are arguments.\<close>

definition createDispatcherPrioQueue :: "bool \<Rightarrow> jf_err \<Rightarrow> u32 \<Rightarrow> jf_err \<times> internal_dispatcher_prio_queue option" where
  "createDispatcherPrioQueue allocated mutex u32MaxNumMsg =
     (if \<not> allocated then (JF_ERR_JIUKUN_OUT_OF_MEMORY, None)
      else
        (let q = \<lparr>idpq_jqMsg = jf_queue_init, idpq_u32NumOfHighPrioMsg = 0, idpq_u32NumOfMidPrioMsg = 0,
               idpq_u32NumOfLowPrioMsg = 0, idpq_u32MaxNumMsg = u32MaxNumMsg\<rparr>
         in if mutex = JF_ERR_NO_ERROR then (JF_ERR_NO_ERROR, Some q) else (mutex, None)))"

text \<open>Releases the nodes and every message in them, whatever its references.\<close>

definition destroyDispatcherPrioQueue :: "prio_state \<Rightarrow> (addr queue_heap \<times> msg_heap) option" where
  "destroyDispatcherPrioQueue s =
     (case jf_queue_finiQueueAndData (pq_nodes s) (idpq_jqMsg (pq_queue s)) of
        None \<Rightarrow> None
      | Some (freed, nodes, _) \<Rightarrow> Some (nodes, foldl fnFreeDispatcherMsg (pq_msgs s) freed))"

definition isEmptyDispatcherPrioQueue :: "prio_state \<Rightarrow> bool" where
  "isEmptyDispatcherPrioQueue s = jf_queue_isEmpty (idpq_jqMsg (pq_queue s))"

definition enqueueDispatcherPrioQueue ::
  "(addr queue_heap \<Rightarrow> addr option) \<Rightarrow> prio_state \<Rightarrow> addr \<Rightarrow> (jf_err \<times> prio_state) option" where
  "enqueueDispatcherPrioQueue alloc s pMsg =
     (case pq_msgs s pMsg of
        None \<Rightarrow> None
      | Some m \<Rightarrow>
          (let u8MsgPrio = getDispatcherMsgPrio m
           in case canDispatcherMsgBeQueued s u8MsgPrio of
                None \<Rightarrow> None
              | Some (ok, s) \<Rightarrow>
                  (if ok then
                     (case jf_queue_enqueue alloc (pq_nodes s) (idpq_jqMsg (pq_queue s)) pMsg of
                        None \<Rightarrow> None
                      | Some (e, nodes, jq) \<Rightarrow>
                          (let q = (pq_queue s)\<lparr>idpq_jqMsg := jq\<rparr>;
                               q = (if e = JF_ERR_NO_ERROR then incNumOfMsgInDispatcherPrioQueue q u8MsgPrio else q)
                           in Some (e, s\<lparr>pq_nodes := nodes, pq_queue := q\<rparr>)))
                   else Some (JF_ERR_MSG_QUEUE_FULL, s))))"

definition dequeueDispatcherPrioQueue :: "prio_state \<Rightarrow> (addr option \<times> prio_state) option" where
  "dequeueDispatcherPrioQueue s =
     (case jf_queue_dequeue (pq_nodes s) (idpq_jqMsg (pq_queue s)) of
        None \<Rightarrow> None
      | Some (retval, nodes, jq) \<Rightarrow>
          (let q = (pq_queue s)\<lparr>idpq_jqMsg := jq\<rparr>
           in case retval of
                None \<Rightarrow> Some (None, s\<lparr>pq_nodes := nodes, pq_queue := q\<rparr>)
              | Some p \<Rightarrow>
                  (case pq_msgs s p of
                     None \<Rightarrow> None
                   | Some m \<Rightarrow>
                       Some (Some p, s\<lparr>pq_nodes := nodes,
                         pq_queue := decNumOfMsgInDispatcherPrioQueue q (getDispatcherMsgPrio m)\<rparr>))))"

definition peekDispatcherPrioQueue :: "prio_state \<Rightarrow> addr option option" where
  "peekDispatcherPrioQueue s = jf_queue_peek (pq_nodes s) (idpq_jqMsg (pq_queue s))"

section \<open>Complete messages\<close>

lemma sint_of_int_u32: "sint (of_int v :: u32) = (v + 2 ^ 31) mod 2 ^ 32 - 2 ^ 31"
  by (simp add: signed_of_int signed_take_bit_eq_take_bit_shift take_bit_eq_mod)

lemma getMessagingMsgSize_eq:
  "getMessagingMsgSize m =
    (let n = 24 + uint (jmh_u32PayloadSize (msg_header m)) in if n < 2 ^ 31 then n else n - 2 ^ 32)"
proof -
  define n where "n = 24 + uint (jmh_u32PayloadSize (msg_header m))"
  have n: "0 \<le> n" "n < 24 + 2 ^ 32" using uint_lt2p [of "jmh_u32PayloadSize (msg_header m)"] by (simp_all add: n_def)
  have "(n + 2 ^ 31) mod 2 ^ 32 = (n - 2 ^ 31) mod 2 ^ 32" by (simp add: mod_eq_dvd_iff)
  then have "(n + 2 ^ 31) mod 2 ^ 32 - 2 ^ 31 = (if n < 2 ^ 31 then n else n - 2 ^ 32)"
    using n by (cases "n < 2 ^ 31") (simp_all add: mod_pos_pos_trivial)
  then show ?thesis unfolding getMessagingMsgSize_def sizeof_header_def n_def [symmetric] sint_of_int_u32 Let_def .
qed

section \<open>Invariant of the queue\<close>

text \<open>
  The queue holds the messages \<open>ms\<close> in order; the three counters add up to their number, which is
  not above the maximum; every message in the queue is allocated and has a reference for each of its entries.
\<close>

definition msgs_live :: "msg_heap \<Rightarrow> addr list \<Rightarrow> bool" where
  "msgs_live mh ms \<longleftrightarrow> (\<forall>p \<in> set ms. \<exists>m. mh p = Some m \<and> int (count_list ms p) \<le> dm_nRef m)"

definition prio_inv :: "prio_state \<Rightarrow> addr list \<Rightarrow> bool" where
  "prio_inv s ms \<longleftrightarrow>
     is_queue (pq_nodes s, idpq_jqMsg (pq_queue s)) ms \<and>
     getNumOfMsgInDispatcherPrioQueue (pq_queue s) = of_nat (length ms) \<and>
     length ms \<le> unat (idpq_u32MaxNumMsg (pq_queue s)) \<and> msgs_live (pq_msgs s) ms"

lemma getNum_inc_dec:
  "getNumOfMsgInDispatcherPrioQueue (incNumOfMsgInDispatcherPrioQueue q p) = getNumOfMsgInDispatcherPrioQueue q + 1"
  "getNumOfMsgInDispatcherPrioQueue (decNumOfMsgInDispatcherPrioQueue q p) = getNumOfMsgInDispatcherPrioQueue q - 1"
  "getNumOfMsgInDispatcherPrioQueue (q\<lparr>idpq_jqMsg := jq\<rparr>) = getNumOfMsgInDispatcherPrioQueue q"
  by (simp_all add: getNumOfMsgInDispatcherPrioQueue_def incNumOfMsgInDispatcherPrioQueue_def
      decNumOfMsgInDispatcherPrioQueue_def)

lemma inc_dec_fields [simp]:
  "idpq_jqMsg (incNumOfMsgInDispatcherPrioQueue q p) = idpq_jqMsg q"
  "idpq_jqMsg (decNumOfMsgInDispatcherPrioQueue q p) = idpq_jqMsg q"
  "idpq_u32MaxNumMsg (incNumOfMsgInDispatcherPrioQueue q p) = idpq_u32MaxNumMsg q"
  "idpq_u32MaxNumMsg (decNumOfMsgInDispatcherPrioQueue q p) = idpq_u32MaxNumMsg q"
  by (simp_all add: incNumOfMsgInDispatcherPrioQueue_def decNumOfMsgInDispatcherPrioQueue_def)

lemma of_nat_less_u32:
  assumes "n \<le> unat (k :: u32)"
  shows "of_nat n < k \<longleftrightarrow> n < unat k"
proof -
  have "n < 2 ^ 32" using assms unsigned_less [of k, where ?'a = nat] by simp
  then have "unat (of_nat n :: u32) = n" by (simp add: unsigned_of_nat take_bit_nat_eq_self)
  then show ?thesis by (simp add: word_less_nat_alt)
qed

lemma freeDispatcherMsg_live:
  assumes "msgs_live mh (p # ms)" "mh a = Some m" "int (count_list (p # ms) a) < dm_nRef m"
  shows "\<exists>mh'. freeDispatcherMsg mh p = Some mh' \<and> msgs_live mh' (ms @ [a])"
proof -
  obtain m0 where m0: "mh p = Some m0" "int (count_list (p # ms) p) \<le> dm_nRef m0"
    using assms(1) by (auto simp: msgs_live_def)
  let ?m = "decDispatcherMsgRef m0"
  have live: "\<exists>m'. mh x = Some m' \<and> int (count_list (p # ms @ [a]) x) \<le> dm_nRef m'" if "x \<in> set (ms @ [a])" for x
    using that assms by (cases "x = a") (auto simp: msgs_live_def)
  show ?thesis
  proof (cases "dm_nRef ?m \<le> 0")
    case True
    then have "dm_nRef m0 \<le> 1" by (simp add: decDispatcherMsgRef_def)
    then have "p \<notin> set ms" "p \<noteq> a"
      using m0(2) assms(2,3) m0(1) count_list_0_iff [of ms p] by (auto split: if_splits)
    have "msgs_live (mh(p := None)) (ms @ [a])"
      unfolding msgs_live_def
    proof
      fix x assume x: "x \<in> set (ms @ [a])"
      then have "x \<noteq> p" using \<open>p \<notin> set ms\<close> \<open>p \<noteq> a\<close> by auto
      with live [OF x] show "\<exists>m'. (mh(p := None)) x = Some m' \<and> int (count_list (ms @ [a]) x) \<le> dm_nRef m'" by auto
    qed
    then show ?thesis using True m0 by (simp add: freeDispatcherMsg_def destroyDispatcherMsg_def getDispatcherMsgRef_def Let_def)
  next
    case False
    have "msgs_live (mh(p \<mapsto> ?m)) (ms @ [a])"
      unfolding msgs_live_def
    proof
      fix x assume "x \<in> set (ms @ [a])"
      from live [OF this] show "\<exists>m'. (mh(p \<mapsto> ?m)) x = Some m' \<and> int (count_list (ms @ [a]) x) \<le> dm_nRef m'"
        using m0 by (cases "x = p") (auto simp: decDispatcherMsgRef_def)
    qed
    then show ?thesis using False m0 by (simp add: freeDispatcherMsg_def getDispatcherMsgRef_def Let_def)
  qed
qed

lemma prio_dequeue:
  assumes "is_queue (nodes, jq) (p # ms)"
  obtains nodes' jq' where "jf_queue_dequeue nodes jq = Some (Some p, nodes', jq')" "is_queue (nodes', jq') ms"
  using queue_take_element [OF assms] by (auto simp: queue_take_def)

text \<open>Making room: nothing happens below the maximum; at the maximum the oldest message goes or the new one is refused.\<close>

lemma canBeQueued_spec:
  assumes inv: "prio_inv s ms" and max: "0 < idpq_u32MaxNumMsg (pq_queue s)"
    and m: "pq_msgs s a = Some m" "int (count_list ms a) < dm_nRef m"
  shows "\<exists>ok s' ms'. canDispatcherMsgBeQueued s prio = Some (ok, s') \<and> prio_inv s' ms' \<and>
    idpq_u32MaxNumMsg (pq_queue s') = idpq_u32MaxNumMsg (pq_queue s) \<and>
    (if length ms < unat (idpq_u32MaxNumMsg (pq_queue s)) then ok \<and> s' = s \<and> ms' = ms
     else ok = mayDequeue (pq_queue s) prio \<and> (if ok then ms' = tl ms else s' = s \<and> ms' = ms)) \<and>
    (ok \<longrightarrow> length ms' < unat (idpq_u32MaxNumMsg (pq_queue s)) \<and> msgs_live (pq_msgs s') (ms' @ [a]))"
proof -
  have i: "is_queue (pq_nodes s, idpq_jqMsg (pq_queue s)) ms"
    "getNumOfMsgInDispatcherPrioQueue (pq_queue s) = of_nat (length ms)"
    "length ms \<le> unat (idpq_u32MaxNumMsg (pq_queue s))" "msgs_live (pq_msgs s) ms"
    using inv by (simp_all add: prio_inv_def)
  have less: "getNumOfMsgInDispatcherPrioQueue (pq_queue s) < idpq_u32MaxNumMsg (pq_queue s) \<longleftrightarrow>
      length ms < unat (idpq_u32MaxNumMsg (pq_queue s))"
    using of_nat_less_u32 [OF i(3)] i(2) by simp
  have l: "msgs_live (pq_msgs s) (ms @ [a])" using i(4) m by (auto simp: msgs_live_def)
  show ?thesis
  proof (cases "length ms < unat (idpq_u32MaxNumMsg (pq_queue s))")
    case True
    then show ?thesis using less inv l
      by (intro exI [of _ True] exI [of _ s] exI [of _ ms]) (simp add: canDispatcherMsgBeQueued_def Let_def)
  next
    case False
    show ?thesis
    proof (cases "mayDequeue (pq_queue s) prio")
      case f: False
      then show ?thesis using False less inv
        by (intro exI [of _ False] exI [of _ s] exI [of _ ms]) (simp add: canDispatcherMsgBeQueued_def Let_def)
    next
      case t: True
      have "0 < unat (idpq_u32MaxNumMsg (pq_queue s))" using max by (simp add: word_less_nat_alt)
      then obtain p ms' where ms: "ms = p # ms'" using False by (cases ms) auto
      obtain nodes jq where d: "jf_queue_dequeue (pq_nodes s) (idpq_jqMsg (pq_queue s)) = Some (Some p, nodes, jq)"
          "is_queue (nodes, jq) ms'" using i(1) ms by (auto intro: prio_dequeue)
      obtain mh where mh: "freeDispatcherMsg (pq_msgs s) p = Some mh" "msgs_live mh (ms' @ [a])"
        using freeDispatcherMsg_live [of "pq_msgs s" p ms' a m] i(4) m ms by blast
      let ?s = "\<lparr>pq_nodes = nodes, pq_msgs = mh,
        pq_queue = decNumOfMsgInDispatcherPrioQueue ((pq_queue s)\<lparr>idpq_jqMsg := jq\<rparr>) prio\<rparr>"
      have "canDispatcherMsgBeQueued s prio = Some (True, ?s)"
        using False less t d mh by (simp add: canDispatcherMsgBeQueued_def Let_def)
      moreover have "msgs_live mh ms'" using mh(2) by (auto simp: msgs_live_def)
      then have "prio_inv ?s ms'" using d i(2,3) ms by (simp add: prio_inv_def getNum_inc_dec)
      ultimately show ?thesis using False t ms mh(2) i(3)
        by (intro exI [of _ True] exI [of _ ?s] exI [of _ ms']) simp
    qed
  qed
qed

lemma prioqueue_dequeue:
  assumes "prio_inv s (p # ms)"
  shows "\<exists>s'. dequeueDispatcherPrioQueue s = Some (Some p, s') \<and> prio_inv s' ms"
proof -
  have i: "is_queue (pq_nodes s, idpq_jqMsg (pq_queue s)) (p # ms)"
    "getNumOfMsgInDispatcherPrioQueue (pq_queue s) = of_nat (Suc (length ms))"
    "Suc (length ms) \<le> unat (idpq_u32MaxNumMsg (pq_queue s))" "msgs_live (pq_msgs s) (p # ms)"
    using assms by (simp_all add: prio_inv_def)
  obtain nodes jq where d: "jf_queue_dequeue (pq_nodes s) (idpq_jqMsg (pq_queue s)) = Some (Some p, nodes, jq)"
      "is_queue (nodes, jq) ms" using i(1) by (rule prio_dequeue)
  obtain m where m: "pq_msgs s p = Some m" using i(4) by (auto simp: msgs_live_def)
  have "msgs_live (pq_msgs s) ms" using i(4) by (auto simp: msgs_live_def split: if_splits)
  then show ?thesis
    using d m i(2,3) by (simp add: dequeueDispatcherPrioQueue_def prio_inv_def getNum_inc_dec Let_def)
qed

section \<open>A small queue\<close>

definition demo_msg :: "u8 \<Rightarrow> dispatcher_msg" where
  "demo_msg prio =
     \<lparr>dm_nRef = 1, dm_sMsg = 24,
      dm_u8Msg = \<lparr>msg_header = \<lparr>jmh_u16MsgId = 0, jmh_u8MsgPrio = prio, jmh_u32TransactionId = 0, jmh_u32PayloadSize = 0,
        jmh_u32SourceId = 0, jmh_u32DestinationId = 0\<rparr>, msg_payload = []\<rparr>\<rparr>"

definition demo_prio :: "u32 \<Rightarrow> prio_state" where
  "demo_prio limit =
     \<lparr>pq_nodes = \<lambda>_. None,
      pq_msgs = [1 \<mapsto> demo_msg JF_MESSAGING_PRIO_LOW, 2 \<mapsto> demo_msg JF_MESSAGING_PRIO_HIGH, 3 \<mapsto> demo_msg JF_MESSAGING_PRIO_MID],
      pq_queue = the (snd (createDispatcherPrioQueue True JF_ERR_NO_ERROR limit))\<rparr>"

lemma demo_prio_inv: "prio_inv (demo_prio limit) []"
  by (simp add: prio_inv_def demo_prio_def createDispatcherPrioQueue_def queue_init msgs_live_def
      getNumOfMsgInDispatcherPrioQueue_def Let_def)

section \<open>Properties\<close>

text \<open>
  (C22) Adding a message keeps the invariant: the queue never exceeds its maximum, keeps the order of
  arrival and never holds a released message. A message is refused only at the maximum; at the maximum
  an accepted message pushes out the oldest one, which is lost also when the allocation of the new entry then fails.
\<close>
theorem prioqueue_enqueue:
  assumes "prio_inv s ms" "0 < idpq_u32MaxNumMsg (pq_queue s)" "alloc_fresh alloc"
    and "pq_msgs s a = Some m" "int (count_list ms a) < dm_nRef m"
  shows "\<exists>e s' ms'. enqueueDispatcherPrioQueue alloc s a = Some (e, s') \<and> prio_inv s' ms' \<and>
    (let full = (length ms = unat (idpq_u32MaxNumMsg (pq_queue s))); kept = (if full then tl ms else ms)
     in e = JF_ERR_NO_ERROR \<and> ms' = kept @ [a] \<or>
        e = JF_ERR_JIUKUN_OUT_OF_MEMORY \<and> ms' = kept \<or>
        e = JF_ERR_MSG_QUEUE_FULL \<and> full \<and> s' = s \<and> ms' = ms)"
proof -
  let ?prio = "getDispatcherMsgPrio m" and ?max = "unat (idpq_u32MaxNumMsg (pq_queue s))"
  obtain ok s1 ms1 where c: "canDispatcherMsgBeQueued s ?prio = Some (ok, s1)" "prio_inv s1 ms1"
      "idpq_u32MaxNumMsg (pq_queue s1) = idpq_u32MaxNumMsg (pq_queue s)"
      "if length ms < ?max then ok \<and> s1 = s \<and> ms1 = ms
       else ok = mayDequeue (pq_queue s) ?prio \<and> (if ok then ms1 = tl ms else s1 = s \<and> ms1 = ms)"
      "ok \<longrightarrow> length ms1 < ?max \<and> msgs_live (pq_msgs s1) (ms1 @ [a])"
    using canBeQueued_spec [OF assms(1,2,4,5), of ?prio] by blast
  have le: "length ms \<le> ?max" using assms(1) by (simp add: prio_inv_def)
  show ?thesis
  proof (cases ok)
    case False
    then have "enqueueDispatcherPrioQueue alloc s a = Some (JF_ERR_MSG_QUEUE_FULL, s1)"
      using c(1) assms(4) by (simp add: enqueueDispatcherPrioQueue_def)
    then show ?thesis using c False le assms(1)
      by (intro exI [of _ JF_ERR_MSG_QUEUE_FULL] exI [of _ s] exI [of _ ms]) (auto simp: Let_def split: if_splits)
  next
    case True
    obtain e nodes jq where q: "jf_queue_enqueue alloc (pq_nodes s1) (idpq_jqMsg (pq_queue s1)) a = Some (e, nodes, jq)"
        "e = JF_ERR_NO_ERROR \<and> is_queue (nodes, jq) (ms1 @ [a]) \<or> e = JF_ERR_JIUKUN_OUT_OF_MEMORY \<and> is_queue (nodes, jq) ms1"
      using queue_put_spec [OF assms(3), of "(pq_nodes s1, idpq_jqMsg (pq_queue s1))" ms1 a] c(2)
      by (auto simp: prio_inv_def queue_put_def)
    let ?q = "(pq_queue s1)\<lparr>idpq_jqMsg := jq\<rparr>"
    let ?s = "s1\<lparr>pq_nodes := nodes, pq_queue := if e = JF_ERR_NO_ERROR then incNumOfMsgInDispatcherPrioQueue ?q ?prio else ?q\<rparr>"
    have r: "enqueueDispatcherPrioQueue alloc s a = Some (e, ?s)"
      using c(1) q(1) assms(4) True by (simp add: enqueueDispatcherPrioQueue_def Let_def)
    have kept: "ms1 = (if length ms = ?max then tl ms else ms)" using c(4) True le by (auto split: if_splits)
    from q(2) show ?thesis
    proof
      assume e: "e = JF_ERR_NO_ERROR \<and> is_queue (nodes, jq) (ms1 @ [a])"
      then have "prio_inv ?s (ms1 @ [a])"
        using c(2,3,5) True by (simp add: prio_inv_def getNum_inc_dec Suc_le_eq)
      with r e kept show ?thesis by (intro exI [of _ e] exI [of _ ?s] exI [of _ "ms1 @ [a]"]) (simp add: Let_def)
    next
      assume e: "e = JF_ERR_JIUKUN_OUT_OF_MEMORY \<and> is_queue (nodes, jq) ms1"
      then have "prio_inv ?s ms1" using c(2,3) by (simp add: prio_inv_def getNum_inc_dec)
      with r e kept show ?thesis by (intro exI [of _ e] exI [of _ ?s] exI [of _ ms1]) (simp add: Let_def)
    qed
  qed
qed

theorem prioqueue_enqueue_witness:
  "\<exists>e s' ms'. enqueueDispatcherPrioQueue (first_free 9) (demo_prio 1) 2 = Some (e, s') \<and> prio_inv s' ms' \<and>
    (let full = (length ([] :: addr list) = unat (idpq_u32MaxNumMsg (pq_queue (demo_prio 1)))); kept = (if full then tl [] else [])
     in e = JF_ERR_NO_ERROR \<and> ms' = kept @ [2] \<or>
        e = JF_ERR_JIUKUN_OUT_OF_MEMORY \<and> ms' = kept \<or>
        e = JF_ERR_MSG_QUEUE_FULL \<and> full \<and> s' = demo_prio 1 \<and> ms' = [])"
  by (rule prioqueue_enqueue [OF demo_prio_inv _ first_free_fresh, where m = "demo_msg JF_MESSAGING_PRIO_HIGH"])
    (simp_all add: demo_prio_def demo_msg_def createDispatcherPrioQueue_def Let_def)


text \<open>
  (C38) When a received message counts as complete: the header and the announced payload are there, or the
  announced size does not fit a signed 32-bit integer; in that case the header alone is accepted.
\<close>
theorem messaging_full_msg:
  assumes "0 \<le> sMsg" "sMsg < 2 ^ 31"
  shows "isMessagingFullMsg m sMsg = JF_ERR_NO_ERROR \<longleftrightarrow>
    24 \<le> sMsg \<and> (let n = 24 + uint (jmh_u32PayloadSize (msg_header m)) in n \<le> sMsg \<or> 2 ^ 31 \<le> n)"
proof -
  have "uint (jmh_u32PayloadSize (msg_header m)) < 2 ^ 32" using uint_lt2p [of "jmh_u32PayloadSize (msg_header m)"] by simp
  then show ?thesis
    using assms by (auto simp: isMessagingFullMsg_def getMessagingMsgSize_eq sizeof_header_def Let_def)
qed

theorem messaging_full_msg_witness:
  "isMessagingFullMsg (setMessagingMsgPayloadSize (dm_u8Msg (demo_msg 0)) 0x80000000) 24 = JF_ERR_NO_ERROR"
  using messaging_full_msg [of 24 "setMessagingMsgPayloadSize (dm_u8Msg (demo_msg 0)) 0x80000000"]
  by (simp add: setMessagingMsgPayloadSize_def demo_msg_def)

end
