(* ===== verification/Jf_Hsm.thy ===== *)
theory Jf_Hsm
  imports Jf_Prelude
begin

text \<open>
  The hierarchical state machine of \<^verbatim>\<open>src/jiutai/jf_hsm.c\<close>. The rings of tables and of callbacks are the lists of
  their entries in order (\<open>Jf_Listhead\<close> shows that the ring operations used here are the list operations), so
  a pointer to a table is its index. The callbacks of the user are functions on a state \<open>'w\<close> of the
  world, which does not hold the machine itself: a callback that calls the machine again is outside the model.
  A null callback is \<open>None\<close>. Reading past the end of a table and calling a null callback are \<open>None\<close>, as is a failed
  assertion.
\<close>

section \<open>Data\<close>

type_synonym jf_hsm_state_id = u32
type_synonym jf_hsm_event_id = u32

definition JF_HSM_LAST_STATE_ID :: jf_hsm_state_id where
  "JF_HSM_LAST_STATE_ID = - 1"

definition JF_HSM_LAST_EVENT_ID :: jf_hsm_event_id where
  "JF_HSM_LAST_EVENT_ID = - 1"

record jf_hsm_event =
  jhe_jheiEventId :: jf_hsm_event_id
  jhe_pData :: nat
  jhe_s64Param :: u64

type_synonym 'w hsm_guard = "jf_hsm_event \<Rightarrow> 'w \<Rightarrow> bool \<times> 'w"
type_synonym 'w hsm_action = "jf_hsm_event \<Rightarrow> 'w \<Rightarrow> jf_err \<times> 'w"
type_synonym 'w hsm_callback = "jf_hsm_state_id \<Rightarrow> jf_hsm_event \<Rightarrow> 'w \<Rightarrow> jf_err \<times> 'w"

record 'w jf_hsm_transition =
  jht_jhsiCurrentStateId :: jf_hsm_state_id
  jht_jheiEventId :: jf_hsm_event_id
  jht_fnGuard :: "'w hsm_guard option"
  jht_fnAction :: "'w hsm_action option"
  jht_jhsiNextStateId :: jf_hsm_state_id

record 'w internal_hsm_state_transition_table =
  ihstt_jhsiStateId :: jf_hsm_state_id
  ihstt_jhsiInitialStateId :: jf_hsm_state_id
  ihstt_jhsiCurrentStateId :: jf_hsm_state_id
  ihstt_jhtTransition :: "'w jf_hsm_transition list"

record 'w internal_hsm_state_callback =
  ihsc_jhsiStateId :: jf_hsm_state_id
  ihsc_fnOnEntry :: "'w hsm_callback option"
  ihsc_fnOnExit :: "'w hsm_callback option"

record 'w internal_hsm =
  ih_jlStateTransitionTable :: "'w internal_hsm_state_transition_table list"
  ih_jlStateCallback :: "'w internal_hsm_state_callback list"

definition jf_hsm_initEvent :: "jf_hsm_event_id \<Rightarrow> nat \<Rightarrow> u64 \<Rightarrow> jf_hsm_event" where
  "jf_hsm_initEvent eventId pData s64Param = \<lparr>jhe_jheiEventId = eventId, jhe_pData = pData, jhe_s64Param = s64Param\<rparr>"

section \<open>Tables and callbacks\<close>

text \<open>The entries up to and including the first one with the last state id; \<open>None\<close> if there is none.\<close>

fun getJfHsmTransitionTableSize :: "'w jf_hsm_transition list \<Rightarrow> nat option" where
  "getJfHsmTransitionTableSize [] = None"
| "getJfHsmTransitionTableSize (p # ps) =
     (if jht_jhsiCurrentStateId p \<noteq> JF_HSM_LAST_STATE_ID
      then map_option Suc (getJfHsmTransitionTableSize ps) else Some 1)"

definition createInternalHsmStateTransitionTable ::
  "bool \<Rightarrow> jf_hsm_state_id \<Rightarrow> 'w jf_hsm_transition list \<Rightarrow> jf_hsm_state_id \<Rightarrow>
    (jf_err + 'w internal_hsm_state_transition_table) option" where
  "createInternalHsmStateTransitionTable allocated stateId pTransition initialStateId =
     (case getJfHsmTransitionTableSize pTransition of
        None \<Rightarrow> None
      | Some tsize \<Rightarrow>
          (if allocated then
             Some (Inr \<lparr>ihstt_jhsiStateId = stateId, ihstt_jhsiInitialStateId = initialStateId,
               ihstt_jhsiCurrentStateId = initialStateId, ihstt_jhtTransition = take tsize pTransition\<rparr>)
           else Some (Inl JF_ERR_JIUKUN_OUT_OF_MEMORY)))"

fun find_index :: "('a \<Rightarrow> bool) \<Rightarrow> 'a list \<Rightarrow> nat option" where
  "find_index P [] = None"
| "find_index P (x # xs) = (if P x then Some 0 else map_option Suc (find_index P xs))"

definition getInternalHsmStateTransitionTable :: "'w internal_hsm \<Rightarrow> jf_hsm_state_id \<Rightarrow> jf_err \<times> nat option" where
  "getInternalHsmStateTransitionTable pih stateId =
     (if stateId = JF_HSM_LAST_STATE_ID then (JF_ERR_INVALID_PARAM, None)
      else
        (case find_index (\<lambda>t. ihstt_jhsiStateId t = stateId) (ih_jlStateTransitionTable pih) of
           None \<Rightarrow> (JF_ERR_HSM_STATE_NOT_FOUND, None)
         | Some i \<Rightarrow> (JF_ERR_NO_ERROR, Some i)))"

definition createInternalHsmStateCallback ::
  "bool \<Rightarrow> jf_hsm_state_id \<Rightarrow> 'w hsm_callback option \<Rightarrow> 'w hsm_callback option \<Rightarrow> jf_err + 'w internal_hsm_state_callback" where
  "createInternalHsmStateCallback allocated stateId fnOnEntry fnOnExit =
     (if allocated then Inr \<lparr>ihsc_jhsiStateId = stateId, ihsc_fnOnEntry = fnOnEntry, ihsc_fnOnExit = fnOnExit\<rparr>
      else Inl JF_ERR_JIUKUN_OUT_OF_MEMORY)"

definition getInternalHsmStateCallback :: "'w internal_hsm \<Rightarrow> jf_hsm_state_id \<Rightarrow> jf_err \<times> nat option" where
  "getInternalHsmStateCallback pih stateId =
     (if stateId = JF_HSM_LAST_STATE_ID then (JF_ERR_INVALID_PARAM, None)
      else
        (case find_index (\<lambda>c. ihsc_jhsiStateId c = stateId) (ih_jlStateCallback pih) of
           None \<Rightarrow> (JF_ERR_HSM_STATE_NOT_FOUND, None)
         | Some i \<Rightarrow> (JF_ERR_NO_ERROR, Some i)))"

section \<open>Events\<close>

definition executeHsmStateAction :: "'w jf_hsm_transition \<Rightarrow> jf_hsm_event \<Rightarrow> 'w \<Rightarrow> jf_err \<times> 'w" where
  "executeHsmStateAction pjht pEvent w =
     (case jht_fnAction pjht of None \<Rightarrow> (JF_ERR_NO_ERROR, w) | Some fn \<Rightarrow> fn pEvent w)"

text \<open>The call of a callback of a state, if one is registered; the error it returns is not read.\<close>

definition callState ::
  "('w internal_hsm_state_callback \<Rightarrow> 'w hsm_callback option) \<Rightarrow> 'w internal_hsm \<Rightarrow> jf_hsm_state_id \<Rightarrow> jf_hsm_event \<Rightarrow> 'w \<Rightarrow> 'w option" where
  "callState sel pih stateId pEvent w =
     (case snd (getInternalHsmStateCallback pih stateId) of
        None \<Rightarrow> Some w
      | Some i \<Rightarrow>
          (let pihsc = ih_jlStateCallback pih ! i
           in map_option (\<lambda>fn. snd (fn (ihsc_jhsiStateId pihsc) pEvent w)) (sel pihsc)))"

definition setCurrentState :: "'w internal_hsm \<Rightarrow> nat \<Rightarrow> jf_hsm_state_id \<Rightarrow> 'w internal_hsm" where
  "setCurrentState pih i stateId =
     pih\<lparr>ih_jlStateTransitionTable :=
       (ih_jlStateTransitionTable pih)[i := (ih_jlStateTransitionTable pih ! i)\<lparr>ihstt_jhsiCurrentStateId := stateId\<rparr>]\<rparr>"

definition postHsmStateTransition ::
  "'w internal_hsm \<Rightarrow> nat \<Rightarrow> jf_hsm_event \<Rightarrow> 'w jf_hsm_transition \<Rightarrow> 'w \<Rightarrow> ('w internal_hsm \<times> 'w) option" where
  "postHsmStateTransition pih i pEvent pjht w =
     (if jht_jhsiNextStateId pjht \<noteq> JF_HSM_LAST_EVENT_ID \<and> jht_jhsiNextStateId pjht \<noteq> jht_jhsiCurrentStateId pjht then
        (case callState ihsc_fnOnExit pih (ihstt_jhsiCurrentStateId (ih_jlStateTransitionTable pih ! i)) pEvent w of
           None \<Rightarrow> None
         | Some w \<Rightarrow>
             (let pih = setCurrentState pih i (jht_jhsiNextStateId pjht)
              in case callState ihsc_fnOnEntry pih (ihstt_jhsiCurrentStateId (ih_jlStateTransitionTable pih ! i)) pEvent w of
                   None \<Rightarrow> None
                 | Some w \<Rightarrow>
                     (case snd (getInternalHsmStateTransitionTable pih
                              (ihstt_jhsiCurrentStateId (ih_jlStateTransitionTable pih ! i))) of
                        None \<Rightarrow> Some (pih, w)
                      | Some j \<Rightarrow>
                          Some (setCurrentState pih j (ihstt_jhsiInitialStateId (ih_jlStateTransitionTable pih ! j)), w))))
      else Some (pih, w))"

definition callGuard :: "'w jf_hsm_transition \<Rightarrow> jf_hsm_event \<Rightarrow> 'w \<Rightarrow> bool \<times> 'w" where
  "callGuard pjht pEvent w = (case jht_fnGuard pjht of None \<Rightarrow> (True, w) | Some fn \<Rightarrow> fn pEvent w)"

fun processHsmEvent ::
  "'w internal_hsm \<Rightarrow> nat \<Rightarrow> jf_hsm_event \<Rightarrow> 'w jf_hsm_transition list \<Rightarrow> bool \<Rightarrow> 'w \<Rightarrow>
    (jf_err \<times> bool \<times> 'w internal_hsm \<times> 'w) option" where
  "processHsmEvent pih i pEvent [] bHit w = None"
| "processHsmEvent pih i pEvent (pjht # ps) bHit w =
     (if jht_jheiEventId pjht \<noteq> JF_HSM_LAST_EVENT_ID then
        (if jht_jhsiCurrentStateId pjht = ihstt_jhsiCurrentStateId (ih_jlStateTransitionTable pih ! i) \<and>
            jht_jheiEventId pjht = jhe_jheiEventId pEvent
         then (let (pass, w) = callGuard pjht pEvent w
               in if pass then
                    (let (u32Ret, w) = executeHsmStateAction pjht pEvent w
                     in case postHsmStateTransition pih i pEvent pjht w of
                          None \<Rightarrow> None
                        | Some (pih, w) \<Rightarrow> Some (u32Ret, True, pih, w))
                  else processHsmEvent pih i pEvent ps True w)
         else processHsmEvent pih i pEvent ps bHit w)
      else Some (JF_ERR_NO_ERROR, bHit, pih, w))"

text \<open>The loop over the tables from index \<open>i\<close>; \<open>n\<close> is the number of tables.\<close>

function processTables ::
  "nat \<Rightarrow> nat \<Rightarrow> 'w internal_hsm \<Rightarrow> jf_hsm_event \<Rightarrow> jf_hsm_state_id \<Rightarrow> 'w \<Rightarrow> ('w internal_hsm \<times> 'w) option" where
  "processTables n i pih pEvent stateId w =
     (if i < n then
        (let pihstt = ih_jlStateTransitionTable pih ! i
         in if ihstt_jhsiStateId pihstt = JF_HSM_LAST_STATE_ID then
              (let stateId = ihstt_jhsiCurrentStateId pihstt
               in case processHsmEvent pih i pEvent (ihstt_jhtTransition pihstt) False w of
                    None \<Rightarrow> None
                  | Some (_, bHit, pih, w) \<Rightarrow>
                      if bHit then Some (pih, w) else processTables n (i + 1) pih pEvent stateId w)
            else if ihstt_jhsiStateId pihstt = stateId then
              (case processHsmEvent pih i pEvent (ihstt_jhtTransition pihstt) False w of
                 None \<Rightarrow> None
               | Some (_, bHit, pih, w) \<Rightarrow>
                   if bHit then Some (pih, w) else processTables n (i + 1) pih pEvent stateId w)
            else processTables n (i + 1) pih pEvent stateId w)
      else Some (pih, w))"
  by pat_completeness auto
termination
  by (relation "measure (\<lambda>(n, i, _). n - i)") auto

declare processTables.simps [simp del]

definition jf_hsm_processEvent :: "'w internal_hsm \<Rightarrow> jf_hsm_event \<Rightarrow> 'w \<Rightarrow> (jf_err \<times> 'w internal_hsm \<times> 'w) option" where
  "jf_hsm_processEvent pih pEvent w =
     map_option (\<lambda>(pih, w). (JF_ERR_NO_ERROR, pih, w))
       (processTables (length (ih_jlStateTransitionTable pih)) 0 pih pEvent JF_HSM_LAST_STATE_ID w)"

section \<open>The machine\<close>

text \<open>The outcomes of the two allocations are arguments.\<close>

definition jf_hsm_create ::
  "bool \<Rightarrow> bool \<Rightarrow> 'w jf_hsm_transition list \<Rightarrow> jf_hsm_state_id \<Rightarrow> (jf_err + 'w internal_hsm) option" where
  "jf_hsm_create allocated allocatedTable pTransition initialStateId =
     (if allocated then
        (case createInternalHsmStateTransitionTable allocatedTable JF_HSM_LAST_STATE_ID pTransition initialStateId of
           None \<Rightarrow> None
         | Some (Inl e) \<Rightarrow> Some (Inl e)
         | Some (Inr pihstt) \<Rightarrow> Some (Inr \<lparr>ih_jlStateTransitionTable = [pihstt], ih_jlStateCallback = []\<rparr>))
      else Some (Inl JF_ERR_JIUKUN_OUT_OF_MEMORY))"

text \<open>Every table and every callback is released, in the order of the lists.\<close>

definition jf_hsm_destroy ::
  "'w internal_hsm \<Rightarrow> 'w internal_hsm_state_transition_table list \<times> 'w internal_hsm_state_callback list" where
  "jf_hsm_destroy pih = (ih_jlStateTransitionTable pih, ih_jlStateCallback pih)"

definition jf_hsm_getCurrentStateId :: "'w internal_hsm \<Rightarrow> jf_hsm_state_id option" where
  "jf_hsm_getCurrentStateId pih =
     (case ih_jlStateTransitionTable pih of
        [] \<Rightarrow> None
      | pihstt # _ \<Rightarrow>
          (let stateId = ihstt_jhsiCurrentStateId pihstt
           in case getInternalHsmStateTransitionTable pih stateId of
                (_, None) \<Rightarrow> Some stateId
              | (_, Some i) \<Rightarrow> Some (ihstt_jhsiCurrentStateId (ih_jlStateTransitionTable pih ! i))))"

definition jf_hsm_addStateTransition ::
  "bool \<Rightarrow> 'w internal_hsm \<Rightarrow> jf_hsm_state_id \<Rightarrow> 'w jf_hsm_transition list \<Rightarrow> jf_hsm_state_id \<Rightarrow> (jf_err \<times> 'w internal_hsm) option" where
  "jf_hsm_addStateTransition allocated pih stateId pTransition initialStateId =
     (if stateId \<noteq> JF_HSM_LAST_STATE_ID then
        (let ts = ih_jlStateTransitionTable pih;
             pih = (case snd (getInternalHsmStateTransitionTable pih stateId) of
                      None \<Rightarrow> pih
                    | Some i \<Rightarrow> pih\<lparr>ih_jlStateTransitionTable := take i ts @ drop (Suc i) ts\<rparr>)
         in case createInternalHsmStateTransitionTable allocated stateId pTransition initialStateId of
              None \<Rightarrow> None
            | Some (Inl e) \<Rightarrow> Some (e, pih)
            | Some (Inr pihstt) \<Rightarrow>
                Some (JF_ERR_NO_ERROR, pih\<lparr>ih_jlStateTransitionTable := ih_jlStateTransitionTable pih @ [pihstt]\<rparr>))
      else None)"

text \<open>The assertion tests the entry callback twice and the exit callback not at all.\<close>

definition jf_hsm_addStateCallback ::
  "bool \<Rightarrow> 'w internal_hsm \<Rightarrow> jf_hsm_state_id \<Rightarrow> 'w hsm_callback option \<Rightarrow> 'w hsm_callback option \<Rightarrow>
    (jf_err \<times> 'w internal_hsm) option" where
  "jf_hsm_addStateCallback allocated pih stateId fnOnEntry fnOnExit =
     (if fnOnEntry \<noteq> None \<and> fnOnEntry \<noteq> None then
        (case getInternalHsmStateCallback pih stateId of
           (e, Some i) \<Rightarrow>
             Some (e, pih\<lparr>ih_jlStateCallback := (ih_jlStateCallback pih)[i :=
               (ih_jlStateCallback pih ! i)\<lparr>ihsc_fnOnEntry := fnOnEntry, ihsc_fnOnExit := fnOnExit\<rparr>]\<rparr>)
         | (e, None) \<Rightarrow>
             (if e = JF_ERR_HSM_STATE_NOT_FOUND then
                (case createInternalHsmStateCallback allocated stateId fnOnEntry fnOnExit of
                   Inl e \<Rightarrow> Some (e, pih)
                 | Inr pihsc \<Rightarrow> Some (JF_ERR_NO_ERROR, pih\<lparr>ih_jlStateCallback := ih_jlStateCallback pih @ [pihsc]\<rparr>))
              else Some (e, pih)))
      else None)"

section \<open>The invariant\<close>

text \<open>The states a table names as its initial state or as a next state, and the table that is properly ended.\<close>

definition table_states :: "'w internal_hsm_state_transition_table \<Rightarrow> jf_hsm_state_id set" where
  "table_states t =
     insert (ihstt_jhsiInitialStateId t)
       (set [jht_jhsiNextStateId p. p \<leftarrow> ihstt_jhtTransition t, jht_jhsiNextStateId p \<noteq> JF_HSM_LAST_EVENT_ID])"

definition ended :: "'w jf_hsm_transition list \<Rightarrow> bool" where
  "ended ps = (case getJfHsmTransitionTableSize ps of
     None \<Rightarrow> False | Some n \<Rightarrow> list_ex (\<lambda>p. jht_jheiEventId p = JF_HSM_LAST_EVENT_ID) (take n ps))"

definition table_inv :: "'w internal_hsm_state_transition_table \<Rightarrow> bool" where
  "table_inv t \<longleftrightarrow> ihstt_jhsiCurrentStateId t \<in> table_states t \<and>
     list_ex (\<lambda>p. jht_jheiEventId p = JF_HSM_LAST_EVENT_ID) (ihstt_jhtTransition t)"

definition callback_inv :: "'w internal_hsm_state_callback \<Rightarrow> bool" where
  "callback_inv c \<longleftrightarrow> ihsc_jhsiStateId c \<noteq> JF_HSM_LAST_STATE_ID \<and> ihsc_fnOnEntry c \<noteq> None \<and> ihsc_fnOnExit c \<noteq> None"

text \<open>
  The top level table comes first and is the only one with the last state id, a state has at most one table and
  at most one callback, and every entry is sound.
\<close>

definition hsm_inv :: "'w internal_hsm \<Rightarrow> bool" where
  "hsm_inv pih \<longleftrightarrow>
     ih_jlStateTransitionTable pih \<noteq> [] \<and>
     ihstt_jhsiStateId (hd (ih_jlStateTransitionTable pih)) = JF_HSM_LAST_STATE_ID \<and>
     distinct (map ihstt_jhsiStateId (ih_jlStateTransitionTable pih)) \<and>
     list_all table_inv (ih_jlStateTransitionTable pih) \<and>
     distinct (map ihsc_jhsiStateId (ih_jlStateCallback pih)) \<and>
     list_all callback_inv (ih_jlStateCallback pih)"

lemma find_index_Some: "find_index P xs = Some i \<Longrightarrow> i < length xs \<and> P (xs ! i) \<and> (\<forall>j<i. \<not> P (xs ! j))"
  by (induction xs arbitrary: i) (auto split: if_splits simp: less_Suc_eq_0_disj nth_Cons')

lemma find_index_None: "find_index P xs = None \<longleftrightarrow> (\<forall>x\<in>set xs. \<not> P x)"
  by (induction xs) auto

lemma getTable_Some: "snd (getInternalHsmStateTransitionTable pih s) = Some i \<longleftrightarrow>
    s \<noteq> JF_HSM_LAST_STATE_ID \<and> find_index (\<lambda>t. ihstt_jhsiStateId t = s) (ih_jlStateTransitionTable pih) = Some i"
  by (auto simp: getInternalHsmStateTransitionTable_def split: option.splits)

lemma getTable_nth:
  assumes "snd (getInternalHsmStateTransitionTable pih s) = Some i"
  shows "i < length (ih_jlStateTransitionTable pih)" "ihstt_jhsiStateId (ih_jlStateTransitionTable pih ! i) = s"
  using assms find_index_Some by (fastforce simp: getTable_Some)+

lemma hsm_invI_tables:
  assumes "hsm_inv pih" "map ihstt_jhsiStateId ts = map ihstt_jhsiStateId (ih_jlStateTransitionTable pih)"
    and "list_all table_inv ts"
  shows "hsm_inv (pih\<lparr>ih_jlStateTransitionTable := ts\<rparr>)"
proof -
  have "ts \<noteq> []" using assms(1,2) by (auto simp: hsm_inv_def)
  moreover have "ihstt_jhsiStateId (hd ts) = JF_HSM_LAST_STATE_ID"
    using assms(1,2) \<open>ts \<noteq> []\<close> by (metis hsm_inv_def hd_map)
  ultimately show ?thesis using assms by (simp add: hsm_inv_def)
qed

lemma setCurrentState_inv:
  assumes "hsm_inv pih" "i < length (ih_jlStateTransitionTable pih)"
    and "s \<in> table_states (ih_jlStateTransitionTable pih ! i)"
  shows "hsm_inv (setCurrentState pih i s)"
  unfolding setCurrentState_def
proof (rule hsm_invI_tables [OF assms(1)])
  show "map ihstt_jhsiStateId ((ih_jlStateTransitionTable pih)[i := (ih_jlStateTransitionTable pih ! i)\<lparr>ihstt_jhsiCurrentStateId := s\<rparr>])
      = map ihstt_jhsiStateId (ih_jlStateTransitionTable pih)"
    using assms(2) by (simp add: map_update list_update_same_conv)
  have all: "list_all table_inv (ih_jlStateTransitionTable pih)"
    using assms(1) by (simp add: hsm_inv_def)
  then have "table_inv ((ih_jlStateTransitionTable pih ! i)\<lparr>ihstt_jhsiCurrentStateId := s\<rparr>)"
    using assms(2,3) by (auto simp: list_all_length table_inv_def table_states_def)
  then show "list_all table_inv ((ih_jlStateTransitionTable pih)[i := (ih_jlStateTransitionTable pih ! i)\<lparr>ihstt_jhsiCurrentStateId := s\<rparr>])"
    using all by (auto simp: list_all_iff dest: set_update_subset_insert [THEN subsetD])
qed

lemma setCurrentState_frame [simp]:
  "length (ih_jlStateTransitionTable (setCurrentState pih i s)) = length (ih_jlStateTransitionTable pih)"
  "ih_jlStateCallback (setCurrentState pih i s) = ih_jlStateCallback pih"
  "j < length (ih_jlStateTransitionTable pih) \<Longrightarrow>
    ihstt_jhtTransition (ih_jlStateTransitionTable (setCurrentState pih i s) ! j) =
    ihstt_jhtTransition (ih_jlStateTransitionTable pih ! j)"
  "j < length (ih_jlStateTransitionTable pih) \<Longrightarrow>
    ihstt_jhsiStateId (ih_jlStateTransitionTable (setCurrentState pih i s) ! j) =
    ihstt_jhsiStateId (ih_jlStateTransitionTable pih ! j)"
  "i < length (ih_jlStateTransitionTable pih) \<Longrightarrow>
    ihstt_jhsiCurrentStateId (ih_jlStateTransitionTable (setCurrentState pih i s) ! i) = s"
  by (cases "i = j"; auto simp: setCurrentState_def)+

lemma initial_in_table_states [simp]: "ihstt_jhsiInitialStateId t \<in> table_states t"
  by (simp add: table_states_def)

lemma next_in_table_states:
  "p \<in> set (ihstt_jhtTransition t) \<Longrightarrow> jht_jhsiNextStateId p \<noteq> JF_HSM_LAST_EVENT_ID \<Longrightarrow> jht_jhsiNextStateId p \<in> table_states t"
  by (auto simp: table_states_def)

section \<open>Event processing keeps the invariant and does not fail\<close>

lemma callState_total:
  assumes "list_all callback_inv (ih_jlStateCallback pih)"
    and "\<And>c. callback_inv c \<Longrightarrow> sel c \<noteq> None"
  shows "\<exists>w'. callState sel pih s ev w = Some w'"
proof (cases "snd (getInternalHsmStateCallback pih s)")
  case None
  then show ?thesis by (simp add: callState_def)
next
  case (Some i)
  then have "i < length (ih_jlStateCallback pih)"
    using find_index_Some by (fastforce simp: getInternalHsmStateCallback_def split: if_splits option.splits)
  then have "sel (ih_jlStateCallback pih ! i) \<noteq> None"
    using assms by (simp add: list_all_length)
  then show ?thesis using Some by (auto simp: callState_def)
qed

lemma hsm_inv_callState:
  assumes "hsm_inv pih"
  shows "\<exists>w'. callState ihsc_fnOnExit pih s ev w = Some w'" "\<exists>w'. callState ihsc_fnOnEntry pih s ev w = Some w'"
  using assms by (auto intro!: callState_total simp: hsm_inv_def callback_inv_def simp del: not_None_eq)

lemma postHsmStateTransition_inv:
  assumes inv: "hsm_inv pih" and i: "i < length (ih_jlStateTransitionTable pih)"
    and p: "p \<in> set (ihstt_jhtTransition (ih_jlStateTransitionTable pih ! i))"
  shows "\<exists>pih' w'. postHsmStateTransition pih i ev p w = Some (pih', w') \<and> hsm_inv pih'"
proof (cases "jht_jhsiNextStateId p \<noteq> JF_HSM_LAST_EVENT_ID \<and> jht_jhsiNextStateId p \<noteq> jht_jhsiCurrentStateId p")
  case True
  define pih1 where "pih1 = setCurrentState pih i (jht_jhsiNextStateId p)"
  have inv1: "hsm_inv pih1"
    unfolding pih1_def using setCurrentState_inv [OF inv i] next_in_table_states [OF p] True by blast
  obtain w1 where w1: "callState ihsc_fnOnExit pih (ihstt_jhsiCurrentStateId (ih_jlStateTransitionTable pih ! i)) ev w = Some w1"
    using hsm_inv_callState(1) [OF inv] by blast
  obtain w2 where w2: "callState ihsc_fnOnEntry pih1 (ihstt_jhsiCurrentStateId (ih_jlStateTransitionTable pih1 ! i)) ev w1 = Some w2"
    using hsm_inv_callState(2) [OF inv1] by blast
  show ?thesis
  proof (cases "snd (getInternalHsmStateTransitionTable pih1 (ihstt_jhsiCurrentStateId (ih_jlStateTransitionTable pih1 ! i)))")
    case None
    then show ?thesis using True w1 w2 inv1 by (simp add: postHsmStateTransition_def pih1_def [symmetric])
  next
    case (Some j)
    then have "hsm_inv (setCurrentState pih1 j (ihstt_jhsiInitialStateId (ih_jlStateTransitionTable pih1 ! j)))"
      using setCurrentState_inv [OF inv1 getTable_nth(1)] by simp
    then show ?thesis using Some True w1 w2 by (simp add: postHsmStateTransition_def pih1_def [symmetric])
  qed
next
  case False
  then show ?thesis using inv by (auto simp: postHsmStateTransition_def)
qed

section \<open>What an event does\<close>

text \<open>
  The entries of a table for its current state and the event, the first of them whose guard lets it pass, and the
  effect of that entry.
\<close>

definition enabled :: "jf_hsm_state_id \<Rightarrow> jf_hsm_event \<Rightarrow> 'w jf_hsm_transition list \<Rightarrow> 'w jf_hsm_transition list" where
  "enabled s ev ps =
     [p \<leftarrow> takeWhile (\<lambda>p. jht_jheiEventId p \<noteq> JF_HSM_LAST_EVENT_ID) ps.
        jht_jhsiCurrentStateId p = s \<and> jht_jheiEventId p = jhe_jheiEventId ev]"

fun chosen :: "jf_hsm_event \<Rightarrow> 'w jf_hsm_transition list \<Rightarrow> 'w \<Rightarrow> 'w jf_hsm_transition option \<times> 'w" where
  "chosen ev [] w = (None, w)"
| "chosen ev (p # ps) w = (let (pass, w) = callGuard p ev w in if pass then (Some p, w) else chosen ev ps w)"

definition fire :: "'w internal_hsm \<Rightarrow> nat \<Rightarrow> jf_hsm_event \<Rightarrow> 'w jf_hsm_transition option \<times> 'w \<Rightarrow> ('w internal_hsm \<times> 'w) option" where
  "fire pih i ev = (\<lambda>(c, w). case c of None \<Rightarrow> Some (pih, w)
     | Some p \<Rightarrow> postHsmStateTransition pih i ev p (snd (executeHsmStateAction p ev w)))"

definition table_enabled :: "'w internal_hsm \<Rightarrow> nat \<Rightarrow> jf_hsm_event \<Rightarrow> 'w jf_hsm_transition list" where
  "table_enabled pih i ev =
     (let t = ih_jlStateTransitionTable pih ! i in enabled (ihstt_jhsiCurrentStateId t) ev (ihstt_jhtTransition t))"

text \<open>The table that handles the event: the top level table, or else the table of its current state.\<close>

definition handling_table :: "'w internal_hsm \<Rightarrow> jf_hsm_event \<Rightarrow> nat option" where
  "handling_table pih ev =
     (if table_enabled pih 0 ev \<noteq> [] then Some 0
      else case snd (getInternalHsmStateTransitionTable pih (ihstt_jhsiCurrentStateId (ih_jlStateTransitionTable pih ! 0))) of
             None \<Rightarrow> None
           | Some i \<Rightarrow> if table_enabled pih i ev \<noteq> [] then Some i else None)"

lemma chosen_mem: "fst (chosen ev ps w) = Some p \<Longrightarrow> p \<in> set ps"
  by (induction ev ps w rule: chosen.induct) (auto split: prod.splits if_splits)

lemma processHsmEvent_eq:
  assumes "list_ex (\<lambda>p. jht_jheiEventId p = JF_HSM_LAST_EVENT_ID) ps"
  shows "map_option snd (processHsmEvent pih i ev ps hit w) =
    (let ms = enabled (ihstt_jhsiCurrentStateId (ih_jlStateTransitionTable pih ! i)) ev ps
     in map_option (Pair (hit \<or> ms \<noteq> [])) (fire pih i ev (chosen ev ms w)))"
  using assms
  by (induction pih i ev ps hit w rule: processHsmEvent.induct)
    (auto simp: enabled_def fire_def Let_def split: prod.splits option.splits)

lemma processTable_eq:
  assumes "hsm_inv pih" "i < length (ih_jlStateTransitionTable pih)"
  shows "map_option snd (processHsmEvent pih i ev (ihstt_jhtTransition (ih_jlStateTransitionTable pih ! i)) False w) =
    map_option (Pair (table_enabled pih i ev \<noteq> [])) (fire pih i ev (chosen ev (table_enabled pih i ev) w))"
proof -
  have "list_ex (\<lambda>p. jht_jheiEventId p = JF_HSM_LAST_EVENT_ID) (ihstt_jhtTransition (ih_jlStateTransitionTable pih ! i))"
    using assms by (simp add: hsm_inv_def list_all_length table_inv_def)
  from processHsmEvent_eq [OF this, of pih i ev False w] show ?thesis
    by (simp add: table_enabled_def Let_def)
qed

lemma table_outcome:
  assumes "hsm_inv pih" "i < length (ih_jlStateTransitionTable pih)"
  shows "(case processHsmEvent pih i ev (ihstt_jhtTransition (ih_jlStateTransitionTable pih ! i)) False w of
       None \<Rightarrow> None | Some (_, bHit, pih, w) \<Rightarrow> if bHit then Some (pih, w) else f pih w) =
    (if table_enabled pih i ev \<noteq> [] then fire pih i ev (chosen ev (table_enabled pih i ev) w) else f pih w)"
proof (cases "fire pih i ev (chosen ev (table_enabled pih i ev) w)")
  case None
  then have "table_enabled pih i ev \<noteq> []" by (auto simp: fire_def)
  then show ?thesis using None processTable_eq [OF assms, of ev w] by (auto split: option.splits)
next
  case (Some r)
  then obtain e where "processHsmEvent pih i ev (ihstt_jhtTransition (ih_jlStateTransitionTable pih ! i)) False w =
      Some (e, table_enabled pih i ev \<noteq> [], r)"
    using processTable_eq [OF assms, of ev w] by (auto simp: map_option_case split: option.splits)
  moreover have "table_enabled pih i ev = [] \<Longrightarrow> r = (pih, w)" using Some by (simp add: fire_def)
  ultimately show ?thesis using Some by (auto split: prod.splits)
qed

lemma processTables_step:
  assumes "hsm_inv pih" "i < n" "n = length (ih_jlStateTransitionTable pih)"
    and "ihstt_jhsiStateId (ih_jlStateTransitionTable pih ! i) = JF_HSM_LAST_STATE_ID \<and>
           s' = ihstt_jhsiCurrentStateId (ih_jlStateTransitionTable pih ! i) \<or>
         ihstt_jhsiStateId (ih_jlStateTransitionTable pih ! i) = s \<and> s \<noteq> JF_HSM_LAST_STATE_ID \<and> s' = s"
  shows "processTables n i pih ev s w =
    (if table_enabled pih i ev \<noteq> [] then fire pih i ev (chosen ev (table_enabled pih i ev) w)
     else processTables n (i + 1) pih ev s' w)"
  using assms(2-4) table_outcome [where f = "\<lambda>pih w. processTables n (i + 1) pih ev s' w", OF assms(1), of i ev w]
  by (subst processTables.simps) (auto simp: Let_def)

lemma processTables_skip:
  assumes "i \<le> k" "k \<le> n"
    and "\<And>j. i \<le> j \<Longrightarrow> j < k \<Longrightarrow> ihstt_jhsiStateId (ih_jlStateTransitionTable pih ! j) \<notin> {JF_HSM_LAST_STATE_ID, s}"
  shows "processTables n i pih ev s w = processTables n k pih ev s w"
  using assms
proof (induction "k - i" arbitrary: i)
  case (Suc m)
  have "i < n" "i < k" using Suc.hyps(2) Suc.prems(2) by linarith+
  then have "processTables n i pih ev s w = processTables n (i + 1) pih ev s w"
    using Suc.prems(3) [of i] by (subst processTables.simps) (simp add: Let_def)
  also have "\<dots> = processTables n k pih ev s w"
    using Suc.hyps(2) Suc.prems by (intro Suc.hyps(1)) simp_all
  finally show ?case .
qed simp

lemma processTables_rest:
  assumes "n = length (ih_jlStateTransitionTable pih)" "i \<le> n"
    and "\<And>j. i \<le> j \<Longrightarrow> j < n \<Longrightarrow> ihstt_jhsiStateId (ih_jlStateTransitionTable pih ! j) \<notin> {JF_HSM_LAST_STATE_ID, s}"
  shows "processTables n i pih ev s w = Some (pih, w)"
  using processTables_skip [OF assms(2) order_refl assms(3)] by (simp add: processTables.simps)

lemma hsm_inv_ids:
  assumes "hsm_inv pih" "i < length (ih_jlStateTransitionTable pih)" "j < length (ih_jlStateTransitionTable pih)"
  shows "ihstt_jhsiStateId (ih_jlStateTransitionTable pih ! i) = ihstt_jhsiStateId (ih_jlStateTransitionTable pih ! j) \<longleftrightarrow> i = j"
    "ihstt_jhsiStateId (ih_jlStateTransitionTable pih ! i) = JF_HSM_LAST_STATE_ID \<longleftrightarrow> i = 0"
proof -
  have d: "distinct (map ihstt_jhsiStateId (ih_jlStateTransitionTable pih))"
    and top: "ihstt_jhsiStateId (ih_jlStateTransitionTable pih ! 0) = JF_HSM_LAST_STATE_ID"
    using assms(1) by (auto simp: hsm_inv_def hd_conv_nth)
  have eq: "ihstt_jhsiStateId (ih_jlStateTransitionTable pih ! i) = ihstt_jhsiStateId (ih_jlStateTransitionTable pih ! j) \<longleftrightarrow> i = j"
    if "j < length (ih_jlStateTransitionTable pih)" for j
    using nth_eq_iff_index_eq [OF d, of i j] assms(2) that by simp
  show "ihstt_jhsiStateId (ih_jlStateTransitionTable pih ! i) = ihstt_jhsiStateId (ih_jlStateTransitionTable pih ! j) \<longleftrightarrow> i = j"
    using eq assms(3) .
  show "ihstt_jhsiStateId (ih_jlStateTransitionTable pih ! i) = JF_HSM_LAST_STATE_ID \<longleftrightarrow> i = 0"
    using eq [of 0] top assms(2) by (cases "ih_jlStateTransitionTable pih") simp_all
qed

lemma lower_tables:
  assumes inv: "hsm_inv pih" and n: "n = length (ih_jlStateTransitionTable pih)"
  shows "processTables n 1 pih ev s w =
    (case snd (getInternalHsmStateTransitionTable pih s) of
       None \<Rightarrow> Some (pih, w)
     | Some i \<Rightarrow> if table_enabled pih i ev \<noteq> [] then fire pih i ev (chosen ev (table_enabled pih i ev) w)
                else Some (pih, w))"
proof -
  have n1: "1 \<le> n" using inv n by (simp add: hsm_inv_def Suc_le_eq)
  note ids = hsm_inv_ids [OF inv]
  show ?thesis
  proof (cases "snd (getInternalHsmStateTransitionTable pih s)")
    case None
    then have "ihstt_jhsiStateId (ih_jlStateTransitionTable pih ! j) \<notin> {JF_HSM_LAST_STATE_ID, s}" if "1 \<le> j" "j < n" for j
      using that n ids(2) [of j j]
      by (auto simp: getInternalHsmStateTransitionTable_def find_index_None split: if_splits option.splits)
    then show ?thesis using None processTables_rest [OF n n1] by simp
  next
    case (Some k)
    note k = getTable_nth [OF Some]
    have s: "s \<noteq> JF_HSM_LAST_STATE_ID" using Some by (simp add: getTable_Some)
    then have "k \<noteq> 0" using ids(2) [of k k] k by simp
    have others: "ihstt_jhsiStateId (ih_jlStateTransitionTable pih ! j) \<notin> {JF_HSM_LAST_STATE_ID, s}"
      if "1 \<le> j" "j < n" "j \<noteq> k" for j
      using ids(1) [of j k] ids(2) [of j k] k that n by auto
    have "processTables n 1 pih ev s w = processTables n k pih ev s w"
      using \<open>k \<noteq> 0\<close> k n others by (intro processTables_skip) auto
    also have "\<dots> = (if table_enabled pih k ev \<noteq> [] then fire pih k ev (chosen ev (table_enabled pih k ev) w)
        else processTables n (k + 1) pih ev s w)"
      using k n s by (intro processTables_step [OF inv]) auto
    also have "processTables n (k + 1) pih ev s w = Some (pih, w)"
      using k n others by (intro processTables_rest) auto
    finally show ?thesis using Some by simp
  qed
qed

lemma processTables_handling:
  assumes inv: "hsm_inv pih"
  shows "processTables (length (ih_jlStateTransitionTable pih)) 0 pih ev s w =
    (case handling_table pih ev of
       None \<Rightarrow> Some (pih, w)
     | Some i \<Rightarrow> fire pih i ev (chosen ev (table_enabled pih i ev) w))"
proof -
  have n: "0 < length (ih_jlStateTransitionTable pih)" using inv by (simp add: hsm_inv_def)
  have "ihstt_jhsiStateId (ih_jlStateTransitionTable pih ! 0) = JF_HSM_LAST_STATE_ID"
    using hsm_inv_ids(2) [OF inv n n] by simp
  then show ?thesis
    using processTables_step [OF inv n refl, of "ihstt_jhsiCurrentStateId (ih_jlStateTransitionTable pih ! 0)" s ev w]
      lower_tables [OF inv refl, of ev "ihstt_jhsiCurrentStateId (ih_jlStateTransitionTable pih ! 0)" w]
    by (auto simp: handling_table_def split: option.splits)
qed

lemma handling_table_nth:
  assumes "hsm_inv pih" "handling_table pih ev = Some i"
  shows "i < length (ih_jlStateTransitionTable pih)"
  using assms getTable_nth(1) by (auto simp: handling_table_def hsm_inv_def split: if_splits option.splits)

lemma fire_inv:
  assumes "hsm_inv pih" "i < length (ih_jlStateTransitionTable pih)"
  shows "\<exists>pih' w'. fire pih i ev (chosen ev (table_enabled pih i ev) w) = Some (pih', w') \<and> hsm_inv pih'"
proof (cases "chosen ev (table_enabled pih i ev) w")
  case (Pair c w1)
  show ?thesis
  proof (cases c)
    case None
    then show ?thesis using Pair assms(1) by (simp add: fire_def)
  next
    case (Some p)
    then have "p \<in> set (table_enabled pih i ev)" using Pair chosen_mem [of ev "table_enabled pih i ev" w p] by simp
    then have "p \<in> set (ihstt_jhtTransition (ih_jlStateTransitionTable pih ! i))"
      by (auto simp: table_enabled_def enabled_def Let_def dest: set_takeWhileD)
    then show ?thesis using Pair Some postHsmStateTransition_inv [OF assms] by (simp add: fire_def)
  qed
qed

lemma processEvent_inv:
  assumes "hsm_inv pih"
  shows "\<exists>pih' w'. jf_hsm_processEvent pih ev w = Some (JF_ERR_NO_ERROR, pih', w') \<and> hsm_inv pih'"
proof (cases "handling_table pih ev")
  case None
  then show ?thesis using assms processTables_handling [OF assms] by (auto simp: jf_hsm_processEvent_def)
next
  case (Some i)
  then show ?thesis using processTables_handling [OF assms] fire_inv [OF assms handling_table_nth [OF assms Some]]
    by (fastforce simp: jf_hsm_processEvent_def)
qed

section \<open>Reachable machines\<close>

lemma created_table_inv:
  assumes "ended ps" "createInternalHsmStateTransitionTable a s ps i = Some (Inr t)"
  shows "table_inv t" "ihstt_jhsiStateId t = s"
  using assms by (auto simp: createInternalHsmStateTransitionTable_def ended_def table_inv_def table_states_def
      split: option.splits if_splits)

lemma create_inv:
  assumes "ended ps" "jf_hsm_create a b ps i = Some (Inr pih)"
  shows "hsm_inv pih"
  using assms created_table_inv [OF assms(1)]
  by (auto simp: jf_hsm_create_def hsm_inv_def split: if_splits option.splits sum.splits)

lemma remove_table_inv:
  assumes inv: "hsm_inv pih" and k: "snd (getInternalHsmStateTransitionTable pih s) = Some k"
  shows "hsm_inv (pih\<lparr>ih_jlStateTransitionTable := take k (ih_jlStateTransitionTable pih) @ drop (Suc k) (ih_jlStateTransitionTable pih)\<rparr>)"
    "s \<notin> ihstt_jhsiStateId ` set (take k (ih_jlStateTransitionTable pih) @ drop (Suc k) (ih_jlStateTransitionTable pih))"
proof -
  let ?ts = "ih_jlStateTransitionTable pih"
  note nk = getTable_nth [OF k]
  have k0: "k \<noteq> 0" using k nk hsm_inv_ids(2) [OF inv nk(1) nk(1)] by (simp add: getTable_Some)
  have split: "?ts = take k ?ts @ ?ts ! k # drop (Suc k) ?ts" using nk(1) by (rule id_take_nth_drop)
  have "distinct (map ihstt_jhsiStateId (take k ?ts @ ?ts ! k # drop (Suc k) ?ts))"
    using inv split by (simp add: hsm_inv_def)
  then have d: "distinct (map ihstt_jhsiStateId (take k ?ts @ drop (Suc k) ?ts))"
    and s: "s \<notin> ihstt_jhsiStateId ` set (take k ?ts @ drop (Suc k) ?ts)"
    using nk(2) by auto
  show "s \<notin> ihstt_jhsiStateId ` set (take k ?ts @ drop (Suc k) ?ts)" using s .
  have "list_all table_inv (take k ?ts @ drop (Suc k) ?ts)"
    using inv by (auto simp: hsm_inv_def list_all_iff dest: in_set_takeD in_set_dropD)
  moreover have "take k ?ts \<noteq> []" "hd (take k ?ts @ drop (Suc k) ?ts) = hd ?ts" using k0 nk(1) by (auto simp: hd_append)
  ultimately show "hsm_inv (pih\<lparr>ih_jlStateTransitionTable := take k ?ts @ drop (Suc k) ?ts\<rparr>)"
    using inv d by (simp add: hsm_inv_def)
qed

lemma append_table_inv:
  assumes "hsm_inv pih" "table_inv t" "ihstt_jhsiStateId t \<notin> ihstt_jhsiStateId ` set (ih_jlStateTransitionTable pih)"
  shows "hsm_inv (pih\<lparr>ih_jlStateTransitionTable := ih_jlStateTransitionTable pih @ [t]\<rparr>)"
  using assms by (auto simp: hsm_inv_def)

lemma addStateTransition_inv:
  assumes inv: "hsm_inv pih" and e: "ended ps"
    and add: "jf_hsm_addStateTransition a pih s ps i = Some (r, pih')"
  shows "hsm_inv pih'"
proof -
  let ?ts = "ih_jlStateTransitionTable pih"
  define pih1 where "pih1 = (case snd (getInternalHsmStateTransitionTable pih s) of None \<Rightarrow> pih
      | Some i \<Rightarrow> pih\<lparr>ih_jlStateTransitionTable := take i ?ts @ drop (Suc i) ?ts\<rparr>)"
  have s: "s \<noteq> JF_HSM_LAST_STATE_ID" using add by (auto simp: jf_hsm_addStateTransition_def split: if_splits)
  have pih1: "hsm_inv pih1 \<and> s \<notin> ihstt_jhsiStateId ` set (ih_jlStateTransitionTable pih1)"
  proof (cases "snd (getInternalHsmStateTransitionTable pih s)")
    case None
    then show ?thesis using inv s
      by (auto simp: pih1_def getInternalHsmStateTransitionTable_def find_index_None split: option.splits)
  next
    case (Some k)
    then show ?thesis using remove_table_inv [OF inv Some] by (simp add: pih1_def)
  qed
  have "(case createInternalHsmStateTransitionTable a s ps i of None \<Rightarrow> None | Some (Inl e) \<Rightarrow> Some (e, pih1)
      | Some (Inr t) \<Rightarrow> Some (JF_ERR_NO_ERROR, pih1\<lparr>ih_jlStateTransitionTable := ih_jlStateTransitionTable pih1 @ [t]\<rparr>)) =
      Some (r, pih')"
    using add s unfolding jf_hsm_addStateTransition_def pih1_def Let_def by simp
  then show ?thesis
    using pih1 created_table_inv [OF e, of a s i] append_table_inv [of pih1]
    by (auto split: option.splits sum.splits)
qed

lemma addStateCallback_inv:
  assumes inv: "hsm_inv pih" and ex: "fnOnExit \<noteq> None"
    and add: "jf_hsm_addStateCallback a pih s fnOnEntry fnOnExit = Some (r, pih')"
  shows "hsm_inv pih'"
proof (cases "find_index (\<lambda>c. ihsc_jhsiStateId c = s) (ih_jlStateCallback pih)")
  case None
  have "pih' = pih \<or> s \<noteq> JF_HSM_LAST_STATE_ID \<and> fnOnEntry \<noteq> None \<and> pih' = pih\<lparr>ih_jlStateCallback := ih_jlStateCallback pih @
      [\<lparr>ihsc_jhsiStateId = s, ihsc_fnOnEntry = fnOnEntry, ihsc_fnOnExit = fnOnExit\<rparr>]\<rparr>"
    using add None by (auto simp: jf_hsm_addStateCallback_def getInternalHsmStateCallback_def
        createInternalHsmStateCallback_def split: if_splits)
  moreover have "s \<notin> ihsc_jhsiStateId ` set (ih_jlStateCallback pih)" using None by (auto simp: find_index_None)
  ultimately show ?thesis using inv ex by (auto simp: hsm_inv_def callback_inv_def)
next
  case (Some k)
  let ?cs = "ih_jlStateCallback pih"
  have k: "k < length ?cs" "ihsc_jhsiStateId (?cs ! k) = s" using find_index_Some [OF Some] by auto
  define c where "c = (?cs ! k)\<lparr>ihsc_fnOnEntry := fnOnEntry, ihsc_fnOnExit := fnOnExit\<rparr>"
  show ?thesis
  proof (cases "s = JF_HSM_LAST_STATE_ID")
    case True
    then show ?thesis using inv add
      by (auto simp: jf_hsm_addStateCallback_def getInternalHsmStateCallback_def split: if_splits)
  next
    case False
    then have en: "fnOnEntry \<noteq> None" and pih': "pih' = pih\<lparr>ih_jlStateCallback := ?cs[k := c]\<rparr>"
      using add Some by (auto simp: jf_hsm_addStateCallback_def getInternalHsmStateCallback_def c_def split: if_splits)
    have "callback_inv c" using False k ex en by (simp add: c_def callback_inv_def)
    then have "list_all callback_inv (?cs[k := c])"
      using inv by (auto simp: hsm_inv_def list_all_iff dest: set_update_subset_insert [THEN subsetD])
    moreover have "map ihsc_jhsiStateId (?cs[k := c]) = map ihsc_jhsiStateId ?cs"
      using k by (simp add: c_def map_update list_update_same_conv)
    ultimately show ?thesis using inv by (simp add: hsm_inv_def pih')
  qed
qed

text \<open>One call of the interface; the caller passes ended tables and exit callbacks that are not null.\<close>

inductive hsm_call :: "'w internal_hsm \<times> 'w \<Rightarrow> 'w internal_hsm \<times> 'w \<Rightarrow> bool" where
  event: "jf_hsm_processEvent pih ev w = Some (r, pih', w') \<Longrightarrow> hsm_call (pih, w) (pih', w')"
| transitions: "ended ps \<Longrightarrow> jf_hsm_addStateTransition a pih s ps i = Some (r, pih') \<Longrightarrow> hsm_call (pih, w) (pih', w)"
| callbacks: "fnOnExit \<noteq> None \<Longrightarrow> jf_hsm_addStateCallback a pih s fnOnEntry fnOnExit = Some (r, pih') \<Longrightarrow>
    hsm_call (pih, w) (pih', w)"

lemma hsm_call_inv: "hsm_call c c' \<Longrightarrow> hsm_inv (fst c) \<Longrightarrow> hsm_inv (fst c')"
proof (induction rule: hsm_call.induct)
  case (event pih ev w r pih' w')
  then show ?case using processEvent_inv [of pih ev w] by simp
next
  case (transitions ps a pih s i r pih' w)
  then show ?case using addStateTransition_inv [of pih ps a s i r pih'] by simp
next
  case (callbacks fnOnExit a pih s fnOnEntry r pih' w)
  then show ?case using addStateCallback_inv [of pih fnOnExit a s fnOnEntry r pih'] by simp
qed

lemma hsm_calls_inv: "hsm_call\<^sup>*\<^sup>* c c' \<Longrightarrow> hsm_inv (fst c) \<Longrightarrow> hsm_inv (fst c')"
  by (induction rule: rtranclp_induct) (auto dest: hsm_call_inv)

lemma current_state_known:
  assumes "hsm_inv pih"
  shows "\<exists>t\<in>set (ih_jlStateTransitionTable pih). \<exists>s\<in>table_states t. jf_hsm_getCurrentStateId pih = Some s"
proof -
  have nth: "ihstt_jhsiCurrentStateId (ih_jlStateTransitionTable pih ! i) \<in> table_states (ih_jlStateTransitionTable pih ! i)"
    if "i < length (ih_jlStateTransitionTable pih)" for i
    using assms that by (simp add: hsm_inv_def list_all_length table_inv_def)
  obtain t ts where ts: "ih_jlStateTransitionTable pih = t # ts"
    using assms by (cases "ih_jlStateTransitionTable pih") (auto simp: hsm_inv_def)
  show ?thesis
  proof (cases "snd (getInternalHsmStateTransitionTable pih (ihstt_jhsiCurrentStateId t))")
    case None
    then show ?thesis using nth [of 0] ts by (auto simp: jf_hsm_getCurrentStateId_def Let_def split: prod.splits)
  next
    case (Some k)
    then have "jf_hsm_getCurrentStateId pih = Some (ihstt_jhsiCurrentStateId (ih_jlStateTransitionTable pih ! k))"
      using ts by (auto simp: jf_hsm_getCurrentStateId_def Let_def split: prod.splits)
    then show ?thesis using nth [OF getTable_nth(1) [OF Some]] getTable_nth(1) [OF Some] nth_mem by blast
  qed
qed

section \<open>Properties\<close>

text \<open>
  (C20) Every machine a program can reach through the interface is sound: from a machine created with an ended
  table, any sequence of events, of added lower level tables and of added callbacks leaves the top level table first and
  one table and one callback per state at most; processing a further event then does not fail, returns no error and keeps
  this, and the current state is one that a table of the machine names.
\<close>

theorem hsm_reachable_sound:
  assumes "ended ps" and "jf_hsm_create a b ps s0 = Some (Inr pih)"
    and "hsm_call\<^sup>*\<^sup>* (pih, w) (pih', w')"
  shows "hsm_inv pih' \<and>
    (\<exists>pih'' w''. jf_hsm_processEvent pih' ev w' = Some (JF_ERR_NO_ERROR, pih'', w'') \<and> hsm_inv pih'') \<and>
    (\<exists>t\<in>set (ih_jlStateTransitionTable pih'). \<exists>s\<in>table_states t. jf_hsm_getCurrentStateId pih' = Some s)"
proof -
  have inv: "hsm_inv pih'"
    using hsm_calls_inv [OF assms(3)] create_inv [OF assms(1,2)] by simp
  show ?thesis
    using inv processEvent_inv [OF inv] current_state_known [OF inv] by blast
qed

definition demo_hsm_table :: "nat jf_hsm_transition list" where
  "demo_hsm_table =
     [\<lparr>jht_jhsiCurrentStateId = 0, jht_jheiEventId = 7, jht_fnGuard = Some (\<lambda>ev w. (w < 3, w)),
       jht_fnAction = Some (\<lambda>ev w. (JF_ERR_NO_ERROR, w + 1)), jht_jhsiNextStateId = 1\<rparr>,
      \<lparr>jht_jhsiCurrentStateId = JF_HSM_LAST_STATE_ID, jht_jheiEventId = JF_HSM_LAST_EVENT_ID, jht_fnGuard = None,
       jht_fnAction = None, jht_jhsiNextStateId = JF_HSM_LAST_STATE_ID\<rparr>]"

definition demo_hsm :: "jf_hsm_state_id \<Rightarrow> nat internal_hsm" where
  "demo_hsm s = \<lparr>ih_jlStateTransitionTable = [\<lparr>ihstt_jhsiStateId = JF_HSM_LAST_STATE_ID, ihstt_jhsiInitialStateId = 0,
      ihstt_jhsiCurrentStateId = s, ihstt_jhtTransition = demo_hsm_table\<rparr>], ih_jlStateCallback = []\<rparr>"

definition demo_hsm_event :: jf_hsm_event where
  "demo_hsm_event = jf_hsm_initEvent 7 0 0"

lemmas demo_hsm_defs = demo_hsm_def demo_hsm_table_def demo_hsm_event_def jf_hsm_initEvent_def JF_HSM_LAST_STATE_ID_def
  JF_HSM_LAST_EVENT_ID_def

lemma demo_hsm_create: "ended demo_hsm_table" "jf_hsm_create True True demo_hsm_table 0 = Some (Inr (demo_hsm 0))"
  by (simp_all add: ended_def jf_hsm_create_def createInternalHsmStateTransitionTable_def demo_hsm_defs)

lemma demo_hsm_step: "jf_hsm_processEvent (demo_hsm 0) demo_hsm_event 2 = Some (JF_ERR_NO_ERROR, demo_hsm 1, 3)"
  by (simp add: jf_hsm_processEvent_def processTables.simps demo_hsm_defs callGuard_def executeHsmStateAction_def
      postHsmStateTransition_def callState_def getInternalHsmStateCallback_def getInternalHsmStateTransitionTable_def
      setCurrentState_def)

lemma demo_hsm_inv: "hsm_inv (demo_hsm 0)"
  using create_inv [OF demo_hsm_create] .

theorem hsm_reachable_sound_witness:
  "hsm_inv (demo_hsm 1) \<and>
   (\<exists>pih'' w''. jf_hsm_processEvent (demo_hsm 1) demo_hsm_event 3 = Some (JF_ERR_NO_ERROR, pih'', w'') \<and> hsm_inv pih'')"
  using hsm_reachable_sound [OF demo_hsm_create, of 2 "demo_hsm 1" 3]
    hsm_call.event [OF demo_hsm_step] by blast

text \<open>
  (C21) What an event does in a sound machine. The top level table handles it if it has an entry for its current state
  and the event, even if every guard of these entries refuses it; otherwise the table of the current state of the top
  level table does, if it has such an entry; otherwise nothing changes. In the handling table the first entry whose
  guard lets it pass runs its action and makes the transition of \<open>postHsmStateTransition\<close>. The result is no error
  whatever the action returned.
\<close>

theorem hsm_event_semantics:
  assumes "hsm_inv pih"
  shows "jf_hsm_processEvent pih ev w =
    map_option (\<lambda>(pih', w'). (JF_ERR_NO_ERROR, pih', w'))
      (case handling_table pih ev of
         None \<Rightarrow> Some (pih, w)
       | Some i \<Rightarrow> fire pih i ev (chosen ev (table_enabled pih i ev) w))"
  unfolding jf_hsm_processEvent_def processTables_handling [OF assms] ..

theorem hsm_event_semantics_witness:
  "jf_hsm_processEvent (demo_hsm 0) demo_hsm_event 5 = Some (JF_ERR_NO_ERROR, demo_hsm 0, 5)"
  unfolding hsm_event_semantics [OF demo_hsm_inv]
  by (simp add: handling_table_def table_enabled_def enabled_def fire_def callGuard_def demo_hsm_defs)

end
