(* ===== verification/Jf_Hashtable.thy ===== *)
theory Jf_Hashtable
  imports Jf_Prelude
begin

text \<open>
  The hash table of \<^verbatim>\<open>src/jiutai/jf_hashtable.c\<close> and the hash functions of \<^verbatim>\<open>src/jiutai/jf_hashtable.h\<close>. Entries and keys are
  pointers, that is 64-bit words; the callbacks that read what they point to are functions of the
  pointer (a program must not change a key that is in a table). A chain of buckets is the list of its entries, so a
  pointer to a link of a chain is the index of the chain and a position in it. \<open>None\<close> is a read past the table of
  primes. The outcomes of allocations are arguments.
\<close>

section \<open>Data\<close>

type_synonym ptr = u64

text \<open>
  What the callback that frees an entry is given: the address of a variable that holds the entry, as its type asks
  for, or the entry itself.
\<close>

datatype free_call = Address_of ptr | Entry_itself ptr

record internal_hash_table =
  iht_u32NumOfEntry :: u32
  iht_u32Size :: u32
  iht_u32Threshold :: u32
  iht_u32Resizes :: u32
  iht_u32PrimesIndex :: u32
  iht_phtbBucket :: "ptr list list"
  iht_fnCmpKeys :: "ptr \<Rightarrow> ptr \<Rightarrow> int"
  iht_fnHashKey :: "ptr \<Rightarrow> u32"
  iht_fnGetKeyFromEntry :: "ptr \<Rightarrow> ptr"

record jf_hashtable_create_param =
  jhcp_u32MinSize :: u32
  jhcp_fnCmpKeys :: "(ptr \<Rightarrow> ptr \<Rightarrow> int) option"
  jhcp_fnHashKey :: "(ptr \<Rightarrow> u32) option"
  jhcp_fnGetKeyFromEntry :: "(ptr \<Rightarrow> ptr) option"

definition ls_nHashTablePrimes :: "nat list" where
  "ls_nHashTablePrimes =
     [3, 7, 13, 31, 61,
      127, 251, 509, 1021, 2039,
      4093, 8191, 16381, 26209, 41941,
      67121, 107441, 171917, 275083, 440159,
      704269, 1126831, 1802989, 2884787, 4615661,
      7385057, 11816111, 18905813, 30249367, 48399019,
      77438437, 123901501, 198242441, 317187907, 507500657,
      812001067, 1299201731, 2078722769]"

definition default_fnHtCmpKeys :: "ptr \<Rightarrow> ptr \<Rightarrow> int" where
  "default_fnHtCmpKeys pKey1 pKey2 = (if pKey1 = pKey2 then 0 else if pKey1 < pKey2 then 1 else -1)"

definition default_fnHtHashKey :: "ptr \<Rightarrow> u32" where
  "default_fnHtHashKey pKey = ucast pKey"

definition default_fnHtGetKeyFromEntry :: "ptr \<Rightarrow> ptr" where
  "default_fnHtGetKeyFromEntry pEntry = pEntry"

section \<open>Positions and resizing\<close>

text \<open>The position of the first entry that satisfies \<open>P\<close>, or the end of the chain.\<close>

fun chainPosition :: "(ptr \<Rightarrow> bool) \<Rightarrow> ptr list \<Rightarrow> nat" where
  "chainPosition P [] = 0"
| "chainPosition P (e # es) = (if P e then 0 else Suc (chainPosition P es))"

text \<open>The hash value is a signed integer; the remainder is taken of it as an unsigned one.\<close>

definition hashSlot :: "internal_hash_table \<Rightarrow> ptr \<Rightarrow> nat" where
  "hashSlot piht pKey =
     (let h = iht_fnHashKey piht pKey;
          h = (if sint h < 0 then - h else h)
      in unat (h mod iht_u32Size piht))"

definition getPositionOfKey :: "internal_hash_table \<Rightarrow> ptr \<Rightarrow> nat \<times> nat" where
  "getPositionOfKey piht pKey =
     (let h = hashSlot piht pKey
      in (h, chainPosition (\<lambda>e. iht_fnCmpKeys piht pKey (iht_fnGetKeyFromEntry piht e) = 0) (iht_phtbBucket piht ! h)))"

text \<open>Whether a position holds a bucket, the entry of it, and an assignment to the link there.\<close>

definition atPosition :: "internal_hash_table \<Rightarrow> nat \<times> nat \<Rightarrow> ptr option" where
  "atPosition piht pos =
     (let c = iht_phtbBucket piht ! fst pos in if snd pos < length c then Some (c ! snd pos) else None)"

definition linkPosition :: "internal_hash_table \<Rightarrow> nat \<times> nat \<Rightarrow> ptr list \<Rightarrow> internal_hash_table" where
  "linkPosition piht pos es =
     piht\<lparr>iht_phtbBucket := (iht_phtbBucket piht)[fst pos := take (snd pos) (iht_phtbBucket piht ! fst pos) @ es]\<rparr>"

definition setHashTableThreshold :: "internal_hash_table \<Rightarrow> internal_hash_table" where
  "setHashTableThreshold piht =
     piht\<lparr>iht_u32Threshold := (push_bit 2 (iht_u32Size piht) + 4) div 5\<rparr>"

definition createHashTableArray :: "bool \<Rightarrow> internal_hash_table \<Rightarrow> jf_err \<times> internal_hash_table" where
  "createHashTableArray allocated piht =
     (if allocated then (JF_ERR_NO_ERROR, piht\<lparr>iht_phtbBucket := replicate (unat (iht_u32Size piht)) []\<rparr>)
      else (JF_ERR_JIUKUN_OUT_OF_MEMORY, piht))"

text \<open>A bucket is moved to its position in the new array, with nothing after it.\<close>

fun moveBuckets :: "internal_hash_table \<Rightarrow> ptr list \<Rightarrow> internal_hash_table" where
  "moveBuckets piht [] = piht"
| "moveBuckets piht (p # ps) =
     (let position = getPositionOfKey piht (iht_fnGetKeyFromEntry piht p)
      in moveBuckets (linkPosition piht position [p]) ps)"

definition resizeHashTable :: "bool \<Rightarrow> internal_hash_table \<Rightarrow> (jf_err \<times> internal_hash_table) option" where
  "resizeHashTable allocated piht =
     (let u32Size = iht_u32Size piht;
          phtbBucket = iht_phtbBucket piht;
          index = unat (iht_u32PrimesIndex piht + 1)
      in if index < length ls_nHashTablePrimes then
           (let piht = piht\<lparr>iht_u32Size := of_nat (ls_nHashTablePrimes ! index)\<rparr>
            in case createHashTableArray allocated piht of
                 (u32Ret, piht) \<Rightarrow>
                   (if u32Ret = JF_ERR_NO_ERROR then
                      (let piht = foldl moveBuckets piht phtbBucket;
                           piht = piht\<lparr>iht_u32PrimesIndex := iht_u32PrimesIndex piht + 1\<rparr>;
                           piht = setHashTableThreshold piht
                       in Some (u32Ret, piht\<lparr>iht_u32Resizes := iht_u32Resizes piht + 1\<rparr>))
                    else Some (u32Ret, piht\<lparr>iht_u32Size := u32Size, iht_phtbBucket := phtbBucket\<rparr>)))
         else None)"

section \<open>Operations\<close>

text \<open>\<open>alloc\<close> is the pair of the outcomes of allocating the new array and of allocating the bucket.\<close>

definition insertAtPosition ::
  "bool \<times> bool \<Rightarrow> internal_hash_table \<Rightarrow> nat \<times> nat \<Rightarrow> ptr \<Rightarrow> (jf_err \<times> internal_hash_table) option" where
  "insertAtPosition alloc piht ppPosition pEntry =
     (case (if iht_u32NumOfEntry piht \<ge> iht_u32Threshold piht then
              (case resizeHashTable (fst alloc) piht of
                 None \<Rightarrow> None
               | Some (u32Ret, piht) \<Rightarrow>
                   Some (u32Ret, piht,
                     if u32Ret = JF_ERR_NO_ERROR
                     then getPositionOfKey piht (iht_fnGetKeyFromEntry piht pEntry) else ppPosition))
            else Some (JF_ERR_NO_ERROR, piht, ppPosition)) of
        None \<Rightarrow> None
      | Some (u32Ret, piht, position) \<Rightarrow>
          (if u32Ret \<noteq> JF_ERR_NO_ERROR then Some (u32Ret, piht)
           else if \<not> snd alloc then Some (JF_ERR_JIUKUN_OUT_OF_MEMORY, piht)
           else
             (let next = drop (snd position) (iht_phtbBucket piht ! fst position);
                  piht = linkPosition piht position (pEntry # next)
              in Some (JF_ERR_NO_ERROR, piht\<lparr>iht_u32NumOfEntry := iht_u32NumOfEntry piht + 1\<rparr>))))"

definition overwriteAtPosition ::
  "internal_hash_table \<Rightarrow> nat \<times> nat \<Rightarrow> ptr \<Rightarrow> jf_err \<times> free_call list \<times> internal_hash_table" where
  "overwriteAtPosition piht ppPosition pEntry =
     (let tmp = iht_phtbBucket piht ! fst ppPosition ! snd ppPosition;
          next = drop (Suc (snd ppPosition)) (iht_phtbBucket piht ! fst ppPosition)
      in (JF_ERR_NO_ERROR, [Entry_itself tmp], linkPosition piht ppPosition (pEntry # next)))"

fun primeIndex :: "nat \<Rightarrow> nat list \<Rightarrow> nat \<Rightarrow> nat option" where
  "primeIndex minSize [] i = None"
| "primeIndex minSize (p # ps) i = (if minSize > p then primeIndex minSize ps (i + 1) else Some i)"

definition jf_hashtable_create ::
  "bool \<times> bool \<Rightarrow> jf_hashtable_create_param \<Rightarrow> (jf_err + internal_hash_table) option" where
  "jf_hashtable_create alloc pjhcp =
     (if \<not> fst alloc then Some (Inl JF_ERR_JIUKUN_OUT_OF_MEMORY)
      else
        (case primeIndex (unat (jhcp_u32MinSize pjhcp)) ls_nHashTablePrimes 0 of
           None \<Rightarrow> None
         | Some u32PrimesIndex \<Rightarrow>
             (let piht = \<lparr>iht_u32NumOfEntry = 0, iht_u32Size = of_nat (ls_nHashTablePrimes ! u32PrimesIndex), iht_u32Threshold = 0,
                    iht_u32Resizes = 0, iht_u32PrimesIndex = of_nat u32PrimesIndex, iht_phtbBucket = [],
                    iht_fnCmpKeys = (case jhcp_fnCmpKeys pjhcp of Some fn \<Rightarrow> fn | None \<Rightarrow> default_fnHtCmpKeys),
                    iht_fnHashKey = (case jhcp_fnHashKey pjhcp of Some fn \<Rightarrow> fn | None \<Rightarrow> default_fnHtHashKey),
                    iht_fnGetKeyFromEntry =
                      (case jhcp_fnGetKeyFromEntry pjhcp of Some fn \<Rightarrow> fn | None \<Rightarrow> default_fnHtGetKeyFromEntry)\<rparr>;
                  piht = setHashTableThreshold piht
              in case createHashTableArray (snd alloc) piht of
                   (u32Ret, piht) \<Rightarrow> Some (if u32Ret = JF_ERR_NO_ERROR then Inr piht else Inl u32Ret))))"

definition jf_hashtable_destroy :: "internal_hash_table \<Rightarrow> free_call list" where
  "jf_hashtable_destroy piht = concat (map (map Address_of) (iht_phtbBucket piht))"

definition jf_hashtable_insertEntry ::
  "bool \<times> bool \<Rightarrow> internal_hash_table \<Rightarrow> ptr \<Rightarrow> (jf_err \<times> internal_hash_table) option" where
  "jf_hashtable_insertEntry alloc piht pEntry =
     (let position = getPositionOfKey piht (iht_fnGetKeyFromEntry piht pEntry)
      in if atPosition piht position = None then insertAtPosition alloc piht position pEntry
         else Some (JF_ERR_NO_ERROR, piht))"

definition jf_hashtable_removeEntry :: "internal_hash_table \<Rightarrow> ptr \<Rightarrow> jf_err \<times> free_call list \<times> internal_hash_table" where
  "jf_hashtable_removeEntry piht pEntry =
     (let position = getPositionOfKey piht (iht_fnGetKeyFromEntry piht pEntry)
      in case atPosition piht position of
           Some tmp \<Rightarrow>
             (let next = drop (Suc (snd position)) (iht_phtbBucket piht ! fst position);
                  piht = linkPosition piht position next
              in (JF_ERR_NO_ERROR, [Entry_itself tmp], piht\<lparr>iht_u32NumOfEntry := iht_u32NumOfEntry piht - 1\<rparr>))
         | None \<Rightarrow> (JF_ERR_HASH_ENTRY_NOT_FOUND, [], piht))"

definition jf_hashtable_overwriteEntry ::
  "bool \<times> bool \<Rightarrow> internal_hash_table \<Rightarrow> ptr \<Rightarrow> (jf_err \<times> free_call list \<times> internal_hash_table) option" where
  "jf_hashtable_overwriteEntry alloc piht pEntry =
     (let position = getPositionOfKey piht (iht_fnGetKeyFromEntry piht pEntry)
      in if atPosition piht position \<noteq> None then Some (overwriteAtPosition piht position pEntry)
         else map_option (\<lambda>(u32Ret, piht). (u32Ret, [], piht)) (insertAtPosition alloc piht position pEntry))"

definition jf_hashtable_getEntry :: "internal_hash_table \<Rightarrow> ptr \<Rightarrow> jf_err + ptr" where
  "jf_hashtable_getEntry piht pKey =
     (case atPosition piht (getPositionOfKey piht pKey) of
        None \<Rightarrow> Inl JF_ERR_HASH_ENTRY_NOT_FOUND
      | Some pEntry \<Rightarrow> Inr pEntry)"

definition jf_hashtable_isKeyInTable :: "internal_hash_table \<Rightarrow> ptr \<Rightarrow> bool" where
  "jf_hashtable_isKeyInTable piht pKey = (atPosition piht (getPositionOfKey piht pKey) \<noteq> None)"

definition jf_hashtable_isEntryInTable :: "internal_hash_table \<Rightarrow> ptr \<Rightarrow> bool" where
  "jf_hashtable_isEntryInTable piht pEntry =
     (atPosition piht (getPositionOfKey piht (iht_fnGetKeyFromEntry piht pEntry)) \<noteq> None)"

definition jf_hashtable_getSize :: "internal_hash_table \<Rightarrow> u32" where
  "jf_hashtable_getSize piht = iht_u32NumOfEntry piht"

record jf_hashtable_stat =
  jhs_u32NumOfEntry :: u32
  jhs_u32Size :: u32
  jhs_u32Collisions :: u32
  jhs_u32MaxEntries :: u32
  jhs_u32CountOfResizeOp :: u32

fun countChain :: "nat \<times> nat \<Rightarrow> ptr list \<Rightarrow> nat \<times> nat" where
  "countChain (collisions, maxentries) c =
     (if c \<noteq> [] then
        (let j = 1 + length (tl c)
         in (if j > 1 then collisions + (j - 1) else collisions, if maxentries < j then j else maxentries))
      else (collisions, maxentries))"

definition jf_hashtable_getStat :: "internal_hash_table \<Rightarrow> jf_hashtable_stat" where
  "jf_hashtable_getStat piht =
     (let (collisions, maxentries) = foldl countChain (0, 0) (iht_phtbBucket piht)
      in \<lparr>jhs_u32NumOfEntry = iht_u32NumOfEntry piht, jhs_u32Size = iht_u32Size piht, jhs_u32Collisions = of_nat collisions,
          jhs_u32MaxEntries = of_nat maxentries, jhs_u32CountOfResizeOp = iht_u32Resizes piht\<rparr>)"

section \<open>Iterators\<close>

text \<open>The cursor is the chain and the position of a bucket; the table is passed along.\<close>

record jf_hashtable_iterator =
  jhi_nPos :: int
  jhi_pCursor :: "(nat \<times> nat) option"

function nextChain :: "internal_hash_table \<Rightarrow> nat \<Rightarrow> jf_hashtable_iterator" where
  "nextChain piht i =
     (if i < unat (iht_u32Size piht) then
        (if iht_phtbBucket piht ! i \<noteq> [] then \<lparr>jhi_nPos = int i, jhi_pCursor = Some (i, 0)\<rparr>
         else nextChain piht (i + 1))
      else \<lparr>jhi_nPos = int (unat (iht_u32Size piht)), jhi_pCursor = None\<rparr>)"
  by pat_completeness auto
termination
  by (relation "measure (\<lambda>(piht, i). unat (iht_u32Size piht) - i)") auto

declare nextChain.simps [simp del]

definition jf_hashtable_incrementIterator :: "internal_hash_table \<Rightarrow> jf_hashtable_iterator \<Rightarrow> jf_hashtable_iterator" where
  "jf_hashtable_incrementIterator piht pIterator =
     (case jhi_pCursor pIterator of
        Some (h, i) \<Rightarrow>
          (if Suc i < length (iht_phtbBucket piht ! h) then pIterator\<lparr>jhi_pCursor := Some (h, Suc i)\<rparr>
           else nextChain piht (nat (jhi_nPos pIterator + 1)))
      | None \<Rightarrow> nextChain piht (nat (jhi_nPos pIterator + 1)))"

definition jf_hashtable_setupIterator :: "internal_hash_table \<Rightarrow> jf_hashtable_iterator" where
  "jf_hashtable_setupIterator piht = jf_hashtable_incrementIterator piht \<lparr>jhi_nPos = -1, jhi_pCursor = None\<rparr>"

definition jf_hashtable_isEndOfIterator :: "jf_hashtable_iterator \<Rightarrow> bool" where
  "jf_hashtable_isEndOfIterator pIterator = (jhi_pCursor pIterator = None)"

definition jf_hashtable_getEntryFromIterator :: "internal_hash_table \<Rightarrow> jf_hashtable_iterator \<Rightarrow> ptr" where
  "jf_hashtable_getEntryFromIterator piht pIterator =
     (case jhi_pCursor pIterator of None \<Rightarrow> 0 | Some (h, i) \<Rightarrow> iht_phtbBucket piht ! h ! i)"

section \<open>Hash functions\<close>

definition HASHPJWSHIFT :: nat where
  "HASHPJWSHIFT = 4 * 8 - 4"

text \<open>The characters are signed bytes and the shift of \<^verbatim>\<open>g\<close> keeps its sign.\<close>

fun hashPJW_loop :: "u32 \<Rightarrow> u8 list \<Rightarrow> u32" where
  "hashPJW_loop h [] = h"
| "hashPJW_loop h (p # ps) =
     (let h = push_bit 4 h + scast p;
          g = h AND push_bit HASHPJWSHIFT 0xf;
          h = (if g \<noteq> 0 then (h XOR signed_drop_bit HASHPJWSHIFT g) XOR g else h)
      in hashPJW_loop h ps)"

definition jf_hashtable_hashPJW :: "u8 list \<Rightarrow> u32" where
  "jf_hashtable_hashPJW pKey = (let h = hashPJW_loop 0 pKey in if sint h > 0 then h else - h)"

definition JF_HASHTABLE_GOLDEN_RATIO_PRIME_32 :: u32 where
  "JF_HASHTABLE_GOLDEN_RATIO_PRIME_32 = 0x9e370001"

definition JF_HASHTABLE_GOLDEN_RATIO_PRIME_64 :: u64 where
  "JF_HASHTABLE_GOLDEN_RATIO_PRIME_64 = 0x9e37fffffffc0001"

definition jf_hashtable_hashU64 :: "u64 \<Rightarrow> nat \<Rightarrow> u64" where
  "jf_hashtable_hashU64 val bits =
     (let hash = val;
          n = hash;
          n = push_bit 18 n;
          hash = hash - n;
          n = push_bit 33 n;
          hash = hash - n;
          n = push_bit 3 n;
          hash = hash + n;
          n = push_bit 3 n;
          hash = hash - n;
          n = push_bit 4 n;
          hash = hash + n;
          n = push_bit 2 n;
          hash = hash + n
      in drop_bit (64 - bits) hash)"

definition jf_hashtable_hashU32 :: "u32 \<Rightarrow> nat \<Rightarrow> u32" where
  "jf_hashtable_hashU32 val bits =
     (let hash = val * JF_HASHTABLE_GOLDEN_RATIO_PRIME_32 in drop_bit (32 - bits) hash)"

definition jf_hashtable_hashPtr :: "ptr \<Rightarrow> nat \<Rightarrow> u64" where
  "jf_hashtable_hashPtr ptr bits = jf_hashtable_hashU64 ptr bits"

section \<open>Chains\<close>

text \<open>What the callbacks promise: keys are compared by an equivalence, and equivalent keys have the same hash value.\<close>

locale key_callbacks =
  fixes cmp :: "ptr \<Rightarrow> ptr \<Rightarrow> int"
    and hash :: "ptr \<Rightarrow> u32"
  assumes cmp_refl: "cmp k k = 0"
    and cmp_sym: "cmp k k' = 0 \<Longrightarrow> cmp k' k = 0"
    and cmp_trans: "cmp k k' = 0 \<Longrightarrow> cmp k' k'' = 0 \<Longrightarrow> cmp k k'' = 0"
    and cmp_hash: "cmp k k' = 0 \<Longrightarrow> hash k = hash k'"

interpretation default_keys: key_callbacks default_fnHtCmpKeys default_fnHtHashKey
  by unfold_locales (auto simp: default_fnHtCmpKeys_def split: if_splits)

abbreviation key_of :: "internal_hash_table \<Rightarrow> ptr \<Rightarrow> ptr" where
  "key_of t \<equiv> iht_fnGetKeyFromEntry t"

abbreviation same_key :: "internal_hash_table \<Rightarrow> ptr \<Rightarrow> ptr \<Rightarrow> bool" where
  "same_key t k e \<equiv> iht_fnCmpKeys t k (key_of t e) = 0"

definition entries :: "internal_hash_table \<Rightarrow> ptr set" where
  "entries t = set (concat (iht_phtbBucket t))"

text \<open>Every entry is in the chain of its key, no chain has an entry twice, and no two entries have the same key.\<close>

definition chains_ok :: "internal_hash_table \<Rightarrow> bool" where
  "chains_ok t \<longleftrightarrow> length (iht_phtbBucket t) = unat (iht_u32Size t) \<and> 0 < iht_u32Size t \<and>
     (\<forall>h < length (iht_phtbBucket t). distinct (iht_phtbBucket t ! h) \<and>
        (\<forall>e \<in> set (iht_phtbBucket t ! h). hashSlot t (key_of t e) = h))"

definition keys_unique :: "internal_hash_table \<Rightarrow> ptr set \<Rightarrow> bool" where
  "keys_unique t E \<longleftrightarrow> (\<forall>e\<in>E. \<forall>e'\<in>E. same_key t (key_of t e) e' \<longrightarrow> e = e')"

lemma hashSlot_less: "chains_ok t \<Longrightarrow> hashSlot t k < length (iht_phtbBucket t)"
  by (simp add: chains_ok_def hashSlot_def Let_def unat_mod word_gt_0_no unat_gt_0 word_greater_zero_iff)

lemma chains_okD:
  assumes "chains_ok t" "h < length (iht_phtbBucket t)"
  shows "distinct (iht_phtbBucket t ! h)" "e \<in> set (iht_phtbBucket t ! h) \<Longrightarrow> hashSlot t (key_of t e) = h"
  using assms by (auto simp: chains_ok_def)

lemma set_concat_nth: "set (concat b) = (\<Union>j<length b. set (b ! j))"
  by (auto simp: set_conv_nth [of b])

lemma entries_chain:
  assumes "chains_ok t" "h < length (iht_phtbBucket t)"
  shows "set (iht_phtbBucket t ! h) = {e \<in> entries t. hashSlot t (key_of t e) = h}"
proof (intro equalityI subsetI)
  fix e
  assume "e \<in> set (iht_phtbBucket t ! h)"
  then show "e \<in> {e \<in> entries t. hashSlot t (key_of t e) = h}"
    using assms(2) chains_okD(2) [OF assms] by (auto simp: entries_def set_concat_nth)
next
  fix e
  assume e: "e \<in> {e \<in> entries t. hashSlot t (key_of t e) = h}"
  then obtain j where j: "j < length (iht_phtbBucket t)" "e \<in> set (iht_phtbBucket t ! j)"
    unfolding entries_def set_concat_nth by blast
  then have "h = j" using e chains_okD(2) [OF assms(1) j] by simp
  then show "e \<in> set (iht_phtbBucket t ! h)" using j(2) by simp
qed

lemma chainPosition_le: "chainPosition P c \<le> length c"
  by (induction c) auto

lemma chainPosition_found: "chainPosition P c < length c \<Longrightarrow> P (c ! chainPosition P c)"
  by (induction c) auto

lemma chainPosition_end: "chainPosition P c = length c \<longleftrightarrow> (\<forall>e\<in>set c. \<not> P e)"
  by (induction c) auto

text \<open>The frame of an update of a chain.\<close>

lemma linkPosition_frame [simp]:
  "iht_u32NumOfEntry (linkPosition t pos es) = iht_u32NumOfEntry t" "iht_u32Size (linkPosition t pos es) = iht_u32Size t"
  "iht_u32Threshold (linkPosition t pos es) = iht_u32Threshold t" "iht_u32Resizes (linkPosition t pos es) = iht_u32Resizes t"
  "iht_u32PrimesIndex (linkPosition t pos es) = iht_u32PrimesIndex t" "iht_fnCmpKeys (linkPosition t pos es) = iht_fnCmpKeys t"
  "iht_fnHashKey (linkPosition t pos es) = iht_fnHashKey t" "key_of (linkPosition t pos es) = key_of t"
  "hashSlot (linkPosition t pos es) = hashSlot t" "length (iht_phtbBucket (linkPosition t pos es)) = length (iht_phtbBucket t)"
  by (simp_all add: linkPosition_def hashSlot_def fun_eq_iff)

lemma set_concat_update:
  assumes "h < length b"
  shows "set (concat (b[h := c])) = (\<Union>j\<in>{..<length b} - {h}. set (b ! j)) \<union> set c"
  using assms unfolding set_concat_nth by (auto simp: nth_list_update split: if_splits)

lemma linkPosition_chains:
  assumes ok: "chains_ok t" and h: "h < length (iht_phtbBucket t)"
    and c: "distinct (take i (iht_phtbBucket t ! h) @ es)" "\<And>e. e \<in> set es \<Longrightarrow> hashSlot t (key_of t e) = h"
  shows "chains_ok (linkPosition t (h, i) es)"
    "entries (linkPosition t (h, i) es) =
       {e \<in> entries t. hashSlot t (key_of t e) \<noteq> h} \<union> set (take i (iht_phtbBucket t ! h) @ es)"
proof -
  have slot: "hashSlot t (key_of t e) = h" if "e \<in> set (take i (iht_phtbBucket t ! h) @ es)" for e
    using that c(2) chains_okD(2) [OF ok h] by (auto dest: in_set_takeD)
  have nth: "iht_phtbBucket (linkPosition t (h, i) es) ! j =
      (if j = h then take i (iht_phtbBucket t ! h) @ es else iht_phtbBucket t ! j)" for j
    using h by (simp add: linkPosition_def)
  have "distinct (iht_phtbBucket (linkPosition t (h, i) es) ! j) \<and>
      (\<forall>e \<in> set (iht_phtbBucket (linkPosition t (h, i) es) ! j). hashSlot t (key_of t e) = j)"
    if "j < length (iht_phtbBucket t)" for j
    using c(1) slot chains_okD [OF ok that] by (simp add: nth del: set_append)
  then show "chains_ok (linkPosition t (h, i) es)"
    using ok by (simp add: chains_ok_def)
  have "(\<Union>j\<in>{..<length (iht_phtbBucket t)} - {h}. set (iht_phtbBucket t ! j)) = {e \<in> entries t. hashSlot t (key_of t e) \<noteq> h}"
    using entries_chain [OF ok] hashSlot_less [OF ok] by auto
  then show "entries (linkPosition t (h, i) es) =
       {e \<in> entries t. hashSlot t (key_of t e) \<noteq> h} \<union> set (take i (iht_phtbBucket t ! h) @ es)"
    using set_concat_update [OF h] by (simp add: entries_def linkPosition_def)
qed

lemma distinct_concat:
  assumes "chains_ok t"
  shows "distinct (concat (iht_phtbBucket t))"
proof -
  have "distinct (concat (take n (iht_phtbBucket t)))" if "n \<le> length (iht_phtbBucket t)" for n
    using that
  proof (induction n)
    case (Suc n)
    have "e \<notin> set (iht_phtbBucket t ! n)" if mem: "e \<in> set (concat (take n (iht_phtbBucket t)))" for e
    proof
      assume e: "e \<in> set (iht_phtbBucket t ! n)"
      obtain j where "j < n" "e \<in> set (iht_phtbBucket t ! j)"
        using mem Suc.prems by (auto simp: set_concat_nth simp del: set_concat)
      then show False using e Suc.prems chains_okD(2) [OF assms, of n e] chains_okD(2) [OF assms, of j e] by simp
    qed
    moreover have "distinct (iht_phtbBucket t ! n)" using assms Suc.prems by (simp add: chains_ok_def)
    ultimately show ?case using Suc by (auto simp: take_Suc_conv_app_nth)
  qed simp
  from this [of "length (iht_phtbBucket t)"] show ?thesis by simp
qed

lemma card_entries: "chains_ok t \<Longrightarrow> card (entries t) = length (concat (iht_phtbBucket t))"
  by (simp only: entries_def distinct_card distinct_concat)

section \<open>Resizing\<close>

lemma foldl_moveBuckets: "foldl moveBuckets t cs = moveBuckets t (concat cs)"
proof (induction cs arbitrary: t)
  case (Cons c cs)
  have "moveBuckets t (xs @ ys) = moveBuckets (moveBuckets t xs) ys" for t xs ys
    by (induction xs arbitrary: t) (auto simp: Let_def)
  then show ?case using Cons by simp
qed simp

lemma moveBuckets_frame [simp]:
  "iht_u32NumOfEntry (moveBuckets t ps) = iht_u32NumOfEntry t" "iht_u32Size (moveBuckets t ps) = iht_u32Size t"
  "iht_u32Resizes (moveBuckets t ps) = iht_u32Resizes t"
  "iht_u32PrimesIndex (moveBuckets t ps) = iht_u32PrimesIndex t" "iht_fnCmpKeys (moveBuckets t ps) = iht_fnCmpKeys t"
  "iht_fnHashKey (moveBuckets t ps) = iht_fnHashKey t" "key_of (moveBuckets t ps) = key_of t"
  by (induction ps arbitrary: t) (auto simp: Let_def)

text \<open>A key with no entry in the table has its position at the end of its chain.\<close>

lemma position_new:
  assumes "chains_ok t" "\<And>e. e \<in> entries t \<Longrightarrow> \<not> same_key t k e"
  shows "getPositionOfKey t k = (hashSlot t k, length (iht_phtbBucket t ! hashSlot t k))"
  using assms(2) entries_chain [OF assms(1) hashSlot_less [OF assms(1)]]
  by (auto simp: getPositionOfKey_def Let_def chainPosition_end)

lemma append_entry:
  assumes "chains_ok t" "key_callbacks (iht_fnCmpKeys t) hash" "\<And>e'. e' \<in> entries t \<Longrightarrow> \<not> same_key t (key_of t e) e'"
  defines "t' \<equiv> linkPosition t (getPositionOfKey t (key_of t e)) [e]"
  shows "chains_ok t'" "entries t' = insert e (entries t)" "e \<notin> entries t"
proof -
  let ?h = "hashSlot t (key_of t e)"
  show new: "e \<notin> entries t" using assms(3) [of e] key_callbacks.cmp_refl [OF assms(2), of "key_of t e"] by auto
  note h = hashSlot_less [OF assms(1), of "key_of t e"]
  have pos: "getPositionOfKey t (key_of t e) = (?h, length (iht_phtbBucket t ! ?h))"
    using position_new [OF assms(1,3)] by simp
  have d: "distinct (take (length (iht_phtbBucket t ! ?h)) (iht_phtbBucket t ! ?h) @ [e])"
    using chains_okD(1) [OF assms(1) h] new entries_chain [OF assms(1) h] by simp
  show "chains_ok t'" using linkPosition_chains(1) [OF assms(1) h d] by (simp add: t'_def pos)
  have "entries t' = {e' \<in> entries t. hashSlot t (key_of t e') \<noteq> ?h} \<union> insert e (set (iht_phtbBucket t ! ?h))"
    using linkPosition_chains(2) [OF assms(1) h d] by (simp add: t'_def pos)
  then show "entries t' = insert e (entries t)" unfolding entries_chain [OF assms(1) h] by blast
qed

lemma keys_unique_frame:
  "keys_unique (linkPosition t pos es) E = keys_unique t E"
  by (simp add: keys_unique_def)

lemma moveBuckets_ok:
  assumes "chains_ok t" "key_callbacks (iht_fnCmpKeys t) hash" "keys_unique t (entries t \<union> set ps)"
    and "distinct ps" "set ps \<inter> entries t = {}"
  shows "chains_ok (moveBuckets t ps) \<and> entries (moveBuckets t ps) = entries t \<union> set ps"
  using assms
proof (induction ps arbitrary: t)
  case (Cons p ps)
  let ?t = "linkPosition t (getPositionOfKey t (key_of t p)) [p]"
  have "\<not> same_key t (key_of t p) e'" if "e' \<in> entries t" for e'
    using Cons.prems(3,5) that by (auto simp: keys_unique_def)
  note step = append_entry [OF Cons.prems(1,2) this]
  have "chains_ok (moveBuckets ?t ps) \<and> entries (moveBuckets ?t ps) = entries ?t \<union> set ps"
    using Cons.prems step by (intro Cons.IH) (auto simp: keys_unique_frame)
  then show ?case using step by (auto simp: Let_def)
qed simp

section \<open>The invariant of a table\<close>

definition ht_lookup :: "internal_hash_table \<Rightarrow> ptr \<Rightarrow> ptr option" where
  "ht_lookup t k = atPosition t (getPositionOfKey t k)"

text \<open>\<open>ht_shape\<close> relates the size, the index of the prime and the threshold; \<open>ht_ok\<close> adds the chains and the counter.\<close>

definition ht_shape :: "internal_hash_table \<Rightarrow> bool" where
  "ht_shape t \<longleftrightarrow> unat (iht_u32PrimesIndex t) < length ls_nHashTablePrimes \<and>
     unat (iht_u32Size t) = ls_nHashTablePrimes ! unat (iht_u32PrimesIndex t) \<and>
     iht_u32Threshold t = (push_bit 2 (iht_u32Size t) + 4) div 5"

definition ht_ok :: "(ptr \<Rightarrow> ptr \<Rightarrow> int) \<Rightarrow> (ptr \<Rightarrow> u32) \<Rightarrow> (ptr \<Rightarrow> ptr) \<Rightarrow> internal_hash_table \<Rightarrow> bool" where
  "ht_ok cmp hash key t \<longleftrightarrow>
     iht_fnCmpKeys t = cmp \<and> iht_fnHashKey t = hash \<and> key_of t = key \<and> ht_shape t \<and>
     chains_ok t \<and> keys_unique t (entries t) \<and> iht_u32NumOfEntry t = of_nat (card (entries t))"

lemma ht_okD:
  assumes "ht_ok cmp hash key t"
  shows "iht_fnCmpKeys t = cmp" "iht_fnHashKey t = hash" "key_of t = key" "ht_shape t" "chains_ok t"
    "keys_unique t (entries t)" "iht_u32NumOfEntry t = of_nat (card (entries t))"
  using assms by (simp_all add: ht_ok_def)

lemma length_primes [simp]: "length ls_nHashTablePrimes = 38"
  by (simp add: ls_nHashTablePrimes_def)

lemma prime_range: "i < 38 \<Longrightarrow> 0 < ls_nHashTablePrimes ! i \<and> ls_nHashTablePrimes ! i < 2 ^ 31"
proof -
  assume "i < 38"
  then have "ls_nHashTablePrimes ! i \<in> set ls_nHashTablePrimes" by simp
  moreover have "\<forall>p\<in>set ls_nHashTablePrimes. 0 < p \<and> p < 2 ^ 31" by (simp add: ls_nHashTablePrimes_def)
  ultimately show ?thesis by blast
qed

lemma unat_prime [simp]: "i < 38 \<Longrightarrow> unat (of_nat (ls_nHashTablePrimes ! i) :: u32) = ls_nHashTablePrimes ! i"
  using prime_range [of i] by (simp add: unat_of_nat take_bit_nat_eq_self)

lemma ht_lookup_iff:
  assumes "chains_ok t" "keys_unique t (entries t)" "key_callbacks (iht_fnCmpKeys t) (iht_fnHashKey t)"
  shows "ht_lookup t k = Some e \<longleftrightarrow> e \<in> entries t \<and> same_key t k e"
proof -
  define c where "c = iht_phtbBucket t ! hashSlot t k"
  define i where "i = chainPosition (same_key t k) c"
  have lookup: "ht_lookup t k = (if i < length c then Some (c ! i) else None)"
    by (simp add: ht_lookup_def atPosition_def getPositionOfKey_def Let_def c_def i_def)
  have c: "set c = {e \<in> entries t. hashSlot t (key_of t e) = hashSlot t k}"
    unfolding c_def using entries_chain [OF assms(1) hashSlot_less [OF assms(1)]] .
  have found: "same_key t k (c ! i)" "c ! i \<in> entries t" if "i < length c"
    using chainPosition_found [of "same_key t k" c] nth_mem [OF that] that c by (auto simp: i_def)
  show ?thesis
  proof
    assume "ht_lookup t k = Some e"
    then show "e \<in> entries t \<and> same_key t k e" using found lookup by (auto split: if_splits)
  next
    assume e: "e \<in> entries t \<and> same_key t k e"
    then have "iht_fnHashKey t (key_of t e) = iht_fnHashKey t k"
      using key_callbacks.cmp_hash [OF assms(3), of k "key_of t e"] by simp
    then have "e \<in> set c" using e c by (simp add: hashSlot_def)
    then have i: "i < length c"
      using chainPosition_end [of "same_key t k" c] chainPosition_le [of "same_key t k" c] e by (auto simp: i_def)
    have "same_key t (key_of t e) (c ! i)"
      using key_callbacks.cmp_trans [OF assms(3) key_callbacks.cmp_sym [OF assms(3)]] e found(1) [OF i] by blast
    then have "e = c ! i" using assms(2) e found(2) [OF i] by (auto simp: keys_unique_def)
    then show "ht_lookup t k = Some e" using lookup i by simp
  qed
qed

lemma ht_lookup_None:
  assumes "chains_ok t" "keys_unique t (entries t)" "key_callbacks (iht_fnCmpKeys t) (iht_fnHashKey t)"
  shows "ht_lookup t k = None \<longleftrightarrow> (\<forall>e\<in>entries t. \<not> same_key t k e)"
  using ht_lookup_iff [OF assms, of k] by (cases "ht_lookup t k") auto

lemma chains_ok_new_array:
  "0 < iht_u32Size t \<Longrightarrow> iht_phtbBucket t = replicate (unat (iht_u32Size t)) [] \<Longrightarrow> chains_ok t \<and> entries t = {}"
  by (auto simp: chains_ok_def entries_def)

lemma chains_ok_cong:
  assumes "iht_phtbBucket t' = iht_phtbBucket t" "iht_u32Size t' = iht_u32Size t" "iht_fnHashKey t' = iht_fnHashKey t"
    "key_of t' = key_of t"
  shows "chains_ok t' = chains_ok t" "entries t' = entries t"
  using assms by (simp_all add: chains_ok_def entries_def hashSlot_def)

lemma resize_ok:
  assumes ok: "ht_ok cmp hash key t" and cb: "key_callbacks cmp hash" and i: "unat (iht_u32PrimesIndex t) + 1 < 38"
  shows "\<exists>r t'. resizeHashTable a t = Some (r, t') \<and> ht_ok cmp hash key t' \<and> entries t' = entries t \<and>
    (r = JF_ERR_NO_ERROR \<longleftrightarrow> a)"
proof (cases a)
  case True
  let ?i = "unat (iht_u32PrimesIndex t) + 1"
  have idx: "unat (iht_u32PrimesIndex t + 1) = ?i" using i by (simp add: unat_word_ariths)
  define t0 where "t0 = t\<lparr>iht_u32Size := of_nat (ls_nHashTablePrimes ! ?i),
    iht_phtbBucket := replicate (ls_nHashTablePrimes ! ?i) []\<rparr>"
  define t1 where "t1 = moveBuckets t0 (concat (iht_phtbBucket t))"
  have size0: "unat (iht_u32Size t0) = ls_nHashTablePrimes ! ?i" using i by (simp add: t0_def)
  then have "0 < iht_u32Size t0" using prime_range [OF i] by (simp add: word_gt_0 unat_eq_0 flip: unat_gt_0)
  then have t0: "chains_ok t0 \<and> entries t0 = {}"
    using i by (intro chains_ok_new_array) (simp_all add: t0_def)
  have t1: "chains_ok t1 \<and> entries t1 = entries t"
    unfolding t1_def
    using moveBuckets_ok [of t0 hash "concat (iht_phtbBucket t)"] t0 cb ht_okD [OF ok] distinct_concat [of t]
    by (simp add: t0_def keys_unique_def entries_def)
  define t2 where "t2 = (setHashTableThreshold (t1\<lparr>iht_u32PrimesIndex := iht_u32PrimesIndex t1 + 1\<rparr>))
    \<lparr>iht_u32Resizes := iht_u32Resizes t1 + 1\<rparr>"
  have res: "resizeHashTable a t = Some (JF_ERR_NO_ERROR, t2)"
    using True i idx
    by (simp add: resizeHashTable_def createHashTableArray_def foldl_moveBuckets t2_def t1_def t0_def setHashTableThreshold_def Let_def)
  have fields: "iht_phtbBucket t2 = iht_phtbBucket t1" "iht_u32Size t2 = iht_u32Size t1" "iht_fnHashKey t2 = iht_fnHashKey t1"
    "key_of t2 = key_of t1" "iht_fnCmpKeys t2 = iht_fnCmpKeys t1"
    "iht_u32NumOfEntry t2 = iht_u32NumOfEntry t1" "iht_u32PrimesIndex t2 = iht_u32PrimesIndex t1 + 1"
    "iht_u32Threshold t2 = (push_bit 2 (iht_u32Size t1) + 4) div 5"
    by (simp_all add: t2_def setHashTableThreshold_def)
  note fields1 = fields [unfolded t1_def moveBuckets_frame, folded t1_def]
  have "ht_ok cmp hash key t2"
    unfolding ht_ok_def
    using t1 ht_okD [OF ok] i idx size0 chains_ok_cong [OF fields(1-4)] fields1
    by (auto simp: ht_shape_def keys_unique_def t0_def)
  then show ?thesis using res True t1 chains_ok_cong(2) [OF fields(1-4)] by auto
next
  case False
  have "unat (iht_u32PrimesIndex t + 1) = unat (iht_u32PrimesIndex t) + 1" using i by (simp add: unat_word_ariths)
  then have "resizeHashTable a t = Some (JF_ERR_JIUKUN_OUT_OF_MEMORY, t)"
    using False i by (simp add: resizeHashTable_def createHashTableArray_def)
  then show ?thesis using False ok by simp
qed

section \<open>The operations\<close>

text \<open>
  Up to this number of entries the table of primes is long enough: it is the threshold of the last prime, which the
  32-bit computation makes smaller than four fifths of the prime.
\<close>

definition ht_capacity :: nat where
  "ht_capacity = 803984756"

lemma resize_in_range:
  assumes "ht_shape t" "iht_u32NumOfEntry t = of_nat n" "n < ht_capacity" "iht_u32NumOfEntry t \<ge> iht_u32Threshold t"
  shows "unat (iht_u32PrimesIndex t) + 1 < 38"
proof (rule ccontr)
  assume "\<not> unat (iht_u32PrimesIndex t) + 1 < 38"
  then have i: "unat (iht_u32PrimesIndex t) = 37" using assms(1) by (simp add: ht_shape_def)
  then have "unat (iht_u32Size t) = 2078722769"
    using assms(1) by (simp add: ht_shape_def ls_nHashTablePrimes_def)
  then have "iht_u32Size t = 2078722769" by (simp add: word_unat_eq_iff)
  then have "iht_u32Threshold t = 803984756" using assms(1) by (simp add: ht_shape_def)
  then show False using assms(2-4) by (simp add: ht_capacity_def word_le_nat_alt unat_of_nat take_bit_nat_eq_self)
qed

text \<open>The part of \<open>insertAtPosition\<close> after the table was resized.\<close>

definition linkEntry :: "bool \<Rightarrow> internal_hash_table \<Rightarrow> nat \<times> nat \<Rightarrow> ptr \<Rightarrow> jf_err \<times> internal_hash_table" where
  "linkEntry a t pos e =
     (if \<not> a then (JF_ERR_JIUKUN_OUT_OF_MEMORY, t)
      else (JF_ERR_NO_ERROR, (linkPosition t pos (e # drop (snd pos) (iht_phtbBucket t ! fst pos)))
             \<lparr>iht_u32NumOfEntry := iht_u32NumOfEntry t + 1\<rparr>))"

definition inserted ::
  "(ptr \<Rightarrow> ptr \<Rightarrow> int) \<Rightarrow> (ptr \<Rightarrow> u32) \<Rightarrow> (ptr \<Rightarrow> ptr) \<Rightarrow> ptr set \<Rightarrow> bool \<Rightarrow> ptr \<Rightarrow> jf_err \<times> internal_hash_table \<Rightarrow> bool" where
  "inserted cmp hash key E a e = (\<lambda>(r, t'). ht_ok cmp hash key t' \<and> (a \<longrightarrow> r = JF_ERR_NO_ERROR) \<and>
     (if r = JF_ERR_NO_ERROR then e \<notin> E \<and> entries t' = insert e E else entries t' = E))"

lemma linkEntry_ok:
  assumes ok: "ht_ok cmp hash key t" and cb: "key_callbacks cmp hash" and new: "\<forall>x\<in>entries t. cmp (key e) (key x) \<noteq> 0"
  shows "inserted cmp hash key (entries t) a e (linkEntry a t (getPositionOfKey t (key e)) e)"
proof -
  note d = ht_okD [OF ok]
  let ?pos = "getPositionOfKey t (key e)"
  define t2 where "t2 = linkPosition t (getPositionOfKey t (key_of t e)) [e]"
  let ?t = "t2\<lparr>iht_u32NumOfEntry := iht_u32NumOfEntry t + 1\<rparr>"
  have new': "\<not> same_key t (key_of t e) x" if "x \<in> entries t" for x using new that d(1,3) by simp
  note app = append_entry [OF d(5) _ new', of hash, folded t2_def, unfolded d(1), OF cb]
  have end_pos: "drop (snd ?pos) (iht_phtbBucket t ! fst ?pos) = []"
    using position_new [of t "key e"] d new by simp
  have t: "chains_ok ?t" "entries ?t = insert e (entries t)"
    using app chains_ok_cong [of ?t t2] by auto
  moreover have "keys_unique t (insert e (entries t))"
    using d(1,3,6) new key_callbacks.cmp_sym [OF cb] by (auto simp: keys_unique_def)
  moreover have "finite (entries t)" by (simp add: entries_def)
  ultimately have "ht_ok cmp hash key ?t"
    using d app(3) by (simp add: ht_ok_def ht_shape_def keys_unique_def t2_def)
  then show ?thesis using t app(3) ok d(3) end_pos by (simp add: inserted_def linkEntry_def t2_def)
qed

lemma insertAtPosition_ok:
  assumes ok: "ht_ok cmp hash key t" and cb: "key_callbacks cmp hash" and new: "ht_lookup t (key e) = None"
    and n: "card (entries t) < ht_capacity"
  shows "\<exists>res. insertAtPosition a t (getPositionOfKey t (key e)) e = Some res \<and>
    inserted cmp hash key (entries t) (fst a \<and> snd a) e res"
proof -
  note d = ht_okD [OF ok]
  have newt: "\<forall>x\<in>entries t. cmp (key e) (key x) \<noteq> 0"
    using new ht_lookup_None [of t "key e"] d cb by auto
  show ?thesis
  proof (cases "iht_u32NumOfEntry t \<ge> iht_u32Threshold t")
    case full: True
    obtain r t1 where t1: "resizeHashTable (fst a) t = Some (r, t1)" "ht_ok cmp hash key t1" "entries t1 = entries t"
      "r = JF_ERR_NO_ERROR \<longleftrightarrow> fst a"
      using resize_ok [OF ok cb resize_in_range [OF d(4,7) n full], of "fst a"] by blast
    show ?thesis
    proof (cases "fst a")
      case True
      then have "insertAtPosition a t (getPositionOfKey t (key e)) e = Some (linkEntry (snd a) t1 (getPositionOfKey t1 (key e)) e)"
        using t1 full ht_okD(3) [OF t1(2)] by (simp add: insertAtPosition_def linkEntry_def Let_def)
      then show ?thesis using linkEntry_ok [OF t1(2) cb, of e "snd a"] newt t1(3) True by simp
    next
      case False
      then show ?thesis using t1 full by (simp add: insertAtPosition_def inserted_def)
    qed
  next
    case False
    then have "insertAtPosition a t (getPositionOfKey t (key e)) e = Some (linkEntry (snd a) t (getPositionOfKey t (key e)) e)"
      by (simp add: insertAtPosition_def linkEntry_def Let_def)
    then show ?thesis using linkEntry_ok [OF ok cb newt, of "snd a"] by (auto simp: inserted_def split: if_splits prod.splits)
  qed
qed

text \<open>The entries of a table without those of a key.\<close>

definition without :: "internal_hash_table \<Rightarrow> ptr \<Rightarrow> ptr set" where
  "without t k = {x \<in> entries t. \<not> same_key t k x}"

lemma position_found:
  assumes "ht_lookup t k = Some x"
  defines "c \<equiv> iht_phtbBucket t ! hashSlot t k"
  obtains i where "getPositionOfKey t k = (hashSlot t k, i)" "i < length c" "c ! i = x"
  using assms by (auto simp: ht_lookup_def atPosition_def getPositionOfKey_def Let_def split: if_splits)

lemma set_remove_nth:
  assumes "distinct c" "i < length c"
  shows "set (take i c @ drop (Suc i) c) = set c - {c ! i}" "distinct (take i c @ drop (Suc i) c)"
proof -
  have c: "c = take i c @ c ! i # drop (Suc i) c" using assms(2) by (rule id_take_nth_drop)
  have "distinct (take i c @ c ! i # drop (Suc i) c)" using assms(1) c by simp
  moreover have "set c = set (take i c @ c ! i # drop (Suc i) c)" using c by simp
  ultimately show "set (take i c @ drop (Suc i) c) = set c - {c ! i}" "distinct (take i c @ drop (Suc i) c)" by auto
qed

lemma relink_found:
  assumes ok: "ht_ok cmp hash key t" and cb: "key_callbacks cmp hash" and x: "ht_lookup t k = Some x"
    and es: "es = [] \<or> es = [e] \<and> cmp k (key e) = 0"
  defines "t' \<equiv> linkPosition t (getPositionOfKey t k)
      (es @ drop (Suc (snd (getPositionOfKey t k))) (iht_phtbBucket t ! fst (getPositionOfKey t k)))"
  shows "chains_ok t'" "entries t' = set es \<union> without t k" "without t k = entries t - {x}" "x \<in> entries t"
proof -
  note d = ht_okD [OF ok]
  let ?h = "hashSlot t k"
  let ?c = "iht_phtbBucket t ! ?h"
  note h = hashSlot_less [OF d(5), of k]
  obtain i where i: "getPositionOfKey t k = (?h, i)" "i < length ?c" "?c ! i = x"
    using position_found [OF x] .
  have mem: "x \<in> entries t" "cmp k (key x) = 0" using ht_lookup_iff [of t k x] d cb x by auto
  show "x \<in> entries t" using mem(1) .
  have only: "y = x" if "y \<in> entries t" "cmp k (key y) = 0" for y
    using that mem d(1,3,6) key_callbacks.cmp_trans [OF cb key_callbacks.cmp_sym [OF cb that(2)] mem(2)]
    by (auto simp: keys_unique_def)
  show w: "without t k = entries t - {x}" unfolding without_def d(1,3) using only mem by blast
  note rm = set_remove_nth [OF chains_okD(1) [OF d(5) h] i(2)] and chain = entries_chain [OF d(5) h]
  have xc: "hashSlot t (key_of t x) = ?h" using chain nth_mem [OF i(2)] i(3) by simp
  have "set (es @ drop (Suc i) ?c) \<subseteq> set es \<union> set ?c" by (auto dest: in_set_dropD)
  moreover have "hashSlot t (key e) = ?h" if "cmp k (key e) = 0"
    using key_callbacks.cmp_hash [OF cb that] d(2) by (simp add: hashSlot_def)
  ultimately have slots: "hashSlot t (key_of t y) = ?h" if "y \<in> set (es @ drop (Suc i) ?c)" for y
    using that es chains_okD(2) [OF d(5) h, of y] d(3) by fastforce
  have "e \<notin> set (take i ?c @ drop (Suc i) ?c)" if "cmp k (key e) = 0"
    using only [OF _ that] unfolding rm(1) i(3) chain by blast
  then have dist: "distinct (take i ?c @ es @ drop (Suc i) ?c)" using es rm(2) by auto
  note link = linkPosition_chains [OF d(5) h dist slots]
  show "chains_ok t'" using link(1) i by (simp add: t'_def)
  have "entries t' = {y \<in> entries t. hashSlot t (key_of t y) \<noteq> ?h} \<union> set es \<union> set (take i ?c @ drop (Suc i) ?c)"
    using link(2) i by (simp add: t'_def Un_assoc Un_left_commute)
  also have "\<dots> = set es \<union> (entries t - {x})"
    using xc unfolding rm(1) i(3) chain by blast
  finally show "entries t' = set es \<union> without t k" using w by simp
qed

section \<open>The interface of a dictionary\<close>

text \<open>
  A dictionary maps keys to entries; \<open>put True\<close> overwrites an entry with the same key and \<open>put False\<close> keeps it. A \<open>put\<close> may
  fail (\<open>a\<close> is what the environment decides) and then changes nothing.
\<close>

definition put_map :: "('k \<Rightarrow> 'k \<Rightarrow> bool) \<Rightarrow> ('e \<Rightarrow> 'k) \<Rightarrow> bool \<Rightarrow> 'e \<Rightarrow> ('k \<Rightarrow> 'e option) \<Rightarrow> 'k \<Rightarrow> 'e option" where
  "put_map same key overwrite e m =
     (if \<not> overwrite \<and> m (key e) \<noteq> None then m else (\<lambda>k. if same k (key e) then Some e else m k))"

definition drop_map :: "('k \<Rightarrow> 'k \<Rightarrow> bool) \<Rightarrow> ('e \<Rightarrow> 'k) \<Rightarrow> 'e \<Rightarrow> ('k \<Rightarrow> 'e option) \<Rightarrow> 'k \<Rightarrow> 'e option" where
  "drop_map same key e m = (\<lambda>k. if same k (key e) then None else m k)"

datatype ('a, 'e) dict_op = Put bool 'a 'e | Drop 'e

inductive dict_spec ::
  "('k \<Rightarrow> 'k \<Rightarrow> bool) \<Rightarrow> ('e \<Rightarrow> 'k) \<Rightarrow> ('a \<Rightarrow> bool) \<Rightarrow> ('k \<Rightarrow> 'e option) \<Rightarrow> ('a, 'e) dict_op list \<Rightarrow> bool list \<Rightarrow> ('k \<Rightarrow> 'e option) \<Rightarrow> bool"
  for same key good where
  finish: "dict_spec same key good m [] [] m"
| put: "(good a \<longrightarrow> r) \<Longrightarrow> dict_spec same key good (if r then put_map same key ov e m else m) ops rs m' \<Longrightarrow>
    dict_spec same key good m (Put ov a e # ops) (r # rs) m'"
| discard: "r = (m (key e) \<noteq> None) \<Longrightarrow> dict_spec same key good (drop_map same key e m) ops rs m' \<Longrightarrow>
    dict_spec same key good m (Drop e # ops) (r # rs) m'"

fun dict_run ::
  "(bool \<Rightarrow> 'a \<Rightarrow> 'e \<Rightarrow> 't \<Rightarrow> (bool \<times> 't) option) \<Rightarrow> ('e \<Rightarrow> 't \<Rightarrow> bool \<times> 't) \<Rightarrow> ('a, 'e) dict_op list \<Rightarrow> 't \<Rightarrow> (bool list \<times> 't) option" where
  "dict_run put discard [] t = Some ([], t)"
| "dict_run put discard (Put ov a e # ops) t =
     (case put ov a e t of None \<Rightarrow> None | Some (r, t) \<Rightarrow> map_option (apfst (Cons r)) (dict_run put discard ops t))"
| "dict_run put discard (Drop e # ops) t =
     (case discard e t of (r, t) \<Rightarrow> map_option (apfst (Cons r)) (dict_run put discard ops t))"

locale dictionary =
  fixes ok :: "'t \<Rightarrow> bool"
    and look :: "'t \<Rightarrow> 'k \<Rightarrow> 'e option"
    and same :: "'k \<Rightarrow> 'k \<Rightarrow> bool"
    and key :: "'e \<Rightarrow> 'k"
    and put :: "bool \<Rightarrow> 'a \<Rightarrow> 'e \<Rightarrow> 't \<Rightarrow> (bool \<times> 't) option"
    and discard :: "'e \<Rightarrow> 't \<Rightarrow> bool \<times> 't"
    and room :: "'t \<Rightarrow> nat"
    and good :: "'a \<Rightarrow> bool"
  assumes put: "ok t \<Longrightarrow> 0 < room t \<Longrightarrow> \<exists>r t'. put ov a e t = Some (r, t') \<and> ok t' \<and> room t \<le> room t' + 1 \<and>
      (good a \<longrightarrow> r) \<and> look t' = (if r then put_map same key ov e (look t) else look t)"
    and discard: "ok t \<Longrightarrow> discard e t = (r, t') \<Longrightarrow> ok t' \<and> room t \<le> room t' \<and> r = (look t (key e) \<noteq> None) \<and>
      look t' = drop_map same key e (look t)"
begin

lemma run_spec:
  "ok t \<Longrightarrow> length ops \<le> room t \<Longrightarrow>
    \<exists>rs t'. dict_run put discard ops t = Some (rs, t') \<and> ok t' \<and> dict_spec same key good (look t) ops rs (look t')"
proof (induction ops arbitrary: t)
  case Nil
  then show ?case by (auto intro: dict_spec.finish)
next
  case (Cons x ops)
  show ?case
  proof (cases x)
    case (Put ov a e)
    obtain r t1 where t1: "put ov a e t = Some (r, t1)" "ok t1" "room t \<le> room t1 + 1" "good a \<longrightarrow> r"
      "look t1 = (if r then put_map same key ov e (look t) else look t)"
      using put [of t ov a e] Cons.prems by auto
    obtain rs t' where "dict_run put discard ops t1 = Some (rs, t')" "ok t'" "dict_spec same key good (look t1) ops rs (look t')"
      using Cons.IH [OF t1(2)] Cons.prems(2) t1(3) by auto
    then show ?thesis using Put t1 dict_spec.put [of good a r same key ov e "look t" ops rs "look t'"] by auto
  next
    case (Drop e)
    obtain r t1 where d: "discard e t = (r, t1)" by (cases "discard e t")
    note t1 = discard [OF Cons.prems(1) d]
    obtain rs t' where "dict_run put discard ops t1 = Some (rs, t')" "ok t'" "dict_spec same key good (look t1) ops rs (look t')"
      using Cons.IH [of t1] Cons.prems(2) t1 by auto
    then show ?thesis using Drop d t1 dict_spec.discard [of r "look t" key e same good ops rs "look t'"] by auto
  qed
qed

end

section \<open>The table as a dictionary\<close>

definition ht_put :: "bool \<Rightarrow> bool \<times> bool \<Rightarrow> ptr \<Rightarrow> internal_hash_table \<Rightarrow> (bool \<times> internal_hash_table) option" where
  "ht_put overwrite a e t =
     (if overwrite then map_option (\<lambda>(r, _, t). (r = JF_ERR_NO_ERROR, t)) (jf_hashtable_overwriteEntry a t e)
      else map_option (\<lambda>(r, t). (r = JF_ERR_NO_ERROR, t)) (jf_hashtable_insertEntry a t e))"

definition ht_drop :: "ptr \<Rightarrow> internal_hash_table \<Rightarrow> bool \<times> internal_hash_table" where
  "ht_drop e t = (case jf_hashtable_removeEntry t e of (r, _, t) \<Rightarrow> (r = JF_ERR_NO_ERROR, t))"

definition ht_room :: "internal_hash_table \<Rightarrow> nat" where
  "ht_room t = ht_capacity - card (entries t)"

lemma option_eq_iff: "(\<And>x. a = Some x \<longleftrightarrow> b = Some x) \<Longrightarrow> a = b"
  by (cases a; cases b) auto

lemma ht_ok_lookup:
  assumes "ht_ok cmp hash key t" "key_callbacks cmp hash"
  shows "ht_lookup t k = Some e \<longleftrightarrow> e \<in> entries t \<and> cmp k (key e) = 0"
  using ht_lookup_iff [of t k e] ht_okD [OF assms(1)] assms(2) by simp

lemma lookup_put:
  assumes ok: "ht_ok cmp hash key t" "ht_ok cmp hash key t'" and cb: "key_callbacks cmp hash"
    and E: "entries t' = insert e (without t (key e))"
  shows "ht_lookup t' = (\<lambda>k. if cmp k (key e) = 0 then Some e else ht_lookup t k)"
proof (intro ext option_eq_iff)
  fix k x
  have "cmp k (key x) = 0 \<Longrightarrow> cmp (key e) (key x) = 0" if "cmp k (key e) = 0"
    using key_callbacks.cmp_trans [OF cb key_callbacks.cmp_sym [OF cb that]] .
  moreover have "cmp k (key e) = 0" if "cmp k (key x) = 0" "cmp (key e) (key x) = 0"
    using key_callbacks.cmp_trans [OF cb that(1) key_callbacks.cmp_sym [OF cb that(2)]] .
  ultimately show "ht_lookup t' k = Some x \<longleftrightarrow> (if cmp k (key e) = 0 then Some e else ht_lookup t k) = Some x"
    using ht_ok_lookup [OF ok(1) cb, of k x] ht_ok_lookup [OF ok(2) cb, of k x] ht_okD(1,3) [OF ok(1)]
    by (auto simp: E without_def)
qed

lemma lookup_without:
  assumes ok: "ht_ok cmp hash key t" "ht_ok cmp hash key t'" and cb: "key_callbacks cmp hash"
    and E: "entries t' = without t (key e)"
  shows "ht_lookup t' = drop_map (\<lambda>k k'. cmp k k' = 0) key e (ht_lookup t)"
  unfolding drop_map_def
proof (intro ext option_eq_iff)
  fix k x
  have "cmp k (key x) = 0 \<Longrightarrow> cmp (key e) (key x) = 0" if "cmp k (key e) = 0"
    using key_callbacks.cmp_trans [OF cb key_callbacks.cmp_sym [OF cb that]] .
  moreover have "cmp k (key e) = 0" if "cmp k (key x) = 0" "cmp (key e) (key x) = 0"
    using key_callbacks.cmp_trans [OF cb that(1) key_callbacks.cmp_sym [OF cb that(2)]] .
  ultimately show "ht_lookup t' k = Some x \<longleftrightarrow> (if cmp k (key e) = 0 then None else ht_lookup t k) = Some x"
    using ht_ok_lookup [OF ok(1) cb, of k x] ht_ok_lookup [OF ok(2) cb, of k x] ht_okD(1,3) [OF ok(1)]
    by (auto simp: E without_def)
qed

lemma relink_ok:
  assumes ok: "ht_ok cmp hash key t" and cb: "key_callbacks cmp hash" and x: "ht_lookup t (key e) = Some x"
    and es: "es = [] \<or> es = [e]"
  defines "t1 \<equiv> linkPosition t (getPositionOfKey t (key e))
      (es @ drop (Suc (snd (getPositionOfKey t (key e)))) (iht_phtbBucket t ! fst (getPositionOfKey t (key e))))"
  defines "t' \<equiv> t1\<lparr>iht_u32NumOfEntry := (if es = [] then iht_u32NumOfEntry t - 1 else iht_u32NumOfEntry t)\<rparr>"
  shows "ht_ok cmp hash key t'" "entries t' = set es \<union> without t (key e)" "card (entries t') \<le> card (entries t)"
proof -
  note d = ht_okD [OF ok]
  have refl: "cmp (key e) (key e) = 0" by (rule key_callbacks.cmp_refl [OF cb])
  note r = relink_found [OF ok cb x, of es e, folded t1_def]
  have r1: "chains_ok t1" "entries t1 = set es \<union> without t (key e)" "without t (key e) = entries t - {x}" "x \<in> entries t"
    using r es refl by auto
  have t': "chains_ok t'" "entries t' = set es \<union> without t (key e)"
    using r1 chains_ok_cong [of t' t1] by (auto simp: t'_def)
  show "entries t' = set es \<union> without t (key e)" by (rule t'(2))
  have fin: "finite (entries t)" by (simp add: entries_def)
  have notin: "e \<notin> without t (key e)" using refl d(1,3) by (simp add: without_def)
  have "card (without t (key e)) = card (entries t) - 1" "0 < card (entries t)"
    using r1(3,4) fin by (auto simp: card_gt_0_iff)
  moreover have "finite (without t (key e))" using fin by (simp add: without_def)
  ultimately have card: "card (entries t') = (if es = [] then card (entries t) - 1 else card (entries t))"
    using es notin t'(2) by auto
  then show "card (entries t') \<le> card (entries t)" by simp
  have "keys_unique t (set es \<union> without t (key e))"
    using d(1,3,6) es key_callbacks.cmp_sym [OF cb] by (auto simp: keys_unique_def without_def)
  moreover have "(of_nat (card (entries t) - 1) :: u32) = of_nat (card (entries t)) - 1"
    using \<open>0 < card (entries t)\<close> by (simp add: of_nat_diff)
  ultimately show "ht_ok cmp hash key t'"
    using d t' card by (auto simp: ht_ok_def ht_shape_def keys_unique_def t'_def t1_def)
qed

lemma ht_put_law:
  assumes ok: "ht_ok cmp hash key t" and cb: "key_callbacks cmp hash" and room: "0 < ht_room t"
  shows "\<exists>r t'. ht_put ov a e t = Some (r, t') \<and> ht_ok cmp hash key t' \<and> ht_room t \<le> ht_room t' + 1 \<and>
    (fst a \<and> snd a \<longrightarrow> r) \<and>
    ht_lookup t' = (if r then put_map (\<lambda>k k'. cmp k k' = 0) key ov e (ht_lookup t) else ht_lookup t)"
proof (cases "ht_lookup t (key e)")
  case None
  note d = ht_okD [OF ok]
  have at: "atPosition t (getPositionOfKey t (key e)) = None" using None by (simp add: ht_lookup_def)
  have w: "without t (key e) = entries t"
    using None ht_lookup_None [of t "key e"] d cb by (auto simp: without_def)
  obtain r t' where res: "insertAtPosition a t (getPositionOfKey t (key e)) e = Some (r, t')"
    "inserted cmp hash key (entries t) (fst a \<and> snd a) e (r, t')"
    using insertAtPosition_ok [OF ok cb None, of a] room by (auto simp: ht_room_def)
  have put: "ht_put ov a e t = Some (r = JF_ERR_NO_ERROR, t')"
    using at res(1) d(3) by (simp add: ht_put_def jf_hashtable_overwriteEntry_def jf_hashtable_insertEntry_def Let_def)
  have ok': "ht_ok cmp hash key t'" using res(2) by (simp add: inserted_def)
  have fin: "finite (entries t)" by (simp add: entries_def)
  show ?thesis
  proof (cases "r = JF_ERR_NO_ERROR")
    case True
    then have E: "entries t' = insert e (entries t)" "e \<notin> entries t" using res(2) by (simp_all add: inserted_def)
    then have "ht_lookup t' = (\<lambda>k. if cmp k (key e) = 0 then Some e else ht_lookup t k)"
      using lookup_put [OF ok ok' cb] w by simp
    then show ?thesis using put True ok' E fin None by (auto simp: ht_room_def put_map_def intro!: exI [of _ True])
  next
    case False
    then have E: "entries t' = entries t" "\<not> (fst a \<and> snd a)" using res(2) by (simp_all add: inserted_def)
    then have "ht_lookup t' = ht_lookup t"
      by (intro ext option_eq_iff) (simp add: ht_ok_lookup [OF ok cb] ht_ok_lookup [OF ok' cb])
    then show ?thesis using put False ok' E by (auto simp: ht_room_def)
  qed
next
  case (Some x)
  note d = ht_okD [OF ok]
  have at: "atPosition t (getPositionOfKey t (key e)) = Some x" using Some by (simp add: ht_lookup_def)
  show ?thesis
  proof (cases ov)
    case True
    define t' where "t' = linkPosition t (getPositionOfKey t (key e))
      ([e] @ drop (Suc (snd (getPositionOfKey t (key e)))) (iht_phtbBucket t ! fst (getPositionOfKey t (key e))))"
    have "t'\<lparr>iht_u32NumOfEntry := iht_u32NumOfEntry t\<rparr> = t'" by (simp add: t'_def linkPosition_def)
    then have t': "ht_ok cmp hash key t'" "entries t' = insert e (without t (key e))" "card (entries t') \<le> card (entries t)"
      using relink_ok [OF ok cb Some, of "[e]", folded t'_def] by simp_all
    have "ht_put ov a e t = Some (True, t')"
      using True at d(3) by (simp add: ht_put_def jf_hashtable_overwriteEntry_def overwriteAtPosition_def t'_def Let_def)
    then show ?thesis using t' True lookup_put [OF ok t'(1) cb t'(2)] by (auto simp: ht_room_def put_map_def intro!: exI [of _ True])
  next
    case False
    then have "ht_put ov a e t = Some (True, t)"
      using at d(3) by (simp add: ht_put_def jf_hashtable_insertEntry_def)
    then show ?thesis using ok False Some by (auto simp: put_map_def intro!: exI [of _ True])
  qed
qed

lemma ht_drop_law:
  assumes ok: "ht_ok cmp hash key t" and cb: "key_callbacks cmp hash" and dr: "ht_drop e t = (r, t')"
  shows "ht_ok cmp hash key t' \<and> ht_room t \<le> ht_room t' \<and> r = (ht_lookup t (key e) \<noteq> None) \<and>
    ht_lookup t' = drop_map (\<lambda>k k'. cmp k k' = 0) key e (ht_lookup t)"
proof (cases "ht_lookup t (key e)")
  case None
  note d = ht_okD [OF ok]
  have "r = False" "t' = t"
    using dr None d(3) by (auto simp: ht_drop_def jf_hashtable_removeEntry_def ht_lookup_def Let_def)
  moreover have "without t (key e) = entries t"
    using None ht_lookup_None [of t "key e"] d cb by (auto simp: without_def)
  ultimately show ?thesis using ok None lookup_without [OF ok ok cb] by simp
next
  case (Some x)
  note d = ht_okD [OF ok] and rm = relink_ok [OF ok cb Some, of "[]"]
  have t': "r" "t' = (linkPosition t (getPositionOfKey t (key e))
      (drop (Suc (snd (getPositionOfKey t (key e)))) (iht_phtbBucket t ! fst (getPositionOfKey t (key e)))))
      \<lparr>iht_u32NumOfEntry := iht_u32NumOfEntry t - 1\<rparr>"
    using dr Some d(3) by (auto simp: ht_drop_def jf_hashtable_removeEntry_def ht_lookup_def Let_def)
  then have ok': "ht_ok cmp hash key t'" "entries t' = without t (key e)" "card (entries t') \<le> card (entries t)"
    using rm by simp_all
  then show ?thesis using t'(1) Some lookup_without [OF ok ok'(1) cb ok'(2)] by (auto simp: ht_room_def)
qed

locale table_callbacks = key_callbacks cmp hash
  for cmp :: "ptr \<Rightarrow> ptr \<Rightarrow> int" and hash :: "ptr \<Rightarrow> u32" +
  fixes key :: "ptr \<Rightarrow> ptr"

interpretation default_table: table_callbacks default_fnHtCmpKeys default_fnHtHashKey default_fnHtGetKeyFromEntry
  by unfold_locales

sublocale table_callbacks \<subseteq> table: dictionary "ht_ok cmp hash key" ht_lookup "\<lambda>k k'. cmp k k' = 0" key ht_put ht_drop
  ht_room "\<lambda>a. fst a \<and> snd a"
  by unfold_locales (use ht_put_law [OF _ key_callbacks_axioms] ht_drop_law [OF _ key_callbacks_axioms] in \<open>blast+\<close>)

context table_callbacks
begin

lemma table_run:
  "ht_ok cmp hash key t \<Longrightarrow> length ops \<le> ht_room t \<Longrightarrow>
    \<exists>rs t'. dict_run ht_put ht_drop ops t = Some (rs, t') \<and> ht_ok cmp hash key t' \<and>
      dict_spec (\<lambda>k k'. cmp k k' = 0) key (\<lambda>a. fst a \<and> snd a) (ht_lookup t) ops rs (ht_lookup t')"
  by (rule table.run_spec)

end

section \<open>Creation\<close>

lemma primeIndex_range: "primeIndex m ps i = Some j \<Longrightarrow> i \<le> j \<and> j < i + length ps \<and> m \<le> ps ! (j - i) \<and> (\<forall>k<j - i. ps ! k < m)"
proof (induction m ps i rule: primeIndex.induct)
  case (2 m p ps i)
  show ?case
  proof (cases "m > p")
    case True
    then have "primeIndex m ps (i + 1) = Some j" using 2 by simp
    note IH = 2(1) [OF True this]
    have "j - i = Suc (j - (i + 1))" using IH Suc_diff_Suc [of i j] by auto
    then show ?thesis using IH True by (auto simp: less_Suc_eq_0_disj)
  next
    case False
    then show ?thesis using 2 by simp
  qed
qed simp

lemma primeIndex_None: "primeIndex m ps i = None \<longleftrightarrow> (\<forall>p\<in>set ps. p < m)"
  by (induction m ps i rule: primeIndex.induct) auto

lemma create_ok:
  assumes "jf_hashtable_create alloc p = Some (Inr t)"
    and "jhcp_fnCmpKeys p = Some cmp" "jhcp_fnHashKey p = Some hash" "jhcp_fnGetKeyFromEntry p = Some key"
  shows "ht_ok cmp hash key t" "entries t = {}" "unat (jhcp_u32MinSize p) \<le> unat (iht_u32Size t)"
proof -
  obtain i where i: "primeIndex (unat (jhcp_u32MinSize p)) ls_nHashTablePrimes 0 = Some i"
    and t: "t = (setHashTableThreshold \<lparr>iht_u32NumOfEntry = 0, iht_u32Size = of_nat (ls_nHashTablePrimes ! i), iht_u32Threshold = 0,
        iht_u32Resizes = 0, iht_u32PrimesIndex = of_nat i, iht_phtbBucket = [], iht_fnCmpKeys = cmp, iht_fnHashKey = hash,
        iht_fnGetKeyFromEntry = key\<rparr>)\<lparr>iht_phtbBucket := replicate (unat (of_nat (ls_nHashTablePrimes ! i) :: u32)) []\<rparr>"
    using assms
    by (auto simp: jf_hashtable_create_def createHashTableArray_def setHashTableThreshold_def Let_def
        split: if_splits option.splits)
  have i38: "i < 38" "unat (jhcp_u32MinSize p) \<le> ls_nHashTablePrimes ! i" using primeIndex_range [OF i] by auto
  have size: "unat (iht_u32Size t) = ls_nHashTablePrimes ! i" "unat (iht_u32PrimesIndex t) = i"
    using i38(1) prime_range [OF i38(1)] by (simp_all add: t setHashTableThreshold_def unat_of_nat take_bit_nat_eq_self)
  then have "0 < iht_u32Size t" using prime_range [OF i38(1)] by (simp add: word_gt_0 unat_eq_0 flip: unat_gt_0)
  then have ok: "chains_ok t \<and> entries t = {}"
    by (intro chains_ok_new_array) (simp_all add: t setHashTableThreshold_def)
  then show "entries t = {}" by simp
  show "unat (jhcp_u32MinSize p) \<le> unat (iht_u32Size t)" using size i38 by simp
  show "ht_ok cmp hash key t"
    using ok size i38(1) unfolding ht_ok_def ht_shape_def
    by (simp add: keys_unique_def) (simp add: t setHashTableThreshold_def)
qed

lemma ran_lookup:
  assumes "ht_ok cmp hash key t" "key_callbacks cmp hash"
  shows "ran (ht_lookup t) = entries t"
  using ht_ok_lookup [OF assms] key_callbacks.cmp_refl [OF assms(2)] by (auto simp: ran_def)

section \<open>Iteration\<close>

text \<open>The iterator is at the entry with number \<open>j\<close> of all chains in order.\<close>

definition iterator_at :: "internal_hash_table \<Rightarrow> jf_hashtable_iterator \<Rightarrow> nat \<Rightarrow> bool" where
  "iterator_at t it j \<longleftrightarrow> (\<exists>h i. jhi_pCursor it = Some (h, i) \<and> jhi_nPos it = int h \<and> h < length (iht_phtbBucket t) \<and>
     i < length (iht_phtbBucket t ! h) \<and> j = length (concat (take h (iht_phtbBucket t))) + i)"

lemma concat_split: "h < length b \<Longrightarrow> concat b = concat (take h b) @ b ! h @ concat (drop (Suc h) b)"
  by (metis append.assoc concat.simps(2) concat_append id_take_nth_drop)

lemma nextChain_at:
  assumes "length (iht_phtbBucket t) = unat (iht_u32Size t)" "h \<le> length (iht_phtbBucket t)"
  defines "j \<equiv> length (concat (take h (iht_phtbBucket t)))" and "n \<equiv> length (concat (iht_phtbBucket t))"
  shows "if j < n then iterator_at t (nextChain t h) j else jf_hashtable_isEndOfIterator (nextChain t h)"
  using assms(2) unfolding j_def n_def
proof (induction "length (iht_phtbBucket t) - h" arbitrary: h)
  case 0
  then show ?case using assms(1) by (simp add: nextChain.simps jf_hashtable_isEndOfIterator_def)
next
  case (Suc k)
  then have h: "h < length (iht_phtbBucket t)" by simp
  show ?case
  proof (cases "iht_phtbBucket t ! h = []")
    case True
    have "nextChain t h = nextChain t (Suc h)"
      using True h assms(1) by (subst nextChain.simps) simp
    moreover have "concat (take (Suc h) (iht_phtbBucket t)) = concat (take h (iht_phtbBucket t))"
      using True h by (simp add: take_Suc_conv_app_nth)
    moreover have "k = length (iht_phtbBucket t) - Suc h" using Suc.hyps(2) by simp
    ultimately show ?thesis using Suc.hyps(1) [of "Suc h"] h by (metis Suc_leI)
  next
    case False
    then have "nextChain t h = \<lparr>jhi_nPos = int h, jhi_pCursor = Some (h, 0)\<rparr>"
      using h assms(1) by (subst nextChain.simps) simp
    moreover have "length (concat (take h (iht_phtbBucket t))) < length (concat (iht_phtbBucket t))"
      using False by (subst concat_split [OF h]) simp
    ultimately show ?thesis using h False by (simp add: iterator_at_def)
  qed
qed

lemma increment_at:
  assumes "length (iht_phtbBucket t) = unat (iht_u32Size t)" "iterator_at t it j"
  shows "if Suc j < length (concat (iht_phtbBucket t)) then iterator_at t (jf_hashtable_incrementIterator t it) (Suc j)
    else jf_hashtable_isEndOfIterator (jf_hashtable_incrementIterator t it)"
proof -
  obtain h i where it: "jhi_pCursor it = Some (h, i)" "jhi_nPos it = int h" "h < length (iht_phtbBucket t)"
    "i < length (iht_phtbBucket t ! h)" "j = length (concat (take h (iht_phtbBucket t))) + i"
    using assms(2) by (auto simp: iterator_at_def)
  show ?thesis
  proof (cases "Suc i < length (iht_phtbBucket t ! h)")
    case True
    have "length (concat (iht_phtbBucket t)) \<ge> length (concat (take h (iht_phtbBucket t))) + length (iht_phtbBucket t ! h)"
      by (subst concat_split [OF it(3)]) simp
    then show ?thesis using True it by (simp add: jf_hashtable_incrementIterator_def iterator_at_def)
  next
    case False
    then have len: "length (iht_phtbBucket t ! h) = Suc i" using it(4) by simp
    have "jf_hashtable_incrementIterator t it = nextChain t (Suc h)"
      using False it by (simp add: jf_hashtable_incrementIterator_def nat_add_distrib)
    moreover have "length (concat (take (Suc h) (iht_phtbBucket t))) = Suc j"
      using it(3,5) len by (simp add: take_Suc_conv_app_nth)
    ultimately show ?thesis using nextChain_at [OF assms(1), of "Suc h"] it(3) by (simp split: if_splits)
  qed
qed

lemma iterator_entry:
  assumes "iterator_at t it j"
  shows "\<not> jf_hashtable_isEndOfIterator it" "jf_hashtable_getEntryFromIterator t it = concat (iht_phtbBucket t) ! j"
proof -
  obtain h i where it: "jhi_pCursor it = Some (h, i)" "h < length (iht_phtbBucket t)"
    "i < length (iht_phtbBucket t ! h)" "j = length (concat (take h (iht_phtbBucket t))) + i"
    using assms by (auto simp: iterator_at_def)
  show "\<not> jf_hashtable_isEndOfIterator it" using it(1) by (simp add: jf_hashtable_isEndOfIterator_def)
  have "concat (iht_phtbBucket t) ! j = iht_phtbBucket t ! h ! i"
    using it(3,4) by (subst concat_split [OF it(2)]) (simp add: nth_append)
  then show "jf_hashtable_getEntryFromIterator t it = concat (iht_phtbBucket t) ! j"
    using it(1) by (simp add: jf_hashtable_getEntryFromIterator_def)
qed

lemma iterator_steps:
  assumes "length (iht_phtbBucket t) = unat (iht_u32Size t)" "j \<le> length (concat (iht_phtbBucket t))"
  shows "if j < length (concat (iht_phtbBucket t))
    then iterator_at t ((jf_hashtable_incrementIterator t ^^ j) (jf_hashtable_setupIterator t)) j
    else jf_hashtable_isEndOfIterator ((jf_hashtable_incrementIterator t ^^ j) (jf_hashtable_setupIterator t))"
  using assms(2)
proof (induction j)
  case 0
  show ?case using nextChain_at [OF assms(1), of 0]
    by (simp add: jf_hashtable_setupIterator_def jf_hashtable_incrementIterator_def split: if_splits)
next
  case (Suc j)
  let ?it = "(jf_hashtable_incrementIterator t ^^ j) (jf_hashtable_setupIterator t)"
  have "iterator_at t ?it j" using Suc by simp
  from increment_at [OF assms(1) this] show ?case by simp
qed

lemma stat_loop:
  "foldl countChain (c, m) cs =
    (c + sum_list (map (\<lambda>x. length x - 1) cs), fold max (map length cs) m)"
  by (induction cs arbitrary: c m) (auto simp: Let_def max_def)

section \<open>Hash functions\<close>

lemma hashU64_mult: "jf_hashtable_hashU64 val bits = drop_bit (64 - bits) (val * JF_HASHTABLE_GOLDEN_RATIO_PRIME_64)"
proof -
  have "val - push_bit 18 val - push_bit 33 (push_bit 18 val) + push_bit 3 (push_bit 33 (push_bit 18 val)) -
      push_bit 3 (push_bit 3 (push_bit 33 (push_bit 18 val))) +
      push_bit 4 (push_bit 3 (push_bit 3 (push_bit 33 (push_bit 18 val)))) +
      push_bit 2 (push_bit 4 (push_bit 3 (push_bit 3 (push_bit 33 (push_bit 18 val))))) =
      val * (1 - 2 ^ 18 - 2 ^ 51 + 2 ^ 54 - 2 ^ 57 + 2 ^ 61 + 2 ^ 63)"
    by (simp add: push_bit_eq_mult algebra_simps)
  moreover have "(1 - 2 ^ 18 - 2 ^ 51 + 2 ^ 54 - 2 ^ 57 + 2 ^ 61 + 2 ^ 63 :: u64) = JF_HASHTABLE_GOLDEN_RATIO_PRIME_64"
    by (simp add: JF_HASHTABLE_GOLDEN_RATIO_PRIME_64_def)
  ultimately show ?thesis by (simp only: jf_hashtable_hashU64_def Let_def)
qed

lemma bit_15: "bit (0xf :: u32) k \<longleftrightarrow> k < 4"
proof -
  have "(0xf :: u32) = mask 4" by (simp add: mask_eq_exp_minus_1)
  then show ?thesis by (simp only: bit_mask_iff) auto
qed

lemma bit_top_nibble: "bit (x AND push_bit HASHPJWSHIFT 0xf :: u32) k \<longleftrightarrow> bit x k \<and> 28 \<le> k"
proof -
  have "bit (push_bit HASHPJWSHIFT 0xf :: u32) k \<longleftrightarrow> 28 \<le> k \<and> k < 32"
    by (simp only: bit_push_bit_iff bit_15) (auto simp: HASHPJWSHIFT_def)
  then show ?thesis using bit_imp_le_length [of x k] by (auto simp: bit_and_iff)
qed

lemma hashPJW_nibble:
  fixes x :: u32
  assumes "28 \<le> n" "n < 32"
  defines "g \<equiv> x AND push_bit HASHPJWSHIFT 0xf"
  shows "bit ((x XOR signed_drop_bit HASHPJWSHIFT g) XOR g) n = bit x 31"
proof -
  have g: "bit g k \<longleftrightarrow> bit x k \<and> 28 \<le> k" for k by (simp only: g_def bit_top_nibble)
  have "bit (signed_drop_bit HASHPJWSHIFT g) n = bit g 31"
    using assms(1,2) by (simp add: bit_signed_drop_bit_iff HASHPJWSHIFT_def)
  then show ?thesis using assms(1) by (auto simp: bit_xor_iff g)
qed

definition nibble_ok :: "u32 \<Rightarrow> bool" where
  "nibble_ok h \<longleftrightarrow> (\<forall>n. 28 \<le> n \<and> n < 32 \<longrightarrow> bit h n = bit h 31)"

lemma hashPJW_loop_nibble: "nibble_ok h \<Longrightarrow> nibble_ok (hashPJW_loop h ps)"
proof (induction h ps rule: hashPJW_loop.induct)
  case (2 h p ps)
  define x where "x = push_bit 4 h + scast p"
  define g where "g = x AND push_bit HASHPJWSHIFT 0xf"
  have "nibble_ok (if g \<noteq> 0 then (x XOR signed_drop_bit HASHPJWSHIFT g) XOR g else x)"
  proof (cases "g = 0")
    case True
    have "\<not> bit x n" if "28 \<le> n" "n < 32" for n
    proof -
      have "bit g n = bit x n" using that by (simp only: g_def bit_top_nibble) simp
      then show ?thesis using True by simp
    qed
    then show ?thesis using True by (simp add: nibble_ok_def)
  next
    case False
    then show ?thesis using hashPJW_nibble [of _ x] by (simp add: nibble_ok_def g_def)
  qed
  then show ?case using 2(1) [OF x_def g_def refl]
    by (simp only: hashPJW_loop.simps Let_def x_def [symmetric] g_def [symmetric])
qed simp

lemma hashPJW_nonneg: "0 \<le> sint (jf_hashtable_hashPJW ps)"
proof -
  define h where "h = hashPJW_loop 0 ps"
  have "nibble_ok 0" by (simp add: nibble_ok_def)
  then have nib: "nibble_ok h" unfolding h_def by (rule hashPJW_loop_nibble)
  have "h \<noteq> 0x80000000"
  proof
    assume h: "h = 0x80000000"
    have "(0x80000000 :: u32) = 2 ^ 31" by simp
    then have "bit h 31" "\<not> bit h 30" using h by (simp_all only: bit_exp_iff) simp_all
    then show False using nib by (auto simp: nibble_ok_def)
  qed
  moreover have "sint (- h) = - sint h" if "h \<noteq> 0x80000000"
  proof -
    have "sint h \<noteq> - (2 ^ 31)"
    proof
      assume "sint h = - (2 ^ 31)"
      then have "sint h = sint (0x80000000 :: u32)" by simp
      then show False using that signed_word_eqI by blast
    qed
    moreover have "- (2 ^ 31) \<le> sint h" "sint h < 2 ^ 31" using sint_range_size [of h] by (simp_all add: word_size)
    ultimately show ?thesis by (simp add: sint_word_minus signed_take_bit_int_eq_self)
  qed
  ultimately show ?thesis by (auto simp: jf_hashtable_hashPJW_def h_def [symmetric] Let_def)
qed

section \<open>Properties\<close>


definition demo_hash_param :: jf_hashtable_create_param where
  "demo_hash_param = \<lparr>jhcp_u32MinSize = 0, jhcp_fnCmpKeys = Some default_fnHtCmpKeys, jhcp_fnHashKey = Some default_fnHtHashKey,
     jhcp_fnGetKeyFromEntry = Some default_fnHtGetKeyFromEntry\<rparr>"

definition demo_hash_table :: internal_hash_table where
  "demo_hash_table = \<lparr>iht_u32NumOfEntry = 0, iht_u32Size = 3, iht_u32Threshold = 3, iht_u32Resizes = 0, iht_u32PrimesIndex = 0,
     iht_phtbBucket = [[], [], []], iht_fnCmpKeys = default_fnHtCmpKeys, iht_fnHashKey = default_fnHtHashKey,
     iht_fnGetKeyFromEntry = default_fnHtGetKeyFromEntry\<rparr>"

lemma demo_hash_create: "jf_hashtable_create (True, True) demo_hash_param = Some (Inr demo_hash_table)"
proof -
  have "replicate 3 [] = [[], [], [] :: ptr list]" by (simp add: numeral_3_eq_3)
  then show ?thesis
    by (simp add: jf_hashtable_create_def demo_hash_param_def demo_hash_table_def ls_nHashTablePrimes_def Let_def
        setHashTableThreshold_def createHashTableArray_def)
qed

lemma demo_hash_ok: "ht_ok default_fnHtCmpKeys default_fnHtHashKey default_fnHtGetKeyFromEntry demo_hash_table"
  using create_ok(1) [OF demo_hash_create] by (simp add: demo_hash_param_def)


text \<open>
  (C39) An iterator visits every entry of the table exactly once and then ends: after \<open>j\<close> increments it stands on
  the entry with number \<open>j\<close> of the chains in order, as long as there is one, and the entries so visited are distinct
  and are the ones a lookup of their key finds. The statistics count every entry that is not the first of its chain as a
  collision.
\<close>

theorem hashtable_iteration:
  assumes "ht_ok cmp hash key t" and "key_callbacks cmp hash"
  defines "it \<equiv> \<lambda>j. (jf_hashtable_incrementIterator t ^^ j) (jf_hashtable_setupIterator t)"
    and "es \<equiv> concat (iht_phtbBucket t)"
  shows "(\<forall>j < length es. \<not> jf_hashtable_isEndOfIterator (it j) \<and> jf_hashtable_getEntryFromIterator t (it j) = es ! j) \<and>
    jf_hashtable_isEndOfIterator (it (length es)) \<and>
    distinct es \<and> set es = {e. jf_hashtable_getEntry t (key e) = Inr e} \<and>
    jhs_u32NumOfEntry (jf_hashtable_getStat t) =
      jhs_u32Collisions (jf_hashtable_getStat t) + of_nat (length (filter (\<lambda>c. c \<noteq> []) (iht_phtbBucket t)))"
proof -
  note d = ht_okD [OF assms(1)]
  have len: "length (iht_phtbBucket t) = unat (iht_u32Size t)" using d(5) by (simp add: chains_ok_def)
  have "jf_hashtable_getEntry t (key e) = Inr e \<longleftrightarrow> e \<in> entries t" for e
    using ht_ok_lookup [OF assms(1,2), of "key e" e] key_callbacks.cmp_refl [OF assms(2)]
    by (auto simp: jf_hashtable_getEntry_def ht_lookup_def split: option.splits)
  then have "set es = {e. jf_hashtable_getEntry t (key e) = Inr e}" by (auto simp: es_def entries_def)
  moreover have sum: "length (concat cs) = sum_list (map (\<lambda>x. length x - 1) cs) + length (filter (\<lambda>c. c \<noteq> []) cs)"
    for cs :: "ptr list list"
    by (induction cs) auto
  have "jhs_u32NumOfEntry (jf_hashtable_getStat t) =
      jhs_u32Collisions (jf_hashtable_getStat t) + of_nat (length (filter (\<lambda>c. c \<noteq> []) (iht_phtbBucket t)))"
    using d(7) sum [of "iht_phtbBucket t"]
    by (simp add: jf_hashtable_getStat_def stat_loop card_entries [OF d(5)] del: length_concat)
  moreover have "\<not> jf_hashtable_isEndOfIterator (it j) \<and> jf_hashtable_getEntryFromIterator t (it j) = es ! j" if "j < length es" for j
    using iterator_steps [OF len, of j] iterator_entry [of t "it j" j] that by (simp add: it_def es_def)
  moreover have "jf_hashtable_isEndOfIterator (it (length es))"
    using iterator_steps [OF len, of "length es"] by (simp add: it_def es_def)
  ultimately show ?thesis using distinct_concat [OF d(5)] by (simp add: es_def)
qed

definition demo_hash_two :: internal_hash_table where
  "demo_hash_two = demo_hash_table\<lparr>iht_u32NumOfEntry := 2, iht_phtbBucket := [[], [4, 7], []]\<rparr>"

lemma demo_hash_two_ok: "ht_ok default_fnHtCmpKeys default_fnHtHashKey default_fnHtGetKeyFromEntry demo_hash_two"
proof -
  have "chains_ok demo_hash_two"
    by (simp add: chains_ok_def demo_hash_two_def demo_hash_table_def All_less_Suc hashSlot_def
        default_fnHtHashKey_def default_fnHtGetKeyFromEntry_def)
  moreover have "ht_shape demo_hash_two"
    by (simp add: ht_shape_def demo_hash_two_def demo_hash_table_def ls_nHashTablePrimes_def)
  moreover have "entries demo_hash_two = {4, 7}"
    by (simp add: entries_def demo_hash_two_def)
  ultimately show ?thesis
    by (auto simp: ht_ok_def keys_unique_def demo_hash_two_def demo_hash_table_def default_fnHtCmpKeys_def
        default_fnHtGetKeyFromEntry_def split: if_splits)
qed

theorem hashtable_iteration_witness:
  "jf_hashtable_getEntryFromIterator demo_hash_two (jf_hashtable_incrementIterator demo_hash_two (jf_hashtable_setupIterator demo_hash_two)) = 7"
proof -
  have "concat (iht_phtbBucket demo_hash_two) = [4, 7]" by (simp add: demo_hash_two_def)
  then show ?thesis
    using hashtable_iteration [OF demo_hash_two_ok default_keys.key_callbacks_axioms, THEN conjunct1, THEN spec, of 1]
    by (simp del: concat.simps)
qed

text \<open>
  (C40) The shifts and additions of \<open>jf_hashtable_hashU64\<close> are the multiplication by the prime of its comment, and both
  integer hash functions give numbers of the bits asked for; the string hash function gives a number that is not
  negative although it computes with signed integers.
\<close>

theorem hash_functions:
  assumes "0 < bits" and "bits \<le> 32"
  shows "jf_hashtable_hashU64 v (32 + bits) = drop_bit (32 - bits) (v * JF_HASHTABLE_GOLDEN_RATIO_PRIME_64) \<and>
    unat (jf_hashtable_hashU64 v bits) < 2 ^ bits \<and> unat (jf_hashtable_hashU32 (ucast v) bits) < 2 ^ bits \<and>
    jf_hashtable_hashPtr v bits = drop_bit (64 - bits) (v * JF_HASHTABLE_GOLDEN_RATIO_PRIME_64) \<and>
    0 \<le> sint (jf_hashtable_hashPJW ps)"
proof -
  have "unat (drop_bit (64 - bits) w) < 2 ^ bits" for w :: u64
  proof -
    have "unat w < 2 ^ bits * 2 ^ (64 - bits)" using unsigned_less [of w, where ?'a = nat] assms(2) by (simp flip: power_add)
    then show ?thesis by (simp only: unat_drop_bit_eq) (simp add: drop_bit_eq_div less_mult_imp_div_less)
  qed
  moreover have "unat (drop_bit (32 - bits) w) < 2 ^ bits" for w :: u32
  proof -
    have "unat w < 2 ^ bits * 2 ^ (32 - bits)" using unsigned_less [of w, where ?'a = nat] assms(2) by (simp flip: power_add)
    then show ?thesis by (simp only: unat_drop_bit_eq) (simp add: drop_bit_eq_div less_mult_imp_div_less)
  qed
  ultimately show ?thesis
    using hashPJW_nonneg [of ps] by (simp add: hashU64_mult jf_hashtable_hashPtr_def jf_hashtable_hashU32_def)
qed

theorem hash_functions_witness:
  "unat (jf_hashtable_hashU64 12345 10) < 2 ^ 10 \<and> 0 \<le> sint (jf_hashtable_hashPJW [104, 195, 169])"
  using hash_functions [of 10 12345 "[104, 195, 169]"] by simp

end
