(* ===== verification/Jf_Buddy.thy ===== *)
theory Jf_Buddy
  imports Jf_Bitop
begin

text \<open>
  The page allocator of jiukun, \<^verbatim>\<open>src/jiukun/buddy.c\<close> and \<^verbatim>\<open>src/jiukun/buddy.h\<close>.

  A zone holds \<open>2 ^ (MaxOrder - 1)\<close> pages. A page is identified by its index in the page array of
  its zone; its state is the flag word \<^verbatim>\<open>jp_jfPage\<close>. The intrusive free lists are sequences of
  page indices: by the theory of \<^verbatim>\<open>jf_listhead.h\<close> an add prepends and a delete removes the node
  from the list it is in. The memory of the zones comes from \<^verbatim>\<open>jf_mem_alloc\<close>, whose outcomes are
  arguments of the operations that call it, as is the effect of reaping the slab caches. Counters
  keep their width; orders and page indices, which the code bounds by 15 and \<open>2 ^ 14\<close>, are naturals.
  \<open>None\<close> as the result of an operation is a failed assertion, an abort, or an access outside an
  array or through a null pointer.
\<close>

section \<open>Page flags\<close>

definition JP_FLAG_ALLOCATED :: nat where "JP_FLAG_ALLOCATED = 0"
definition JP_FLAG_SLAB :: nat where "JP_FLAG_SLAB = 1"

definition setJpAllocated :: "u64 \<Rightarrow> u64" where
  "setJpAllocated flag = JF_FLAG_SET flag JP_FLAG_ALLOCATED"

definition clearJpAllocated :: "u64 \<Rightarrow> u64" where
  "clearJpAllocated flag = JF_FLAG_CLEAR flag JP_FLAG_ALLOCATED"

definition isJpAllocated :: "u64 \<Rightarrow> bool" where
  "isJpAllocated flag \<longleftrightarrow> JF_FLAG_GET flag JP_FLAG_ALLOCATED \<noteq> 0"

definition setJpSlab :: "u64 \<Rightarrow> u64" where
  "setJpSlab flag = JF_FLAG_SET flag JP_FLAG_SLAB"

definition clearJpSlab :: "u64 \<Rightarrow> u64" where
  "clearJpSlab flag = JF_FLAG_CLEAR flag JP_FLAG_SLAB"

definition isJpSlab :: "u64 \<Rightarrow> bool" where
  "isJpSlab flag \<longleftrightarrow> JF_FLAG_GET flag JP_FLAG_SLAB \<noteq> 0"

definition setJpOrder :: "u64 \<Rightarrow> nat \<Rightarrow> u64" where
  "setJpOrder flag order = JF_FLAG_SET_VALUE flag 55 48 (of_nat order)"

definition getJpOrder :: "u64 \<Rightarrow> nat" where
  "getJpOrder flag = unat (JF_FLAG_GET_VALUE flag 55 48)"

definition setJpZoneId :: "u64 \<Rightarrow> nat \<Rightarrow> u64" where
  "setJpZoneId flag zoneid = JF_FLAG_SET_VALUE flag 63 56 (of_nat zoneid)"

definition getJpZoneId :: "u64 \<Rightarrow> nat" where
  "getJpZoneId flag = unat (JF_FLAG_GET_VALUE flag 63 56)"

section \<open>State\<close>

definition JF_JIUKUN_PAGE_SHIFT :: nat where "JF_JIUKUN_PAGE_SHIFT = 12"
definition BUDDY_PAGE_SIZE :: nat where "BUDDY_PAGE_SIZE = push_bit JF_JIUKUN_PAGE_SHIFT 1"
definition JF_JIUKUN_MAX_PAGE_ORDER :: nat where "JF_JIUKUN_MAX_PAGE_ORDER = 14"
definition MAX_BUDDY_ZONES :: nat where "MAX_BUDDY_ZONES = 20"

definition sizeToPages :: "nat \<Rightarrow> nat" where
  "sizeToPages sz = (sz + BUDDY_PAGE_SIZE - 1) div BUDDY_PAGE_SIZE"

record free_area =
  fa_jlFree :: "nat list"
  fa_u32Free :: u32

record buddy_zone =
  bz_u32FreePages :: u32
  bz_faFreeArea :: "free_area list"
  bz_u32MaxOrder :: nat
  bz_u32NumOfPage :: nat
  bz_papPage :: "u64 list"
  bz_pu8Pool :: nat
  bz_pu8PoolEnd :: nat

record internal_jiukun_buddy =
  ijb_bInitialized :: bool
  ijb_bNoGrow :: bool
  ijb_u32MaxOrder :: nat
  ijb_u32NumOfZone :: nat
  ijb_pbzZone :: "buddy_zone option list"

text \<open>Updates of one free area and of one page of a zone.\<close>

definition updArea :: "nat \<Rightarrow> (free_area \<Rightarrow> free_area) \<Rightarrow> buddy_zone \<Rightarrow> buddy_zone" where
  "updArea k f zone = zone\<lparr>bz_faFreeArea := (bz_faFreeArea zone)[k := f (bz_faFreeArea zone ! k)]\<rparr>"

definition updPage :: "nat \<Rightarrow> (u64 \<Rightarrow> u64) \<Rightarrow> buddy_zone \<Rightarrow> buddy_zone" where
  "updPage i f zone = zone\<lparr>bz_papPage := (bz_papPage zone)[i := f (bz_papPage zone ! i)]\<rparr>"

definition listAddPage :: "nat \<Rightarrow> nat \<Rightarrow> buddy_zone \<Rightarrow> buddy_zone" where
  "listAddPage k i zone = updArea k (\<lambda>a. a\<lparr>fa_jlFree := i # fa_jlFree a\<rparr>) zone"

definition listDelPage :: "nat \<Rightarrow> buddy_zone \<Rightarrow> buddy_zone" where
  "listDelPage i zone =
     zone\<lparr>bz_faFreeArea := map (\<lambda>a. a\<lparr>fa_jlFree := remove1 i (fa_jlFree a)\<rparr>) (bz_faFreeArea zone)\<rparr>"

definition setPageOrder :: "nat \<Rightarrow> nat \<Rightarrow> buddy_zone \<Rightarrow> buddy_zone" where
  "setPageOrder page order zone = updPage page (\<lambda>f. setJpOrder f order) zone"

definition clearPageOrder :: "nat \<Rightarrow> buddy_zone \<Rightarrow> buddy_zone" where
  "clearPageOrder page zone = updPage page (\<lambda>f. setJpOrder f 0) zone"

definition getPageOrder :: "buddy_zone \<Rightarrow> nat \<Rightarrow> nat" where
  "getPageOrder zone page = getJpOrder (bz_papPage zone ! page)"

section \<open>Allocation and release in one zone\<close>

fun splitPageList :: "buddy_zone \<Rightarrow> nat \<Rightarrow> nat \<Rightarrow> nat \<Rightarrow> nat \<Rightarrow> nat \<times> buddy_zone" where
  "splitPageList zone page low high sz =
     (if high > low then
        let high = high - 1;
            sz = sz div 2;
            zone = listAddPage high (page + sz) zone;
            zone = updArea high (\<lambda>a. a\<lparr>fa_u32Free := fa_u32Free a + 1\<rparr>) zone;
            zone = setPageOrder (page + sz) high zone
        in splitPageList zone page low high sz
      else (page, zone))"

function rmqueue_loop :: "buddy_zone \<Rightarrow> nat \<Rightarrow> nat \<Rightarrow> nat option \<times> buddy_zone" where
  "rmqueue_loop zone order current_order =
     (if current_order < bz_u32MaxOrder zone then
        case fa_jlFree (bz_faFreeArea zone ! current_order) of
          [] \<Rightarrow> rmqueue_loop zone order (current_order + 1)
        | page # _ \<Rightarrow>
            let zone = listDelPage page zone;
                zone = clearPageOrder page zone;
                zone = updArea current_order (\<lambda>a. a\<lparr>fa_u32Free := fa_u32Free a - 1\<rparr>) zone;
                zone = zone\<lparr>bz_u32FreePages := bz_u32FreePages zone - push_bit order 1\<rparr>;
                (page, zone) = splitPageList zone page order current_order (push_bit current_order 1)
            in (Some page, zone)
      else (None, zone))"
  by pat_completeness auto
termination
  by (relation "measure (\<lambda>(zone, order, current_order). bz_u32MaxOrder zone - current_order)") auto

declare splitPageList.simps [simp del] rmqueue_loop.simps [simp del]

definition rmqueue :: "buddy_zone \<Rightarrow> nat \<Rightarrow> nat option \<times> buddy_zone" where
  "rmqueue zone order = rmqueue_loop zone order order"

definition getBuddyIndex :: "nat \<Rightarrow> nat \<Rightarrow> nat" where
  "getBuddyIndex page_idx order = page_idx XOR push_bit order 1"

definition findBuddyPage :: "nat \<Rightarrow> nat \<Rightarrow> nat \<Rightarrow> nat" where
  "findBuddyPage page page_idx order =
     (let buddy_idx = getBuddyIndex page_idx order
      in nat (int page + (int buddy_idx - int page_idx)))"

definition isBuddyPage :: "buddy_zone \<Rightarrow> nat \<Rightarrow> nat \<Rightarrow> bool" where
  "isBuddyPage zone page order \<longleftrightarrow>
     \<not> isJpAllocated (bz_papPage zone ! page) \<and> getPageOrder zone page = order"

function freeOnePage_loop :: "buddy_zone \<Rightarrow> nat \<Rightarrow> nat \<Rightarrow> nat \<Rightarrow> buddy_zone \<times> nat \<times> nat" where
  "freeOnePage_loop zone page page_idx order =
     (if order < bz_u32MaxOrder zone - 1 then
        let buddy_idx = getBuddyIndex page_idx order;
            buddy = findBuddyPage page page_idx order
        in if \<not> isBuddyPage zone buddy order then (zone, page, order)
           else
             let zone = listDelPage buddy zone;
                 zone = updArea order (\<lambda>a. a\<lparr>fa_u32Free := fa_u32Free a - 1\<rparr>) zone;
                 zone = clearPageOrder buddy zone;
                 page = (if buddy_idx > page_idx then page else buddy)
             in freeOnePage_loop zone page page (order + 1)
      else (zone, page, order))"
  by pat_completeness auto
termination
  by (relation "measure (\<lambda>(zone, page, page_idx, order). bz_u32MaxOrder zone - order)")
     (auto simp: clearPageOrder_def updPage_def updArea_def listDelPage_def)

declare freeOnePage_loop.simps [simp del]

definition freeOnePage :: "buddy_zone \<Rightarrow> nat \<Rightarrow> nat \<Rightarrow> buddy_zone" where
  "freeOnePage zone page order =
     (let order_size = push_bit order 1;
          zone = updPage page clearJpAllocated zone;
          page_idx = page AND (push_bit (bz_u32MaxOrder zone) 1 - 1);
          zone = zone\<lparr>bz_u32FreePages := bz_u32FreePages zone + order_size\<rparr>;
          (zone, page, order) = freeOnePage_loop zone page page_idx order;
          zone = setPageOrder page order zone;
          zone = listAddPage order page zone
      in updArea order (\<lambda>a. a\<lparr>fa_u32Free := fa_u32Free a + 1\<rparr>) zone)"

section \<open>Zones\<close>

definition initBuddyPage :: "u64 list \<Rightarrow> nat \<Rightarrow> u64 list" where
  "initBuddyPage papPage zoneId = map (\<lambda>f. setJpZoneId f zoneId) papPage"

text \<open>
  \<open>calloc_zone\<close>, \<open>calloc_pages\<close> and \<open>pool\<close> are the outcomes of the three allocations: whether
  memory was available and, for the pool, its address.
\<close>

record zone_memory =
  calloc_zone :: bool
  calloc_pages :: bool
  alloc_pool :: "nat option"

definition createBuddyZone :: "zone_memory \<Rightarrow> nat \<Rightarrow> nat \<Rightarrow> (jf_err + buddy_zone) option" where
  "createBuddyZone m maxOrder zoneId =
     (if \<not> calloc_zone m then Some (Inl JF_ERR_OUT_OF_MEMORY)
      else
        let numOfPage = push_bit (maxOrder - 1) 1
        in if \<not> calloc_pages m then Some (Inl JF_ERR_OUT_OF_MEMORY)
           else
             let papPage = initBuddyPage (replicate numOfPage 0) zoneId;
                 areas = replicate (JF_JIUKUN_MAX_PAGE_ORDER + 1) \<lparr>fa_jlFree = [], fa_u32Free = 0\<rparr>
             in if \<not> maxOrder - 1 < length areas then None
                else
                  let zone = \<lparr>bz_u32FreePages = of_nat numOfPage, bz_faFreeArea = areas,
                              bz_u32MaxOrder = maxOrder, bz_u32NumOfPage = numOfPage,
                              bz_papPage = papPage, bz_pu8Pool = 0, bz_pu8PoolEnd = 0\<rparr>;
                      zone = updArea (maxOrder - 1) (\<lambda>a. a\<lparr>fa_u32Free := 1\<rparr>) zone;
                      zone = setPageOrder 0 (maxOrder - 1) zone;
                      zone = listAddPage (maxOrder - 1) 0 zone
                  in case alloc_pool m of
                       None \<Rightarrow> Some (Inl JF_ERR_OUT_OF_MEMORY)
                     | Some pool \<Rightarrow>
                         Some (Inr (zone\<lparr>bz_pu8Pool := pool,
                                         bz_pu8PoolEnd := pool + numOfPage * BUDDY_PAGE_SIZE\<rparr>)))"

text \<open>
  \<^verbatim>\<open>_destroyBuddyZone\<close> releases the page array, the pool and the zone itself and clears the
  pointer; its assertion requires the pointer not to be null.
\<close>

definition destroyBuddyZone :: "buddy_zone option \<Rightarrow> buddy_zone option option" where
  "destroyBuddyZone pbz = (case pbz of None \<Rightarrow> None | Some _ \<Rightarrow> Some None)"

section \<open>The allocator\<close>

text \<open>The search for the zone that leaves the fewest free pages.\<close>

function findZone :: "buddy_zone option list \<Rightarrow> nat \<Rightarrow> u32 \<Rightarrow> nat \<Rightarrow> u32 \<Rightarrow> nat option \<Rightarrow> nat option option" where
  "findZone zones numOfZone u32Pages index left u32Id =
     (if index < numOfZone then
        case zones ! index of
          None \<Rightarrow> None
        | Some pbz \<Rightarrow>
            if bz_u32FreePages pbz \<ge> u32Pages \<and> left > bz_u32FreePages pbz - u32Pages
            then findZone zones numOfZone u32Pages (index + 1) (bz_u32FreePages pbz - u32Pages) (Some index)
            else findZone zones numOfZone u32Pages (index + 1) left u32Id
      else Some u32Id)"
  by pat_completeness auto
termination
  by (relation "measure (\<lambda>(zones, n, pgs, index, left, u32Id). n - index)") auto

declare findZone.simps [simp del]

text \<open>A page of the allocator is named by its zone and its index.\<close>

type_synonym page_ref = "nat \<times> nat"

definition rmqueueZone :: "internal_jiukun_buddy \<Rightarrow> nat \<Rightarrow> nat \<Rightarrow> (page_ref option \<times> internal_jiukun_buddy) option" where
  "rmqueueZone piab u32Id order =
     (case ijb_pbzZone piab ! u32Id of
        None \<Rightarrow> None
      | Some pbz \<Rightarrow>
          let (page, pbz) = rmqueue pbz order
          in Some (map_option (Pair u32Id) page, piab\<lparr>ijb_pbzZone := (ijb_pbzZone piab)[u32Id := Some pbz]\<rparr>))"

definition growZone ::
  "zone_memory \<Rightarrow> internal_jiukun_buddy \<Rightarrow> nat \<Rightarrow> (page_ref option \<times> internal_jiukun_buddy) option" where
  "growZone m piab order =
     (case createBuddyZone m (ijb_u32MaxOrder piab) (ijb_u32NumOfZone piab) of
        None \<Rightarrow> None
      | Some (Inl _) \<Rightarrow> Some (None, piab)
      | Some (Inr pbz) \<Rightarrow>
          let n = ijb_u32NumOfZone piab;
              piab = piab\<lparr>ijb_pbzZone := (ijb_pbzZone piab)[n := Some pbz], ijb_u32NumOfZone := n + 1\<rparr>
          in rmqueueZone piab n order)"

definition allocPages ::
  "zone_memory \<Rightarrow> internal_jiukun_buddy \<Rightarrow> nat \<Rightarrow> (page_ref option \<times> internal_jiukun_buddy) option" where
  "allocPages m piab order =
     (case findZone (ijb_pbzZone piab) (ijb_u32NumOfZone piab) (push_bit order 1) 0 (- 1) None of
        None \<Rightarrow> None
      | Some u32Id \<Rightarrow>
          (case (case u32Id of None \<Rightarrow> Some (None, piab) | Some i \<Rightarrow> rmqueueZone piab i order) of
             None \<Rightarrow> None
           | Some (Some page, piab) \<Rightarrow> Some (Some page, piab)
           | Some (None, piab) \<Rightarrow>
               if ijb_u32NumOfZone piab = MAX_BUDDY_ZONES \<or> ijb_bNoGrow piab then Some (None, piab)
               else growZone m piab order))"

definition JF_JIUKUN_PAGE_ALLOC_FLAG_WAIT :: nat where "JF_JIUKUN_PAGE_ALLOC_FLAG_WAIT = 0"

text \<open>
  The retry loop of \<^verbatim>\<open>getJiukunPage\<close>: \<open>mem n\<close> is the memory available to the \<open>n\<close>-th attempt and
  \<open>reap\<close> the effect of \<^verbatim>\<open>reapJiukun\<close> on the allocator. With the wait flag the loop ends only when a
  page is found: the outer \<open>None\<close> is a loop that never ends, the inner one a crash.
\<close>

partial_function (option) getPage_loop ::
  "(nat \<Rightarrow> zone_memory) \<Rightarrow> (internal_jiukun_buddy \<Rightarrow> internal_jiukun_buddy) \<Rightarrow> nat \<Rightarrow> u64 \<Rightarrow> nat \<Rightarrow>
   internal_jiukun_buddy \<Rightarrow> (page_ref option \<times> internal_jiukun_buddy) option option" where
  "getPage_loop mem reap order flag retrycount piab =
     (case allocPages (mem retrycount) piab order of
        None \<Rightarrow> Some None
      | Some (Some page, piab) \<Rightarrow> Some (Some (Some page, piab))
      | Some (None, piab) \<Rightarrow>
          (let piab = reap piab
           in if JF_FLAG_GET flag JF_JIUKUN_PAGE_ALLOC_FLAG_WAIT \<noteq> 0
              then getPage_loop mem reap order flag (retrycount + 1) piab
              else Some (Some (None, piab))))"

definition updZone :: "nat \<Rightarrow> (buddy_zone \<Rightarrow> buddy_zone) \<Rightarrow> internal_jiukun_buddy \<Rightarrow> internal_jiukun_buddy" where
  "updZone i f piab = piab\<lparr>ijb_pbzZone := (ijb_pbzZone piab)[i := map_option f (ijb_pbzZone piab ! i)]\<rparr>"

definition getJiukunPage ::
  "(nat \<Rightarrow> zone_memory) \<Rightarrow> (internal_jiukun_buddy \<Rightarrow> internal_jiukun_buddy) \<Rightarrow> internal_jiukun_buddy \<Rightarrow> nat \<Rightarrow> u64 \<Rightarrow>
   (jf_err \<times> page_ref option \<times> internal_jiukun_buddy) option option" where
  "getJiukunPage mem reap piab order flag =
     (if \<not> ijb_bInitialized piab then Some None
      else if order \<ge> ijb_u32MaxOrder piab
      then Some (Some (JF_ERR_INVALID_JIUKUN_PAGE_ORDER, None, piab))
      else case getPage_loop mem reap order flag 0 piab of
             None \<Rightarrow> None
           | Some None \<Rightarrow> Some None
           | Some (Some (None, piab)) \<Rightarrow> Some (Some (JF_ERR_JIUKUN_OUT_OF_MEMORY, None, piab))
           | Some (Some (Some (i, page), piab)) \<Rightarrow>
               let piab = updZone i (setPageOrder page order) piab;
                   piab = updZone i (updPage page setJpAllocated) piab
               in Some (Some (JF_ERR_NO_ERROR, Some (i, page), piab)))"

definition pageFlag :: "internal_jiukun_buddy \<Rightarrow> page_ref \<Rightarrow> u64 option" where
  "pageFlag piab pg = (case ijb_pbzZone piab ! fst pg of None \<Rightarrow> None | Some pbz \<Rightarrow> Some (bz_papPage pbz ! snd pg))"

definition putJiukunPage :: "internal_jiukun_buddy \<Rightarrow> page_ref \<Rightarrow> internal_jiukun_buddy option" where
  "putJiukunPage piab pg =
     (if \<not> ijb_bInitialized piab then None
      else case pageFlag piab pg of
             None \<Rightarrow> None
           | Some flag \<Rightarrow>
               let zoneId = getJpZoneId flag;
                   order = getJpOrder flag
               in if \<not> isJpAllocated flag \<or> zoneId \<noteq> fst pg then None
                  else Some (updZone zoneId (\<lambda>zone. freeOnePage zone (snd pg) order) piab))"

section \<open>Addresses\<close>

definition jiukunPageToAddr :: "internal_jiukun_buddy \<Rightarrow> page_ref \<Rightarrow> nat option" where
  "jiukunPageToAddr piab pg =
     (if \<not> ijb_bInitialized piab then None
      else case pageFlag piab pg of
             None \<Rightarrow> None
           | Some flag \<Rightarrow>
               (case ijb_pbzZone piab ! getJpZoneId flag of
                  None \<Rightarrow> None
                | Some pbz \<Rightarrow> Some (bz_pu8Pool pbz + snd pg * BUDDY_PAGE_SIZE)))"

function addrZone_loop :: "internal_jiukun_buddy \<Rightarrow> nat \<Rightarrow> nat \<Rightarrow> nat option option" where
  "addrZone_loop piab pAddr index =
     (if index < ijb_u32NumOfZone piab then
        case ijb_pbzZone piab ! index of
          None \<Rightarrow> None
        | Some pbz \<Rightarrow>
            if pAddr \<ge> bz_pu8Pool pbz \<and> pAddr < bz_pu8PoolEnd pbz then Some (Some index)
            else addrZone_loop piab pAddr (index + 1)
      else Some None)"
  by pat_completeness auto
termination
  by (relation "measure (\<lambda>(piab, pAddr, index). ijb_u32NumOfZone piab - index)") auto

declare addrZone_loop.simps [simp del]

definition addrToJiukunPage :: "internal_jiukun_buddy \<Rightarrow> nat \<Rightarrow> page_ref option" where
  "addrToJiukunPage piab pAddr =
     (if \<not> ijb_bInitialized piab then None
      else case addrZone_loop piab pAddr 0 of
             Some (Some index) \<Rightarrow>
               (case ijb_pbzZone piab ! index of
                  None \<Rightarrow> None
                | Some pbz \<Rightarrow> Some (index, (pAddr - bz_pu8Pool pbz) div BUDDY_PAGE_SIZE))
           | _ \<Rightarrow> None)"

definition jf_jiukun_allocPage ::
  "(nat \<Rightarrow> zone_memory) \<Rightarrow> (internal_jiukun_buddy \<Rightarrow> internal_jiukun_buddy) \<Rightarrow> internal_jiukun_buddy \<Rightarrow> nat \<Rightarrow> u64 \<Rightarrow>
   (jf_err \<times> nat option \<times> internal_jiukun_buddy) option option" where
  "jf_jiukun_allocPage mem reap piab order flag =
     (case getJiukunPage mem reap piab order flag of
        None \<Rightarrow> None
      | Some None \<Rightarrow> Some None
      | Some (Some (ret, None, piab)) \<Rightarrow> Some (Some (ret, None, piab))
      | Some (Some (ret, Some pg, piab)) \<Rightarrow>
          (case jiukunPageToAddr piab pg of
             None \<Rightarrow> Some None
           | Some pAddr \<Rightarrow> Some (Some (ret, Some pAddr, piab))))"

definition jf_jiukun_freePage :: "internal_jiukun_buddy \<Rightarrow> nat \<Rightarrow> internal_jiukun_buddy option" where
  "jf_jiukun_freePage piab pAddr =
     (if \<not> ijb_bInitialized piab then None
      else case addrToJiukunPage piab pAddr of
             None \<Rightarrow> None
           | Some pg \<Rightarrow> putJiukunPage piab pg)"

section \<open>Start and end\<close>

fun destroyZones :: "nat \<Rightarrow> internal_jiukun_buddy \<Rightarrow> internal_jiukun_buddy option" where
  "destroyZones 0 piab = Some piab"
| "destroyZones (Suc n) piab =
     (case destroyZones n piab of
        None \<Rightarrow> None
      | Some piab \<Rightarrow>
          (case destroyBuddyZone (ijb_pbzZone piab ! n) of
             None \<Rightarrow> None
           | Some pbz \<Rightarrow> Some (piab\<lparr>ijb_pbzZone := (ijb_pbzZone piab)[n := pbz]\<rparr>)))"

definition finiJiukunBuddy :: "internal_jiukun_buddy \<Rightarrow> internal_jiukun_buddy option" where
  "finiJiukunBuddy piab =
     (case destroyZones (ijb_u32NumOfZone piab) piab of
        None \<Rightarrow> None
      | Some piab \<Rightarrow> Some (piab\<lparr>ijb_bInitialized := False\<rparr>))"

text \<open>\<open>mutex_ok\<close> is the outcome of \<^verbatim>\<open>jf_mutex_init\<close>, \<open>maxOrder\<close> and \<open>noGrow\<close> are the parameter block.\<close>

definition initJiukunBuddy ::
  "zone_memory \<Rightarrow> jf_err \<Rightarrow> nat \<Rightarrow> bool \<Rightarrow> internal_jiukun_buddy \<Rightarrow> (jf_err \<times> internal_jiukun_buddy) option" where
  "initJiukunBuddy m mutex_ret maxOrder noGrow piab =
     (if \<not> (maxOrder \<le> JF_JIUKUN_MAX_PAGE_ORDER + 1 \<and> maxOrder > 0) \<or> ijb_bInitialized piab then None
      else
        let piab = piab\<lparr>ijb_u32MaxOrder := maxOrder + 1, ijb_bNoGrow := noGrow\<rparr>
        in case createBuddyZone m (ijb_u32MaxOrder piab) 0 of
             None \<Rightarrow> None
           | Some (Inl e) \<Rightarrow> map_option (Pair e) (finiJiukunBuddy piab)
           | Some (Inr pbz) \<Rightarrow>
               let piab = piab\<lparr>ijb_pbzZone := (ijb_pbzZone piab)[0 := Some pbz],
                               ijb_u32NumOfZone := ijb_u32NumOfZone piab + 1\<rparr>
               in if mutex_ret = JF_ERR_NO_ERROR
                  then Some (JF_ERR_NO_ERROR, piab\<lparr>ijb_bInitialized := True\<rparr>)
                  else map_option (Pair mutex_ret) (finiJiukunBuddy piab))"

text \<open>The static object \<^verbatim>\<open>ls_ijbBuddy\<close> before the first initialisation.\<close>

definition ls_ijbBuddy :: internal_jiukun_buddy where
  "ls_ijbBuddy = \<lparr>ijb_bInitialized = False, ijb_bNoGrow = False, ijb_u32MaxOrder = 0,
     ijb_u32NumOfZone = 0, ijb_pbzZone = replicate MAX_BUDDY_ZONES None\<rparr>"

text \<open>
  \<^verbatim>\<open>jf_jiukun_init\<close> of \<^verbatim>\<open>src/jiukun/jiukun.c\<close> chooses the order of the pool from its size.
\<close>

definition ls_u32OrderPrimes :: "nat list" where
  "ls_u32OrderPrimes =
     [1, 3, 7, 15, 31,
      63, 127, 255, 511, 1023,
      2047, 4095, 8191, 16383, 32767,
      65535, 131071, 262143, 524287, 1048575,
      2097151, 4194303, 4194303, 16777215, 33554431,
      67108863, 134217727, 268435455, 536870911, 1073741823,
      2147483647, 4294967295]"

function maxOrder_loop :: "nat \<Rightarrow> nat \<Rightarrow> nat option" where
  "maxOrder_loop u32NumOfPages u8MaxOrder =
     (if u8MaxOrder < length ls_u32OrderPrimes then
        if u32NumOfPages > ls_u32OrderPrimes ! u8MaxOrder
        then maxOrder_loop u32NumOfPages (u8MaxOrder + 1)
        else Some u8MaxOrder
      else None)"
  by pat_completeness auto
termination
  by (relation "measure (\<lambda>(n, k). length ls_u32OrderPrimes - k)") auto

declare maxOrder_loop.simps [simp del]

definition MIN_JIUKUN_POOL_SIZE :: nat where "MIN_JIUKUN_POOL_SIZE = push_bit 20 1"
definition JF_JIUKUN_MAX_POOL_SIZE :: nat where
  "JF_JIUKUN_MAX_POOL_SIZE = push_bit JF_JIUKUN_MAX_PAGE_ORDER 1 * BUDDY_PAGE_SIZE"

end
