(* ===== verification/Jf_Slab.thy ===== *)
theory Jf_Slab
  imports Jf_Buddy Jf_Clib
begin

text \<open>
  The object caches of jiukun, \<^verbatim>\<open>src/jiukun/slab.c\<close>, as built by default, that is without \<^verbatim>\<open>DEBUG_JIUKUN\<close>. A cache hands out objects of one
  size from slabs; a slab is a block of pages with a structure \<^verbatim>\<open>slab_t\<close> that links the free objects by their numbers.
  That structure lies at the start of the block or, when the objects are large, in an object of another
  cache. What slab.c keeps in the page structures (the cache and the slab of a page) is a map of the state.
  The page allocator is reached through the three operations of the record \<open>page_ops\<close>: one attempt to get a block, the release of a
  block, and the page of an address. Numbers are naturals: the invariant
  of \<open>Jf_Slab_Inv\<close> bounds them far below 32 bits. The contents of objects are not modelled. \<open>None\<close> is a crash or a loop that does not end.
  Each operation holds the lock of its cache; there is one thread of control, and the mutexes are left out, but for the outcome of their
  creation and for the one that the reaper would take twice.
\<close>

section \<open>Data\<close>

type_synonym addr = nat

definition MAX_JP_ORDER :: nat where "MAX_JP_ORDER = 11"
definition BUFCTL_END :: nat where "BUFCTL_END = 2 ^ 32 - 1"
definition SLAB_LIMIT :: nat where "SLAB_LIMIT = 2 ^ 32 - 3"
definition SLAB_ALIGN_SIZE :: nat where "SLAB_ALIGN_SIZE = 8"
definition sizeof_slab :: nat where "sizeof_slab = 32"
definition sizeof_slab_bufctl :: nat where "sizeof_slab_bufctl = 4"
definition OLSIZE_MAX :: int where "OLSIZE_MAX = 2 ^ 31 - 1"

definition ALIGN_CEIL :: "nat \<Rightarrow> nat \<Rightarrow> nat" where
  "ALIGN_CEIL x a = (x + a - 1) div a * a"

definition JF_JIUKUN_CACHE_CREATE_FLAG_NOREAP :: nat where "JF_JIUKUN_CACHE_CREATE_FLAG_NOREAP = 1"
definition JF_JIUKUN_CACHE_CREATE_FLAG_WAIT :: nat where "JF_JIUKUN_CACHE_CREATE_FLAG_WAIT = 5"
definition SC_FLAG_OFF_SLAB :: nat where "SC_FLAG_OFF_SLAB = 32"
definition SC_FLAG_GROWN :: nat where "SC_FLAG_GROWN = 33"
definition SC_FLAG_DESTROY :: nat where "SC_FLAG_DESTROY = 34"
definition SC_FLAG_LOCKED :: nat where "SC_FLAG_LOCKED = 36"

record slab =
  s_pMem :: addr
  s_u32InUse :: nat
  s_sbFree :: nat
  s_bufctl :: "nat list"

text \<open>The cache of the cache descriptors is a variable of the module; every other cache is at the address of its descriptor.\<close>

datatype cache_id = Cache_cache | Cache addr

record slab_cache =
  sc_u32ObjSize :: nat
  sc_u32RealObjSize :: nat
  sc_jfCache :: u64
  sc_u32Num :: nat
  sc_jlFull :: "addr list"
  sc_jlPartial :: "addr list"
  sc_jlFree :: "addr list"
  sc_u32Order :: nat
  sc_jfPage :: u64
  sc_pscSlab :: "cache_id option"
  sc_strName :: string

record 'b internal_jiukun_slab =
  ijs_bInitialized :: bool
  ijs_scCache :: "cache_id \<Rightarrow> slab_cache option"
  ijs_slab :: "addr \<Rightarrow> slab option"
  ijs_page :: "page_ref \<Rightarrow> (cache_id \<times> addr) option"
  ijs_u32OffSlabLimit :: nat
  ijs_gcGeneral :: "(int \<times> cache_id option) list"
  ijs_jlNext :: "cache_id list"
  ijs_buddy :: 'b

record 'b page_ops =
  po_alloc :: "'b \<Rightarrow> nat \<Rightarrow> (jf_err \<times> addr option \<times> 'b) option"
  po_free :: "'b \<Rightarrow> addr \<Rightarrow> 'b option"
  po_page :: "'b \<Rightarrow> addr \<Rightarrow> page_ref option"

definition OFF_SLAB :: "slab_cache \<Rightarrow> bool" where
  "OFF_SLAB c \<longleftrightarrow> JF_FLAG_GET (sc_jfCache c) SC_FLAG_OFF_SLAB \<noteq> 0"

definition updCache :: "cache_id \<Rightarrow> (slab_cache \<Rightarrow> slab_cache) \<Rightarrow> 'b internal_jiukun_slab \<Rightarrow> 'b internal_jiukun_slab" where
  "updCache c f s = s\<lparr>ijs_scCache := (ijs_scCache s)(c := map_option f (ijs_scCache s c))\<rparr>"

definition updSlab :: "addr \<Rightarrow> (slab \<Rightarrow> slab) \<Rightarrow> 'b internal_jiukun_slab \<Rightarrow> 'b internal_jiukun_slab" where
  "updSlab a f s = s\<lparr>ijs_slab := (ijs_slab s)(a := map_option f (ijs_slab s a))\<rparr>"

text \<open>Removing the node of a slab from the list it is in.\<close>

definition delSlab :: "addr \<Rightarrow> slab_cache \<Rightarrow> slab_cache" where
  "delSlab a c = c\<lparr>sc_jlFull := remove1 a (sc_jlFull c), sc_jlPartial := remove1 a (sc_jlPartial c), sc_jlFree := remove1 a (sc_jlFree c)\<rparr>"

section \<open>Pages and slabs\<close>

partial_function (option) estimate_loop :: "nat \<Rightarrow> nat \<Rightarrow> nat \<Rightarrow> nat \<Rightarrow> nat \<Rightarrow> nat option" where
  "estimate_loop sz extra base wastage i =
     (if i * sz + ALIGN_CEIL (base + i * extra) SLAB_ALIGN_SIZE \<le> wastage
      then estimate_loop sz extra base wastage (i + 1) else Some i)"

text \<open>The number of objects of a slab and the bytes left over.\<close>

definition slabCacheEstimate :: "nat \<Rightarrow> nat \<Rightarrow> u64 \<Rightarrow> (nat \<times> nat) option" where
  "slabCacheEstimate jporder sz flag =
     (let wastage = push_bit jporder BUDDY_PAGE_SIZE;
          off = JF_FLAG_GET flag SC_FLAG_OFF_SLAB \<noteq> 0;
          base = (if off then 0 else sizeof_slab);
          extra = (if off then 0 else sizeof_slab_bufctl)
      in case estimate_loop sz extra base wastage 0 of
           None \<Rightarrow> None
         | Some i \<Rightarrow>
             (let i = (if i > 0 then i - 1 else i);
                  i = (if i > SLAB_LIMIT then SLAB_LIMIT else i)
              in Some (wastage - i * sz - ALIGN_CEIL (base + i * extra) SLAB_ALIGN_SIZE, i)))"

text \<open>The marks of \<open>n\<close> pages from a page on.\<close>

definition markPages :: "page_ref \<Rightarrow> nat \<Rightarrow> (cache_id \<times> addr) option \<Rightarrow> 'b internal_jiukun_slab \<Rightarrow> 'b internal_jiukun_slab" where
  "markPages page n m s =
     s\<lparr>ijs_page := (\<lambda>p. if fst p = fst page \<and> snd page \<le> snd p \<and> snd p < snd page + n then m else ijs_page s p)\<rparr>"

definition freePages :: "'b page_ops \<Rightarrow> 'b internal_jiukun_slab \<Rightarrow> slab_cache \<Rightarrow> addr \<Rightarrow> 'b internal_jiukun_slab option" where
  "freePages ops s c a =
     (case po_page ops (ijs_buddy s) a of
        None \<Rightarrow> None
      | Some page \<Rightarrow>
          (let s = markPages page (push_bit (sc_u32Order c) 1) None s
           in map_option (\<lambda>b. s\<lparr>ijs_buddy := b\<rparr>) (po_free ops (ijs_buddy s) a)))"

definition allocOneObjFromTail :: "'b internal_jiukun_slab \<Rightarrow> cache_id \<Rightarrow> addr \<Rightarrow> (addr \<times> 'b internal_jiukun_slab) option" where
  "allocOneObjFromTail s c slabp =
     (case (ijs_scCache s c, ijs_slab s slabp) of
        (Some pCache, Some sl) \<Rightarrow>
          (if s_sbFree sl < length (s_bufctl sl) then
             (let objp = s_pMem sl + s_sbFree sl * sc_u32ObjSize pCache;
                  next = s_bufctl sl ! s_sbFree sl;
                  s = updSlab slabp (\<lambda>sl. sl\<lparr>s_u32InUse := (s_u32InUse sl + 1) mod 2 ^ 32, s_sbFree := next\<rparr>) s
              in Some (objp,
                   if next = BUFCTL_END
                   then updCache c (\<lambda>ca. (delSlab slabp ca)\<lparr>sc_jlFull := slabp # sc_jlFull (delSlab slabp ca)\<rparr>) s else s))
           else None)
      | _ \<Rightarrow> None)"

definition lockSlabCache :: "cache_id \<Rightarrow> 'b internal_jiukun_slab \<Rightarrow> 'b internal_jiukun_slab" where
  "lockSlabCache c s = updCache c (\<lambda>ca. ca\<lparr>sc_jfCache := JF_FLAG_SET (sc_jfCache ca) SC_FLAG_LOCKED\<rparr>) s"

definition unlockSlabCache :: "cache_id \<Rightarrow> 'b internal_jiukun_slab \<Rightarrow> 'b internal_jiukun_slab" where
  "unlockSlabCache c s = updCache c (\<lambda>ca. ca\<lparr>sc_jfCache := JF_FLAG_CLEAR (sc_jfCache ca) SC_FLAG_LOCKED\<rparr>) s"

section \<open>Release of an object\<close>

definition freeOneObj :: "'b page_ops \<Rightarrow> 'b internal_jiukun_slab \<Rightarrow> cache_id \<Rightarrow> addr \<Rightarrow> 'b internal_jiukun_slab option" where
  "freeOneObj ops s c objp =
     (case (ijs_scCache s c, po_page ops (ijs_buddy s) objp) of
        (Some pCache, Some page) \<Rightarrow>
          (case ijs_page s page of
             None \<Rightarrow> None
           | Some (_, slabp) \<Rightarrow>
               (case ijs_slab s slabp of
                  None \<Rightarrow> None
                | Some sl \<Rightarrow>
                    (let objnr = (objp - s_pMem sl) div sc_u32ObjSize pCache
                     in if objp < s_pMem sl \<or> length (s_bufctl sl) \<le> objnr then None
                        else
                          (let sl' = sl\<lparr>s_bufctl := (s_bufctl sl)[objnr := s_sbFree sl], s_sbFree := objnr,
                                 s_u32InUse := (s_u32InUse sl + (2 ^ 32 - 1)) mod 2 ^ 32\<rparr>;
                               s = updSlab slabp (\<lambda>_. sl') s
                           in Some
                             (if s_u32InUse sl' = 0 then
                                updCache c (\<lambda>ca. (delSlab slabp ca)\<lparr>sc_jlFree := slabp # sc_jlFree (delSlab slabp ca)\<rparr>) s
                              else if s_u32InUse sl = sc_u32Num pCache then
                                updCache c (\<lambda>ca. (delSlab slabp ca)\<lparr>sc_jlPartial := slabp # sc_jlPartial (delSlab slabp ca)\<rparr>) s
                              else s)))))
      | _ \<Rightarrow> None)"

definition freeObj :: "'b page_ops \<Rightarrow> 'b internal_jiukun_slab \<Rightarrow> cache_id \<Rightarrow> addr \<Rightarrow> 'b internal_jiukun_slab option" where
  "freeObj ops s c objp =
     (case ijs_scCache s c of
        None \<Rightarrow> None
      | Some pCache \<Rightarrow>
          (if JF_FLAG_GET (sc_jfCache pCache) SC_FLAG_DESTROY \<noteq> 0 then None
           else map_option (unlockSlabCache c) (freeOneObj ops (lockSlabCache c s) c objp)))"

section \<open>Destruction of slabs and caches\<close>

text \<open>The management structure is gone with the memory it lies in.\<close>

definition destroySlab :: "'b page_ops \<Rightarrow> 'b internal_jiukun_slab \<Rightarrow> cache_id \<Rightarrow> addr \<Rightarrow> 'b internal_jiukun_slab option" where
  "destroySlab ops s c slabp =
     (case (ijs_scCache s c, ijs_slab s slabp) of
        (Some pCache, Some sl) \<Rightarrow>
          (case freePages ops s pCache (s_pMem sl) of
             None \<Rightarrow> None
           | Some s \<Rightarrow>
               (let s = s\<lparr>ijs_slab := (ijs_slab s)(slabp := None)\<rparr>
                in if OFF_SLAB pCache then
                     (case sc_pscSlab pCache of None \<Rightarrow> None | Some m \<Rightarrow> freeObj ops s m slabp)
                   else Some s))
      | _ \<Rightarrow> None)"

fun destroySlabCacheSlabs :: "'b page_ops \<Rightarrow> 'b internal_jiukun_slab \<Rightarrow> cache_id \<Rightarrow> addr list \<Rightarrow> 'b internal_jiukun_slab option" where
  "destroySlabCacheSlabs ops s c [] = Some s"
| "destroySlabCacheSlabs ops s c (slabp # ps) =
     (case destroySlab ops (updCache c (delSlab slabp) s) c slabp of
        None \<Rightarrow> None
      | Some s \<Rightarrow> destroySlabCacheSlabs ops s c ps)"

definition destroySlabCache :: "'b page_ops \<Rightarrow> 'b internal_jiukun_slab \<Rightarrow> cache_id \<Rightarrow> 'b internal_jiukun_slab option" where
  "destroySlabCache ops s c =
     (case ijs_scCache s c of
        None \<Rightarrow> None
      | Some pCache \<Rightarrow>
          (case destroySlabCacheSlabs ops s c (sc_jlFree pCache) of
             None \<Rightarrow> None
           | Some s \<Rightarrow>
               (case destroySlabCacheSlabs ops s c (sc_jlPartial pCache) of
                  None \<Rightarrow> None
                | Some s \<Rightarrow> destroySlabCacheSlabs ops s c (sc_jlFull pCache))))"

text \<open>The slabs of the free list are released from its end.\<close>

definition shrinkSlabCache :: "'b page_ops \<Rightarrow> 'b internal_jiukun_slab \<Rightarrow> cache_id \<Rightarrow> (nat \<times> 'b internal_jiukun_slab) option" where
  "shrinkSlabCache ops s c =
     (case ijs_scCache s c of
        None \<Rightarrow> None
      | Some pCache \<Rightarrow> map_option (Pair (length (sc_jlFree pCache))) (destroySlabCacheSlabs ops s c (rev (sc_jlFree pCache))))"

section \<open>Reaping\<close>

definition reapable :: "slab_cache \<Rightarrow> bool" where
  "reapable ca \<longleftrightarrow> JF_FLAG_GET (sc_jfCache ca) JF_JIUKUN_CACHE_CREATE_FLAG_NOREAP = 0 \<and>
     JF_FLAG_GET (sc_jfCache ca) SC_FLAG_GROWN = 0 \<and> JF_FLAG_GET (sc_jfCache ca) SC_FLAG_LOCKED = 0"

text \<open>
  The reaper holds the lock of the caches while it shrinks them. Destroying a slab with its management structure elsewhere
  releases that structure with \<^verbatim>\<open>_freeObj\<close>, which takes the same lock again; the mutex is not recursive, so this never returns.
\<close>

fun reapCaches :: "'b page_ops \<Rightarrow> 'b internal_jiukun_slab \<Rightarrow> cache_id list \<Rightarrow> nat \<Rightarrow> (nat \<times> 'b internal_jiukun_slab) option" where
  "reapCaches ops s [] ret = Some (ret, s)"
| "reapCaches ops s (c # cs) ret =
     (case ijs_scCache s c of
        None \<Rightarrow> None
      | Some searchp \<Rightarrow>
          (if reapable searchp then
             (if OFF_SLAB searchp \<and> sc_jlFree searchp \<noteq> [] then None
              else case shrinkSlabCache ops s c of None \<Rightarrow> None | Some (n, s) \<Rightarrow> reapCaches ops s cs (ret + n))
           else reapCaches ops s cs ret))"

text \<open>\<open>locked\<close>: the lock of the caches was acquired.\<close>

definition reapJiukunSlab :: "'b page_ops \<Rightarrow> bool \<Rightarrow> bool \<Rightarrow> 'b internal_jiukun_slab \<Rightarrow> (nat \<times> 'b internal_jiukun_slab) option" where
  "reapJiukunSlab ops bNoWait locked s =
     (if \<not> ijs_bInitialized s then None
      else if bNoWait \<and> \<not> locked then Some (0, s)
      else reapCaches ops s (ijs_jlNext s) 0)"

section \<open>Allocation of an object\<close>

text \<open>
  \<^verbatim>\<open>reapJiukun\<close>, called when there is no page, without waiting for the lock; there is one thread of control, so the lock is free. Its
  assertion requires that the start of the module is over.
\<close>

definition reapJiukun :: "'b page_ops \<Rightarrow> 'b internal_jiukun_slab \<Rightarrow> 'b internal_jiukun_slab option" where
  "reapJiukun ops s = (if \<not> ijs_bInitialized s then None else map_option snd (reapJiukunSlab ops True True s))"

text \<open>
  The loop of \<^verbatim>\<open>getJiukunPage\<close>, as it runs for \<^verbatim>\<open>jf_jiukun_allocPage\<close>, with the reaper of the caches; \<open>po_alloc\<close> is one attempt.
\<close>

partial_function (option) allocPage_loop ::
  "'b page_ops \<Rightarrow> nat \<Rightarrow> u64 \<Rightarrow> 'b internal_jiukun_slab \<Rightarrow> (jf_err \<times> addr option \<times> 'b internal_jiukun_slab) option" where
  "allocPage_loop ops order flag s =
     (case po_alloc ops (ijs_buddy s) order of
        None \<Rightarrow> None
      | Some (u32Ret, Some objp, b) \<Rightarrow> Some (u32Ret, Some objp, s\<lparr>ijs_buddy := b\<rparr>)
      | Some (u32Ret, None, b) \<Rightarrow>
          (if u32Ret \<noteq> JF_ERR_JIUKUN_OUT_OF_MEMORY then Some (u32Ret, None, s\<lparr>ijs_buddy := b\<rparr>)
           else
             (case reapJiukun ops (s\<lparr>ijs_buddy := b\<rparr>) of
                None \<Rightarrow> None
              | Some s \<Rightarrow>
                  (if JF_FLAG_GET flag JF_JIUKUN_PAGE_ALLOC_FLAG_WAIT \<noteq> 0 then allocPage_loop ops order flag s
                   else Some (u32Ret, None, s)))))"

text \<open>The management structure of a new slab; \<open>rec\<close> allocates an object of another cache.\<close>

definition slabMgmt ::
  "('b internal_jiukun_slab \<Rightarrow> cache_id \<Rightarrow> (jf_err \<times> addr \<times> 'b internal_jiukun_slab) option) \<Rightarrow>
   'b internal_jiukun_slab \<Rightarrow> slab_cache \<Rightarrow> addr \<Rightarrow> (addr option \<times> 'b internal_jiukun_slab) option" where
  "slabMgmt rec s pCache objp =
     (if OFF_SLAB pCache then
        (case sc_pscSlab pCache of
           None \<Rightarrow> None
         | Some m \<Rightarrow>
             (case rec s m of
                None \<Rightarrow> None
              | Some (u32Ret, slabp, s) \<Rightarrow>
                  (if u32Ret \<noteq> JF_ERR_NO_ERROR then Some (None, s)
                   else Some (Some slabp, s\<lparr>ijs_slab := (ijs_slab s)(slabp \<mapsto> \<lparr>s_pMem = objp, s_u32InUse = 0, s_sbFree = 0, s_bufctl = []\<rparr>)\<rparr>))))
      else
        (let offset = ALIGN_CEIL (sc_u32Num pCache * sizeof_slab_bufctl + sizeof_slab) SLAB_ALIGN_SIZE
         in Some (Some objp, s\<lparr>ijs_slab := (ijs_slab s)(objp \<mapsto> \<lparr>s_pMem = objp + offset, s_u32InUse = 0, s_sbFree = 0, s_bufctl = []\<rparr>)\<rparr>)))"

definition initSlabCacheObjs :: "slab_cache \<Rightarrow> slab \<Rightarrow> slab" where
  "initSlabCacheObjs pCache sl =
     sl\<lparr>s_bufctl := (map Suc [0..<sc_u32Num pCache])[sc_u32Num pCache - 1 := BUFCTL_END], s_sbFree := 0\<rparr>"

definition growSlabCache ::
  "'b page_ops \<Rightarrow> ('b internal_jiukun_slab \<Rightarrow> cache_id \<Rightarrow> (jf_err \<times> addr \<times> 'b internal_jiukun_slab) option) \<Rightarrow>
   'b internal_jiukun_slab \<Rightarrow> cache_id \<Rightarrow> u64 \<Rightarrow> (jf_err \<times> 'b internal_jiukun_slab) option" where
  "growSlabCache ops rec s c jpflag =
     (let s = updCache c (\<lambda>ca. ca\<lparr>sc_jfCache := JF_FLAG_SET (sc_jfCache ca) SC_FLAG_GROWN\<rparr>) s;
          done = (\<lambda>s. updCache c (\<lambda>ca. ca\<lparr>sc_jfCache := JF_FLAG_CLEAR (sc_jfCache ca) SC_FLAG_GROWN\<rparr>) s)
      in case ijs_scCache s c of
           None \<Rightarrow> None
         | Some pCache \<Rightarrow>
             (case allocPage_loop ops (sc_u32Order pCache) (jpflag OR sc_jfPage pCache) s of
                None \<Rightarrow> None
              | Some (u32Ret, None, s) \<Rightarrow> Some (u32Ret, done s)
              | Some (u32Ret, Some objp, s) \<Rightarrow>
                  (case slabMgmt rec s pCache objp of
                     None \<Rightarrow> None
                   | Some (None, s) \<Rightarrow>
                       map_option (\<lambda>s. (JF_ERR_FAIL_GROW_JIUKUN_CACHE, done s)) (freePages ops s pCache objp)
                   | Some (Some slabp, s) \<Rightarrow>
                       (case po_page ops (ijs_buddy s) objp of
                          None \<Rightarrow> None
                        | Some page \<Rightarrow>
                            (let s = markPages page (push_bit (sc_u32Order pCache) 1) (Some (c, slabp)) s;
                                 s = updSlab slabp (initSlabCacheObjs pCache) s;
                                 s = updCache c (\<lambda>ca. ca\<lparr>sc_jlFree := sc_jlFree ca @ [slabp]\<rparr>) s
                             in Some (JF_ERR_NO_ERROR, done s))))))"

text \<open>
  The slab to take the next object from: the first partial one, or the first free one, or a new one; it is moved
  to the front of the partial ones.
\<close>

definition partialSlab ::
  "'b page_ops \<Rightarrow> ('b internal_jiukun_slab \<Rightarrow> cache_id \<Rightarrow> (jf_err \<times> addr \<times> 'b internal_jiukun_slab) option) \<Rightarrow>
   'b internal_jiukun_slab \<Rightarrow> cache_id \<Rightarrow> (jf_err \<times> addr \<times> 'b internal_jiukun_slab) option" where
  "partialSlab ops rec s c =
     (case ijs_scCache s c of
        None \<Rightarrow> None
      | Some pCache \<Rightarrow>
          (case sc_jlPartial pCache of
             entry # _ \<Rightarrow> Some (JF_ERR_NO_ERROR, entry, s)
           | [] \<Rightarrow>
               (case (if sc_jlFree pCache = [] then
                        growSlabCache ops rec s c
                          (if JF_FLAG_GET (sc_jfCache pCache) JF_JIUKUN_CACHE_CREATE_FLAG_WAIT \<noteq> 0
                           then JF_FLAG_SET 0 JF_JIUKUN_PAGE_ALLOC_FLAG_WAIT else 0)
                      else Some (JF_ERR_NO_ERROR, s)) of
                  None \<Rightarrow> None
                | Some (u32Ret, s) \<Rightarrow>
                    (if u32Ret \<noteq> JF_ERR_NO_ERROR then Some (u32Ret, 0, s)
                     else
                       (case ijs_scCache s c of
                          None \<Rightarrow> None
                        | Some pCache \<Rightarrow>
                            (case sc_jlFree pCache of
                               [] \<Rightarrow> None
                             | entry # _ \<Rightarrow>
                                 Some (JF_ERR_NO_ERROR, entry,
                                   updCache c (\<lambda>ca. (delSlab entry ca)\<lparr>sc_jlPartial := entry # sc_jlPartial (delSlab entry ca)\<rparr>) s)))))))"

text \<open>
  The first argument bounds the depth of caches that keep their management structures in other caches (and of a loop
  that would run again for an object at the null address).
\<close>

primrec allocObj ::
  "nat \<Rightarrow> 'b page_ops \<Rightarrow> 'b internal_jiukun_slab \<Rightarrow> cache_id \<Rightarrow> (jf_err \<times> addr \<times> 'b internal_jiukun_slab) option" where
  "allocObj 0 ops s c = None"
| "allocObj (Suc n) ops s c =
     (case partialSlab ops (allocObj n ops) (lockSlabCache c s) c of
        None \<Rightarrow> None
      | Some (u32Ret, slabp, s) \<Rightarrow>
          (if u32Ret \<noteq> JF_ERR_NO_ERROR then Some (u32Ret, 0, unlockSlabCache c s)
           else
             (case allocOneObjFromTail s c slabp of
                None \<Rightarrow> None
              | Some (objp, s) \<Rightarrow>
                  (if objp = 0 then allocObj n ops s c else Some (JF_ERR_NO_ERROR, objp, unlockSlabCache c s)))))"

section \<open>Creation of a cache\<close>

fun findGeneralSlabCache :: "(int \<times> cache_id option) list \<Rightarrow> int \<Rightarrow> cache_id option option" where
  "findGeneralSlabCache [] sz = None"
| "findGeneralSlabCache ((gsz, c) # gs) sz =
     (if gsz \<noteq> OLSIZE_MAX \<and> sz > gsz then findGeneralSlabCache gs sz else Some c)"

text \<open>
  The search for the order of the slabs. The flag that is to end the loop after the order was lowered is a variable of the loop's
  body, so it is zero in every round. A slab that wastes too much memory is tried again with the same order.
\<close>

partial_function (option) order_loop :: "nat \<Rightarrow> nat \<Rightarrow> u64 \<Rightarrow> nat \<Rightarrow> (nat \<times> nat \<times> nat) option" where
  "order_loop offSlabLimit sObj flag order =
     (case slabCacheEstimate order sObj flag of
        None \<Rightarrow> None
      | Some (left_over, num) \<Rightarrow>
          (if order \<ge> MAX_JP_ORDER then Some (order, num, left_over)
           else if num = 0 then order_loop offSlabLimit sObj flag (order + 1)
           else if JF_FLAG_GET flag SC_FLAG_OFF_SLAB \<noteq> 0 \<and> num > offSlabLimit then
             (if order = 0 then None else order_loop offSlabLimit sObj flag (order - 1))
           else if left_over * 8 \<le> push_bit order BUDDY_PAGE_SIZE then Some (order, num, left_over)
           else order_loop offSlabLimit sObj flag order))"

definition CACHE_NAME_LEN :: nat where "CACHE_NAME_LEN = 24"

definition slab_depth :: nat where "slab_depth = 3"

text \<open>\<open>mtx\<close> gives the outcome of creating the mutex of the cache with a name.\<close>

definition createSlabCache ::
  "'b page_ops \<Rightarrow> (string \<Rightarrow> jf_err) \<Rightarrow> 'b internal_jiukun_slab \<Rightarrow> string \<Rightarrow> nat \<Rightarrow> u64 \<Rightarrow>
    (jf_err \<times> cache_id option \<times> 'b internal_jiukun_slab) option" where
  "createSlabCache ops mtx s name sObj jfCache =
     (let realobjsize = sObj;
          sObj = ALIGN_CEIL sObj SLAB_ALIGN_SIZE
      in case allocObj slab_depth ops s Cache_cache of
           None \<Rightarrow> None
         | Some (u32Ret, pCache, s) \<Rightarrow>
             (if u32Ret \<noteq> JF_ERR_NO_ERROR then Some (u32Ret, None, s)
              else
                (let jfCache = (if sObj \<ge> drop_bit 3 BUDDY_PAGE_SIZE then JF_FLAG_SET jfCache SC_FLAG_OFF_SLAB else jfCache);
                     failed = (\<lambda>e. map_option (\<lambda>s. (e, None, s)) (freeObj ops s Cache_cache pCache))
                 in case order_loop (ijs_u32OffSlabLimit s) sObj jfCache 0 of
                      None \<Rightarrow> None
                    | Some (order, num, left_over) \<Rightarrow>
                        (if num = 0 then failed JF_ERR_FAIL_CREATE_JIUKUN_CACHE
                         else
                           (let slab_size = ALIGN_CEIL (num * sizeof_slab_bufctl + sizeof_slab) SLAB_ALIGN_SIZE;
                                jfCache = (if JF_FLAG_GET jfCache SC_FLAG_OFF_SLAB \<noteq> 0 \<and> left_over \<ge> slab_size
                                           then JF_FLAG_CLEAR jfCache SC_FLAG_OFF_SLAB else jfCache)
                            in if mtx name \<noteq> JF_ERR_NO_ERROR then failed (mtx name)
                               else
                                 (case (if JF_FLAG_GET jfCache SC_FLAG_OFF_SLAB \<noteq> 0
                                        then findGeneralSlabCache (ijs_gcGeneral s) (int slab_size) else Some None) of
                                    None \<Rightarrow> None
                                  | Some psc \<Rightarrow>
                                      (let ca = \<lparr>sc_u32ObjSize = sObj, sc_u32RealObjSize = realobjsize, sc_jfCache = jfCache, sc_u32Num = num,
                                             sc_jlFull = [], sc_jlPartial = [], sc_jlFree = [], sc_u32Order = order, sc_jfPage = 0,
                                             sc_pscSlab = psc, sc_strName = take (CACHE_NAME_LEN - 1) name\<rparr>
                                       in Some (JF_ERR_NO_ERROR, Some (Cache pCache),
                                            s\<lparr>ijs_scCache := (ijs_scCache s)(Cache pCache \<mapsto> ca), ijs_jlNext := Cache pCache # ijs_jlNext s\<rparr>))))))))"

section \<open>Start and end\<close>

definition ls_sCacheSize :: "nat list" where
  "ls_sCacheSize =
     [32, 64, 128, 256, 512, 1024, 2048, 4096, 8192, 16384, 32768, 65536, 131072, 262144, 524288, 1048576, 2097152,
      4194304, 8388608]"

definition MAX_NUM_OF_GENERAL_CACHE :: nat where "MAX_NUM_OF_GENERAL_CACHE = 20"

fun initGeneral ::
  "'b page_ops \<Rightarrow> (string \<Rightarrow> jf_err) \<Rightarrow> 'b internal_jiukun_slab \<Rightarrow> nat \<Rightarrow> nat list \<Rightarrow> (jf_err \<times> nat \<times> 'b internal_jiukun_slab) option" where
  "initGeneral ops mtx s i [] = Some (JF_ERR_NO_ERROR, i, s)"
| "initGeneral ops mtx s i (sz # szs) =
     (if length (ijs_gcGeneral s) \<le> i then None
      else
        (let s = s\<lparr>ijs_gcGeneral := (ijs_gcGeneral s)[i := (int sz, snd (ijs_gcGeneral s ! i))]\<rparr>
         in case createSlabCache ops mtx s (''size-'' @ printInt (int sz)) sz 0 of
              None \<Rightarrow> None
            | Some (u32Ret, c, s) \<Rightarrow>
                (if u32Ret \<noteq> JF_ERR_NO_ERROR then Some (u32Ret, i + 1, s)
                 else
                   (let s = s\<lparr>ijs_gcGeneral := (ijs_gcGeneral s)[i := (int sz, c)]\<rparr>
                    in case Option.bind c (ijs_scCache s) of
                         None \<Rightarrow> None
                       | Some ca \<Rightarrow>
                           initGeneral ops mtx
                             (if \<not> OFF_SLAB ca then s\<lparr>ijs_u32OffSlabLimit := (sz - sizeof_slab) div 2\<rparr> else s) (i + 1) szs))))"

text \<open>\<open>csize\<close> is the size of a cache descriptor.\<close>

definition initSlabCache ::
  "nat \<Rightarrow> 'b page_ops \<Rightarrow> (string \<Rightarrow> jf_err) \<Rightarrow> 'b internal_jiukun_slab \<Rightarrow> (jf_err \<times> 'b internal_jiukun_slab) option" where
  "initSlabCache csize ops mtx s =
     (case slabCacheEstimate 0 csize 0 of
        None \<Rightarrow> None
      | Some (_, num) \<Rightarrow>
          (let pkc = \<lparr>sc_u32ObjSize = csize, sc_u32RealObjSize = 0, sc_jfCache = JF_FLAG_SET 0 JF_JIUKUN_CACHE_CREATE_FLAG_NOREAP,
                 sc_u32Num = num, sc_jlFull = [], sc_jlPartial = [], sc_jlFree = [], sc_u32Order = 0, sc_jfPage = 0,
                 sc_pscSlab = None, sc_strName = ''cache_cache''\<rparr>;
               s = s\<lparr>ijs_scCache := (ijs_scCache s)(Cache_cache \<mapsto> pkc), ijs_jlNext := []\<rparr>
           in case initGeneral ops mtx s 0 ls_sCacheSize of
                None \<Rightarrow> None
              | Some (u32Ret, n, s) \<Rightarrow>
                  (if u32Ret \<noteq> JF_ERR_NO_ERROR then Some (u32Ret, s)
                   else if n < MAX_NUM_OF_GENERAL_CACHE then
                     Some (mtx ''cache_cache'', s\<lparr>ijs_gcGeneral := (ijs_gcGeneral s)[n := (OLSIZE_MAX, snd (ijs_gcGeneral s ! n))]\<rparr>)
                   else None)))"

definition jf_jiukun_destroyCache :: "'b page_ops \<Rightarrow> 'b internal_jiukun_slab \<Rightarrow> cache_id \<Rightarrow> 'b internal_jiukun_slab option" where
  "jf_jiukun_destroyCache ops s c =
     (let s = s\<lparr>ijs_jlNext := remove1 c (ijs_jlNext s)\<rparr>;
          s = updCache c (\<lambda>ca. ca\<lparr>sc_jfCache := JF_FLAG_SET (sc_jfCache ca) SC_FLAG_DESTROY\<rparr>) s
      in case destroySlabCache ops s c of
           None \<Rightarrow> None
         | Some s \<Rightarrow>
             (case c of
                Cache_cache \<Rightarrow> None
              | Cache a \<Rightarrow> freeObj ops (s\<lparr>ijs_scCache := (ijs_scCache s)(c := None)\<rparr>) Cache_cache a))"

text \<open>The general caches with an entry are destroyed from the last to the first.\<close>

fun generalCaches :: "(int \<times> cache_id option) list \<Rightarrow> cache_id list option" where
  "generalCaches [] = None"
| "generalCaches ((gsz, c) # gs) =
     (case c of
        Some c \<Rightarrow> (if gsz \<noteq> OLSIZE_MAX then map_option (Cons c) (generalCaches gs) else Some [])
      | None \<Rightarrow> Some [])"

fun destroyCaches :: "'b page_ops \<Rightarrow> 'b internal_jiukun_slab \<Rightarrow> cache_id list \<Rightarrow> 'b internal_jiukun_slab option" where
  "destroyCaches ops s [] = Some s"
| "destroyCaches ops s (c # cs) = Option.bind (jf_jiukun_destroyCache ops s c) (\<lambda>s. destroyCaches ops s cs)"

definition finiJiukunSlab :: "'b page_ops \<Rightarrow> 'b internal_jiukun_slab \<Rightarrow> 'b internal_jiukun_slab option" where
  "finiJiukunSlab ops s =
     (case generalCaches (ijs_gcGeneral s) of
        None \<Rightarrow> None
      | Some cs \<Rightarrow>
          (case destroyCaches ops s (rev cs) of
             None \<Rightarrow> None
           | Some s \<Rightarrow>
               map_option (\<lambda>s. s\<lparr>ijs_bInitialized := False, ijs_gcGeneral := map (\<lambda>(gsz, c). (gsz, None)) (ijs_gcGeneral s)\<rparr>)
                 (destroySlabCache ops s Cache_cache)))"

definition initJiukunSlab ::
  "nat \<Rightarrow> 'b page_ops \<Rightarrow> (string \<Rightarrow> jf_err) \<Rightarrow> jf_err \<Rightarrow> 'b internal_jiukun_slab \<Rightarrow> (jf_err \<times> 'b internal_jiukun_slab) option" where
  "initJiukunSlab csize ops mtx lockRet s =
     (if ijs_bInitialized s then None
      else
        (case (if lockRet = JF_ERR_NO_ERROR then initSlabCache csize ops mtx s else Some (lockRet, s)) of
           None \<Rightarrow> None
         | Some (u32Ret, s) \<Rightarrow>
             (if u32Ret = JF_ERR_NO_ERROR then Some (u32Ret, s\<lparr>ijs_bInitialized := True\<rparr>)
              else map_option (Pair u32Ret) (finiJiukunSlab ops s))))"

section \<open>Interface\<close>

definition jf_jiukun_createCache ::
  "'b page_ops \<Rightarrow> (string \<Rightarrow> jf_err) \<Rightarrow> 'b internal_jiukun_slab \<Rightarrow> string \<Rightarrow> nat \<Rightarrow> u64 \<Rightarrow>
    (jf_err \<times> cache_id option \<times> 'b internal_jiukun_slab) option" where
  "jf_jiukun_createCache ops mtx s name sObj jfCache =
     (if ijs_bInitialized s \<and> SLAB_ALIGN_SIZE \<le> sObj \<and> sObj \<le> push_bit MAX_JP_ORDER 1 * BUDDY_PAGE_SIZE
      then createSlabCache ops mtx s name sObj jfCache else None)"

definition jf_jiukun_freeObject :: "'b page_ops \<Rightarrow> 'b internal_jiukun_slab \<Rightarrow> cache_id \<Rightarrow> addr \<Rightarrow> 'b internal_jiukun_slab option" where
  "jf_jiukun_freeObject ops s pCache ptr =
     (if ijs_bInitialized s \<and> ptr \<noteq> 0 then freeObj ops s pCache ptr else None)"

definition jf_jiukun_allocObject ::
  "'b page_ops \<Rightarrow> 'b internal_jiukun_slab \<Rightarrow> cache_id \<Rightarrow> (jf_err \<times> addr \<times> 'b internal_jiukun_slab) option" where
  "jf_jiukun_allocObject ops s pCache =
     (if ijs_bInitialized s then allocObj slab_depth ops s pCache else None)"

fun allocGeneral ::
  "'b page_ops \<Rightarrow> 'b internal_jiukun_slab \<Rightarrow> (int \<times> cache_id option) list \<Rightarrow> int \<Rightarrow> (jf_err \<times> addr \<times> 'b internal_jiukun_slab) option" where
  "allocGeneral ops s [] sz = None"
| "allocGeneral ops s ((gsz, c) # gs) sz =
     (if gsz = OLSIZE_MAX then Some (JF_ERR_UNSUPPORTED_MEMORY_SIZE, 0, s)
      else if sz > gsz then allocGeneral ops s gs sz
      else case c of None \<Rightarrow> None | Some c \<Rightarrow> allocObj slab_depth ops s c)"

definition jf_jiukun_allocMemory :: "'b page_ops \<Rightarrow> 'b internal_jiukun_slab \<Rightarrow> int \<Rightarrow> (jf_err \<times> addr \<times> 'b internal_jiukun_slab) option" where
  "jf_jiukun_allocMemory ops s sz =
     (if ijs_bInitialized s then allocGeneral ops s (ijs_gcGeneral s) sz else None)"

definition jf_jiukun_freeMemory :: "'b page_ops \<Rightarrow> 'b internal_jiukun_slab \<Rightarrow> addr \<Rightarrow> 'b internal_jiukun_slab option" where
  "jf_jiukun_freeMemory ops s objp =
     (if ijs_bInitialized s \<and> objp \<noteq> 0 then
        (case Option.bind (po_page ops (ijs_buddy s) objp) (ijs_page s) of
           None \<Rightarrow> None
         | Some (pCache, _) \<Rightarrow> freeObj ops s pCache objp)
      else None)"

text \<open>The copy of the bytes after a successful allocation is left out.\<close>

definition jf_jiukun_cloneMemory :: "'b page_ops \<Rightarrow> 'b internal_jiukun_slab \<Rightarrow> int \<Rightarrow> (jf_err \<times> addr \<times> 'b internal_jiukun_slab) option" where
  "jf_jiukun_cloneMemory ops s sz = (if sz > 0 then jf_jiukun_allocMemory ops s sz else None)"

end
