(* ===== verification/Jf_Slab_Inv.thy ===== *)
theory Jf_Slab_Inv
  imports Jf_Slab
begin

text \<open>
  The invariant of the object caches over any page allocator that keeps the contract \<open>page_provider\<close>: every slab of a cache
  is a block of pages marked with the cache and the slab, its free objects are chained, and it is in the list that fits the number of
  its objects in use. Allocation and release of objects keep it.
\<close>

section \<open>Free objects of a slab\<close>

fun free_chain :: "nat list \<Rightarrow> nat \<Rightarrow> nat list \<Rightarrow> bool" where
  "free_chain ctl f [] \<longleftrightarrow> f = BUFCTL_END"
| "free_chain ctl f (x # xs) \<longleftrightarrow> f = x \<and> x < length ctl \<and> free_chain ctl (ctl ! x) xs"

lemma free_chain_unique:
  "length ctl \<le> BUFCTL_END \<Longrightarrow> free_chain ctl f xs \<Longrightarrow> free_chain ctl f ys \<Longrightarrow> xs = ys"
proof (induction xs arbitrary: f ys)
  case Nil
  then show ?case by (cases ys) auto
next
  case (Cons x xs)
  then show ?case by (cases ys) auto
qed

lemma free_chain_less: "free_chain ctl f xs \<Longrightarrow> set xs \<subseteq> {..<length ctl}"
  by (induction xs arbitrary: f) auto

lemma free_chain_update: "free_chain ctl f xs \<Longrightarrow> i \<notin> set xs \<Longrightarrow> free_chain (ctl[i := v]) f xs"
  by (induction xs arbitrary: f) auto

definition free_nums :: "slab \<Rightarrow> nat set" where
  "free_nums sl = {i. \<exists>xs. free_chain (s_bufctl sl) (s_sbFree sl) xs \<and> i \<in> set xs}"

definition slab_ok :: "nat \<Rightarrow> slab \<Rightarrow> bool" where
  "slab_ok num sl \<longleftrightarrow> length (s_bufctl sl) = num \<and>
     (\<exists>xs. free_chain (s_bufctl sl) (s_sbFree sl) xs \<and> distinct xs \<and> s_u32InUse sl + length xs = num)"

lemma slab_okE:
  assumes "slab_ok num sl" "num < BUFCTL_END"
  obtains xs where "free_chain (s_bufctl sl) (s_sbFree sl) xs" "distinct xs" "s_u32InUse sl + length xs = num"
    "free_nums sl = set xs" "set xs \<subseteq> {..<num}" "length (s_bufctl sl) = num"
proof -
  obtain xs where xs: "free_chain (s_bufctl sl) (s_sbFree sl) xs" "distinct xs" "s_u32InUse sl + length xs = num"
    and len: "length (s_bufctl sl) = num"
    using assms(1) by (auto simp: slab_ok_def)
  have "ys = xs" if "free_chain (s_bufctl sl) (s_sbFree sl) ys" for ys
    using free_chain_unique [OF _ that xs(1)] len assms(2) by simp
  then have "free_nums sl = set xs" unfolding free_nums_def using xs(1) by blast
  moreover have "set xs \<subseteq> {..<num}" using free_chain_less [OF xs(1)] len by simp
  ultimately show ?thesis by (rule that [OF xs _ _ len])
qed

lemma slab_okI:
  assumes "length (s_bufctl sl) = num" "free_chain (s_bufctl sl) (s_sbFree sl) xs" "distinct xs"
    "s_u32InUse sl + length xs = num" "num < BUFCTL_END"
  shows "slab_ok num sl" "free_nums sl = set xs"
proof -
  show ok: "slab_ok num sl" using assms by (auto simp: slab_ok_def)
  show "free_nums sl = set xs"
  proof (rule slab_okE [OF ok assms(5)])
    fix ys
    assume "free_chain (s_bufctl sl) (s_sbFree sl) ys" "free_nums sl = set ys"
    then show ?thesis using free_chain_unique [OF _ _ assms(2), of ys] assms(1,5) by simp
  qed
qed

text \<open>Taking the first free object, and giving one back.\<close>

lemma slab_take:
  assumes ok: "slab_ok num sl" and num: "num < BUFCTL_END" and room: "s_u32InUse sl < num"
  defines "sl' \<equiv> sl\<lparr>s_u32InUse := s_u32InUse sl + 1, s_sbFree := s_bufctl sl ! s_sbFree sl\<rparr>"
  shows "s_sbFree sl < num" "s_sbFree sl \<in> free_nums sl" "slab_ok num sl'" "free_nums sl' = free_nums sl - {s_sbFree sl}"
    "s_sbFree sl' = BUFCTL_END \<longleftrightarrow> s_u32InUse sl' = num"
proof -
  obtain xs where xs: "free_chain (s_bufctl sl) (s_sbFree sl) xs" "distinct xs" "s_u32InUse sl + length xs = num"
    "free_nums sl = set xs" "set xs \<subseteq> {..<num}" and len: "length (s_bufctl sl) = num"
    by (rule slab_okE [OF ok num])
  obtain y ys where ys: "xs = y # ys" using room xs(3) by (cases xs) auto
  have y: "s_sbFree sl = y" "y < num" and tail: "free_chain (s_bufctl sl) (s_bufctl sl ! y) ys"
    using xs(1) ys len by auto
  show "s_sbFree sl < num" "s_sbFree sl \<in> free_nums sl" using y xs(4) ys by auto
  note ok' = slab_okI [of sl' num ys]
  show "slab_ok num sl'" using ok' len tail xs(2,3) ys y num by (simp add: sl'_def)
  show "free_nums sl' = free_nums sl - {s_sbFree sl}"
    using ok'(2) len tail xs(2-4) ys y num by (simp add: sl'_def)
  have "s_bufctl sl ! y = BUFCTL_END \<longleftrightarrow> ys = []"
    using tail num len by (cases ys) auto
  then show "s_sbFree sl' = BUFCTL_END \<longleftrightarrow> s_u32InUse sl' = num"
    using xs(3) ys y by (auto simp: sl'_def)
qed

lemma slab_give:
  assumes ok: "slab_ok num sl" and num: "num < BUFCTL_END" and i: "i < num" "i \<notin> free_nums sl"
  defines "sl' \<equiv> sl\<lparr>s_bufctl := (s_bufctl sl)[i := s_sbFree sl], s_sbFree := i, s_u32InUse := s_u32InUse sl - 1\<rparr>"
  shows "0 < s_u32InUse sl" "slab_ok num sl'" "free_nums sl' = insert i (free_nums sl)"
proof -
  obtain xs where xs: "free_chain (s_bufctl sl) (s_sbFree sl) xs" "distinct xs" "s_u32InUse sl + length xs = num"
    "free_nums sl = set xs" "set xs \<subseteq> {..<num}" and len: "length (s_bufctl sl) = num"
    by (rule slab_okE [OF ok num])
  have "length xs < num"
  proof -
    have "card (insert i (set xs)) \<le> card {..<num}" using xs(5) i(1) by (intro card_mono) auto
    then show ?thesis using xs(2,4) i(2) by (simp add: distinct_card)
  qed
  then show pos: "0 < s_u32InUse sl" using xs(3) by simp
  have "free_chain ((s_bufctl sl)[i := s_sbFree sl]) (s_sbFree sl) xs"
    using free_chain_update [OF xs(1)] i(2) xs(4) by simp
  then have "free_chain (s_bufctl sl') (s_sbFree sl') (i # xs)" using len i(1) by (simp add: sl'_def)
  moreover have "length (s_bufctl sl') = num" using len by (simp add: sl'_def)
  moreover have "distinct (i # xs)" using xs(2,4) i(2) by simp
  moreover have "s_u32InUse sl' + length (i # xs) = num" using xs(3) pos by (simp add: sl'_def)
  ultimately have ok': "slab_ok num sl'" "free_nums sl' = set (i # xs)"
    using slab_okI [of sl' num "i # xs"] num by simp_all
  then show "slab_ok num sl'" "free_nums sl' = insert i (free_nums sl)" using xs(4) by simp_all
qed

text \<open>A new slab.\<close>

lemma free_chain_new:
  assumes "0 < num"
  defines "ctl \<equiv> (map Suc [0..<num])[num - 1 := BUFCTL_END]"
  shows "k < num \<Longrightarrow> free_chain ctl k [k..<num]"
proof (induction "num - k" arbitrary: k)
  case (Suc m)
  have len: "length ctl = num" by (simp add: ctl_def)
  have "[k..<num] = k # [Suc k..<num]" using Suc.prems by (rule upt_conv_Cons)
  moreover have "free_chain ctl (ctl ! k) [Suc k..<num]"
  proof (cases "Suc k < num")
    case True
    then have "ctl ! k = Suc k" by (simp add: ctl_def)
    then show ?thesis using Suc True by simp
  next
    case False
    then have k: "num = Suc k" using Suc.prems by simp
    then have "ctl ! k = BUFCTL_END" by (simp add: ctl_def)
    then show ?thesis using k by simp
  qed
  ultimately show ?case using Suc.prems len by simp
qed simp

lemma slab_new:
  assumes "0 < sc_u32Num ca" "sc_u32Num ca < BUFCTL_END" "s_u32InUse sl = 0"
  shows "slab_ok (sc_u32Num ca) (initSlabCacheObjs ca sl)" "free_nums (initSlabCacheObjs ca sl) = {..<sc_u32Num ca}"
proof -
  let ?sl = "initSlabCacheObjs ca sl"
  have "free_chain (s_bufctl ?sl) (s_sbFree ?sl) [0..<sc_u32Num ca]"
    using free_chain_new [OF assms(1), of 0] assms(1) by (simp add: initSlabCacheObjs_def)
  moreover have "length (s_bufctl ?sl) = sc_u32Num ca" "s_u32InUse ?sl + length [0..<sc_u32Num ca] = sc_u32Num ca"
    using assms(3) by (simp_all add: initSlabCacheObjs_def)
  ultimately show "slab_ok (sc_u32Num ca) ?sl" "free_nums ?sl = {..<sc_u32Num ca}"
    using slab_okI [of ?sl "sc_u32Num ca" "[0..<sc_u32Num ca]"] assms(2) by (simp_all add: atLeast0LessThan)
qed

section \<open>The contract of a page allocator\<close>

definition blk :: "addr \<times> nat \<Rightarrow> addr set" where
  "blk u = {fst u ..< fst u + 2 ^ snd u * BUDDY_PAGE_SIZE}"

text \<open>
  \<open>held b\<close> are the blocks in use, by address and order. Blocks do not overlap in addresses or in pages, the pages of a block are
  consecutive, and a block is released through any address of its first page.
\<close>

locale page_provider =
  fixes ops :: "'b page_ops"
    and pok :: "'b \<Rightarrow> bool"
    and held :: "'b \<Rightarrow> (addr \<times> nat) set"
  assumes alloc_returns: "pok b \<Longrightarrow> po_alloc ops b k \<noteq> None"
    and alloc_some: "pok b \<Longrightarrow> po_alloc ops b k = Some (r, Some a, b') \<Longrightarrow>
      r = JF_ERR_NO_ERROR \<and> pok b' \<and> 0 < a \<and> (a, k) \<notin> held b \<and> held b' = insert (a, k) (held b)"
    and alloc_none: "pok b \<Longrightarrow> po_alloc ops b k = Some (r, None, b') \<Longrightarrow>
      r \<noteq> JF_ERR_NO_ERROR \<and> pok b' \<and> held b' = held b"
    and alloc_pages: "pok b \<Longrightarrow> po_alloc ops b k = Some (r, pg, b') \<Longrightarrow> u \<in> held b \<Longrightarrow> x \<in> blk u \<Longrightarrow>
      po_page ops b' x = po_page ops b x"
    and free_block: "pok b \<Longrightarrow> (a, k) \<in> held b \<Longrightarrow> a \<le> x \<Longrightarrow> x < a + BUDDY_PAGE_SIZE \<Longrightarrow>
      \<exists>b'. po_free ops b x = Some b' \<and> pok b' \<and> held b' = held b - {(a, k)} \<and>
        (\<forall>u\<in>held b'. \<forall>y\<in>blk u. po_page ops b' y = po_page ops b y)"
    and block_pages: "pok b \<Longrightarrow> (a, k) \<in> held b \<Longrightarrow>
      \<exists>z p. \<forall>j < 2 ^ k * BUDDY_PAGE_SIZE. po_page ops b (a + j) = Some (z, p + j div BUDDY_PAGE_SIZE)"
    and blocks_apart: "pok b \<Longrightarrow> u \<in> held b \<Longrightarrow> v \<in> held b \<Longrightarrow> u \<noteq> v \<Longrightarrow>
      blk u \<inter> blk v = {} \<and> (\<forall>x\<in>blk u. \<forall>y\<in>blk v. po_page ops b x \<noteq> po_page ops b y)"

section \<open>The invariant\<close>

definition mgmt_size :: "slab_cache \<Rightarrow> nat" where
  "mgmt_size ca = ALIGN_CEIL (sc_u32Num ca * sizeof_slab_bufctl + sizeof_slab) SLAB_ALIGN_SIZE"

definition slab_offset :: "slab_cache \<Rightarrow> nat" where
  "slab_offset ca = (if OFF_SLAB ca then 0 else mgmt_size ca)"

definition slab_block :: "slab_cache \<Rightarrow> slab \<Rightarrow> addr \<times> nat" where
  "slab_block ca sl = (s_pMem sl - slab_offset ca, sc_u32Order ca)"

definition slabs_of :: "slab_cache \<Rightarrow> addr list" where
  "slabs_of ca = sc_jlFull ca @ sc_jlPartial ca @ sc_jlFree ca"

definition slab_at ::
  "'b page_ops \<Rightarrow> ('b \<Rightarrow> (addr \<times> nat) set) \<Rightarrow> 'b internal_jiukun_slab \<Rightarrow> cache_id \<Rightarrow> slab_cache \<Rightarrow> addr \<Rightarrow> slab \<Rightarrow> bool" where
  "slab_at ops held s c ca p sl \<longleftrightarrow> slab_ok (sc_u32Num ca) sl \<and>
     slab_offset ca \<le> s_pMem sl \<and> slab_block ca sl \<in> held (ijs_buddy s) \<and> 0 < fst (slab_block ca sl) \<and>
     (\<forall>x\<in>blk (slab_block ca sl). Option.bind (po_page ops (ijs_buddy s) x) (ijs_page s) = Some (c, p)) \<and>
     (OFF_SLAB ca \<or> p = fst (slab_block ca sl))"

definition cache_shape :: "slab_cache \<Rightarrow> bool" where
  "cache_shape ca \<longleftrightarrow> 0 < sc_u32ObjSize ca \<and> 0 < sc_u32Num ca \<and> sc_u32Num ca < BUFCTL_END \<and> slab_offset ca < BUDDY_PAGE_SIZE \<and>
     slab_offset ca + sc_u32Num ca * sc_u32ObjSize ca \<le> 2 ^ sc_u32Order ca * BUDDY_PAGE_SIZE"

text \<open>A slab is in the list that its number of objects in use allows.\<close>

definition in_list :: "slab_cache \<Rightarrow> addr \<Rightarrow> slab \<Rightarrow> bool" where
  "in_list ca p sl \<longleftrightarrow> (p \<in> set (sc_jlFull ca) \<longrightarrow> s_u32InUse sl = sc_u32Num ca) \<and>
     (p \<in> set (sc_jlPartial ca) \<longrightarrow> s_u32InUse sl < sc_u32Num ca) \<and> (p \<in> set (sc_jlFree ca) \<longrightarrow> s_u32InUse sl = 0)"

definition objs :: "slab_cache \<Rightarrow> slab \<Rightarrow> addr set" where
  "objs ca sl = {s_pMem sl + i * sc_u32ObjSize ca | i. i < sc_u32Num ca \<and> i \<notin> free_nums sl}"

text \<open>The objects in use, and among them those the caches use themselves: management structures and descriptors.\<close>

definition live :: "'b internal_jiukun_slab \<Rightarrow> (cache_id \<times> addr) set" where
  "live s = {(c, a). \<exists>ca p sl. ijs_scCache s c = Some ca \<and> p \<in> set (slabs_of ca) \<and> ijs_slab s p = Some sl \<and> a \<in> objs ca sl}"

definition internal :: "'b internal_jiukun_slab \<Rightarrow> (cache_id \<times> addr) set" where
  "internal s = {(m, p). \<exists>c ca. ijs_scCache s c = Some ca \<and> OFF_SLAB ca \<and> sc_pscSlab ca = Some m \<and> p \<in> set (slabs_of ca)} \<union>
     {(m, a). m = Cache_cache \<and> ijs_scCache s (Cache a) \<noteq> None}"

definition cache_ok :: "'b page_ops \<Rightarrow> ('b \<Rightarrow> (addr \<times> nat) set) \<Rightarrow> 'b internal_jiukun_slab \<Rightarrow> cache_id \<Rightarrow> slab_cache \<Rightarrow> bool" where
  "cache_ok ops held s c ca \<longleftrightarrow> cache_shape ca \<and> sc_jfPage ca = 0 \<and> distinct (slabs_of ca) \<and>
     (\<forall>p\<in>set (slabs_of ca). \<exists>sl. ijs_slab s p = Some sl \<and> slab_at ops held s c ca p sl \<and> in_list ca p sl)"

text \<open>A cache that keeps its management structures elsewhere keeps them in a cache that does not.\<close>

definition mgmt_ok :: "'b internal_jiukun_slab \<Rightarrow> slab_cache \<Rightarrow> bool" where
  "mgmt_ok s ca \<longleftrightarrow> (OFF_SLAB ca \<longrightarrow> (\<exists>m cm. sc_pscSlab ca = Some m \<and> m \<noteq> Cache_cache \<and> ijs_scCache s m = Some cm \<and> \<not> OFF_SLAB cm))"

definition slab_inv :: "'b page_ops \<Rightarrow> ('b \<Rightarrow> bool) \<Rightarrow> ('b \<Rightarrow> (addr \<times> nat) set) \<Rightarrow> 'b internal_jiukun_slab \<Rightarrow> bool" where
  "slab_inv ops pok held s \<longleftrightarrow> pok (ijs_buddy s) \<and>
     (\<forall>c ca. ijs_scCache s c = Some ca \<longrightarrow> cache_ok ops held s c ca \<and> mgmt_ok s ca) \<and>
     (\<exists>cc. ijs_scCache s Cache_cache = Some cc \<and> \<not> OFF_SLAB cc) \<and> internal s \<subseteq> live s"

text \<open>The objects of the callers.\<close>

definition objects :: "'b internal_jiukun_slab \<Rightarrow> (cache_id \<times> addr) set" where
  "objects s = live s - internal s"

lemma slab_invD:
  assumes "slab_inv ops pok held s"
  shows "pok (ijs_buddy s)" "ijs_scCache s c = Some ca \<Longrightarrow> cache_ok ops held s c ca" "ijs_scCache s c = Some ca \<Longrightarrow> mgmt_ok s ca"
    "internal s \<subseteq> live s" "\<exists>cc. ijs_scCache s Cache_cache = Some cc \<and> \<not> OFF_SLAB cc"
  using assms by (auto simp: slab_inv_def)

lemma cache_okD:
  assumes "cache_ok ops held s c ca"
  shows "cache_shape ca" "sc_jfPage ca = 0" "distinct (slabs_of ca)"
    "p \<in> set (slabs_of ca) \<Longrightarrow> \<exists>sl. ijs_slab s p = Some sl \<and> slab_at ops held s c ca p sl \<and> in_list ca p sl"
  using assms by (auto simp: cache_ok_def)

lemma cache_shapeD:
  assumes "cache_shape ca"
  shows "0 < sc_u32ObjSize ca" "0 < sc_u32Num ca" "sc_u32Num ca < BUFCTL_END" "slab_offset ca < BUDDY_PAGE_SIZE"
    "slab_offset ca + sc_u32Num ca * sc_u32ObjSize ca \<le> 2 ^ sc_u32Order ca * BUDDY_PAGE_SIZE"
  using assms by (simp_all add: cache_shape_def)

lemma page_size_pos [simp]: "0 < BUDDY_PAGE_SIZE"
  by (simp add: BUDDY_PAGE_SIZE_def JF_JIUKUN_PAGE_SHIFT_def)

lemma blk_page: "u = (a, k) \<Longrightarrow> x < BUDDY_PAGE_SIZE \<Longrightarrow> a + x \<in> blk u"
proof -
  assume "u = (a, k)" "x < BUDDY_PAGE_SIZE"
  moreover have "1 * BUDDY_PAGE_SIZE \<le> 2 ^ k * BUDDY_PAGE_SIZE" by (intro mult_le_mono1) simp
  ultimately show ?thesis unfolding blk_def by (simp add: less_le_trans)
qed

text \<open>The bytes of an object lie in the block of its slab, and objects of one slab do not overlap.\<close>

lemma object_in_block:
  assumes "cache_shape ca" "slab_at ops held s c ca p sl" "a \<in> objs ca sl"
  shows "{a ..< a + sc_u32ObjSize ca} \<subseteq> blk (slab_block ca sl)" "0 < a"
proof -
  note sh = cache_shapeD [OF assms(1)]
  obtain i where i: "i < sc_u32Num ca" "a = s_pMem sl + i * sc_u32ObjSize ca" using assms(3) by (auto simp: objs_def)
  have "Suc i * sc_u32ObjSize ca \<le> sc_u32Num ca * sc_u32ObjSize ca" using i(1) by (intro mult_le_mono1) simp
  then have "slab_offset ca + i * sc_u32ObjSize ca + sc_u32ObjSize ca \<le> 2 ^ sc_u32Order ca * BUDDY_PAGE_SIZE"
    using sh(5) by simp
  then show "{a ..< a + sc_u32ObjSize ca} \<subseteq> blk (slab_block ca sl)"
    using i(2) assms(2) unfolding slab_at_def blk_def slab_block_def by auto
  show "0 < a" using i(2) assms(2) by (auto simp: slab_at_def slab_block_def)
qed

lemma objects_apart_in_slab:
  assumes "0 < sc_u32ObjSize ca" "a \<in> objs ca sl" "a' \<in> objs ca sl" "a \<noteq> a'"
  shows "{a ..< a + sc_u32ObjSize ca} \<inter> {a' ..< a' + sc_u32ObjSize ca} = {}"
proof -
  have *: "a + sc_u32ObjSize ca \<le> a'" if "a = s_pMem sl + i * sc_u32ObjSize ca" "a' = s_pMem sl + j * sc_u32ObjSize ca" "i < j"
    for i j a a'
  proof -
    have "Suc i * sc_u32ObjSize ca \<le> j * sc_u32ObjSize ca" using that(3) by (intro mult_le_mono1) simp
    then show ?thesis using that(1,2) by simp
  qed
  obtain i j where "a = s_pMem sl + i * sc_u32ObjSize ca" "a' = s_pMem sl + j * sc_u32ObjSize ca"
    using assms(2,3) by (auto simp: objs_def)
  then show ?thesis using * [of a i a' j] * [of a' j a i] assms(4) by (cases i j rule: linorder_cases) auto
qed

text \<open>The blocks of the slabs.\<close>

definition owned :: "'b internal_jiukun_slab \<Rightarrow> (addr \<times> nat) set" where
  "owned s = {u. \<exists>c ca p sl. ijs_scCache s c = Some ca \<and> p \<in> set (slabs_of ca) \<and> ijs_slab s p = Some sl \<and> u = slab_block ca sl}"

text \<open>The blocks in use that are not blocks of slabs.\<close>

definition unowned :: "('b \<Rightarrow> (addr \<times> nat) set) \<Rightarrow> 'b internal_jiukun_slab \<Rightarrow> (addr \<times> nat) set" where
  "unowned held s = held (ijs_buddy s) - owned s"

lemma ownedI: "ijs_scCache s c = Some ca \<Longrightarrow> p \<in> set (slabs_of ca) \<Longrightarrow> ijs_slab s p = Some sl \<Longrightarrow> slab_block ca sl \<in> owned s"
  unfolding owned_def by blast

lemma liveI: "ijs_scCache s c = Some ca \<Longrightarrow> p \<in> set (slabs_of ca) \<Longrightarrow> ijs_slab s p = Some sl \<Longrightarrow> a \<in> objs ca sl \<Longrightarrow> (c, a) \<in> live s"
  unfolding live_def by blast

lemma liveE:
  assumes "(c, a) \<in> live s"
  obtains ca p sl where "ijs_scCache s c = Some ca" "p \<in> set (slabs_of ca)" "ijs_slab s p = Some sl" "a \<in> objs ca sl"
  using assms unfolding live_def by blast

section \<open>Changes that keep the invariant\<close>

text \<open>What an operation on a cache does not change of it.\<close>

definition same_layout :: "slab_cache \<Rightarrow> slab_cache \<Rightarrow> bool" where
  "same_layout ca ca' \<longleftrightarrow> sc_u32ObjSize ca' = sc_u32ObjSize ca \<and> sc_u32Num ca' = sc_u32Num ca \<and> sc_u32Order ca' = sc_u32Order ca \<and>
     sc_jfPage ca' = sc_jfPage ca \<and> sc_pscSlab ca' = sc_pscSlab ca \<and> OFF_SLAB ca' = OFF_SLAB ca"

lemma same_layoutD:
  assumes "same_layout ca ca'"
  shows "sc_u32ObjSize ca' = sc_u32ObjSize ca" "sc_u32Num ca' = sc_u32Num ca" "sc_u32Order ca' = sc_u32Order ca"
    "sc_jfPage ca' = sc_jfPage ca" "sc_pscSlab ca' = sc_pscSlab ca" "OFF_SLAB ca' = OFF_SLAB ca"
    "slab_offset ca' = slab_offset ca" "cache_shape ca' = cache_shape ca"
  using assms by (simp_all add: same_layout_def slab_offset_def mgmt_size_def cache_shape_def)

lemma same_layout_slab:
  assumes "same_layout ca ca'" "s_pMem sl' = s_pMem sl"
  shows "slab_block ca' sl' = slab_block ca sl" "objs ca' sl = objs ca sl"
  using same_layoutD [OF assms(1)] assms(2) by (simp_all add: slab_block_def objs_def)

lemma same_layout_eqs:
  assumes "same_layout ca ca'"
  shows "slab_block ca' = slab_block ca" "objs ca' = objs ca" "cache_shape ca' = cache_shape ca"
    "slab_at ops held s c ca' = slab_at ops held s c ca" "mgmt_ok s ca' = mgmt_ok s ca"
  using same_layoutD [OF assms] by (auto simp: fun_eq_iff slab_block_def objs_def slab_at_def mgmt_ok_def)

lemma same_layout_refl [simp]: "same_layout ca ca"
  by (simp add: same_layout_def)

lemma same_layout_trans: "same_layout a b \<Longrightarrow> same_layout b c \<Longrightarrow> same_layout a c"
  by (simp add: same_layout_def)

text \<open>
  A change to one cache and its slabs that keeps the layout, the set of the slabs and the memory of each of them.
\<close>

definition touches :: "cache_id \<Rightarrow> slab_cache \<Rightarrow> slab_cache \<Rightarrow> 'b internal_jiukun_slab \<Rightarrow> 'b internal_jiukun_slab \<Rightarrow> bool" where
  "touches c ca ca' s s' \<longleftrightarrow> ijs_scCache s c = Some ca \<and> same_layout ca ca' \<and> set (slabs_of ca') = set (slabs_of ca) \<and> distinct (slabs_of ca') \<and>
     (\<forall>q. if q \<in> set (slabs_of ca)
          then \<exists>sl sl'. ijs_slab s q = Some sl \<and> ijs_slab s' q = Some sl' \<and> s_pMem sl' = s_pMem sl \<and> slab_ok (sc_u32Num ca) sl' \<and> in_list ca' q sl'
          else ijs_slab s' q = ijs_slab s q) \<and>
     ijs_scCache s' = (ijs_scCache s)(c \<mapsto> ca') \<and> ijs_page s' = ijs_page s \<and> ijs_buddy s' = ijs_buddy s"

lemma touchesD:
  assumes "touches c ca ca' s s'"
  shows "ijs_scCache s c = Some ca" "same_layout ca ca'" "set (slabs_of ca') = set (slabs_of ca)" "distinct (slabs_of ca')"
    "q \<in> set (slabs_of ca) \<Longrightarrow>
      \<exists>sl sl'. ijs_slab s q = Some sl \<and> ijs_slab s' q = Some sl' \<and> s_pMem sl' = s_pMem sl \<and> slab_ok (sc_u32Num ca) sl' \<and> in_list ca' q sl'"
    "q \<notin> set (slabs_of ca) \<Longrightarrow> ijs_slab s' q = ijs_slab s q"
    "ijs_scCache s' = (ijs_scCache s)(c \<mapsto> ca')" "ijs_page s' = ijs_page s" "ijs_buddy s' = ijs_buddy s"
  using assms unfolding touches_def by (simp_all split: if_splits) metis

lemma touches_internal:
  assumes "touches c ca ca' s s'"
  shows "internal s' = internal s"
proof -
  note t = touchesD [OF assms] and l = same_layoutD [OF touchesD(2) [OF assms]]
  have "(\<exists>d da. ijs_scCache s' d = Some da \<and> OFF_SLAB da \<and> sc_pscSlab da = Some m \<and> p \<in> set (slabs_of da)) \<longleftrightarrow>
    (\<exists>d da. ijs_scCache s d = Some da \<and> OFF_SLAB da \<and> sc_pscSlab da = Some m \<and> p \<in> set (slabs_of da))" for m p
    unfolding t(7) using t(1,3) l(5,6) by (metis fun_upd_apply option.inject)
  moreover have "ijs_scCache s' (Cache a) \<noteq> None \<longleftrightarrow> ijs_scCache s (Cache a) \<noteq> None" for a
    unfolding t(7) using t(1) by simp
  ultimately show ?thesis unfolding internal_def by simp
qed

lemma touches_mgmt:
  assumes "touches c ca ca' s s'" "mgmt_ok s da"
  shows "mgmt_ok s' da"
proof -
  note t = touchesD [OF assms(1)] and l = same_layoutD [OF touchesD(2) [OF assms(1)]]
  show ?thesis using assms(2) unfolding mgmt_ok_def t(7) using t(1) l(6) by auto
qed

context page_provider
begin

lemma mark_of_object:
  assumes "slab_inv ops pok held s" "ijs_scCache s c = Some ca" "p \<in> set (slabs_of ca)" "ijs_slab s p = Some sl"
    "x \<in> blk (slab_block ca sl)"
  shows "Option.bind (po_page ops (ijs_buddy s) x) (ijs_page s) = Some (c, p)"
  using cache_okD(4) [OF slab_invD(2) [OF assms(1,2)] assms(3)] assms(4,5) by (auto simp: slab_at_def)

lemma pMem_in_block: "cache_shape ca \<Longrightarrow> slab_offset ca \<le> s_pMem sl \<Longrightarrow> s_pMem sl \<in> blk (slab_block ca sl)"
  using blk_page [of "slab_block ca sl" "s_pMem sl - slab_offset ca" "sc_u32Order ca" "slab_offset ca"] cache_shapeD(4)
  by (simp add: slab_block_def)

lemma slab_owner:
  assumes "slab_inv ops pok held s" "ijs_scCache s c = Some ca" "p \<in> set (slabs_of ca)"
    "ijs_scCache s c' = Some ca'" "p \<in> set (slabs_of ca')"
  shows "c' = c"
proof -
  note k = slab_invD(2) [OF assms(1)]
  obtain sl where sl: "ijs_slab s p = Some sl" "slab_at ops held s c ca p sl" using cache_okD(4) [OF k [OF assms(2)] assms(3)] by blast
  then have sl': "slab_at ops held s c' ca' p sl" using cache_okD(4) [OF k [OF assms(4)] assms(5)] by auto
  have "s_pMem sl \<in> blk (slab_block ca sl)" "s_pMem sl \<in> blk (slab_block ca' sl)"
    using sl(2) sl' cache_okD(1) [OF k] assms(2,4) by (auto intro!: pMem_in_block simp: slab_at_def)
  then show ?thesis
    using mark_of_object [OF assms(1-3) sl(1), of "s_pMem sl"] mark_of_object [OF assms(1,4,5) sl(1), of "s_pMem sl"] by simp
qed

text \<open>The bytes of two objects in use do not overlap.\<close>

lemma live_apart:
  assumes inv: "slab_inv ops pok held s" and ca: "ijs_scCache s c = Some ca" "(c, a) \<in> live s"
    and ca': "ijs_scCache s c' = Some ca'" "(c', a') \<in> live s"
    and x: "x \<in> {a ..< a + sc_u32ObjSize ca}" "x \<in> {a' ..< a' + sc_u32ObjSize ca'}"
  shows "c = c' \<and> a = a'"
proof -
  note k = slab_invD(2) [OF inv]
  obtain p sl where p: "p \<in> set (slabs_of ca)" "ijs_slab s p = Some sl" "a \<in> objs ca sl"
    using ca by (auto elim: liveE)
  obtain p' sl' where p': "p' \<in> set (slabs_of ca')" "ijs_slab s p' = Some sl'" "a' \<in> objs ca' sl'"
    using ca' by (auto elim: liveE)
  have "slab_at ops held s c ca p sl" "slab_at ops held s c' ca' p' sl'"
    using cache_okD(4) [OF k [OF ca(1)] p(1)] cache_okD(4) [OF k [OF ca'(1)] p'(1)] p(2) p'(2) by auto
  then have "x \<in> blk (slab_block ca sl)" "x \<in> blk (slab_block ca' sl')"
    using object_in_block(1) cache_okD(1) [OF k] ca(1) ca'(1) p(3) p'(3) x by blast+
  then have "(c, p) = (c', p')"
    using mark_of_object [OF inv ca(1) p(1,2), of x] mark_of_object [OF inv ca'(1) p'(1,2), of x] by simp
  then show ?thesis
    using objects_apart_in_slab [of ca a sl a'] cache_shapeD(1) [OF cache_okD(1) [OF k [OF ca(1)]]] p p' ca(1) ca'(1) x by auto
qed

lemma live_cache: "(c, a) \<in> live s \<Longrightarrow> slab_inv ops pok held s \<Longrightarrow> \<exists>ca. ijs_scCache s c = Some ca \<and> 0 < sc_u32ObjSize ca \<and> 0 < a"
proof (erule liveE)
  fix ca p sl
  assume "slab_inv ops pok held s" "ijs_scCache s c = Some ca" "p \<in> set (slabs_of ca)" "ijs_slab s p = Some sl" "a \<in> objs ca sl"
  then show ?thesis
    using cache_okD(1,4) [OF slab_invD(2)] cache_shapeD(1) object_in_block(2) by (metis option.inject)
qed

lemma live_address:
  assumes "slab_inv ops pok held s" "(c, a) \<in> live s" "(c', a) \<in> live s"
  shows "c' = c"
  using live_apart [OF assms(1) _ assms(2) _ assms(3), of _ _ a] live_cache [OF assms(2,1)] live_cache [OF assms(3,1)] by auto

lemma touches_inv:
  assumes inv: "slab_inv ops pok held s" and t: "touches c ca ca' s s'" and int: "internal s \<subseteq> live s'"
  shows "slab_inv ops pok held s'" "owned s' = owned s"
proof -
  note k = slab_invD [OF inv] and d = touchesD [OF t] and l = same_layoutD [OF touchesD(2) [OF t]]
  have at: "slab_at ops held s' e ea q sl' \<longleftrightarrow> slab_at ops held s e ea q sl'" for e ea q sl' using d(8,9) by (simp add: slab_at_def)
  have other: "ijs_slab s' q = ijs_slab s q" if "ijs_scCache s e = Some ea" "q \<in> set (slabs_of ea)" "e \<noteq> c" for e ea q
    using slab_owner [OF inv d(1) _ that(1,2)] that(3) d(6) by blast
  have "cache_ok ops held s' e ea \<and> mgmt_ok s' ea" if e: "ijs_scCache s' e = Some ea" for e ea
  proof (cases "e = c")
    case True
    then have ea: "ea = ca'" using e d(7) by simp
    note ok = k(2) [OF d(1)]
    have "\<exists>sl. ijs_slab s' p = Some sl \<and> slab_at ops held s' e ca' p sl \<and> in_list ca' p sl" if p: "p \<in> set (slabs_of ca)" for p
    proof -
      obtain sl sl' where sl: "ijs_slab s p = Some sl" "ijs_slab s' p = Some sl'" "s_pMem sl' = s_pMem sl"
        "slab_ok (sc_u32Num ca) sl'" "in_list ca' p sl'" using d(5) [OF p] by blast
      have "slab_at ops held s c ca p sl" using cache_okD(4) [OF ok p] sl(1) by auto
      then have "slab_at ops held s e ca' p sl'"
        using sl(3,4) same_layout_slab(1) [OF d(2) sl(3)] l True by (simp add: slab_at_def)
      then show ?thesis using sl(2,5) at by blast
    qed
    then have "cache_ok ops held s' e ca'" using cache_okD(1,2) [OF ok] l d(3,4) by (simp add: cache_ok_def)
    moreover have "mgmt_ok s ca'" using k(3) [OF d(1)] l by (simp add: mgmt_ok_def)
    ultimately show ?thesis using touches_mgmt [OF t] ea by blast
  next
    case False
    then have e: "ijs_scCache s e = Some ea" using e d(7) by simp
    note ok = k(2) [OF e]
    have "cache_ok ops held s' e ea" using ok other [OF e _ False] at by (simp add: cache_ok_def)
    then show ?thesis using touches_mgmt [OF t k(3) [OF e]] by blast
  qed
  moreover have "\<exists>cc. ijs_scCache s' Cache_cache = Some cc \<and> \<not> OFF_SLAB cc" using k(5) d(1,7) l(6) by (cases "c = Cache_cache") auto
  moreover have "internal s' \<subseteq> live s'" using int touches_internal [OF t] by simp
  ultimately show "slab_inv ops pok held s'" using k(1) d(9) by (simp add: slab_inv_def)
  show "owned s' = owned s"
  proof (intro equalityI subsetI)
    fix u
    assume "u \<in> owned s'"
    then obtain e ea p sl where u: "ijs_scCache s' e = Some ea" "p \<in> set (slabs_of ea)" "ijs_slab s' p = Some sl" "u = slab_block ea sl"
      unfolding owned_def by blast
    show "u \<in> owned s"
    proof (cases "e = c")
      case True
      then have "ea = ca'" using u(1) d(7) by simp
      then show ?thesis using u d(1,3) d(5) [of p] same_layout_slab(1) [OF d(2)] ownedI by (metis option.inject)
    next
      case False
      then show ?thesis using u d(7) other ownedI by (metis fun_upd_apply)
    qed
  next
    fix u
    assume "u \<in> owned s"
    then obtain e ea p sl where u: "ijs_scCache s e = Some ea" "p \<in> set (slabs_of ea)" "ijs_slab s p = Some sl" "u = slab_block ea sl"
      unfolding owned_def by blast
    show "u \<in> owned s'"
    proof (cases "e = c")
      case True
      then have "ea = ca" using u(1) d(1) by simp
      then show ?thesis
        using u d(1,3,7) d(5) [of p] same_layout_slab(1) [OF d(2)] ownedI [of s' c ca' p] by (metis fun_upd_same option.inject)
    next
      case False
      then show ?thesis using u d(7) other ownedI by (metis fun_upd_apply)
    qed
  qed
qed

end

end
