(* ===== verification/Jf_Slab_Alloc.thy ===== *)
theory Jf_Slab_Alloc
  imports Jf_Slab_Inv
begin

text \<open>
  Allocation and release of objects over a page allocator that keeps the contract \<open>page_provider\<close>: both keep the invariant of
  \<open>Jf_Slab_Inv\<close>, an allocation gives an object that was not in use, and a release takes away exactly the object released.
\<close>

section \<open>Flags and lists of a cache\<close>

text \<open>The marks of growth and locking are apart from the other flags.\<close>

definition same_flags :: "slab_cache \<Rightarrow> slab_cache \<Rightarrow> bool" where
  "same_flags ca ca' \<longleftrightarrow> (\<forall>f. f \<noteq> SC_FLAG_GROWN \<longrightarrow> f \<noteq> SC_FLAG_LOCKED \<longrightarrow> JF_FLAG_GET (sc_jfCache ca') f = JF_FLAG_GET (sc_jfCache ca) f)"

lemma same_flagsD:
  assumes "same_flags ca ca'"
  shows "OFF_SLAB ca' = OFF_SLAB ca" "JF_FLAG_GET (sc_jfCache ca') SC_FLAG_DESTROY = JF_FLAG_GET (sc_jfCache ca) SC_FLAG_DESTROY"
    "JF_FLAG_GET (sc_jfCache ca') JF_JIUKUN_CACHE_CREATE_FLAG_WAIT = JF_FLAG_GET (sc_jfCache ca) JF_JIUKUN_CACHE_CREATE_FLAG_WAIT"
  using assms by (simp_all add: same_flags_def OFF_SLAB_def SC_FLAG_OFF_SLAB_def SC_FLAG_DESTROY_def SC_FLAG_GROWN_def SC_FLAG_LOCKED_def
      JF_JIUKUN_CACHE_CREATE_FLAG_WAIT_def)

lemma same_flags_set:
  assumes "f = SC_FLAG_GROWN \<or> f = SC_FLAG_LOCKED"
  shows "same_flags ca (ca\<lparr>sc_jfCache := JF_FLAG_SET (sc_jfCache ca) f\<rparr>)" "same_flags ca (ca\<lparr>sc_jfCache := JF_FLAG_CLEAR (sc_jfCache ca) f\<rparr>)"
  using assms by (auto simp: same_flags_def JF_FLAG_GET_bit bit_char dest: bit_imp_le_length)

lemma same_flags_refl [simp]: "same_flags ca ca" by (simp add: same_flags_def)

lemma same_flags_trans: "same_flags a b \<Longrightarrow> same_flags b c \<Longrightarrow> same_flags a c" by (simp add: same_flags_def)

lemma slabs_of_delSlab:
  assumes "distinct (slabs_of ca)"
  shows "distinct (slabs_of (delSlab p ca))" "set (slabs_of (delSlab p ca)) = set (slabs_of ca) - {p}"
    "set (sc_jlFull (delSlab p ca)) = set (sc_jlFull ca) - {p}" "set (sc_jlPartial (delSlab p ca)) = set (sc_jlPartial ca) - {p}"
    "set (sc_jlFree (delSlab p ca)) = set (sc_jlFree ca) - {p}"
  using assms by (auto simp: slabs_of_def delSlab_def distinct_remove1 set_remove1_eq)

text \<open>A slab is moved to the front of a list.\<close>

datatype slab_list = Full | Partial | Free

definition moveSlab :: "slab_list \<Rightarrow> addr \<Rightarrow> slab_cache \<Rightarrow> slab_cache" where
  "moveSlab l p ca =
     (case l of
        Full \<Rightarrow> (delSlab p ca)\<lparr>sc_jlFull := p # sc_jlFull (delSlab p ca)\<rparr>
      | Partial \<Rightarrow> (delSlab p ca)\<lparr>sc_jlPartial := p # sc_jlPartial (delSlab p ca)\<rparr>
      | Free \<Rightarrow> (delSlab p ca)\<lparr>sc_jlFree := p # sc_jlFree (delSlab p ca)\<rparr>)"

definition fits :: "slab_list \<Rightarrow> slab_cache \<Rightarrow> slab \<Rightarrow> bool" where
  "fits l ca sl \<longleftrightarrow> (case l of Full \<Rightarrow> s_u32InUse sl = sc_u32Num ca | Partial \<Rightarrow> s_u32InUse sl < sc_u32Num ca | Free \<Rightarrow> s_u32InUse sl = 0)"

lemma moveSlab_fun:
  "moveSlab Full p = (\<lambda>ca. (delSlab p ca)\<lparr>sc_jlFull := p # sc_jlFull (delSlab p ca)\<rparr>)"
  "moveSlab Partial p = (\<lambda>ca. (delSlab p ca)\<lparr>sc_jlPartial := p # sc_jlPartial (delSlab p ca)\<rparr>)"
  "moveSlab Free p = (\<lambda>ca. (delSlab p ca)\<lparr>sc_jlFree := p # sc_jlFree (delSlab p ca)\<rparr>)"
  by (simp_all add: fun_eq_iff moveSlab_def)

lemma delSlab_simps [simp]:
  "sc_u32ObjSize (delSlab p ca) = sc_u32ObjSize ca" "sc_u32Num (delSlab p ca) = sc_u32Num ca" "sc_u32Order (delSlab p ca) = sc_u32Order ca"
  "sc_jfPage (delSlab p ca) = sc_jfPage ca" "sc_pscSlab (delSlab p ca) = sc_pscSlab ca" "sc_jfCache (delSlab p ca) = sc_jfCache ca"
  by (simp_all add: delSlab_def)

lemma moveSlab_layout: "same_layout ca (moveSlab l p ca)" "same_flags ca (moveSlab l p ca)"
  by (cases l; simp add: moveSlab_def same_layout_def OFF_SLAB_def same_flags_def)+

lemma moveSlab_slabs:
  assumes "distinct (slabs_of ca)" "p \<in> set (slabs_of ca)"
  shows "distinct (slabs_of (moveSlab l p ca))" "set (slabs_of (moveSlab l p ca)) = set (slabs_of ca)"
proof -
  note d = slabs_of_delSlab [OF assms(1), of p]
  have "p \<notin> set (slabs_of (delSlab p ca))" using d(2) by simp
  then show "distinct (slabs_of (moveSlab l p ca))"
    using d(1) by (cases l) (auto simp: moveSlab_def slabs_of_def)
  have "set (slabs_of (moveSlab l p ca)) = insert p (set (slabs_of (delSlab p ca)))"
    by (cases l) (auto simp: moveSlab_def slabs_of_def)
  then show "set (slabs_of (moveSlab l p ca)) = set (slabs_of ca)" using d(2) assms(2) by auto
qed

lemma moveSlab_in_list:
  assumes "distinct (slabs_of ca)"
  shows "q \<noteq> p \<Longrightarrow> in_list ca q sl \<Longrightarrow> in_list (moveSlab l p ca) q sl" "fits l ca sl \<Longrightarrow> in_list (moveSlab l p ca) p sl"
  using slabs_of_delSlab(3-5) [OF assms, of p]
  by (cases l; simp add: moveSlab_def in_list_def fits_def)+

section \<open>Objects in use after a change\<close>

definition updBoth :: "cache_id \<Rightarrow> (slab_cache \<Rightarrow> slab_cache) \<Rightarrow> addr \<Rightarrow> slab \<Rightarrow> 'b internal_jiukun_slab \<Rightarrow> 'b internal_jiukun_slab" where
  "updBoth c f p sl s = updCache c f (updSlab p (\<lambda>_. sl) s)"

lemma updCache_simps [simp]:
  "ijs_bInitialized (updCache c f s) = ijs_bInitialized s" "ijs_slab (updCache c f s) = ijs_slab s" "ijs_page (updCache c f s) = ijs_page s"
  "ijs_u32OffSlabLimit (updCache c f s) = ijs_u32OffSlabLimit s" "ijs_gcGeneral (updCache c f s) = ijs_gcGeneral s"
  "ijs_jlNext (updCache c f s) = ijs_jlNext s" "ijs_buddy (updCache c f s) = ijs_buddy s"
  by (simp_all add: updCache_def)

lemma updSlab_simps [simp]:
  "ijs_bInitialized (updSlab p g s) = ijs_bInitialized s" "ijs_scCache (updSlab p g s) = ijs_scCache s" "ijs_page (updSlab p g s) = ijs_page s"
  "ijs_u32OffSlabLimit (updSlab p g s) = ijs_u32OffSlabLimit s" "ijs_gcGeneral (updSlab p g s) = ijs_gcGeneral s"
  "ijs_jlNext (updSlab p g s) = ijs_jlNext s" "ijs_buddy (updSlab p g s) = ijs_buddy s"
  by (simp_all add: updSlab_def)

lemma updCache_cache: "ijs_scCache s c = Some ca \<Longrightarrow> ijs_scCache (updCache c f s) = (ijs_scCache s)(c \<mapsto> f ca)"
  by (simp add: updCache_def)

lemma updSlab_slab: "ijs_slab s p = Some sl \<Longrightarrow> ijs_slab (updSlab p g s) = (ijs_slab s)(p \<mapsto> g sl)"
  by (simp add: updSlab_def)

lemma updSlab_same [simp]: "ijs_slab s p = Some sl \<Longrightarrow> updSlab p (\<lambda>_. sl) s = s"
  by (simp add: updSlab_def fun_upd_idem)

lemma updBoth_simps [simp]:
  "ijs_bInitialized (updBoth c f p sl s) = ijs_bInitialized s" "ijs_page (updBoth c f p sl s) = ijs_page s"
  "ijs_u32OffSlabLimit (updBoth c f p sl s) = ijs_u32OffSlabLimit s" "ijs_gcGeneral (updBoth c f p sl s) = ijs_gcGeneral s"
  "ijs_jlNext (updBoth c f p sl s) = ijs_jlNext s" "ijs_buddy (updBoth c f p sl s) = ijs_buddy s"
  by (simp_all add: updBoth_def)

lemma ex_upd: "p \<in> S \<Longrightarrow> (\<exists>q\<in>S. \<exists>x. (m(p \<mapsto> v)) q = Some x \<and> P x) \<longleftrightarrow> P v \<or> (\<exists>q\<in>S. q \<noteq> p \<and> (\<exists>x. m q = Some x \<and> P x))"
  by (auto split: if_splits)

lemma ex_at: "p \<in> S \<Longrightarrow> m p = Some v \<Longrightarrow> (\<exists>q\<in>S. \<exists>x. m q = Some x \<and> P x) \<longleftrightarrow> P v \<or> (\<exists>q\<in>S. q \<noteq> p \<and> (\<exists>x. m q = Some x \<and> P x))"
  by (metis option.inject)

context page_provider
begin

lemma updBoth_touches:
  assumes inv: "slab_inv ops pok held s" and ca: "ijs_scCache s c = Some ca" and p: "p \<in> set (slabs_of ca)" "ijs_slab s p = Some sl"
    and sl': "slab_ok (sc_u32Num ca) sl'" "s_pMem sl' = s_pMem sl" "fits l ca sl'"
  shows "touches c ca (moveSlab l p ca) s (updBoth c (moveSlab l p) p sl' s)"
proof -
  note ok = slab_invD(2) [OF inv ca]
  note m = moveSlab_slabs [OF cache_okD(3) [OF ok] p(1), of l] and i = moveSlab_in_list [OF cache_okD(3) [OF ok], where l = l and p = p]
  let ?s = "updBoth c (moveSlab l p) p sl' s"
  have slab: "ijs_slab ?s = (ijs_slab s)(p \<mapsto> sl')" using p(2) by (simp add: updBoth_def updSlab_slab)
  have caches: "ijs_scCache ?s = (ijs_scCache s)(c \<mapsto> moveSlab l p ca)" using ca by (simp add: updBoth_def updCache_cache)
  have "\<exists>sl1 sl2. ijs_slab s q = Some sl1 \<and> ijs_slab ?s q = Some sl2 \<and> s_pMem sl2 = s_pMem sl1 \<and> slab_ok (sc_u32Num ca) sl2 \<and>
      in_list (moveSlab l p ca) q sl2" if q: "q \<in> set (slabs_of ca)" for q
  proof (cases "q = p")
    case True
    then show ?thesis using slab p(2) sl' i(2) by auto
  next
    case False
    then show ?thesis using cache_okD(4) [OF ok q] slab i(1) by (auto simp: slab_at_def)
  qed
  moreover have "ijs_slab ?s q = ijs_slab s q" if "q \<notin> set (slabs_of ca)" for q using that p(1) slab by auto
  ultimately show ?thesis using ca moveSlab_layout m caches by (simp add: touches_def)
qed

lemma touches_live:
  assumes inv: "slab_inv ops pok held s" and t: "touches c ca ca' s s'"
  shows "(d, a) \<in> live s' \<longleftrightarrow> (if d = c then \<exists>q\<in>set (slabs_of ca). \<exists>sl. ijs_slab s' q = Some sl \<and> a \<in> objs ca sl else (d, a) \<in> live s)"
proof (cases "d = c")
  case True
  note k = touchesD [OF t]
  have "objs ca' sl = objs ca sl" for sl using same_layout_slab(2) [OF k(2), of sl sl] by simp
  then show ?thesis using True k(3,7) by (auto simp: live_def)
next
  case False
  note k = touchesD [OF t]
  have "ijs_slab s' q = ijs_slab s q" if "ijs_scCache s d = Some da" "q \<in> set (slabs_of da)" for q da
    using slab_owner [OF inv k(1) _ that] False k(6) by blast
  moreover have "ijs_scCache s' d = ijs_scCache s d" using False k(7) by simp
  ultimately have "(d, a) \<in> live s' \<longleftrightarrow> (d, a) \<in> live s" unfolding live_def by (auto; metis)
  then show ?thesis using False by simp
qed

lemma live_iff:
  "ijs_scCache s c = Some ca \<Longrightarrow> (c, b) \<in> live s \<longleftrightarrow> (\<exists>q\<in>set (slabs_of ca). \<exists>sl. ijs_slab s q = Some sl \<and> b \<in> objs ca sl)"
  unfolding live_def by auto

lemma touches_live_same:
  assumes "slab_inv ops pok held s" "touches c ca ca' s s'" "ijs_slab s' = ijs_slab s"
  shows "live s' = live s"
proof (intro set_eqI, clarify)
  fix d b
  show "(d, b) \<in> live s' \<longleftrightarrow> (d, b) \<in> live s"
    unfolding touches_live [OF assms(1,2), of d b] assms(3) using live_iff [OF touchesD(1) [OF assms(2)], of b] by simp
qed

lemma touches_live_add:
  assumes "slab_inv ops pok held s" "touches c ca ca' s s'" "ijs_slab s' = (ijs_slab s)(p \<mapsto> sl')"
    "p \<in> set (slabs_of ca)" "ijs_slab s p = Some sl" "objs ca sl' = insert a (objs ca sl)"
  shows "live s' = insert (c, a) (live s)"
proof (intro set_eqI, clarify)
  fix d b
  have "(\<exists>q\<in>set (slabs_of ca). \<exists>sl. ijs_slab s' q = Some sl \<and> b \<in> objs ca sl) \<longleftrightarrow>
    b = a \<or> (\<exists>q\<in>set (slabs_of ca). \<exists>sl. ijs_slab s q = Some sl \<and> b \<in> objs ca sl)"
    unfolding assms(3) ex_upd [OF assms(4)] ex_at [where m = "ijs_slab s", OF assms(4,5)] assms(6) by blast
  then show "(d, b) \<in> live s' \<longleftrightarrow> (d, b) \<in> insert (c, a) (live s)"
    using touches_live [OF assms(1,2), of d b] live_iff [OF touchesD(1) [OF assms(2)], of b] by simp
qed

lemma touches_live_del:
  assumes "slab_inv ops pok held s" "touches c ca ca' s s'" "ijs_slab s' = (ijs_slab s)(p \<mapsto> sl')"
    "p \<in> set (slabs_of ca)" "ijs_slab s p = Some sl" "objs ca sl' = objs ca sl - {a}" "a \<in> objs ca sl"
  shows "live s' = live s - {(c, a)}"
proof (intro set_eqI, clarify)
  fix d b
  note k = slab_invD(2) [OF assms(1) touchesD(1) [OF assms(2)]] and ca = touchesD(1) [OF assms(2)]
  have only: "q = p" if "q \<in> set (slabs_of ca)" "ijs_slab s q = Some sl2" "a \<in> objs ca sl2" for q sl2
  proof -
    have "slab_at ops held s c ca p sl" "slab_at ops held s c ca q sl2"
      using cache_okD(4) [OF k assms(4)] cache_okD(4) [OF k that(1)] assms(5) that(2) by auto
    then have "a \<in> blk (slab_block ca sl)" "a \<in> blk (slab_block ca sl2)"
      using object_in_block(1) [OF cache_okD(1) [OF k]] assms(7) that(3) cache_shapeD(1) [OF cache_okD(1) [OF k]] by fastforce+
    then show ?thesis
      using mark_of_object [OF assms(1) ca assms(4,5), of a] mark_of_object [OF assms(1) ca that(1,2), of a] by simp
  qed
  have "(\<exists>q\<in>set (slabs_of ca). \<exists>sl. ijs_slab s' q = Some sl \<and> b \<in> objs ca sl) \<longleftrightarrow>
    b \<noteq> a \<and> (\<exists>q\<in>set (slabs_of ca). \<exists>sl. ijs_slab s q = Some sl \<and> b \<in> objs ca sl)"
    unfolding assms(3) ex_upd [OF assms(4)] ex_at [where m = "ijs_slab s", OF assms(4,5)] assms(6) using only by blast
  then show "(d, b) \<in> live s' \<longleftrightarrow> (d, b) \<in> live s - {(c, a)}"
    using touches_live [OF assms(1,2), of d b] live_iff [OF ca, of b] by (cases "d = c") (simp_all add: conj_commute)
qed

end

section \<open>Changes between states\<close>

definition same_cache :: "slab_cache \<Rightarrow> slab_cache \<Rightarrow> bool" where
  "same_cache ca ca' \<longleftrightarrow> same_layout ca ca' \<and> same_flags ca ca'"

text \<open>An operation on objects keeps the caches, their layout and flags.\<close>

definition frame :: "'b internal_jiukun_slab \<Rightarrow> 'b internal_jiukun_slab \<Rightarrow> bool" where
  "frame s s' \<longleftrightarrow> ijs_bInitialized s' = ijs_bInitialized s \<and> ijs_u32OffSlabLimit s' = ijs_u32OffSlabLimit s \<and> ijs_gcGeneral s' = ijs_gcGeneral s \<and>
     ijs_jlNext s' = ijs_jlNext s \<and> (\<forall>d. rel_option same_cache (ijs_scCache s d) (ijs_scCache s' d))"

lemma same_cache_refl [simp]: "same_cache ca ca" by (simp add: same_cache_def)

lemma same_cache_trans: "same_cache a b \<Longrightarrow> same_cache b c \<Longrightarrow> same_cache a c"
  using same_layout_trans same_flags_trans by (auto simp: same_cache_def)

lemma frame_refl [simp]: "frame s s"
  by (simp add: frame_def option.rel_refl)

lemma frame_trans:
  assumes "frame s s'" "frame s' s''"
  shows "frame s s''"
proof -
  have "rel_option same_cache (ijs_scCache s d) (ijs_scCache s'' d)" for d
  proof -
    have "rel_option same_cache (ijs_scCache s d) (ijs_scCache s' d)" "rel_option same_cache (ijs_scCache s' d) (ijs_scCache s'' d)"
      using assms by (simp_all add: frame_def)
    then show ?thesis by (auto simp: option_rel_Some1 option_rel_Some2 elim!: option.rel_cases intro: same_cache_trans)
  qed
  then show ?thesis using assms by (simp add: frame_def)
qed

lemma frameD:
  assumes "frame s s'" "ijs_scCache s c = Some ca"
  obtains ca' where "ijs_scCache s' c = Some ca'" "same_layout ca ca'" "same_flags ca ca'"
proof -
  have "rel_option same_cache (ijs_scCache s c) (ijs_scCache s' c)" using assms(1) by (simp add: frame_def)
  then show ?thesis using assms(2) that by (cases "ijs_scCache s' c") (auto simp: same_cache_def)
qed

lemma frameI_upd:
  assumes "ijs_scCache s c = Some ca" "same_cache ca ca'" "ijs_scCache s' = (ijs_scCache s)(c \<mapsto> ca')"
    "ijs_bInitialized s' = ijs_bInitialized s" "ijs_u32OffSlabLimit s' = ijs_u32OffSlabLimit s" "ijs_gcGeneral s' = ijs_gcGeneral s"
    "ijs_jlNext s' = ijs_jlNext s"
  shows "frame s s'"
  using assms by (simp add: frame_def option.rel_refl)

context page_provider
begin

section \<open>Marks of pages\<close>

lemma marked_block:
  fixes m s
  assumes ok: "pok b" and u: "(x, k) \<in> held b" and y0: "x \<le> y0" "y0 < x + BUDDY_PAGE_SIZE" "po_page ops b y0 = Some page"
  defines "s' \<equiv> markPages page (2 ^ k) m s"
  shows "y \<in> blk (x, k) \<Longrightarrow> Option.bind (po_page ops b y) (ijs_page s') = m"
    and "v \<in> held b \<Longrightarrow> v \<noteq> (x, k) \<Longrightarrow> y \<in> blk v \<Longrightarrow> Option.bind (po_page ops b y) (ijs_page s') = Option.bind (po_page ops b y) (ijs_page s)"
proof -
  obtain z p where zp: "\<And>j. j < 2 ^ k * BUDDY_PAGE_SIZE \<Longrightarrow> po_page ops b (x + j) = Some (z, p + j div BUDDY_PAGE_SIZE)"
    using block_pages [OF ok u] by blast
  have "1 * BUDDY_PAGE_SIZE \<le> 2 ^ k * BUDDY_PAGE_SIZE" by (intro mult_le_mono1) simp
  then have "y0 - x < 2 ^ k * BUDDY_PAGE_SIZE" using y0(1,2) by linarith
  then have page: "page = (z, p)" using zp [of "y0 - x"] y0 by simp
  show "Option.bind (po_page ops b y) (ijs_page s') = m" if y: "y \<in> blk (x, k)"
  proof -
    have j: "y - x < 2 ^ k * BUDDY_PAGE_SIZE" "y = x + (y - x)" using y by (auto simp: blk_def)
    then have "(y - x) div BUDDY_PAGE_SIZE < 2 ^ k" by (simp add: less_mult_imp_div_less)
    then show ?thesis using zp [OF j(1)] j(2) by (simp add: s'_def markPages_def page)
  qed
  show "Option.bind (po_page ops b y) (ijs_page s') = Option.bind (po_page ops b y) (ijs_page s)"
    if v: "v \<in> held b" "v \<noteq> (x, k)" "y \<in> blk v"
  proof (cases "po_page ops b y")
    case (Some q)
    have "\<not> (fst q = z \<and> p \<le> snd q \<and> snd q < p + 2 ^ k)"
    proof
      assume q: "fst q = z \<and> p \<le> snd q \<and> snd q < p + 2 ^ k"
      define j where "j = (snd q - p) * BUDDY_PAGE_SIZE"
      have "j < 2 ^ k * BUDDY_PAGE_SIZE" unfolding j_def using q by (intro mult_less_mono1) auto
      moreover from this have "po_page ops b (x + j) = Some q" using zp q by (simp add: j_def prod_eq_iff)
      moreover from calculation have "x + j \<in> blk (x, k)" by (simp add: blk_def)
      ultimately show False using blocks_apart [OF ok v(1) u v(2)] v(3) Some by fastforce
    qed
    then show ?thesis by (auto simp: Some s'_def markPages_def page)
  qed simp
qed

end

section \<open>A new slab\<close>

text \<open>The state \<open>s'\<close> has one more slab \<open>p\<close>, in the block at \<open>x\<close>, which no slab owned.\<close>

definition new_slab ::
  "'b page_ops \<Rightarrow> ('b \<Rightarrow> (addr \<times> nat) set) \<Rightarrow> cache_id \<Rightarrow> slab_cache \<Rightarrow> addr \<Rightarrow> addr \<Rightarrow> slab \<Rightarrow> 'b internal_jiukun_slab \<Rightarrow> 'b internal_jiukun_slab \<Rightarrow> bool" where
  "new_slab ops held c ca x p sl s s' \<longleftrightarrow> ijs_scCache s c = Some ca \<and>
     (x, sc_u32Order ca) \<in> held (ijs_buddy s) - owned s \<and> 0 < x \<and>
     slab_ok (sc_u32Num ca) sl \<and> objs ca sl = {} \<and> s_u32InUse sl = 0 \<and> s_pMem sl = x + slab_offset ca \<and>
     (\<forall>d da. ijs_scCache s d = Some da \<longrightarrow> p \<notin> set (slabs_of da)) \<and>
     (if OFF_SLAB ca then \<exists>m. sc_pscSlab ca = Some m \<and> (m, p) \<in> live s else p = x) \<and>
     ijs_scCache s' = (ijs_scCache s)(c \<mapsto> ca\<lparr>sc_jlFree := sc_jlFree ca @ [p]\<rparr>) \<and> ijs_slab s' = (ijs_slab s)(p \<mapsto> sl) \<and>
     (\<exists>page. po_page ops (ijs_buddy s) x = Some page \<and> ijs_page s' = ijs_page (markPages page (2 ^ sc_u32Order ca) (Some (c, p)) s)) \<and>
     ijs_buddy s' = ijs_buddy s"

lemma new_slab_layout:
  "same_layout ca (ca\<lparr>sc_jlFree := sc_jlFree ca @ [p]\<rparr>)" "slabs_of (ca\<lparr>sc_jlFree := sc_jlFree ca @ [p]\<rparr>) = slabs_of ca @ [p]"
  by (simp_all add: same_layout_def OFF_SLAB_def slabs_of_def)

lemma new_slabD:
  assumes "new_slab ops held c ca x p sl s s'"
  shows "ijs_scCache s c = Some ca" "\<And>d da. ijs_scCache s d = Some da \<Longrightarrow> p \<notin> set (slabs_of da)"
    "ijs_scCache s' = (ijs_scCache s)(c \<mapsto> ca\<lparr>sc_jlFree := sc_jlFree ca @ [p]\<rparr>)" "ijs_slab s' = (ijs_slab s)(p \<mapsto> sl)"
    "ijs_buddy s' = ijs_buddy s" "objs ca sl = {}" "slab_block ca sl = (x, sc_u32Order ca)"
    "\<And>d da q. ijs_scCache s d = Some da \<Longrightarrow> q \<in> set (slabs_of da) \<Longrightarrow> ijs_slab s' q = ijs_slab s q"
    "if OFF_SLAB ca then \<exists>m. sc_pscSlab ca = Some m \<and> (m, p) \<in> live s else p = x"
  using assms by (auto simp: new_slab_def slab_block_def)

text \<open>What the slabs of a state say about it, when those of another state are the same but for a new one.\<close>

lemma new_slab_slabs:
  assumes "new_slab ops held c ca x p sl s s'"
  shows "(\<exists>da q sl. ijs_scCache s' d = Some da \<and> q \<in> set (slabs_of da) \<and> ijs_slab s' q = Some sl \<and> P (objs da sl) (slab_block da sl)) \<longleftrightarrow>
    (\<exists>da q sl. ijs_scCache s d = Some da \<and> q \<in> set (slabs_of da) \<and> ijs_slab s q = Some sl \<and> P (objs da sl) (slab_block da sl)) \<or>
    d = c \<and> P {} (x, sc_u32Order ca)"
proof (cases "d = c")
  case True
  note n = new_slabD [OF assms] and e = same_layout_eqs [OF new_slab_layout(1) [of ca p]]
  have "(\<exists>q\<in>insert p (set (slabs_of ca)). \<exists>y. ijs_slab s' q = Some y \<and> P (objs ca y) (slab_block ca y)) \<longleftrightarrow>
    P {} (x, sc_u32Order ca) \<or> (\<exists>q\<in>set (slabs_of ca). \<exists>y. ijs_slab s q = Some y \<and> P (objs ca y) (slab_block ca y))"
    using n(4,6,7) n(8) [OF n(1)] by auto
  then show ?thesis using True n(1,3) e new_slab_layout(2) [of ca p] by (simp add: Bex_def) blast
next
  case False
  note n = new_slabD [OF assms]
  have "ijs_scCache s' d = ijs_scCache s d" using n(3) False by simp
  then show ?thesis using False n(8) by (auto; metis)
qed

lemma new_slab_live:
  assumes "new_slab ops held c ca x p sl s s'"
  shows "live s' = live s" "owned s' = insert (x, sc_u32Order ca) (owned s)"
proof -
  show "live s' = live s"
    unfolding live_def using new_slab_slabs [OF assms, where P = "\<lambda>os _. a \<in> os" for a] by simp
  show "owned s' = insert (x, sc_u32Order ca) (owned s)"
  proof (rule set_eqI)
    fix u
    show "u \<in> owned s' \<longleftrightarrow> u \<in> insert (x, sc_u32Order ca) (owned s)"
      unfolding owned_def mem_Collect_eq insert_iff new_slab_slabs [OF assms, where P = "\<lambda>_ v. u = v"] by blast
  qed
qed

lemma new_slab_internal:
  assumes "new_slab ops held c ca x p sl s s'"
  shows "internal s' = internal s \<union> (if OFF_SLAB ca then {(the (sc_pscSlab ca), p)} else {})"
proof -
  note n = new_slabD [OF assms] and l = same_layoutD [OF new_slab_layout(1) [of ca p]]
  let ?I = "\<lambda>s. {(m, q). \<exists>d da. ijs_scCache s d = Some da \<and> OFF_SLAB da \<and> sc_pscSlab da = Some m \<and> q \<in> set (slabs_of da)}"
  have "?I s' = ?I s \<union> (if OFF_SLAB ca then {(the (sc_pscSlab ca), p)} else {})"
    using n(1,3,9) l new_slab_layout(2) [of ca p] by (auto split: if_splits) (metis option.inject)+
  moreover have "ijs_scCache s' (Cache a) \<noteq> None \<longleftrightarrow> ijs_scCache s (Cache a) \<noteq> None" for a using n(1,3) by simp
  ultimately show ?thesis unfolding internal_def by auto
qed

context page_provider
begin

lemma new_slab_old:
  assumes inv: "slab_inv ops pok held s" and n: "new_slab ops held c ca x p sl s s'"
    and d: "ijs_scCache s d = Some da" "q \<in> set (slabs_of da)"
  shows "\<exists>slq. ijs_slab s' q = Some slq \<and> slab_at ops held s' d da q slq \<and> in_list da q slq"
proof -
  note k = slab_invD [OF inv] and m = new_slabD [OF n]
  obtain page where page: "po_page ops (ijs_buddy s) x = Some page"
    "ijs_page s' = ijs_page (markPages page (2 ^ sc_u32Order ca) (Some (c, p)) s)" using n by (auto simp: new_slab_def)
  obtain slq where q: "ijs_slab s q = Some slq" "slab_at ops held s d da q slq" "in_list da q slq"
    using cache_okD(4) [OF k(2) [OF d(1)] d(2)] by blast
  have x: "(x, sc_u32Order ca) \<in> held (ijs_buddy s)" "(x, sc_u32Order ca) \<notin> owned s" using n by (auto simp: new_slab_def)
  then have "slab_block da slq \<noteq> (x, sc_u32Order ca)" using ownedI [OF d q(1)] by auto
  then have "slab_at ops held s' d da q slq"
    using q(2) marked_block(2) [where s = s, OF k(1) x(1) _ _ page(1), of "slab_block da slq"] m(5) page(2) by (simp add: slab_at_def)
  then show ?thesis using m(8) [OF d] q by auto
qed

lemma new_slab_at:
  assumes inv: "slab_inv ops pok held s" and n: "new_slab ops held c ca x p sl s s'"
  shows "slab_at ops held s' c ca p sl"
proof -
  note m = new_slabD [OF n]
  obtain page where page: "po_page ops (ijs_buddy s) x = Some page"
    "ijs_page s' = ijs_page (markPages page (2 ^ sc_u32Order ca) (Some (c, p)) s)" using n by (auto simp: new_slab_def)
  have x: "(x, sc_u32Order ca) \<in> held (ijs_buddy s)" "0 < x" "slab_ok (sc_u32Num ca) sl" "s_pMem sl = x + slab_offset ca"
    using n by (simp_all add: new_slab_def)
  then show ?thesis
    using marked_block(1) [where s = s, OF slab_invD(1) [OF inv] x(1) _ _ page(1)] m(5,7,9) page(2) by (simp add: slab_at_def split: if_splits)
qed

lemma new_slab_cache:
  assumes inv: "slab_inv ops pok held s" and n: "new_slab ops held c ca x p sl s s'"
  shows "cache_ok ops held s' c (ca\<lparr>sc_jlFree := sc_jlFree ca @ [p]\<rparr>)" (is "cache_ok ops held s' c ?ca")
proof -
  note k = slab_invD(2) [OF inv] and m = new_slabD [OF n] and e = same_layout_eqs [OF new_slab_layout(1) [of ca p]]
  have at: "slab_at ops held s' c ?ca = slab_at ops held s' c ca" by (rule e(4))
  have inl: "in_list ?ca q slq" if "in_list ca q slq" "q \<noteq> p" for q slq using that by (auto simp: in_list_def)
  have "in_list ?ca p sl" using n m(2) [OF m(1)] by (auto simp: in_list_def slabs_of_def new_slab_def)
  then have "\<exists>slq. ijs_slab s' q = Some slq \<and> slab_at ops held s' c ?ca q slq \<and> in_list ?ca q slq" if "q \<in> set (slabs_of ?ca)" for q
    using that new_slab_old [OF inv n m(1), of q] new_slab_at [OF inv n] m(4) at inl new_slab_layout(2) [of ca p]
    by (cases "q = p") auto
  moreover have "distinct (slabs_of ?ca)" using new_slab_layout(2) [of ca p] m(2) [OF m(1)] cache_okD(3) [OF k [OF m(1)]] by simp
  ultimately show ?thesis using e(3) cache_okD(1,2) [OF k [OF m(1)]] by (simp add: cache_ok_def)
qed

lemma new_slab_inv:
  assumes inv: "slab_inv ops pok held s" and n: "new_slab ops held c ca x p sl s s'"
  shows "slab_inv ops pok held s'"
proof -
  note k = slab_invD [OF inv] and m = new_slabD [OF n] and e = same_layout_eqs [OF new_slab_layout(1) [of ca p]]
    and l = same_layoutD [OF new_slab_layout(1) [of ca p]]
  have mg: "mgmt_ok s' da" if "mgmt_ok s da" for da using that m(1) l(6) unfolding mgmt_ok_def m(3) by auto
  have "cache_ok ops held s' d da \<and> mgmt_ok s' da" if d: "ijs_scCache s' d = Some da" for d da
  proof (cases "d = c")
    case True
    then show ?thesis using d m(3) new_slab_cache [OF inv n] mg k(3) [OF m(1)] e(5) [of s'] e(5) [of s] by simp
  next
    case False
    then have d: "ijs_scCache s d = Some da" using d m(3) by simp
    then show ?thesis using k(2) [OF d] new_slab_old [OF inv n d] k(3) [OF d] mg by (simp add: cache_ok_def)
  qed
  moreover have "\<exists>cc. ijs_scCache s' Cache_cache = Some cc \<and> \<not> OFF_SLAB cc" using k(5) m(1,3) l(6) by (cases "c = Cache_cache") auto
  moreover have "internal s' \<subseteq> live s'"
    using new_slab_internal [OF n] new_slab_live(1) [OF n] k(4) m(9) by (auto split: if_splits)
  ultimately show ?thesis using k(1) m(5) by (simp add: slab_inv_def)
qed

text \<open>Blocks that the caches do not own may come and go, and their marks may change.\<close>

lemma pages_inv:
  assumes inv: "slab_inv ops pok held s" and s': "s' = s\<lparr>ijs_page := pg, ijs_buddy := b\<rparr>" and b: "pok b" "owned s \<subseteq> held b"
    "\<And>u x. u \<in> owned s \<Longrightarrow> x \<in> blk u \<Longrightarrow> Option.bind (po_page ops b x) pg = Option.bind (po_page ops (ijs_buddy s) x) (ijs_page s)"
  shows "slab_inv ops pok held s'"
proof -
  note k = slab_invD [OF inv]
  have "cache_ok ops held s' c ca" if c: "ijs_scCache s c = Some ca" for c ca
  proof -
    have "slab_at ops held s' c ca p sl"
      if "p \<in> set (slabs_of ca)" "ijs_slab s p = Some sl" "slab_at ops held s c ca p sl" for p sl
      using that(3) ownedI [OF c that(1,2)] b(2,3) by (auto simp: slab_at_def s')
    then show ?thesis using k(2) [OF c] by (fastforce simp: cache_ok_def s')
  qed
  then show ?thesis using k b(1) by (simp add: slab_inv_def mgmt_ok_def internal_def live_def s')
qed

lemma owned_held:
  assumes inv: "slab_inv ops pok held s"
  shows "owned s \<subseteq> held (ijs_buddy s)"
proof
  fix u
  assume "u \<in> owned s"
  then obtain c ca p sl where u: "ijs_scCache s c = Some ca" "p \<in> set (slabs_of ca)" "ijs_slab s p = Some sl" "u = slab_block ca sl"
    unfolding owned_def by blast
  then show "u \<in> held (ijs_buddy s)" using cache_okD(4) [OF slab_invD(2) [OF inv u(1)] u(2)] by (auto simp: slab_at_def)
qed

end

lemma pages_same:
  assumes "s' = s\<lparr>ijs_page := pg, ijs_buddy := b\<rparr>"
  shows "live s' = live s" "internal s' = internal s" "owned s' = owned s" "frame s s'" "ijs_scCache s' = ijs_scCache s" "ijs_slab s' = ijs_slab s"
    "ijs_buddy s' = b"
  using assms by (simp_all add: live_def internal_def owned_def frame_def option.rel_refl)

section \<open>One object of a slab\<close>

text \<open>A change that touches one cache and its slabs, with the objects in use of the new state.\<close>

definition changed ::
  "'b page_ops \<Rightarrow> ('b \<Rightarrow> bool) \<Rightarrow> ('b \<Rightarrow> (addr \<times> nat) set) \<Rightarrow> cache_id \<Rightarrow> (cache_id \<times> addr) set \<Rightarrow>
    'b internal_jiukun_slab \<Rightarrow> 'b internal_jiukun_slab \<Rightarrow> bool" where
  "changed ops pok held c L s s' \<longleftrightarrow> slab_inv ops pok held s' \<and> live s' = L \<and> internal s' = internal s \<and> owned s' = owned s \<and>
     ijs_buddy s' = ijs_buddy s \<and> frame s s' \<and> (\<forall>d. d \<noteq> c \<longrightarrow> ijs_scCache s' d = ijs_scCache s d)"

lemma changedD:
  assumes "changed ops pok held c L s s'"
  shows "slab_inv ops pok held s'" "live s' = L" "internal s' = internal s" "owned s' = owned s" "ijs_buddy s' = ijs_buddy s" "frame s s'"
    "d \<noteq> c \<Longrightarrow> ijs_scCache s' d = ijs_scCache s d"
  using assms by (simp_all add: changed_def)

lemma changed_trans: "changed ops pok held c L s s' \<Longrightarrow> changed ops pok held c L' s' s'' \<Longrightarrow> changed ops pok held c L' s s''"
  using frame_trans by (auto simp: changed_def)

lemma objs_image: "objs ca sl = (\<lambda>i. s_pMem sl + i * sc_u32ObjSize ca) ` ({..<sc_u32Num ca} - free_nums sl)"
  by (auto simp: objs_def)

lemma objs_take:
  assumes "slab_ok (sc_u32Num ca) sl" "sc_u32Num ca < BUFCTL_END" "s_u32InUse sl < sc_u32Num ca" "0 < sc_u32ObjSize ca"
    "sl' = sl\<lparr>s_u32InUse := s_u32InUse sl + 1, s_sbFree := s_bufctl sl ! s_sbFree sl\<rparr>" "a = s_pMem sl + s_sbFree sl * sc_u32ObjSize ca"
  shows "objs ca sl' = insert a (objs ca sl)" "a \<notin> objs ca sl"
proof -
  note t = slab_take [OF assms(1-3)]
  have "{..<sc_u32Num ca} - free_nums sl' = insert (s_sbFree sl) ({..<sc_u32Num ca} - free_nums sl)" using t(1,2,4) assms(5) by auto
  then show "objs ca sl' = insert a (objs ca sl)" by (simp add: objs_image assms(5,6))
  show "a \<notin> objs ca sl" using t(2) assms(4) by (auto simp: objs_def assms(6))
qed

lemma objs_give:
  assumes "slab_ok (sc_u32Num ca) sl" "sc_u32Num ca < BUFCTL_END" "i < sc_u32Num ca" "i \<notin> free_nums sl" "0 < sc_u32ObjSize ca"
    "sl' = sl\<lparr>s_bufctl := (s_bufctl sl)[i := s_sbFree sl], s_sbFree := i, s_u32InUse := s_u32InUse sl - 1\<rparr>"
  shows "objs ca sl' = objs ca sl - {s_pMem sl + i * sc_u32ObjSize ca}"
proof -
  have "inj (\<lambda>i. s_pMem sl + i * sc_u32ObjSize ca)" using assms(5) by (simp add: inj_def)
  moreover have "{..<sc_u32Num ca} - free_nums sl' = ({..<sc_u32Num ca} - free_nums sl) - {i}"
    using slab_give(3) [OF assms(1-4)] assms(6) by auto
  ultimately show ?thesis by (simp add: objs_image assms(6) image_set_diff)
qed

context page_provider
begin

lemma changed_touch:
  assumes inv: "slab_inv ops pok held s" and t: "touches c ca ca' s s'" and fl: "same_flags ca ca'" and L: "live s' = L" "internal s \<subseteq> L"
    and rest: "ijs_bInitialized s' = ijs_bInitialized s" "ijs_u32OffSlabLimit s' = ijs_u32OffSlabLimit s" "ijs_gcGeneral s' = ijs_gcGeneral s"
      "ijs_jlNext s' = ijs_jlNext s"
  shows "changed ops pok held c L s s'"
proof -
  note d = touchesD [OF t]
  have "frame s s'" using frameI_upd [OF d(1) _ d(7) rest] d(2) fl by (simp add: same_cache_def)
  then show ?thesis
    using touches_inv [OF inv t] touches_internal [OF t] L d(7,9) by (simp add: changed_def)
qed

lemma changed_flags:
  assumes inv: "slab_inv ops pok held s" and ca: "ijs_scCache s c = Some ca" and f: "f ca = ca\<lparr>sc_jfCache := w\<rparr>" "same_flags ca (f ca)"
  shows "changed ops pok held c (live s) s (updCache c f s)"
proof -
  note ok = slab_invD(2) [OF inv ca]
  have l: "slabs_of (f ca) = slabs_of ca" "\<And>q sl. in_list (f ca) q sl = in_list ca q sl" by (simp_all add: f(1) slabs_of_def in_list_def)
  have "same_layout ca (f ca)" using same_flagsD(1) [OF f(2)] by (simp add: f(1) same_layout_def)
  moreover have "\<exists>sl sl'. ijs_slab s q = Some sl \<and> ijs_slab s q = Some sl' \<and> s_pMem sl' = s_pMem sl \<and> slab_ok (sc_u32Num ca) sl' \<and> in_list ca q sl'"
    if "q \<in> set (slabs_of ca)" for q
    using cache_okD(4) [OF ok that] by (auto simp: slab_at_def)
  ultimately have t: "touches c ca (f ca) s (updCache c f s)"
    using ca cache_okD(3) [OF ok] l by (simp add: touches_def updCache_cache)
  show ?thesis by (rule changed_touch [OF inv t f(2) touches_live_same [OF inv t]]) (simp_all add: slab_invD(4) [OF inv])
qed

lemma changed_mark:
  assumes "slab_inv ops pok held s" "ijs_scCache s c = Some ca" "f = SC_FLAG_GROWN \<or> f = SC_FLAG_LOCKED"
  shows "changed ops pok held c (live s) s (updCache c (\<lambda>ca. ca\<lparr>sc_jfCache := JF_FLAG_SET (sc_jfCache ca) f\<rparr>) s)"
    "changed ops pok held c (live s) s (updCache c (\<lambda>ca. ca\<lparr>sc_jfCache := JF_FLAG_CLEAR (sc_jfCache ca) f\<rparr>) s)"
  by (rule changed_flags [OF assms(1,2)], rule refl, rule same_flags_set [OF assms(3)])+

lemma changed_lock:
  assumes "slab_inv ops pok held s" "ijs_scCache s c = Some ca"
  shows "changed ops pok held c (live s) s (lockSlabCache c s)" "changed ops pok held c (live s) s (unlockSlabCache c s)"
  unfolding lockSlabCache_def unlockSlabCache_def by (rule changed_mark [OF assms], simp)+

lemma updSlab_touches:
  assumes inv: "slab_inv ops pok held s" and ca: "ijs_scCache s c = Some ca" and p: "p \<in> set (slabs_of ca)" "ijs_slab s p = Some sl"
    and sl': "slab_ok (sc_u32Num ca) sl'" "s_pMem sl' = s_pMem sl" "in_list ca p sl'"
  shows "touches c ca ca s (updSlab p (\<lambda>_. sl') s)"
proof -
  note ok = slab_invD(2) [OF inv ca]
  let ?s = "updSlab p (\<lambda>_. sl') s"
  have slab: "ijs_slab ?s = (ijs_slab s)(p \<mapsto> sl')" using p(2) by (simp add: updSlab_slab)
  have "\<exists>sl1 sl2. ijs_slab s q = Some sl1 \<and> ijs_slab ?s q = Some sl2 \<and> s_pMem sl2 = s_pMem sl1 \<and> slab_ok (sc_u32Num ca) sl2 \<and> in_list ca q sl2"
    if q: "q \<in> set (slabs_of ca)" for q
    using cache_okD(4) [OF ok q] slab p(2) sl' by (cases "q = p") (auto simp: slab_at_def)
  moreover have "ijs_slab ?s q = ijs_slab s q" if "q \<notin> set (slabs_of ca)" for q using that p(1) slab by auto
  ultimately show ?thesis using ca cache_okD(3) [OF ok] by (simp add: touches_def fun_upd_idem)
qed

lemma live_in_block:
  assumes inv: "slab_inv ops pok held s" and ca: "ijs_scCache s c = Some ca" and p: "p \<in> set (slabs_of ca)" "ijs_slab s p = Some sl"
    and a: "(d, a) \<in> live s" "a \<in> blk (slab_block ca sl)"
  shows "d = c \<and> a \<in> objs ca sl"
proof -
  obtain da q slq where q: "ijs_scCache s d = Some da" "q \<in> set (slabs_of da)" "ijs_slab s q = Some slq" "a \<in> objs da slq"
    using a(1) by (rule liveE)
  note k = slab_invD(2) [OF inv q(1)]
  have "slab_at ops held s d da q slq" using cache_okD(4) [OF k q(2)] q(3) by auto
  then have "{a ..< a + sc_u32ObjSize da} \<subseteq> blk (slab_block da slq)" by (rule object_in_block(1) [OF cache_okD(1) [OF k] _ q(4)])
  then have "a \<in> blk (slab_block da slq)" using cache_shapeD(1) [OF cache_okD(1) [OF k]] by auto
  then have "(d, q) = (c, p)" using mark_of_object [OF inv q(1-3), of a] mark_of_object [OF inv ca p a(2)] by simp
  then show ?thesis using q ca p by simp
qed

lemma changed_slab:
  assumes inv: "slab_inv ops pok held s" and ca: "ijs_scCache s c = Some ca" and p: "p \<in> set (slabs_of ca)" "ijs_slab s p = Some sl"
    and sl': "slab_ok (sc_u32Num ca) sl'" "s_pMem sl' = s_pMem sl"
    and s': "s' = updBoth c (moveSlab l p) p sl' s \<and> fits l ca sl' \<or> s' = updSlab p (\<lambda>_. sl') s \<and> in_list ca p sl'"
  shows "objs ca sl' = insert a (objs ca sl) \<Longrightarrow> changed ops pok held c (insert (c, a) (live s)) s s'"
    and "objs ca sl' = objs ca sl - {a} \<Longrightarrow> a \<in> objs ca sl \<Longrightarrow> (c, a) \<notin> internal s \<Longrightarrow> changed ops pok held c (live s - {(c, a)}) s s'"
proof -
  have "\<exists>ca'. touches c ca ca' s s' \<and> same_flags ca ca'"
    using s' updBoth_touches [OF inv ca p sl'] updSlab_touches [OF inv ca p sl'] moveSlab_layout(2) [of ca l p] same_flags_refl by blast
  then obtain ca' where t: "touches c ca ca' s s'" "same_flags ca ca'" by blast
  have t: "touches c ca ca' s s'" "same_flags ca ca'" "ijs_slab s' = (ijs_slab s)(p \<mapsto> sl')"
    using t s' p(2) by (auto simp: updBoth_def updSlab_slab)
  have r: "ijs_bInitialized s' = ijs_bInitialized s" "ijs_u32OffSlabLimit s' = ijs_u32OffSlabLimit s" "ijs_gcGeneral s' = ijs_gcGeneral s"
    "ijs_jlNext s' = ijs_jlNext s" using s' by auto
  show "changed ops pok held c (insert (c, a) (live s)) s s'" if "objs ca sl' = insert a (objs ca sl)"
    using changed_touch [OF inv t(1,2) touches_live_add [OF inv t(1,3) p that]] slab_invD(4) [OF inv] r by auto
  show "changed ops pok held c (live s - {(c, a)}) s s'" if "objs ca sl' = objs ca sl - {a}" "a \<in> objs ca sl" "(c, a) \<notin> internal s"
    using changed_touch [OF inv t(1,2) touches_live_del [OF inv t(1,3) p that(1,2)]] slab_invD(4) [OF inv] that(3) r by auto
qed

lemma changed_move:
  assumes inv: "slab_inv ops pok held s" and ca: "ijs_scCache s c = Some ca" and p: "p \<in> set (slabs_of ca)" "ijs_slab s p = Some sl"
    "fits l ca sl"
  shows "changed ops pok held c (live s) s (updCache c (moveSlab l p) s)"
proof -
  have "slab_ok (sc_u32Num ca) sl" using cache_okD(4) [OF slab_invD(2) [OF inv ca] p(1)] p(2) by (auto simp: slab_at_def)
  then have t: "touches c ca (moveSlab l p ca) s (updCache c (moveSlab l p) s)"
    using updBoth_touches [OF inv ca p(1,2) _ _ p(3)] p(2) by (simp add: updBoth_def)
  show ?thesis by (rule changed_touch [OF inv t moveSlab_layout(2) touches_live_same [OF inv t]]) (simp_all add: slab_invD(4) [OF inv])
qed

lemma take_object:
  assumes inv: "slab_inv ops pok held s" and ca: "ijs_scCache s c = Some ca" and p: "p \<in> set (sc_jlPartial ca)"
  obtains a s' where "allocOneObjFromTail s c p = Some (a, s')" "0 < a" "(c, a) \<notin> live s" "changed ops pok held c (insert (c, a) (live s)) s s'"
proof -
  note ok = slab_invD(2) [OF inv ca] and sh = cache_shapeD [OF cache_okD(1) [OF slab_invD(2) [OF inv ca]]]
  have p': "p \<in> set (slabs_of ca)" "p \<notin> set (sc_jlFull ca)" "p \<notin> set (sc_jlFree ca)"
    using p cache_okD(3) [OF ok] by (auto simp: slabs_of_def)
  obtain sl where sl: "ijs_slab s p = Some sl" "slab_at ops held s c ca p sl" "in_list ca p sl" using cache_okD(4) [OF ok p'(1)] by blast
  have sok: "slab_ok (sc_u32Num ca) sl" "s_u32InUse sl < sc_u32Num ca" using sl p by (auto simp: slab_at_def in_list_def)
  note t = slab_take [OF sok(1) sh(3) sok(2)]
  define a where "a = s_pMem sl + s_sbFree sl * sc_u32ObjSize ca"
  define sl' where "sl' = sl\<lparr>s_u32InUse := s_u32InUse sl + 1, s_sbFree := s_bufctl sl ! s_sbFree sl\<rparr>"
  define s' where "s' = (if s_sbFree sl' = BUFCTL_END then updBoth c (moveSlab Full p) p sl' s else updSlab p (\<lambda>_. sl') s)"
  note o = objs_take [OF sok(1) sh(3) sok(2) sh(1) sl'_def a_def]
  have t': "slab_ok (sc_u32Num ca) sl'" "s_sbFree sl' = BUFCTL_END \<longleftrightarrow> s_u32InUse sl' = sc_u32Num ca" "s_u32InUse sl' \<le> sc_u32Num ca"
    using t(3,5) sok(2) by (simp_all add: sl'_def)
  have len: "length (s_bufctl sl) = sc_u32Num ca" using sok(1) by (simp add: slab_ok_def)
  have "(s_u32InUse sl + 1) mod 2 ^ 32 = s_u32InUse sl + 1" using sok(2) sh(3) by (simp add: BUFCTL_END_def)
  then have step: "allocOneObjFromTail s c p = Some (a, s')"
    using ca sl(1) t(1) len
    by (simp add: allocOneObjFromTail_def a_def s'_def sl'_def updBoth_def moveSlab_fun updSlab_def Let_def cong: if_cong)
  have ch: "changed ops pok held c (insert (c, a) (live s)) s s'"
  proof (rule changed_slab(1) [OF inv ca p'(1) sl(1) t'(1), where l = Full])
    show "s_pMem sl' = s_pMem sl" by (simp add: sl'_def)
    show "s' = updBoth c (moveSlab Full p) p sl' s \<and> fits Full ca sl' \<or> s' = updSlab p (\<lambda>_. sl') s \<and> in_list ca p sl'"
      using t'(2,3) p' by (auto simp: s'_def fits_def in_list_def)
  qed (rule o(1))
  have "a \<in> objs ca sl'" using o(1) by simp
  moreover have "slab_at ops held s c ca p sl'" using sl(2) t'(1) by (simp add: slab_at_def sl'_def slab_block_def)
  ultimately have a: "{a ..< a + sc_u32ObjSize ca} \<subseteq> blk (slab_block ca sl')" "0 < a"
    using object_in_block [OF cache_okD(1) [OF ok]] by blast+
  then have "a \<in> blk (slab_block ca sl)" using sh(1) by (auto simp: sl'_def slab_block_def)
  then have "(c, a) \<notin> live s" using live_in_block [OF inv ca p'(1) sl(1)] o(2) by blast
  then show ?thesis using that step a(2) ch by blast
qed

lemma give_object:
  assumes inv: "slab_inv ops pok held s" and a: "(c, a) \<in> live s" "(c, a) \<notin> internal s"
  obtains s' where "freeOneObj ops s c a = Some s'" "changed ops pok held c (live s - {(c, a)}) s s'"
proof -
  obtain ca p sl where p: "ijs_scCache s c = Some ca" "p \<in> set (slabs_of ca)" "ijs_slab s p = Some sl" "a \<in> objs ca sl"
    using a(1) by (rule liveE)
  note ok = slab_invD(2) [OF inv p(1)] and sh = cache_shapeD [OF cache_okD(1) [OF slab_invD(2) [OF inv p(1)]]]
  have sl: "slab_at ops held s c ca p sl" "in_list ca p sl" "slab_ok (sc_u32Num ca) sl"
    using cache_okD(4) [OF ok p(2)] p(3) by (auto simp: slab_at_def)
  obtain i where i: "i < sc_u32Num ca" "i \<notin> free_nums sl" "a = s_pMem sl + i * sc_u32ObjSize ca" using p(4) by (auto simp: objs_def)
  define sl' where "sl' = sl\<lparr>s_bufctl := (s_bufctl sl)[i := s_sbFree sl], s_sbFree := i, s_u32InUse := s_u32InUse sl - 1\<rparr>"
  note g = slab_give [OF sl(3) sh(3) i(1,2)] objs_give [OF sl(3) sh(3) i(1,2) sh(1) sl'_def]
  have len: "length (s_bufctl sl) = sc_u32Num ca" "s_u32InUse sl \<le> sc_u32Num ca" using sl(3) by (auto simp: slab_ok_def)
  define s' where "s' = (if s_u32InUse sl' = 0 then updBoth c (moveSlab Free p) p sl' s
    else if s_u32InUse sl = sc_u32Num ca then updBoth c (moveSlab Partial p) p sl' s else updSlab p (\<lambda>_. sl') s)"
  have "a \<in> blk (slab_block ca sl)" using object_in_block(1) [OF cache_okD(1) [OF ok] sl(1) p(4)] sh(1) by auto
  then have "Option.bind (po_page ops (ijs_buddy s) a) (ijs_page s) = Some (c, p)" by (rule mark_of_object [OF inv p(1-3)])
  then obtain page where page: "po_page ops (ijs_buddy s) a = Some page" "ijs_page s page = Some (c, p)" by (auto simp: bind_eq_Some_conv)
  have nr: "(a - s_pMem sl) div sc_u32ObjSize ca = i" "(a < s_pMem sl \<or> length (s_bufctl sl) \<le> i) = False" using i sh(1) len(1) by auto
  have wrap: "(s_u32InUse sl + (2 ^ 32 - 1)) mod 2 ^ 32 = s_u32InUse sl - 1"
    using g(1) len(2) sh(3) by (cases "s_u32InUse sl") (simp_all add: BUFCTL_END_def)
  have step: "freeOneObj ops s c a = Some s'"
    unfolding freeOneObj_def Let_def s'_def sl'_def updBoth_def moveSlab_fun
    by (simp only: p(1,3) page nr wrap option.case prod.case if_False slab.simps)
  have "s' = updBoth c (moveSlab l p) p sl' s \<and> fits l ca sl' \<or> s' = updSlab p (\<lambda>_. sl') s \<and> in_list ca p sl'"
    if "l = (if s_u32InUse sl' = 0 then Free else Partial)" for l
    using g(1) sl(2) len(2) that by (auto simp: s'_def sl'_def fits_def in_list_def)
  then have "changed ops pok held c (live s - {(c, a)}) s s'"
    using changed_slab(2) [OF inv p(1-3), of sl' s' _ a] g(2,4) p(4) a(2) i(3) by (simp add: sl'_def)
  then show ?thesis using that step by blast
qed

text \<open>A release takes away the object, and only that.\<close>

lemma freeObj_ok:
  assumes inv: "slab_inv ops pok held s" and a: "(c, a) \<in> objects s"
    and ca: "ijs_scCache s c = Some ca" "JF_FLAG_GET (sc_jfCache ca) SC_FLAG_DESTROY = 0"
  obtains s' where "freeObj ops s c a = Some s'" "changed ops pok held c (live s - {(c, a)}) s s'"
proof -
  note l = changed_lock(1) [OF inv ca(1)]
  note d = changedD [OF l]
  have "(c, a) \<in> live (lockSlabCache c s)" "(c, a) \<notin> internal (lockSlabCache c s)" using a d(2,3) by (simp_all add: objects_def)
  then obtain s1 where s1: "freeOneObj ops (lockSlabCache c s) c a = Some s1" "changed ops pok held c (live s - {(c, a)}) (lockSlabCache c s) s1"
    using give_object [OF d(1)] d(2) by metis
  note d1 = changedD [OF s1(2)]
  obtain ca1 where ca1: "ijs_scCache s1 c = Some ca1" using frameD [OF frame_trans [OF d(6) d1(6)] ca(1)] by blast
  have "changed ops pok held c (live s - {(c, a)}) s (unlockSlabCache c s1)"
    using changed_trans [OF l changed_trans [OF s1(2) changed_lock(2) [OF d1(1) ca1]]] d1(2) by simp
  then show ?thesis using that s1(1) ca by (simp add: freeObj_def)
qed

end

end
