(* ===== verification/Jf_Slab_Destroy.thy ===== *)
theory Jf_Slab_Destroy
  imports Jf_Slab_Alloc
begin

text \<open>
  Destruction of slabs: the shrinking of caches, when memory is reaped, and the destruction of a cache. The blocks of the slabs go back to
  the page allocator; reaping takes no object from a caller.
\<close>

section \<open>A slab is unlinked\<close>

lemma objs_unused:
  assumes "slab_ok (sc_u32Num ca) sl" "sc_u32Num ca < BUFCTL_END" "s_u32InUse sl = 0"
  shows "objs ca sl = {}"
proof -
  obtain xs where xs: "distinct xs" "length xs = sc_u32Num ca" "free_nums sl = set xs" "set xs \<subseteq> {..<sc_u32Num ca}"
    using slab_okE [OF assms(1,2)] assms(3) by (metis add_0)
  then have "card (set xs) = card {..<sc_u32Num ca}" by (simp add: distinct_card)
  then have "set xs = {..<sc_u32Num ca}" using xs(4) by (intro card_subset_eq) auto
  then show ?thesis using xs(3) by (auto simp: objs_def)
qed

lemma delSlab_layout: "same_layout ca (delSlab p ca)" "same_flags ca (delSlab p ca)"
  by (simp_all add: same_layout_def OFF_SLAB_def same_flags_def)

lemma delSlab_in_list: "distinct (slabs_of ca) \<Longrightarrow> in_list ca q sl \<Longrightarrow> in_list (delSlab p ca) q sl"
  using slabs_of_delSlab(3-5) [of ca p] by (simp add: in_list_def)

text \<open>Whether an object or a block belongs to one of the slabs of a cache after a slab was unlinked.\<close>

lemma unlink_slabs:
  assumes "ijs_scCache s c = Some ca" "distinct (slabs_of ca)" "t = updCache c (delSlab p) s"
  shows "(\<exists>da q sl. ijs_scCache t d = Some da \<and> q \<in> set (slabs_of da) \<and> ijs_slab t q = Some sl \<and> P (objs da sl) (slab_block da sl)) \<longleftrightarrow>
    (\<exists>da q sl. ijs_scCache s d = Some da \<and> q \<in> set (slabs_of da) \<and> (d = c \<longrightarrow> q \<noteq> p) \<and> ijs_slab s q = Some sl \<and> P (objs da sl) (slab_block da sl))"
proof (cases "d = c")
  case True
  have "set (slabs_of (delSlab p ca)) = set (slabs_of ca) - {p}" by (rule slabs_of_delSlab(2) [OF assms(2)])
  moreover have "objs (delSlab p ca) = objs ca" "slab_block (delSlab p ca) = slab_block ca" by (rule same_layout_eqs [OF delSlab_layout(1)])+
  ultimately show ?thesis using True assms(1,3) by (auto simp: updCache_cache)
next
  case False
  then show ?thesis using assms(1,3) by (simp add: updCache_cache)
qed

lemma unlink_internal:
  assumes "ijs_scCache s c = Some ca" "distinct (slabs_of ca)" "t = updCache c (delSlab p) s"
    and one: "\<And>d da. ijs_scCache s d = Some da \<Longrightarrow> p \<in> set (slabs_of da) \<Longrightarrow> d = c"
    and m: "OFF_SLAB ca \<Longrightarrow> sc_pscSlab ca = Some m \<and> m \<noteq> Cache_cache" and p: "p \<in> set (slabs_of ca)"
  shows "internal t = internal s - (if OFF_SLAB ca then {(m, p)} else {})"
proof -
  note l = same_layoutD [OF delSlab_layout(1) [of ca p]] and sl = slabs_of_delSlab(2) [OF assms(2), of p]
  let ?I = "\<lambda>s. {(m, q). \<exists>d da. ijs_scCache s d = Some da \<and> OFF_SLAB da \<and> sc_pscSlab da = Some m \<and> q \<in> set (slabs_of da)}"
  have "ijs_scCache t = (ijs_scCache s)(c \<mapsto> delSlab p ca)" using assms(1,3) by (simp add: updCache_cache)
  then have "(n, q) \<in> ?I t \<longleftrightarrow> (\<exists>d da. ijs_scCache s d = Some da \<and> OFF_SLAB da \<and> sc_pscSlab da = Some n \<and> q \<in> set (slabs_of da) \<and> (d = c \<longrightarrow> q \<noteq> p))" for n q
    using assms(1) l(5,6) sl by (simp split: if_splits) (metis DiffE DiffI option.inject singletonD singletonI)
  moreover have "(\<exists>d da. ijs_scCache s d = Some da \<and> OFF_SLAB da \<and> sc_pscSlab da = Some n \<and> q \<in> set (slabs_of da) \<and> (d = c \<longrightarrow> q \<noteq> p)) \<longleftrightarrow>
    (n, q) \<in> ?I s \<and> \<not> (OFF_SLAB ca \<and> (n, q) = (m, p))" (is "?L \<longleftrightarrow> ?R") for n q
  proof
    assume ?L
    then obtain d da where d: "ijs_scCache s d = Some da" "OFF_SLAB da" "sc_pscSlab da = Some n" "q \<in> set (slabs_of da)" "d = c \<longrightarrow> q \<noteq> p" by blast
    then have "q \<noteq> p" using one by blast
    then show ?R using d by auto
  next
    assume ?R
    then obtain d da where d: "ijs_scCache s d = Some da" "OFF_SLAB da" "sc_pscSlab da = Some n" "q \<in> set (slabs_of da)"
      "\<not> (OFF_SLAB ca \<and> (n, q) = (m, p))" by blast
    then have "d = c \<longrightarrow> q \<noteq> p" using m assms(1) by auto
    then show ?L using d by blast
  qed
  ultimately have "?I t = ?I s - (if OFF_SLAB ca then {(m, p)} else {})" by (auto split: if_splits)
  moreover have "ijs_scCache t (Cache a) \<noteq> None \<longleftrightarrow> ijs_scCache s (Cache a) \<noteq> None" for a using assms(1,3) by (simp add: updCache_cache)
  ultimately show ?thesis unfolding internal_def using m by (auto split: if_splits)
qed

context page_provider
begin

text \<open>A block that no slab owns is given back.\<close>

lemma freePages_ok:
  assumes inv: "slab_inv ops pok held s" and u: "(x, sc_u32Order ca) \<in> held (ijs_buddy s)" "(x, sc_u32Order ca) \<notin> owned s"
    and y: "x \<le> y" "y < x + BUDDY_PAGE_SIZE"
  obtains pg b where "freePages ops s ca y = Some (s\<lparr>ijs_page := pg, ijs_buddy := b\<rparr>)" "slab_inv ops pok held (s\<lparr>ijs_page := pg, ijs_buddy := b\<rparr>)"
    "held b = held (ijs_buddy s) - {(x, sc_u32Order ca)}"
proof -
  let ?k = "sc_u32Order ca"
  note ok = slab_invD(1) [OF inv]
  obtain b where "po_free ops (ijs_buddy s) y = Some b \<and> pok b \<and> held b = held (ijs_buddy s) - {(x, ?k)} \<and>
      (\<forall>u\<in>held b. \<forall>y\<in>blk u. po_page ops b y = po_page ops (ijs_buddy s) y)"
    using free_block [OF ok u(1) y] ..
  then have b: "po_free ops (ijs_buddy s) y = Some b" "pok b" "held b = held (ijs_buddy s) - {(x, ?k)}"
    "\<And>v z. v \<in> held b \<Longrightarrow> z \<in> blk v \<Longrightarrow> po_page ops b z = po_page ops (ijs_buddy s) z" by simp_all
  obtain z q where zq: "\<forall>j < 2 ^ ?k * BUDDY_PAGE_SIZE. po_page ops (ijs_buddy s) (x + j) = Some (z, q + j div BUDDY_PAGE_SIZE)"
    using block_pages [OF ok u(1)] by blast
  have "1 * BUDDY_PAGE_SIZE \<le> 2 ^ ?k * BUDDY_PAGE_SIZE" by (intro mult_le_mono1) simp
  then have "y - x < 2 ^ ?k * BUDDY_PAGE_SIZE" using y by linarith
  then have "po_page ops (ijs_buddy s) (x + (y - x)) = Some (z, q + (y - x) div BUDDY_PAGE_SIZE)" using zq by blast
  then obtain page where page: "po_page ops (ijs_buddy s) y = Some page" using y(1) by simp
  define pg where "pg = ijs_page (markPages page (2 ^ ?k) None s)"
  have "freePages ops s ca y = Some (s\<lparr>ijs_page := pg, ijs_buddy := b\<rparr>)"
    using page b(1) by (simp add: freePages_def pg_def markPages_def push_bit_eq_mult)
  moreover have "slab_inv ops pok held (s\<lparr>ijs_page := pg, ijs_buddy := b\<rparr>)"
  proof (rule pages_inv [OF inv refl b(2)])
    show "owned s \<subseteq> held b" using owned_held [OF inv] u(2) b(3) by blast
  next
    fix v w
    assume v: "v \<in> owned s" "w \<in> blk v"
    then have "v \<in> held (ijs_buddy s)" "v \<noteq> (x, ?k)" using owned_held [OF inv] u(2) by auto
    then show "Option.bind (po_page ops b w) pg = Option.bind (po_page ops (ijs_buddy s) w) (ijs_page s)"
      using b(3,4) v(2) marked_block(2) [where s = s and m = None, OF ok u(1) y page] by (simp add: pg_def)
  qed
  ultimately show ?thesis using that b(3) by blast
qed

lemma block_owner:
  assumes inv: "slab_inv ops pok held s" and ca: "ijs_scCache s c = Some ca" "p \<in> set (slabs_of ca)" "ijs_slab s p = Some sl"
    and da: "ijs_scCache s d = Some da" "q \<in> set (slabs_of da)" "ijs_slab s q = Some slq"
    and x: "x \<in> blk (slab_block da slq)" "x \<in> blk (slab_block ca sl)"
  shows "d = c" "q = p"
  using mark_of_object [OF inv da x(1)] mark_of_object [OF inv ca x(2)] by simp_all

lemma objs_in_block:
  assumes inv: "slab_inv ops pok held s" and ca: "ijs_scCache s c = Some ca" "p \<in> set (slabs_of ca)" "ijs_slab s p = Some sl"
  shows "objs ca sl \<subseteq> blk (slab_block ca sl)" "s_pMem sl \<in> blk (slab_block ca sl)" "slab_at ops held s c ca p sl"
proof -
  note k = slab_invD(2) [OF inv ca(1)]
  show at: "slab_at ops held s c ca p sl" using cache_okD(4) [OF k ca(2)] ca(3) by auto
  show "objs ca sl \<subseteq> blk (slab_block ca sl)"
    using object_in_block(1) [OF cache_okD(1) [OF k] at] cache_shapeD(1) [OF cache_okD(1) [OF k]] by fastforce
  show "s_pMem sl \<in> blk (slab_block ca sl)" using at cache_okD(1) [OF k] by (auto intro!: pMem_in_block simp: slab_at_def)
qed

lemma unlink_live:
  assumes inv: "slab_inv ops pok held s" and ca: "ijs_scCache s c = Some ca" and p: "p \<in> set (slabs_of ca)" "ijs_slab s p = Some sl"
    and t: "t = updCache c (delSlab p) s"
  shows "live t = live s - {c} \<times> objs ca sl" "owned t = owned s - {slab_block ca sl}"
proof -
  note u = unlink_slabs [OF ca cache_okD(3) [OF slab_invD(2) [OF inv ca]] t]
  have live: "(d, a) \<in> live t \<longleftrightarrow> (d, a) \<in> live s - {c} \<times> objs ca sl" (is "?L \<longleftrightarrow> ?R") for d a
  proof
    assume ?L
    then obtain da q slq where q: "ijs_scCache s d = Some da" "q \<in> set (slabs_of da)" "d = c \<longrightarrow> q \<noteq> p" "ijs_slab s q = Some slq" "a \<in> objs da slq"
      using u [of d "\<lambda>os _. a \<in> os"] unfolding live_def by auto
    have "\<not> (d = c \<and> a \<in> objs ca sl)"
      using block_owner(2) [OF inv ca p q(1,2,4), of a] objs_in_block(1) [OF inv q(1,2,4)] objs_in_block(1) [OF inv ca p] q(3,5) by blast
    then show ?R using liveI [OF q(1,2,4,5)] by blast
  next
    assume R: ?R
    then obtain da q slq where q: "ijs_scCache s d = Some da" "q \<in> set (slabs_of da)" "ijs_slab s q = Some slq" "a \<in> objs da slq"
      by (auto elim: liveE)
    moreover have "d = c \<longrightarrow> q \<noteq> p" using R q ca p by auto
    ultimately show ?L using u [of d "\<lambda>os _. a \<in> os"] unfolding live_def by auto
  qed
  then show "live t = live s - {c} \<times> objs ca sl" by auto
  have "v \<in> owned t \<longleftrightarrow> v \<in> owned s - {slab_block ca sl}" (is "?L \<longleftrightarrow> ?R") for v
  proof
    assume ?L
    then obtain d da q slq where q: "ijs_scCache s d = Some da" "q \<in> set (slabs_of da)" "d = c \<longrightarrow> q \<noteq> p" "ijs_slab s q = Some slq" "v = slab_block da slq"
      using u [where P = "\<lambda>_ w. v = w"] unfolding owned_def mem_Collect_eq by metis
    have "v \<noteq> slab_block ca sl"
      using block_owner [OF inv ca p q(1,2,4), of "s_pMem sl"] objs_in_block(2) [OF inv ca p] q(3,5) by auto
    then show ?R using ownedI [OF q(1,2,4)] q(5) by blast
  next
    assume R: ?R
    then obtain d da q slq where q: "ijs_scCache s d = Some da" "q \<in> set (slabs_of da)" "ijs_slab s q = Some slq" "v = slab_block da slq"
      unfolding owned_def by blast
    moreover have "d = c \<longrightarrow> q \<noteq> p" using R q ca p by auto
    ultimately show ?L using u [of d "\<lambda>_ w. v = w"] unfolding owned_def mem_Collect_eq by metis
  qed
  then show "owned t = owned s - {slab_block ca sl}" by auto
qed

lemma unlink_inv:
  assumes inv: "slab_inv ops pok held s" and ca: "ijs_scCache s c = Some ca" and p: "p \<in> set (slabs_of ca)" "ijs_slab s p = Some sl"
    and free: "({c} \<times> objs ca sl) \<inter> internal s = {}" and t: "t = updCache c (delSlab p) s"
  shows "slab_inv ops pok held t" "internal t = internal s - (if OFF_SLAB ca then {(the (sc_pscSlab ca), p)} else {})"
proof -
  note k = slab_invD [OF inv] and ok = slab_invD(2) [OF inv ca] and l = same_layoutD [OF delSlab_layout(1) [of ca p]]
    and e = same_layout_eqs [OF delSlab_layout(1) [of ca p]]
  have ct: "ijs_scCache t = (ijs_scCache s)(c \<mapsto> delSlab p ca)" using ca t by (simp add: updCache_cache)
  have at: "slab_at ops held t d da = slab_at ops held s d da" for d da by (simp add: fun_eq_iff slab_at_def t)
  have m: "sc_pscSlab ca = Some (the (sc_pscSlab ca)) \<and> the (sc_pscSlab ca) \<noteq> Cache_cache" if "OFF_SLAB ca"
    using k(3) [OF ca] that by (auto simp: mgmt_ok_def)
  show int: "internal t = internal s - (if OFF_SLAB ca then {(the (sc_pscSlab ca), p)} else {})"
    by (rule unlink_internal [OF ca cache_okD(3) [OF ok] t _ m p(1)]) (rule slab_owner [OF inv ca p(1)])
  have mg: "mgmt_ok t da" if "mgmt_ok s da" for da using that ca l(6) unfolding mgmt_ok_def ct by auto
  have "cache_ok ops held t c (delSlab p ca)"
    using ok at [of c "delSlab p ca"] e(4) [of ops held s c] e(3) delSlab_in_list [OF cache_okD(3) [OF ok]] slabs_of_delSlab(1,2) [OF cache_okD(3) [OF ok], of p] t
    by (fastforce simp: cache_ok_def)
  moreover have "mgmt_ok t (delSlab p ca)" using mg k(3) [OF ca] e(5) [of s] by simp
  moreover have "cache_ok ops held t d da \<and> mgmt_ok t da" if "ijs_scCache s d = Some da" for d da
    using k(2,3) [OF that] mg at t by (simp add: cache_ok_def)
  ultimately have "cache_ok ops held t d da \<and> mgmt_ok t da" if "ijs_scCache t d = Some da" for d da
    using that ct by (cases "d = c") auto
  moreover have "\<exists>cc. ijs_scCache t Cache_cache = Some cc \<and> \<not> OFF_SLAB cc" using k(5) ca ct l(6) by (cases "c = Cache_cache") auto
  moreover have "internal t \<subseteq> live t" using int unlink_live(1) [OF inv ca p t] k(4) free by auto
  ultimately show "slab_inv ops pok held t" using k(1) t by (simp add: slab_inv_def)
qed

section \<open>A slab is destroyed\<close>

lemma unlisted_slab:
  assumes inv: "slab_inv ops pok held t" and p: "\<And>d da. ijs_scCache t d = Some da \<Longrightarrow> p \<notin> set (slabs_of da)"
    and t': "t' = t\<lparr>ijs_slab := (ijs_slab t)(p := v)\<rparr>"
  shows "slab_inv ops pok held t'" "live t' = live t" "internal t' = internal t" "owned t' = owned t" "frame t t'"
proof -
  have k: "ijs_slab t' q = ijs_slab t q" if "ijs_scCache t d = Some da" "q \<in> set (slabs_of da)" for d da q using p that t' by auto
  show live: "live t' = live t" unfolding live_def using k t' by (auto; metis)
  show int: "internal t' = internal t" by (simp add: internal_def t')
  show "owned t' = owned t" unfolding owned_def using k t' by (auto; metis)
  show "frame t t'" by (simp add: frame_def t' option.rel_refl)
  have "cache_ok ops held t' d da \<and> mgmt_ok t' da" if "ijs_scCache t d = Some da" for d da
    using slab_invD(2,3) [OF inv that] k [OF that] by (simp add: cache_ok_def mgmt_ok_def slab_at_def t')
  then show "slab_inv ops pok held t'" using slab_invD(1,4,5) [OF inv] live int by (simp add: slab_inv_def t')
qed

end

definition undestroyed :: "'b internal_jiukun_slab \<Rightarrow> cache_id set \<Rightarrow> bool" where
  "undestroyed s D \<longleftrightarrow> (\<forall>d da. ijs_scCache s d = Some da \<longrightarrow> d \<notin> D \<longrightarrow> JF_FLAG_GET (sc_jfCache da) SC_FLAG_DESTROY = 0)"

lemma undestroyed_frame:
  assumes "frame s s'" "undestroyed s D"
  shows "undestroyed s' D"
proof -
  have "JF_FLAG_GET (sc_jfCache da') SC_FLAG_DESTROY = 0" if mem: "ijs_scCache s' d = Some da'" "d \<notin> D" for d da'
  proof -
    have "rel_option same_cache (ijs_scCache s d) (ijs_scCache s' d)" using assms(1) by (simp add: frame_def)
    then obtain da where "ijs_scCache s d = Some da" "same_flags da da'" using mem(1) by (auto simp: option_rel_Some2 same_cache_def)
    then show ?thesis using assms(2) mem(2) same_flagsD(2) by (auto simp: undestroyed_def)
  qed
  then show ?thesis by (auto simp: undestroyed_def)
qed

text \<open>The caches gave up slabs of \<open>c\<close>, and callers at most objects of \<open>c\<close>.\<close>

definition shed ::
  "'b page_ops \<Rightarrow> ('b \<Rightarrow> bool) \<Rightarrow> ('b \<Rightarrow> (addr \<times> nat) set) \<Rightarrow> cache_id \<Rightarrow> addr set \<Rightarrow> 'b internal_jiukun_slab \<Rightarrow> 'b internal_jiukun_slab \<Rightarrow> bool" where
  "shed ops pok held c X s s' \<longleftrightarrow> slab_inv ops pok held s' \<and> frame s s' \<and> internal s' \<subseteq> internal s \<and> objects s' = objects s - {c} \<times> X \<and>
     unowned held s' = unowned held s"

lemma shedD:
  assumes "shed ops pok held c X s s'"
  shows "slab_inv ops pok held s'" "frame s s'" "internal s' \<subseteq> internal s" "objects s' = objects s - {c} \<times> X"
    "unowned held s' = unowned held s"
  using assms by (simp_all add: shed_def)

lemma shed_trans: "shed ops pok held c X s s' \<Longrightarrow> shed ops pok held c Y s' s'' \<Longrightarrow> shed ops pok held c (X \<union> Y) s s''"
  using frame_trans by (auto simp: shed_def)

context page_provider
begin

text \<open>The block of a slab goes back; what is left to do is the release of a management structure that lies elsewhere.\<close>

lemma destroySlab_pages:
  assumes inv: "slab_inv ops pok held s" and ca: "ijs_scCache s c = Some ca" and p: "p \<in> set (slabs_of ca)" "ijs_slab s p = Some sl"
    and free: "({c} \<times> objs ca sl) \<inter> internal s = {}"
  obtains s2 where
    "destroySlab ops (updCache c (delSlab p) s) c p = (if OFF_SLAB ca then (case sc_pscSlab ca of None \<Rightarrow> None | Some m \<Rightarrow> freeObj ops s2 m p) else Some s2)"
    "slab_inv ops pok held s2" "live s2 = live s - {c} \<times> objs ca sl" "frame s s2" "ijs_scCache s2 = (ijs_scCache s)(c \<mapsto> delSlab p ca)"
    "internal s2 = internal s - (if OFF_SLAB ca then {(the (sc_pscSlab ca), p)} else {})"
    "unowned held s2 = unowned held s" "owned s2 = owned s - {slab_block ca sl}"
proof -
  define t where "t = updCache c (delSlab p) s"
  note k = slab_invD [OF inv] and ok = slab_invD(2) [OF inv ca]
  note ul = unlink_live [OF inv ca p t_def] and ui = unlink_inv [OF inv ca p free t_def]
  have ct: "ijs_scCache t = (ijs_scCache s)(c \<mapsto> delSlab p ca)" using ca t_def by (simp add: updCache_cache)
  have fr: "frame s t" using frameI_upd [OF ca _ ct] delSlab_layout [of ca p] by (simp add: same_cache_def t_def)
  have unl: "p \<notin> set (slabs_of da)" if "ijs_scCache t d = Some da" for d da
    using that ct slab_owner [OF inv ca p(1), of d da] slabs_of_delSlab(2) [OF cache_okD(3) [OF ok], of p] by (cases "d = c") auto
  define x where "x = fst (slab_block ca sl)"
  have x: "slab_block ca sl = (x, sc_u32Order (delSlab p ca))" "x \<le> s_pMem sl" "s_pMem sl < x + BUDDY_PAGE_SIZE"
    using objs_in_block(3) [OF inv ca p] cache_shapeD(4) [OF cache_okD(1) [OF ok]] by (auto simp: x_def slab_block_def slab_at_def)
  have held: "(x, sc_u32Order (delSlab p ca)) \<in> held (ijs_buddy t)" "(x, sc_u32Order (delSlab p ca)) \<notin> owned t"
    using objs_in_block(3) [OF inv ca p] ul(2) x(1) by (simp_all add: slab_at_def t_def)
  obtain pg b where fp: "freePages ops t (delSlab p ca) (s_pMem sl) = Some (t\<lparr>ijs_page := pg, ijs_buddy := b\<rparr>)"
    "slab_inv ops pok held (t\<lparr>ijs_page := pg, ijs_buddy := b\<rparr>)" "held b = held (ijs_buddy t) - {(x, sc_u32Order (delSlab p ca))}"
    by (rule freePages_ok [OF ui(1) held x(2,3)])
  define s2 where "s2 = t\<lparr>ijs_page := pg, ijs_buddy := b, ijs_slab := (ijs_slab t)(p := None)\<rparr>"
  note ps = pages_same [where s' = "t\<lparr>ijs_page := pg, ijs_buddy := b\<rparr>", OF refl]
  note us = unlisted_slab [where t' = s2 and v = None, OF fp(2), of p]
  have s2: "slab_inv ops pok held s2" "live s2 = live t" "internal s2 = internal t" "frame s s2" "ijs_scCache s2 = ijs_scCache t"
    "held (ijs_buddy s2) = held (ijs_buddy s) - {slab_block ca sl}" "owned s2 = owned t"
    using us unl ps frame_trans [OF fr frame_trans [OF ps(4)]] fp(3) x(1) by (simp_all add: s2_def t_def)
  have "destroySlab ops t c p = (if OFF_SLAB ca then (case sc_pscSlab ca of None \<Rightarrow> None | Some m \<Rightarrow> freeObj ops s2 m p) else Some s2)"
    using fp(1) ct p(2) same_layoutD(5,6) [OF delSlab_layout(1) [of ca p]] by (simp add: destroySlab_def s2_def t_def cong: option.case_cong)
  moreover have "slab_block ca sl \<in> owned s" by (rule ownedI [OF ca p])
  then have "unowned held s2 = unowned held s" unfolding unowned_def s2(6,7) ul(2) by auto
  ultimately show ?thesis using that [of s2] s2 ul ui(2) ct unfolding t_def by simp
qed

lemma destroySlab_ok:
  assumes inv: "slab_inv ops pok held s" and ca: "ijs_scCache s c = Some ca" and p: "p \<in> set (slabs_of ca)" "ijs_slab s p = Some sl"
    and free: "({c} \<times> objs ca sl) \<inter> internal s = {}" and und: "undestroyed s {c}"
  obtains s' where "destroySlab ops (updCache c (delSlab p) s) c p = Some s'" "shed ops pok held c (objs ca sl) s s'"
    "ijs_scCache s' c = Some (delSlab p ca)"
proof -
  note k = slab_invD [OF inv]
  obtain s2 where
    step: "destroySlab ops (updCache c (delSlab p) s) c p = (if OFF_SLAB ca then (case sc_pscSlab ca of None \<Rightarrow> None | Some m \<Rightarrow> freeObj ops s2 m p) else Some s2)"
    and s2: "slab_inv ops pok held s2" "live s2 = live s - {c} \<times> objs ca sl" "frame s s2" "ijs_scCache s2 = (ijs_scCache s)(c \<mapsto> delSlab p ca)"
    "internal s2 = internal s - (if OFF_SLAB ca then {(the (sc_pscSlab ca), p)} else {})"
    "unowned held s2 = unowned held s" by (rule destroySlab_pages [OF inv ca p free])
  show ?thesis
  proof (cases "OFF_SLAB ca")
    case False
    have "shed ops pok held c (objs ca sl) s s2" using s2 False by (auto simp: shed_def objects_def)
    then show ?thesis using that step False s2(4) by simp
  next
    case True
    obtain m cm where m: "sc_pscSlab ca = Some m" "ijs_scCache s m = Some cm" "\<not> OFF_SLAB cm"
      using k(3) [OF ca] True by (auto simp: mgmt_ok_def)
    have mc: "m \<noteq> c" using True m ca by auto
    have mi: "(m, p) \<in> internal s" using True m(1) ca p(1) unfolding internal_def by blast
    then have mp: "(m, p) \<in> objects s2" using mc k(4) s2(2,5) True m(1) by (auto simp: objects_def)
    have cm: "ijs_scCache s2 m = Some cm" "JF_FLAG_GET (sc_jfCache cm) SC_FLAG_DESTROY = 0"
      using s2(4) mc m(2) und by (auto simp: undestroyed_def)
    obtain s3 where s3: "freeObj ops s2 m p = Some s3" "changed ops pok held m (live s2 - {(m, p)}) s2 s3"
      by (rule freeObj_ok [OF s2(1) mp cm])
    note d = changedD [OF s3(2)]
    have "objects s3 = objects s - {c} \<times> objs ca sl" using mi d(2,3) s2(2,5) True m(1) by (auto simp: objects_def)
    then have "shed ops pok held c (objs ca sl) s s3"
      using d(1,3,4,5) frame_trans [OF s2(3) d(6)] s2(5,6) by (auto simp: shed_def unowned_def)
    moreover have "ijs_scCache s3 c = Some (delSlab p ca)" using d(7) [of c] mc s2(4) by simp
    ultimately show ?thesis using that step True m(1) s3(1) by simp
  qed
qed

text \<open>The slabs of a list are destroyed; those of the list of free slabs hold no object.\<close>

lemma destroySlabCacheSlabs_ok:
  assumes "slab_inv ops pok held s" "ijs_scCache s c = Some ca" "undestroyed s {c}" "distinct ps" "set ps \<subseteq> set (slabs_of ca)"
    "set ps \<subseteq> set (sc_jlFree ca) \<or> internal s \<inter> {c} \<times> UNIV = {}"
  shows "\<exists>s' X. destroySlabCacheSlabs ops s c ps = Some s' \<and> shed ops pok held c X s s' \<and> ijs_scCache s' c = Some (fold delSlab ps ca) \<and>
    (set ps \<subseteq> set (sc_jlFree ca) \<longrightarrow> X = {})"
  using assms
proof (induction ps arbitrary: s ca)
  case Nil
  then show ?case by (intro exI [of _ s] exI [of _ "{}"]) (simp add: shed_def)
next
  case (Cons p ps)
  note inv = Cons.prems(1) and ca = Cons.prems(2)
  note ok = slab_invD(2) [OF inv ca]
  have p: "p \<in> set (slabs_of ca)" using Cons.prems(5) by simp
  obtain sl where sl: "ijs_slab s p = Some sl" "slab_at ops held s c ca p sl" "in_list ca p sl" using cache_okD(4) [OF ok p] by blast
  have unused: "objs ca sl = {}" if "p \<in> set (sc_jlFree ca)"
    using objs_unused [of ca sl] sl that cache_shapeD(3) [OF cache_okD(1) [OF ok]] by (simp add: slab_at_def in_list_def)
  then have free: "({c} \<times> objs ca sl) \<inter> internal s = {}" using Cons.prems(6) by auto
  obtain s1 where s1: "destroySlab ops (updCache c (delSlab p) s) c p = Some s1" "shed ops pok held c (objs ca sl) s s1"
    "ijs_scCache s1 c = Some (delSlab p ca)" by (rule destroySlab_ok [OF inv ca p sl(1) free Cons.prems(3)])
  note d = slabs_of_delSlab [OF cache_okD(3) [OF ok], of p] and sh = shedD [OF s1(2)]
  have "\<exists>s' X. destroySlabCacheSlabs ops s1 c ps = Some s' \<and> shed ops pok held c X s1 s' \<and> ijs_scCache s' c = Some (fold delSlab ps (delSlab p ca)) \<and>
    (set ps \<subseteq> set (sc_jlFree (delSlab p ca)) \<longrightarrow> X = {})"
  proof (rule Cons.IH [OF sh(1) s1(3) undestroyed_frame [OF sh(2) Cons.prems(3)]])
    show "distinct ps" using Cons.prems(4) by simp
    show "set ps \<subseteq> set (slabs_of (delSlab p ca))" using Cons.prems(4,5) d(2) by auto
    show "set ps \<subseteq> set (sc_jlFree (delSlab p ca)) \<or> internal s1 \<inter> {c} \<times> UNIV = {}"
      using Cons.prems(4,6) d(5) sh(3) by auto
  qed
  then obtain s' X where s': "destroySlabCacheSlabs ops s1 c ps = Some s'" "shed ops pok held c X s1 s'"
    "ijs_scCache s' c = Some (fold delSlab ps (delSlab p ca))" "set ps \<subseteq> set (sc_jlFree (delSlab p ca)) \<longrightarrow> X = {}" by blast
  have "set (p # ps) \<subseteq> set (sc_jlFree ca) \<longrightarrow> objs ca sl \<union> X = {}" using unused s'(4) d(5) Cons.prems(4) by auto
  then show ?case using s1(1) s' shed_trans [OF s1(2) s'(2)] by (intro exI [of _ s'] exI [of _ "objs ca sl \<union> X"]) simp
qed

end

section \<open>Reaping\<close>

text \<open>Slabs without objects went, and their blocks; blocks that no slab owned are kept.\<close>

definition released ::
  "'b page_ops \<Rightarrow> ('b \<Rightarrow> bool) \<Rightarrow> ('b \<Rightarrow> (addr \<times> nat) set) \<Rightarrow> 'b internal_jiukun_slab \<Rightarrow> 'b internal_jiukun_slab \<Rightarrow> bool" where
  "released ops pok held s s' \<longleftrightarrow> slab_inv ops pok held s' \<and> frame s s' \<and> live s' = live s \<and> internal s' = internal s \<and>
     owned s' \<subseteq> owned s \<and> unowned held s' = unowned held s"

lemma releasedD:
  assumes "released ops pok held s s'"
  shows "slab_inv ops pok held s'" "frame s s'" "live s' = live s" "internal s' = internal s" "owned s' \<subseteq> owned s"
    "unowned held s' = unowned held s"
  using assms by (simp_all add: released_def)

lemma released_trans: "released ops pok held s s' \<Longrightarrow> released ops pok held s' s'' \<Longrightarrow> released ops pok held s s''"
  using frame_trans by (auto simp: released_def)

text \<open>Only caches that may be reaped changed, and those have no free slab left.\<close>

definition reaped ::
  "'b page_ops \<Rightarrow> ('b \<Rightarrow> bool) \<Rightarrow> ('b \<Rightarrow> (addr \<times> nat) set) \<Rightarrow> 'b internal_jiukun_slab \<Rightarrow> 'b internal_jiukun_slab \<Rightarrow> bool" where
  "reaped ops pok held s s' \<longleftrightarrow> released ops pok held s s' \<and>
     (\<forall>d. ijs_scCache s' d = ijs_scCache s d \<or> (\<exists>da da'. ijs_scCache s d = Some da \<and> ijs_scCache s' d = Some da' \<and> reapable da \<and> sc_jlFree da' = []))"

text \<open>
  The reaper does not return before the end of the start, and it takes a lock twice for a cache with a free slab and its management
  structures elsewhere.
\<close>

definition blocks_reaper :: "'b internal_jiukun_slab \<Rightarrow> cache_id \<Rightarrow> bool" where
  "blocks_reaper s c \<longleftrightarrow> (case ijs_scCache s c of None \<Rightarrow> True | Some ca \<Rightarrow> reapable ca \<and> OFF_SLAB ca \<and> sc_jlFree ca \<noteq> [])"

definition stuck :: "'b internal_jiukun_slab \<Rightarrow> bool" where
  "stuck s \<longleftrightarrow> \<not> ijs_bInitialized s \<or> (\<exists>c\<in>set (ijs_jlNext s). blocks_reaper s c)"

lemma reaped_refl: "slab_inv ops pok held s \<Longrightarrow> reaped ops pok held s s"
  by (simp add: reaped_def released_def)

lemma reaped_trans:
  assumes a: "reaped ops pok held s s'" and b: "reaped ops pok held s' s''"
  shows "reaped ops pok held s s''"
proof -
  have "ijs_scCache s'' d = ijs_scCache s d \<or> (\<exists>da da'. ijs_scCache s d = Some da \<and> ijs_scCache s'' d = Some da' \<and> reapable da \<and> sc_jlFree da' = [])" for d
  proof -
    have "ijs_scCache s' d = ijs_scCache s d \<or> (\<exists>da da'. ijs_scCache s d = Some da \<and> ijs_scCache s' d = Some da' \<and> reapable da \<and> sc_jlFree da' = [])"
      using a by (simp add: reaped_def)
    moreover have "ijs_scCache s'' d = ijs_scCache s' d \<or> (\<exists>da da'. ijs_scCache s' d = Some da \<and> ijs_scCache s'' d = Some da' \<and> reapable da \<and> sc_jlFree da' = [])"
      using b by (simp add: reaped_def)
    ultimately show ?thesis by auto
  qed
  then show ?thesis using a b released_trans unfolding reaped_def by blast
qed

lemma reaped_same: "reaped ops pok held s s' \<Longrightarrow> ijs_scCache s d = Some da \<Longrightarrow> \<not> reapable da \<Longrightarrow> ijs_scCache s' d = Some da"
  unfolding reaped_def by (metis option.inject)

lemma reaped_blocks: "reaped ops pok held s s' \<Longrightarrow> blocks_reaper s' d \<Longrightarrow> blocks_reaper s d"
  unfolding reaped_def blocks_reaper_def by (auto split: option.splits dest!: spec [of _ d])

lemma fold_delSlab_free: "distinct (slabs_of ca) \<Longrightarrow> set (sc_jlFree (fold delSlab ps ca)) = set (sc_jlFree ca) - set ps"
proof (induction ps arbitrary: ca)
  case (Cons p ps)
  then show ?case using slabs_of_delSlab(1,5) [OF Cons.prems, of p] by auto
qed simp

context page_provider
begin

lemma destroyFree_ok:
  assumes "slab_inv ops pok held s" "ijs_scCache s c = Some ca" "\<not> OFF_SLAB ca" "distinct ps" "set ps \<subseteq> set (sc_jlFree ca)"
  shows "\<exists>s'. destroySlabCacheSlabs ops s c ps = Some s' \<and> released ops pok held s s' \<and> ijs_scCache s' = (ijs_scCache s)(c \<mapsto> fold delSlab ps ca)"
  using assms
proof (induction ps arbitrary: s ca)
  case Nil
  then show ?case by (simp add: released_def fun_upd_idem)
next
  case (Cons p ps)
  note inv = Cons.prems(1) and ca = Cons.prems(2)
  note ok = slab_invD(2) [OF inv ca]
  have p: "p \<in> set (sc_jlFree ca)" "p \<in> set (slabs_of ca)" using Cons.prems(5) by (simp_all add: slabs_of_def)
  obtain sl where sl: "ijs_slab s p = Some sl" "slab_at ops held s c ca p sl" "in_list ca p sl" using cache_okD(4) [OF ok p(2)] by blast
  have unused: "objs ca sl = {}"
    using objs_unused [of ca sl] sl p(1) cache_shapeD(3) [OF cache_okD(1) [OF ok]] by (simp add: slab_at_def in_list_def)
  obtain s1 where s1: "destroySlab ops (updCache c (delSlab p) s) c p = Some s1" "slab_inv ops pok held s1" "live s1 = live s" "frame s s1"
    "ijs_scCache s1 = (ijs_scCache s)(c \<mapsto> delSlab p ca)" "internal s1 = internal s" "unowned held s1 = unowned held s"
    "owned s1 = owned s - {slab_block ca sl}"
    using destroySlab_pages [OF inv ca p(2) sl(1)] unused Cons.prems(3) by auto
  have r: "released ops pok held s s1" using s1(2-8) by (auto simp: released_def)
  note d = slabs_of_delSlab [OF cache_okD(3) [OF ok], of p]
  have "\<exists>s'. destroySlabCacheSlabs ops s1 c ps = Some s' \<and> released ops pok held s1 s' \<and> ijs_scCache s' = (ijs_scCache s1)(c \<mapsto> fold delSlab ps (delSlab p ca))"
  proof (rule Cons.IH [OF s1(2)])
    show "ijs_scCache s1 c = Some (delSlab p ca)" using s1(5) by simp
    show "\<not> OFF_SLAB (delSlab p ca)" using Cons.prems(3) same_layoutD(6) [OF delSlab_layout(1)] by simp
    show "distinct ps" "set ps \<subseteq> set (sc_jlFree (delSlab p ca))" using Cons.prems(4,5) d(5) by auto
  qed
  then show ?case using s1(1,5) released_trans [OF r] by auto
qed

text \<open>Shrinking a cache takes no object away.\<close>

lemma shrinkSlabCache_ok:
  assumes inv: "slab_inv ops pok held s" and ca: "ijs_scCache s c = Some ca" and r: "reapable ca" "\<not> (OFF_SLAB ca \<and> sc_jlFree ca \<noteq> [])"
  obtains s' where "shrinkSlabCache ops s c = Some (length (sc_jlFree ca), s')" "reaped ops pok held s s'" "\<forall>d. d \<noteq> c \<longrightarrow> ijs_scCache s' d = ijs_scCache s d"
proof (cases "OFF_SLAB ca")
  case True
  then have "shrinkSlabCache ops s c = Some (length (sc_jlFree ca), s)" using ca r(2) by (simp add: shrinkSlabCache_def)
  moreover have "reaped ops pok held s s" using inv by (simp add: reaped_def released_def)
  ultimately show ?thesis using that by blast
next
  case False
  have dist: "distinct (slabs_of ca)" using cache_okD(3) [OF slab_invD(2) [OF inv ca]] .
  let ?ps = "rev (sc_jlFree ca)"
  have "\<exists>s'. destroySlabCacheSlabs ops s c ?ps = Some s' \<and> released ops pok held s s' \<and> ijs_scCache s' = (ijs_scCache s)(c \<mapsto> fold delSlab ?ps ca)"
    using dist by (intro destroyFree_ok [OF inv ca False]) (auto simp: slabs_of_def)
  then obtain s' where s': "destroySlabCacheSlabs ops s c ?ps = Some s'" "released ops pok held s s'" "ijs_scCache s' = (ijs_scCache s)(c \<mapsto> fold delSlab ?ps ca)"
    by blast
  have "sc_jlFree (fold delSlab ?ps ca) = []" using fold_delSlab_free [OF dist, of ?ps] by simp
  then have "reaped ops pok held s s'" using s'(2,3) ca r(1) by (simp add: reaped_def)
  then show ?thesis using that s'(1,3) ca by (simp add: shrinkSlabCache_def)
qed

lemma reapCaches_ok:
  assumes "slab_inv ops pok held s"
  shows "case reapCaches ops s ds ret of
      None \<Rightarrow> \<exists>d\<in>set ds. blocks_reaper s d
    | Some (n, s') \<Rightarrow> (\<forall>d\<in>set ds. \<not> blocks_reaper s d) \<and> reaped ops pok held s s'"
  using assms
proof (induction ds arbitrary: s ret)
  case Nil
  then show ?case by (simp add: reaped_refl)
next
  case (Cons d ds)
  show ?case
  proof (cases "blocks_reaper s d")
    case True
    then show ?thesis by (auto simp: blocks_reaper_def split: option.splits)
  next
    case False
    then obtain da where da: "ijs_scCache s d = Some da" and nb: "reapable da \<Longrightarrow> \<not> (OFF_SLAB da \<and> sc_jlFree da \<noteq> [])"
      by (auto simp: blocks_reaper_def split: option.splits)
    obtain s1 ret1 where s1: "reapCaches ops s (d # ds) ret = reapCaches ops s1 ds ret1" "reaped ops pok held s s1"
      "\<forall>e. e \<noteq> d \<longrightarrow> ijs_scCache s1 e = ijs_scCache s e"
    proof (cases "reapable da")
      case r: True
      obtain s1 where "shrinkSlabCache ops s d = Some (length (sc_jlFree da), s1)" "reaped ops pok held s s1" "\<forall>e. e \<noteq> d \<longrightarrow> ijs_scCache s1 e = ijs_scCache s e"
        by (rule shrinkSlabCache_ok [OF Cons.prems da r nb [OF r]])
      then show ?thesis using that [of s1] da r nb [OF r] by simp
    next
      case nr: False
      then show ?thesis using that [of s ret] da reaped_refl [OF Cons.prems] by simp
    qed
    have b: "blocks_reaper s1 e = blocks_reaper s e" for e
      using False s1(3) reaped_blocks [OF s1(2), of e] by (cases "e = d") (auto simp: blocks_reaper_def)
    have inv1: "slab_inv ops pok held s1" using s1(2) by (simp add: reaped_def released_def)
    show ?thesis using Cons.IH [OF inv1, of ret1] False s1(1) b reaped_trans [OF s1(2)] by (auto split: option.splits)
  qed
qed

lemma reapJiukun_ok:
  assumes "slab_inv ops pok held s"
  shows "case reapJiukun ops s of None \<Rightarrow> stuck s | Some s' \<Rightarrow> \<not> stuck s \<and> reaped ops pok held s s'"
  using reapCaches_ok [OF assms, of "ijs_jlNext s" 0] by (auto simp: reapJiukun_def reapJiukunSlab_def stuck_def split: option.splits)

end

end
