(* ===== verification/Jf_Slab_Grow.thy ===== *)
theory Jf_Slab_Grow
  imports Jf_Slab_Destroy
begin

text \<open>
  Growth of a cache and allocation of an object, over a page allocator that keeps the contract \<open>page_provider\<close>. A cache that
  keeps its management structures in another cache takes an object of that cache when it grows; the depth of two
  nested allocations is enough.
\<close>

section \<open>Evolution of a state\<close>

text \<open>
  The caches took the objects \<open>N\<close> for themselves and the caller got those of \<open>L\<close>; no block but those of slabs was given up, and no block in
  use but not owned by a slab became part of a cache. A cache that may not be reaped is as before, but for \<open>c\<close> and the one it keeps its
  management structures in.
\<close>

definition evolved ::
  "'b page_ops \<Rightarrow> ('b \<Rightarrow> bool) \<Rightarrow> ('b \<Rightarrow> (addr \<times> nat) set) \<Rightarrow> cache_id \<Rightarrow> (cache_id \<times> addr) set \<Rightarrow> (cache_id \<times> addr) set \<Rightarrow>
    'b internal_jiukun_slab \<Rightarrow> 'b internal_jiukun_slab \<Rightarrow> bool" where
  "evolved ops pok held c N L s s' \<longleftrightarrow> slab_inv ops pok held s' \<and> frame s s' \<and> unowned held s' = unowned held s \<and> N \<inter> live s = {} \<and> L \<inter> (live s \<union> N) = {} \<and>
     internal s' = internal s \<union> N \<and> live s' = live s \<union> N \<union> L \<and>
     (\<forall>ca. ijs_scCache s c = Some ca \<longrightarrow> \<not> OFF_SLAB ca \<longrightarrow>
        N = {} \<and> (\<forall>d da. d \<noteq> c \<longrightarrow> ijs_scCache s d = Some da \<longrightarrow> \<not> reapable da \<longrightarrow> ijs_scCache s' d = Some da))"

lemma evolvedD:
  assumes "evolved ops pok held c N L s s'"
  shows "slab_inv ops pok held s'" "frame s s'" "unowned held s' = unowned held s"
    "N \<inter> live s = {}" "L \<inter> (live s \<union> N) = {}" "internal s' = internal s \<union> N" "live s' = live s \<union> N \<union> L"
    "ijs_scCache s c = Some ca \<Longrightarrow> \<not> OFF_SLAB ca \<Longrightarrow> N = {}"
    "ijs_scCache s c = Some ca \<Longrightarrow> \<not> OFF_SLAB ca \<Longrightarrow> d \<noteq> c \<Longrightarrow> ijs_scCache s d = Some da \<Longrightarrow> \<not> reapable da \<Longrightarrow> ijs_scCache s' d = Some da"
  using assms by (auto simp: evolved_def)

lemma evolved_objects:
  assumes e: "evolved ops pok held c N L s s'" and i: "internal s \<subseteq> live s"
  shows "objects s' = objects s \<union> L" "L \<inter> live s = {}"
  using evolvedD(4-7) [OF e] i by (auto simp: objects_def)

lemma changed_unowned: "changed ops pok held c L s s' \<Longrightarrow> unowned held s' = unowned held s"
  by (simp add: changed_def unowned_def)

lemma evolved_changed:
  assumes e: "evolved ops pok held c N L s s'" and ch: "changed ops pok held c (live s' \<union> L') s' s''" "L' \<inter> live s' = {}"
  shows "evolved ops pok held c N (L \<union> L') s s''"
proof -
  note a = evolvedD(1-7) [OF e] and b = changedD [OF ch(1)]
  have "\<forall>ca. ijs_scCache s c = Some ca \<longrightarrow> \<not> OFF_SLAB ca \<longrightarrow>
      N = {} \<and> (\<forall>d da. d \<noteq> c \<longrightarrow> ijs_scCache s d = Some da \<longrightarrow> \<not> reapable da \<longrightarrow> ijs_scCache s'' d = Some da)"
    using e b(7) by (simp add: evolved_def)
  then show ?thesis
    using a b frame_trans [OF a(2) b(6)] ch(2) changed_unowned [OF ch(1)] unfolding evolved_def by (auto simp: Int_Un_distrib2)
qed

lemma changed_evolved:
  assumes ch: "changed ops pok held c (live s) s s'" and e: "evolved ops pok held c N L s' s''" and ca: "ijs_scCache s c = Some ca"
  shows "evolved ops pok held c N L s s''"
proof -
  note b = changedD [OF ch] and a = evolvedD(1-7) [OF e]
  obtain ca' where ca': "ijs_scCache s' c = Some ca'" "same_layout ca ca'" using frameD [OF b(6) ca] by blast
  have "\<not> OFF_SLAB ca \<longrightarrow> N = {} \<and> (\<forall>d da. d \<noteq> c \<longrightarrow> ijs_scCache s d = Some da \<longrightarrow> \<not> reapable da \<longrightarrow> ijs_scCache s'' d = Some da)"
    using evolvedD(8,9) [OF e ca'(1)] same_layoutD(6) [OF ca'(2)] b(7) by simp
  then show ?thesis using a b frame_trans [OF b(6) a(2)] ca changed_unowned [OF ch] unfolding evolved_def by simp
qed

text \<open>The allocation of an object of a cache succeeds, fails, or waits for memory.\<close>

definition mayWait :: "slab_cache \<Rightarrow> bool" where
  "mayWait ca \<longleftrightarrow> JF_FLAG_GET (sc_jfCache ca) JF_JIUKUN_CACHE_CREATE_FLAG_WAIT \<noteq> 0"

definition waits :: "'b internal_jiukun_slab \<Rightarrow> cache_id \<Rightarrow> bool" where
  "waits s c \<longleftrightarrow> (case ijs_scCache s c of
     None \<Rightarrow> False
   | Some ca \<Rightarrow> mayWait ca \<or> OFF_SLAB ca \<and> (case Option.bind (sc_pscSlab ca) (ijs_scCache s) of None \<Rightarrow> False | Some cm \<Rightarrow> mayWait cm))"

definition alloc_result ::
  "'b page_ops \<Rightarrow> ('b \<Rightarrow> bool) \<Rightarrow> ('b \<Rightarrow> (addr \<times> nat) set) \<Rightarrow> 'b internal_jiukun_slab \<Rightarrow> cache_id \<Rightarrow>
    (jf_err \<times> addr \<times> 'b internal_jiukun_slab) option \<Rightarrow> bool" where
  "alloc_result ops pok held s c res \<longleftrightarrow>
     (case res of
        None \<Rightarrow> waits s c \<or> stuck s
      | Some (r, a, s') \<Rightarrow> (\<exists>N. evolved ops pok held c N (if r = JF_ERR_NO_ERROR then {(c, a)} else {}) s s') \<and> (r = JF_ERR_NO_ERROR \<longleftrightarrow> a \<noteq> 0))"

definition grow_result ::
  "'b page_ops \<Rightarrow> ('b \<Rightarrow> bool) \<Rightarrow> ('b \<Rightarrow> (addr \<times> nat) set) \<Rightarrow> 'b internal_jiukun_slab \<Rightarrow> cache_id \<Rightarrow>
    (jf_err \<times> 'b internal_jiukun_slab) option \<Rightarrow> bool" where
  "grow_result ops pok held s c res \<longleftrightarrow>
     (case res of
        None \<Rightarrow> waits s c \<or> stuck s
      | Some (r, s') \<Rightarrow> (\<exists>N. evolved ops pok held c N {} s s') \<and>
          (r = JF_ERR_NO_ERROR \<longrightarrow> (\<exists>ca ca' p. ijs_scCache s c = Some ca \<and> ijs_scCache s' c = Some ca' \<and> sc_jlFree ca' = sc_jlFree ca @ [p])))"

section \<open>Addresses of slabs\<close>

lemma mgmt_size_pos: "0 < mgmt_size ca"
  by (simp add: mgmt_size_def ALIGN_CEIL_def SLAB_ALIGN_SIZE_def sizeof_slab_def sizeof_slab_bufctl_def)

context page_provider
begin

lemma slab_in_owned:
  assumes inv: "slab_inv ops pok held s" and q: "ijs_scCache s d = Some da" "q \<in> set (slabs_of da)"
  shows "\<exists>v\<in>owned s. q \<in> blk v"
proof (cases "OFF_SLAB da")
  case True
  then obtain m where "sc_pscSlab da = Some m" using slab_invD(3) [OF inv q(1)] by (auto simp: mgmt_ok_def)
  then have "(m, q) \<in> live s" using True q slab_invD(4) [OF inv] unfolding internal_def by blast
  then obtain ma r sl where r: "ijs_scCache s m = Some ma" "r \<in> set (slabs_of ma)" "ijs_slab s r = Some sl" "q \<in> objs ma sl" by (rule liveE)
  note k = slab_invD(2) [OF inv r(1)]
  have "slab_at ops held s m ma r sl" using cache_okD(4) [OF k r(2)] r(3) by auto
  then have "q \<in> blk (slab_block ma sl)"
    using object_in_block(1) [OF cache_okD(1) [OF k] _ r(4)] cache_shapeD(1) [OF cache_okD(1) [OF k]] by fastforce
  then show ?thesis using ownedI [OF r(1-3)] by blast
next
  case False
  obtain sl where sl: "ijs_slab s q = Some sl" "slab_at ops held s d da q sl" using cache_okD(4) [OF slab_invD(2) [OF inv q(1)] q(2)] by blast
  then have "q = fst (slab_block da sl)" using False by (simp add: slab_at_def)
  then have "q \<in> blk (slab_block da sl)" using blk_page [of "slab_block da sl" q "snd (slab_block da sl)" 0] by simp
  then show ?thesis using ownedI [OF q sl(1)] by blast
qed

text \<open>An address in a block that no slab owns is not that of a slab.\<close>

lemma unowned_fresh:
  assumes inv: "slab_inv ops pok held s" and u: "u \<in> held (ijs_buddy s)" "u \<notin> owned s" "y \<in> blk u" and d: "ijs_scCache s d = Some da"
  shows "y \<notin> set (slabs_of da)"
proof
  assume "y \<in> set (slabs_of da)"
  then obtain v where "v \<in> owned s" "y \<in> blk v" using slab_in_owned [OF inv d] by blast
  then show False using blocks_apart [OF slab_invD(1) [OF inv] u(1), of v] owned_held [OF inv] u(2,3) by blast
qed

text \<open>An object of a cache that keeps its management structures in its slabs is the address of a slab only as such a structure.\<close>

lemma object_fresh:
  assumes inv: "slab_inv ops pok held s" and m: "ijs_scCache s m = Some ma" "\<not> OFF_SLAB ma" "(m, p) \<in> live s" "(m, p) \<notin> internal s"
    and d: "ijs_scCache s d = Some da"
  shows "p \<notin> set (slabs_of da)"
proof
  assume p: "p \<in> set (slabs_of da)"
  show False
  proof (cases "OFF_SLAB da")
    case True
    then obtain n where n: "sc_pscSlab da = Some n" using slab_invD(3) [OF inv d] by (auto simp: mgmt_ok_def)
    then have "(n, p) \<in> internal s" using True d p unfolding internal_def by blast
    moreover from this have "n = m" using live_address [OF inv m(3)] slab_invD(4) [OF inv] by blast
    ultimately show False using m(4) by simp
  next
    case False
    obtain sl where sl: "ijs_slab s p = Some sl" "slab_at ops held s d da p sl" using cache_okD(4) [OF slab_invD(2) [OF inv d] p] by blast
    then have b: "p = s_pMem sl - slab_offset da" "slab_offset da \<le> s_pMem sl" using False by (simp_all add: slab_at_def slab_block_def)
    have "p \<in> blk (slab_block da sl)" using blk_page [of "slab_block da sl" p "sc_u32Order da" 0] b by (simp add: slab_block_def)
    then have o: "m = d" "p \<in> objs da sl" using live_in_block [OF inv d p sl(1) m(3)] by auto
    then have "s_pMem sl \<le> p" by (auto simp: objs_def)
    then show False using b o(1) m(1,2) d mgmt_size_pos [of da] by (simp add: slab_offset_def)
  qed
qed

section \<open>Growth\<close>

lemma alloc_block:
  assumes inv: "slab_inv ops pok held s" and a: "po_alloc ops (ijs_buddy s) k = Some (r, pg, b)"
  shows "slab_inv ops pok held (s\<lparr>ijs_buddy := b\<rparr>)" "held b = (case pg of None \<Rightarrow> held (ijs_buddy s) | Some x \<Rightarrow> insert (x, k) (held (ijs_buddy s)))"
    "pg = Some x \<Longrightarrow> r = JF_ERR_NO_ERROR \<and> 0 < x \<and> (x, k) \<in> held b \<and> (x, k) \<notin> held (ijs_buddy s)" "pg = None \<Longrightarrow> r \<noteq> JF_ERR_NO_ERROR"
proof -
  note ok = slab_invD(1) [OF inv]
  have b: "pok b" "held (ijs_buddy s) \<subseteq> held b" using alloc_some [OF ok] alloc_none [OF ok] a by (cases pg; auto)+
  show "held b = (case pg of None \<Rightarrow> held (ijs_buddy s) | Some x \<Rightarrow> insert (x, k) (held (ijs_buddy s)))"
    using alloc_some [OF ok] alloc_none [OF ok] a by (cases pg; auto)
  show "slab_inv ops pok held (s\<lparr>ijs_buddy := b\<rparr>)"
  proof (rule pages_inv [OF inv _ b(1), where pg = "ijs_page s"])
    show "owned s \<subseteq> held b" using owned_held [OF inv] b(2) by blast
    show "Option.bind (po_page ops b x) (ijs_page s) = Option.bind (po_page ops (ijs_buddy s) x) (ijs_page s)"
      if "u \<in> owned s" "x \<in> blk u" for u x
      using alloc_pages [OF ok a _ that(2)] owned_held [OF inv] that(1) by auto
  qed simp
  show "pg = Some x \<Longrightarrow> r = JF_ERR_NO_ERROR \<and> 0 < x \<and> (x, k) \<in> held b \<and> (x, k) \<notin> held (ijs_buddy s)" "pg = None \<Longrightarrow> r \<noteq> JF_ERR_NO_ERROR"
    using alloc_some [OF ok, of k r x b] alloc_none [OF ok, of k r b] a by auto
qed

end

lemma reaped_evolved:
  assumes r: "reaped ops pok held s s0" and e: "evolved ops pok held c N L s0 s'" and ca: "ijs_scCache s c = Some ca"
  shows "evolved ops pok held c N L s s'"
proof -
  have rl: "released ops pok held s s0" using r by (simp add: reaped_def)
  note a = releasedD [OF rl] and b = evolvedD(1-7) [OF e]
  obtain ca0 where ca0: "ijs_scCache s0 c = Some ca0" "same_layout ca ca0" using frameD [OF a(2) ca] by blast
  have "\<not> OFF_SLAB ca \<longrightarrow> N = {} \<and> (\<forall>d da. d \<noteq> c \<longrightarrow> ijs_scCache s d = Some da \<longrightarrow> \<not> reapable da \<longrightarrow> ijs_scCache s' d = Some da)"
    using evolvedD(8,9) [OF e ca0(1)] same_layoutD(6) [OF ca0(2)] reaped_same [OF r] by blast
  then show ?thesis using a(3,4,6) b(1,3-7) frame_trans [OF a(2) b(2)] ca by (simp add: evolved_def)
qed

text \<open>What can keep an allocation from returning is seen before it.\<close>

lemma stuck_mono:
  assumes "frame s s'" "\<And>d. blocks_reaper s' d \<Longrightarrow> blocks_reaper s d" "stuck s'"
  shows "stuck s"
  using assms by (auto simp: stuck_def frame_def)

lemma stuck_marked:
  assumes ch: "changed ops pok held c L s s'" and ca: "ijs_scCache s' c = Some ca" "\<not> reapable ca" and st: "stuck s'"
  shows "stuck s"
proof (rule stuck_mono [OF changedD(6) [OF ch] _ st])
  show "blocks_reaper s d" if "blocks_reaper s' d" for d
    using that ca changedD(7) [OF ch, of d] by (cases "d = c") (auto simp: blocks_reaper_def)
qed

lemma reaped_stuck:
  assumes r: "reaped ops pok held s s'" and "stuck s'"
  shows "stuck s"
proof (rule stuck_mono [OF _ _ assms(2)])
  show "frame s s'" using r by (simp add: reaped_def released_def)
  show "blocks_reaper s d" if "blocks_reaper s' d" for d by (rule reaped_blocks [OF r that])
qed

lemma stuck_buddy [simp]: "stuck (s\<lparr>ijs_buddy := b\<rparr>) = stuck s"
  by (simp add: stuck_def blocks_reaper_def)

context page_provider
begin

lemma alloc_attempt:
  assumes inv: "slab_inv ops pok held s" and a: "po_alloc ops (ijs_buddy s) k = Some (r, None, b)"
  shows "reaped ops pok held s (s\<lparr>ijs_buddy := b\<rparr>)"
proof -
  note ps = pages_same [where s' = "s\<lparr>ijs_buddy := b\<rparr>" and s = s and pg = "ijs_page s" and b = b, simplified]
  then show ?thesis using alloc_block(1,2) [OF inv a] by (simp add: reaped_def released_def unowned_def)
qed

end

text \<open>The pages for a slab: the caches are reaped before each attempt but the first.\<close>

definition pages_result ::
  "'b page_ops \<Rightarrow> ('b \<Rightarrow> bool) \<Rightarrow> ('b \<Rightarrow> (addr \<times> nat) set) \<Rightarrow> nat \<Rightarrow> 'b internal_jiukun_slab \<Rightarrow>
    jf_err \<times> addr option \<times> 'b internal_jiukun_slab \<Rightarrow> bool" where
  "pages_result ops pok held k s res \<longleftrightarrow>
     (case res of
        (r, None, s') \<Rightarrow> r \<noteq> JF_ERR_NO_ERROR \<and> reaped ops pok held s s'
      | (r, Some x, s') \<Rightarrow> \<exists>s0 b. reaped ops pok held s s0 \<and> po_alloc ops (ijs_buddy s0) k = Some (r, Some x, b) \<and> s' = s0\<lparr>ijs_buddy := b\<rparr>)"

lemma pages_resultI:
  assumes "reaped ops pok held s s0" "po_alloc ops (ijs_buddy s0) k = Some (r, Some x, b)"
  shows "pages_result ops pok held k s (r, Some x, s0\<lparr>ijs_buddy := b\<rparr>)"
  unfolding pages_result_def prod.case option.case by (intro exI [of _ s0] exI [of _ b] conjI assms refl)

lemma pages_result_trans: "reaped ops pok held s s1 \<Longrightarrow> pages_result ops pok held k s1 res \<Longrightarrow> pages_result ops pok held k s res"
  unfolding pages_result_def by (auto split: prod.splits option.splits intro: reaped_trans)

context page_provider
begin

lemma allocPage_some:
  assumes "allocPage_loop ops k f s = Some res" "slab_inv ops pok held s"
  shows "pages_result ops pok held k s res"
proof (rule allocPage_loop.raw_induct [where P = "\<lambda>ops' k' f' s res. ops' = ops \<longrightarrow> k' = k \<longrightarrow> slab_inv ops pok held s \<longrightarrow> pages_result ops pok held k s res",
    OF _ assms(1), THEN mp, OF _ refl, THEN mp, OF _ refl, THEN mp, OF _ assms(2)], intro impI)
  fix loop ops' order flag s res
  assume IH: "\<And>ops' k' f' s res. loop ops' k' f' s = Some res \<Longrightarrow> ops' = ops \<longrightarrow> k' = k \<longrightarrow> slab_inv ops pok held s \<longrightarrow> pages_result ops pok held k s res"
    and body: "(case po_alloc ops' (ijs_buddy s) order of
        None \<Rightarrow> None
      | Some (u32Ret, Some objp, b) \<Rightarrow> Some (u32Ret, Some objp, s\<lparr>ijs_buddy := b\<rparr>)
      | Some (u32Ret, None, b) \<Rightarrow>
          (if u32Ret \<noteq> JF_ERR_JIUKUN_OUT_OF_MEMORY then Some (u32Ret, None, s\<lparr>ijs_buddy := b\<rparr>)
           else
             (case reapJiukun ops' (s\<lparr>ijs_buddy := b\<rparr>) of
                None \<Rightarrow> None
              | Some s \<Rightarrow>
                  (if JF_FLAG_GET flag JF_JIUKUN_PAGE_ALLOC_FLAG_WAIT \<noteq> 0 then loop ops' order flag s
                   else Some (u32Ret, None, s))))) = Some res"
    and eq: "ops' = ops" "order = k" and inv: "slab_inv ops pok held s"
  obtain r pg b where at: "po_alloc ops (ijs_buddy s) k = Some (r, pg, b)"
    using body eq by (auto split: option.splits prod.splits)
  show "pages_result ops pok held k s res"
  proof (cases pg)
    case (Some x)
    then have "res = (r, Some x, s\<lparr>ijs_buddy := b\<rparr>)" using at body eq by simp
    then show ?thesis using pages_resultI [OF reaped_refl [OF inv] at [unfolded Some]] by simp
  next
    case None
    note r1 = alloc_attempt [OF inv at [unfolded None]] and ne = alloc_block(4) [OF inv at None]
    show ?thesis
    proof (cases "r = JF_ERR_JIUKUN_OUT_OF_MEMORY")
      case False
      then have "res = (r, None, s\<lparr>ijs_buddy := b\<rparr>)" using at body eq None by simp
      then show ?thesis using r1 ne by (simp add: pages_result_def)
    next
      case True
      obtain s1 where s1: "reapJiukun ops (s\<lparr>ijs_buddy := b\<rparr>) = Some s1" using at body eq None True by (auto split: option.splits)
      have "slab_inv ops pok held (s\<lparr>ijs_buddy := b\<rparr>)" using r1 by (simp add: reaped_def released_def)
      then have r2: "reaped ops pok held s s1" using reapJiukun_ok [of "s\<lparr>ijs_buddy := b\<rparr>"] s1 reaped_trans [OF r1] by auto
      then have inv1: "slab_inv ops pok held s1" by (simp add: reaped_def released_def)
      show ?thesis
      proof (cases "JF_FLAG_GET flag JF_JIUKUN_PAGE_ALLOC_FLAG_WAIT \<noteq> 0")
        case w: True
        then have "loop ops k flag s1 = Some res" using at body eq None True s1 by simp
        then show ?thesis using IH inv1 pages_result_trans [OF r2] by blast
      next
        case w: False
        then have "res = (r, None, s1)" using at body eq None True s1 by simp
        then show ?thesis using r2 ne by (simp add: pages_result_def)
      qed
    qed
  qed
qed

lemma allocPage_none:
  assumes "allocPage_loop ops k f s = None" "slab_inv ops pok held s" "JF_FLAG_GET f JF_JIUKUN_PAGE_ALLOC_FLAG_WAIT = 0"
  shows "stuck s" "\<exists>r b. po_alloc ops (ijs_buddy s) k = Some (r, None, b)"
proof -
  obtain r pg b where at: "po_alloc ops (ijs_buddy s) k = Some (r, pg, b)" using alloc_returns [OF slab_invD(1) [OF assms(2)], of k] by auto
  then have pg: "pg = None" using assms(1) by (cases pg) (simp_all add: allocPage_loop.simps)
  then show "\<exists>r b. po_alloc ops (ijs_buddy s) k = Some (r, None, b)" using at by blast
  note r1 = alloc_attempt [OF assms(2) at [unfolded pg]]
  then have inv1: "slab_inv ops pok held (s\<lparr>ijs_buddy := b\<rparr>)" by (simp add: reaped_def released_def)
  have "reapJiukun ops (s\<lparr>ijs_buddy := b\<rparr>) = None"
    using at pg assms(1,3) by (simp add: allocPage_loop.simps split: if_splits option.splits)
  then show "stuck s" using reapJiukun_ok [OF inv1] by simp
qed

end

text \<open>The management structure of a new slab: nothing changes, or another cache gave an object for it.\<close>

definition mgmt_step ::
  "'b page_ops \<Rightarrow> ('b \<Rightarrow> bool) \<Rightarrow> ('b \<Rightarrow> (addr \<times> nat) set) \<Rightarrow> cache_id \<Rightarrow> (cache_id \<times> addr) set \<Rightarrow>
    'b internal_jiukun_slab \<Rightarrow> 'b internal_jiukun_slab \<Rightarrow> bool" where
  "mgmt_step ops pok held c M s s' \<longleftrightarrow> slab_inv ops pok held s' \<and> frame s s' \<and> unowned held s' = unowned held s \<and> internal s' = internal s \<and> live s' = live s \<union> M \<and> M \<inter> live s = {} \<and>
     ijs_scCache s' c = ijs_scCache s c \<and>
     (\<forall>ca. ijs_scCache s c = Some ca \<longrightarrow> \<not> OFF_SLAB ca \<longrightarrow> M = {} \<and> s' = s)"

definition raw_slab :: "slab_cache \<Rightarrow> addr \<Rightarrow> slab" where
  "raw_slab ca x = \<lparr>s_pMem = x + slab_offset ca, s_u32InUse = 0, s_sbFree = 0, s_bufctl = []\<rparr>"

context page_provider
begin

lemma slabMgmt_ok:
  assumes inv: "slab_inv ops pok held s" and ca: "ijs_scCache s c = Some ca"
    and u: "(x, sc_u32Order ca) \<in> held (ijs_buddy s)" "(x, sc_u32Order ca) \<notin> owned s"
    and nr: "\<not> reapable ca"
    and rec: "\<And>m cm. OFF_SLAB ca \<Longrightarrow> ijs_scCache s m = Some cm \<Longrightarrow> \<not> OFF_SLAB cm \<Longrightarrow> alloc_result ops pok held s m (rec s m)"
  shows "case slabMgmt rec s ca x of
      None \<Rightarrow> waits s c \<or> stuck s
    | Some (None, s') \<Rightarrow> OFF_SLAB ca \<and> mgmt_step ops pok held c {} s s'
    | Some (Some p, s') \<Rightarrow> \<exists>M t. s' = t\<lparr>ijs_slab := (ijs_slab t)(p \<mapsto> raw_slab ca x)\<rparr> \<and> mgmt_step ops pok held c M s t \<and>
        (\<forall>d da. ijs_scCache t d = Some da \<longrightarrow> p \<notin> set (slabs_of da)) \<and>
        (if OFF_SLAB ca then \<exists>m. sc_pscSlab ca = Some m \<and> M = {(m, p)} else p = x)"
proof (cases "OFF_SLAB ca")
  case True
  obtain m cm where m: "sc_pscSlab ca = Some m" "ijs_scCache s m = Some cm" "\<not> OFF_SLAB cm"
    using slab_invD(3) [OF inv ca] True by (auto simp: mgmt_ok_def)
  have mc: "c \<noteq> m" using True m ca by auto
  note r = rec [OF True m(2,3)]
  show ?thesis
  proof (cases "rec s m")
    case None
    then have "waits s m \<or> stuck s" using r by (simp add: alloc_result_def)
    then have "waits s c \<or> stuck s" using True m ca by (auto simp: waits_def)
    then show ?thesis using True m(1) None by (simp add: slabMgmt_def)
  next
    case (Some res)
    obtain e p t where res: "res = (e, p, t)" by (cases res)
    obtain N where N: "evolved ops pok held m N (if e = JF_ERR_NO_ERROR then {(m, p)} else {}) s t"
      using r Some res by (auto simp: alloc_result_def)
    note ev = evolvedD(1-7) [OF N] evolvedD(8,9) [OF N m(2,3)]
    have step: "mgmt_step ops pok held c (if e = JF_ERR_NO_ERROR then {(m, p)} else {}) s t"
      using ev ev(9) [OF mc ca nr] True ca by (auto simp: mgmt_step_def)
    show ?thesis
    proof (cases "e = JF_ERR_NO_ERROR")
      case ok: True
      obtain cm' where cm': "ijs_scCache t m = Some cm'" "\<not> OFF_SLAB cm'" using frameD [OF ev(2) m(2)] m(3) same_layoutD(6) by metis
      have "p \<notin> set (slabs_of da)" if "ijs_scCache t d = Some da" for d da
      proof (rule object_fresh [OF ev(1) cm' _ _ that])
        show "(m, p) \<in> live t" using ev(7) ok by simp
        show "(m, p) \<notin> internal t" using ev(5,6,8) ok slab_invD(4) [OF inv] by auto
      qed
      moreover have "mgmt_step ops pok held c {(m, p)} s t" using step ok by simp
      ultimately show ?thesis using True m(1) Some res ok by (simp add: slabMgmt_def raw_slab_def slab_offset_def) blast
    next
      case False
      then show ?thesis using True m(1) Some res step by (simp add: slabMgmt_def)
    qed
  qed
next
  case False
  have "x \<in> blk (x, sc_u32Order ca)" using blk_page [of "(x, sc_u32Order ca)" x "sc_u32Order ca" 0] by simp
  then have "\<forall>d da. ijs_scCache s d = Some da \<longrightarrow> x \<notin> set (slabs_of da)" using unowned_fresh [OF inv u] by blast
  moreover have "mgmt_step ops pok held c {} s s" using inv by (simp add: mgmt_step_def)
  ultimately show ?thesis using False by (simp add: slabMgmt_def raw_slab_def slab_offset_def mgmt_size_def Let_def) blast
qed

end

text \<open>Growth without the marks of growth.\<close>

definition growBody ::
  "'b page_ops \<Rightarrow> ('b internal_jiukun_slab \<Rightarrow> cache_id \<Rightarrow> (jf_err \<times> addr \<times> 'b internal_jiukun_slab) option) \<Rightarrow>
   'b internal_jiukun_slab \<Rightarrow> cache_id \<Rightarrow> slab_cache \<Rightarrow> u64 \<Rightarrow> (jf_err \<times> 'b internal_jiukun_slab) option" where
  "growBody ops rec s c ca f =
     (case allocPage_loop ops (sc_u32Order ca) f s of
        None \<Rightarrow> None
      | Some (r, None, s) \<Rightarrow> Some (r, s)
      | Some (r, Some x, s) \<Rightarrow>
          (case slabMgmt rec s ca x of
             None \<Rightarrow> None
           | Some (None, s) \<Rightarrow> map_option (Pair JF_ERR_FAIL_GROW_JIUKUN_CACHE) (freePages ops s ca x)
           | Some (Some p, s) \<Rightarrow>
               (case po_page ops (ijs_buddy s) x of
                  None \<Rightarrow> None
                | Some page \<Rightarrow>
                    Some (JF_ERR_NO_ERROR, updCache c (\<lambda>ca. ca\<lparr>sc_jlFree := sc_jlFree ca @ [p]\<rparr>)
                      (updSlab p (initSlabCacheObjs ca) (markPages page (2 ^ sc_u32Order ca) (Some (c, p)) s))))))"

lemma growSlabCache_eq:
  assumes "ijs_scCache s c = Some ca"
  shows "growSlabCache ops rec s c f =
    map_option (\<lambda>(r, s). (r, updCache c (\<lambda>ca. ca\<lparr>sc_jfCache := JF_FLAG_CLEAR (sc_jfCache ca) SC_FLAG_GROWN\<rparr>) s))
      (growBody ops rec (updCache c (\<lambda>ca. ca\<lparr>sc_jfCache := JF_FLAG_SET (sc_jfCache ca) SC_FLAG_GROWN\<rparr>) s) c
        (ca\<lparr>sc_jfCache := JF_FLAG_SET (sc_jfCache ca) SC_FLAG_GROWN\<rparr>) (f OR sc_jfPage ca))"
  using assms
  by (simp add: growSlabCache_def growBody_def Let_def updCache_cache push_bit_eq_mult option.map_comp comp_def
      split: option.split prod.split)

lemma waits_frame:
  assumes "frame s s'"
  shows "waits s' c = waits s c"
proof -
  have r: "rel_option same_cache (ijs_scCache s d) (ijs_scCache s' d)" for d using assms by (simp add: frame_def)
  have w: "mayWait a' = mayWait a" "OFF_SLAB a' = OFF_SLAB a" "sc_pscSlab a' = sc_pscSlab a" if "same_cache a a'" for a a'
    using that same_flagsD(3) same_layoutD by (auto simp: same_cache_def mayWait_def)
  have mw: "(case ijs_scCache s' d of None \<Rightarrow> False | Some cm \<Rightarrow> mayWait cm) = (case ijs_scCache s d of None \<Rightarrow> False | Some cm \<Rightarrow> mayWait cm)" for d
    using r [of d] by (cases rule: option.rel_cases) (auto dest: w)
  show ?thesis
  proof (cases "ijs_scCache s c")
    case None
    then show ?thesis using r [of c] by (simp add: waits_def)
  next
    case (Some ca)
    then obtain ca' where ca': "ijs_scCache s' c = Some ca'" "same_cache ca ca'" using r [of c] by (auto simp: option_rel_Some1)
    then show ?thesis using Some w [OF ca'(2)] mw by (cases "sc_pscSlab ca") (simp_all add: waits_def)
  qed
qed

lemma new_slab_frame:
  assumes "new_slab ops held c ca x p sl s s'" "ijs_bInitialized s' = ijs_bInitialized s" "ijs_u32OffSlabLimit s' = ijs_u32OffSlabLimit s"
    "ijs_gcGeneral s' = ijs_gcGeneral s" "ijs_jlNext s' = ijs_jlNext s"
  shows "frame s s'"
  using frameI_upd [OF new_slabD(1) [OF assms(1)] _ new_slabD(3) [OF assms(1)] assms(2-5)] new_slab_layout(1) [of ca p]
  by (simp add: same_cache_def same_flags_def)

context page_provider
begin

lemma block_unowned:
  assumes inv: "slab_inv ops pok held s" and b: "held b = insert u (held (ijs_buddy s))" "u \<notin> held (ijs_buddy s)"
  shows "unowned held (s\<lparr>ijs_buddy := b\<rparr>) = insert u (unowned held s)" "u \<notin> unowned held s"
proof -
  have "owned (s\<lparr>ijs_buddy := b\<rparr>) = owned s" by (simp add: owned_def)
  then show "unowned held (s\<lparr>ijs_buddy := b\<rparr>) = insert u (unowned held s)" using b owned_held [OF inv] by (auto simp: unowned_def)
  show "u \<notin> unowned held s" using b(2) by (simp add: unowned_def)
qed

lemma evolved_new_slab:
  assumes inv: "slab_inv ops pok held s" and ca: "ijs_scCache s c = Some ca"
    and b: "held b = insert (x, sc_u32Order ca) (held (ijs_buddy s))" "(x, sc_u32Order ca) \<notin> held (ijs_buddy s)"
    and m: "mgmt_step ops pok held c M (s\<lparr>ijs_buddy := b\<rparr>) t" "if OFF_SLAB ca then \<exists>m. sc_pscSlab ca = Some m \<and> M = {(m, p)} else p = x"
    and n: "new_slab ops held c ca x p sl t s'" "frame t s'"
  shows "evolved ops pok held c M {} s s'"
proof -
  note ps = pages_same [where s' = "s\<lparr>ijs_buddy := b\<rparr>" and s = s and pg = "ijs_page s" and b = b, simplified]
  note bu = block_unowned [OF inv b]
  have st: "slab_inv ops pok held t" "frame s t" "unowned held t = insert (x, sc_u32Order ca) (unowned held s)"
    "internal t = internal s" "live t = live s \<union> M" "M \<inter> live s = {}" "\<not> OFF_SLAB ca \<Longrightarrow> M = {} \<and> ijs_scCache t = ijs_scCache s"
    using m(1) bu(1) ca frame_trans [OF ps(4)] by (auto simp: mgmt_step_def ps)
  note l = new_slab_live [OF n(1)] new_slab_internal [OF n(1)] new_slabD [OF n(1)]
  have "internal s' = internal s \<union> M" using l(3) st(4,7) m(2) by (auto split: if_splits)
  moreover have "unowned held s' = unowned held t - {(x, sc_u32Order ca)}" using l(2,8) by (auto simp: unowned_def)
  then have "unowned held s' = unowned held s" using st(3) bu(2) by auto
  ultimately show ?thesis
    using new_slab_inv [OF st(1) n(1)] frame_trans [OF st(2) n(2)] st(4-7) l(1,6) ca by (auto simp: evolved_def)
qed

lemma grown_slab:
  assumes t: "slab_inv ops pok held t" "ijs_scCache t c = Some ca" "(x, sc_u32Order ca) \<in> held (ijs_buddy t)" "(x, sc_u32Order ca) \<notin> owned t" "0 < x"
    and p: "\<And>d da. ijs_scCache t d = Some da \<Longrightarrow> p \<notin> set (slabs_of da)"
      "if OFF_SLAB ca then \<exists>m. sc_pscSlab ca = Some m \<and> (m, p) \<in> live t else p = x"
  obtains page where "po_page ops (ijs_buddy t) x = Some page"
    "new_slab ops held c ca x p (initSlabCacheObjs ca (raw_slab ca x)) t
      (updCache c (\<lambda>ca. ca\<lparr>sc_jlFree := sc_jlFree ca @ [p]\<rparr>) (updSlab p (initSlabCacheObjs ca)
        (markPages page (2 ^ sc_u32Order ca) (Some (c, p)) (t\<lparr>ijs_slab := (ijs_slab t)(p \<mapsto> raw_slab ca x)\<rparr>))))"
proof -
  obtain z q where zq: "\<forall>j < 2 ^ sc_u32Order ca * BUDDY_PAGE_SIZE. po_page ops (ijs_buddy t) (x + j) = Some (z, q + j div BUDDY_PAGE_SIZE)"
    using block_pages [OF slab_invD(1) [OF t(1)] t(3)] by blast
  have "0 < 2 ^ sc_u32Order ca * BUDDY_PAGE_SIZE" by simp
  then have page: "po_page ops (ijs_buddy t) x = Some (z, q)" using zq by fastforce
  let ?sl = "initSlabCacheObjs ca (raw_slab ca x)"
  note sh = cache_shapeD [OF cache_okD(1) [OF slab_invD(2) [OF t(1,2)]]]
  have "slab_ok (sc_u32Num ca) ?sl" "objs ca ?sl = {}"
    using slab_new [OF sh(2,3), of "raw_slab ca x"] by (auto simp: raw_slab_def objs_def)
  moreover have "s_u32InUse ?sl = 0" "s_pMem ?sl = x + slab_offset ca" by (simp_all add: initSlabCacheObjs_def raw_slab_def)
  ultimately have "new_slab ops held c ca x p ?sl t
      (updCache c (\<lambda>ca. ca\<lparr>sc_jlFree := sc_jlFree ca @ [p]\<rparr>) (updSlab p (initSlabCacheObjs ca)
        (markPages (z, q) (2 ^ sc_u32Order ca) (Some (c, p)) (t\<lparr>ijs_slab := (ijs_slab t)(p \<mapsto> raw_slab ca x)\<rparr>))))"
    using t p page by (simp add: new_slab_def updCache_def updSlab_def markPages_def cong: if_cong)
  then show ?thesis by (rule that [OF page])
qed

lemma grow_fail:
  assumes inv: "slab_inv ops pok held s" and ca: "ijs_scCache s c = Some ca" "OFF_SLAB ca"
    and b: "held b = insert (x, sc_u32Order ca) (held (ijs_buddy s))" "(x, sc_u32Order ca) \<notin> held (ijs_buddy s)"
    and m: "mgmt_step ops pok held c {} (s\<lparr>ijs_buddy := b\<rparr>) t"
  obtains s' where "freePages ops t ca x = Some s'" "evolved ops pok held c {} {} s s'"
proof -
  note ps = pages_same [where s' = "s\<lparr>ijs_buddy := b\<rparr>" and s = s and pg = "ijs_page s" and b = b, simplified]
  note bu = block_unowned [OF inv b]
  have t: "slab_inv ops pok held t" "(x, sc_u32Order ca) \<in> held (ijs_buddy t)" "(x, sc_u32Order ca) \<notin> owned t"
    using m bu by (auto simp: mgmt_step_def unowned_def)
  obtain g b' where f: "freePages ops t ca x = Some (t\<lparr>ijs_page := g, ijs_buddy := b'\<rparr>)"
    "slab_inv ops pok held (t\<lparr>ijs_page := g, ijs_buddy := b'\<rparr>)" "held b' = held (ijs_buddy t) - {(x, sc_u32Order ca)}"
    by (rule freePages_ok [OF t, of x]) auto
  note ps1 = pages_same [where s' = "t\<lparr>ijs_page := g, ijs_buddy := b'\<rparr>", OF refl]
  have "unowned held (t\<lparr>ijs_page := g, ijs_buddy := b'\<rparr>) = unowned held t - {(x, sc_u32Order ca)}"
    using f(3) ps1(3) by (auto simp: unowned_def)
  then have "unowned held (t\<lparr>ijs_page := g, ijs_buddy := b'\<rparr>) = unowned held s" using m bu by (auto simp: mgmt_step_def)
  then have "evolved ops pok held c {} {} s (t\<lparr>ijs_page := g, ijs_buddy := b'\<rparr>)"
    using f(2) m ca ps ps1 frame_trans [OF ps(4)] frame_trans [OF _ ps1(4)] by (auto simp: evolved_def mgmt_step_def)
  then show ?thesis by (rule that [OF f(1)])
qed

lemma grow_done:
  assumes inv: "slab_inv ops pok held s" and ca: "ijs_scCache s c = Some ca"
    and b: "held b = insert (x, sc_u32Order ca) (held (ijs_buddy s))" "(x, sc_u32Order ca) \<notin> held (ijs_buddy s)" "0 < x"
    and t: "mgmt_step ops pok held c M (s\<lparr>ijs_buddy := b\<rparr>) t" "\<forall>d da. ijs_scCache t d = Some da \<longrightarrow> p \<notin> set (slabs_of da)"
      "if OFF_SLAB ca then \<exists>m. sc_pscSlab ca = Some m \<and> M = {(m, p)} else p = x"
  obtains page s' where "po_page ops (ijs_buddy t) x = Some page" "evolved ops pok held c M {} s s'"
    "s' = updCache c (\<lambda>ca. ca\<lparr>sc_jlFree := sc_jlFree ca @ [p]\<rparr>) (updSlab p (initSlabCacheObjs ca)
      (markPages page (2 ^ sc_u32Order ca) (Some (c, p)) (t\<lparr>ijs_slab := (ijs_slab t)(p \<mapsto> raw_slab ca x)\<rparr>)))"
    "ijs_scCache s' c = Some (ca\<lparr>sc_jlFree := sc_jlFree ca @ [p]\<rparr>)"
proof -
  note ps = pages_same [where s' = "s\<lparr>ijs_buddy := b\<rparr>" and s = s and pg = "ijs_page s" and b = b, simplified]
  note bu = block_unowned [OF inv b(1,2)]
  have xt: "(x, sc_u32Order ca) \<in> unowned held t" using t(1) bu(1) by (simp add: mgmt_step_def)
  have tt: "slab_inv ops pok held t" "ijs_scCache t c = Some ca" "(x, sc_u32Order ca) \<in> held (ijs_buddy t)" "(x, sc_u32Order ca) \<notin> owned t"
    "if OFF_SLAB ca then \<exists>m. sc_pscSlab ca = Some m \<and> (m, p) \<in> live t else p = x"
    using t(1,3) xt ca by (auto simp: mgmt_step_def unowned_def split: if_splits)
  have t2: "\<And>d da. ijs_scCache t d = Some da \<Longrightarrow> p \<notin> set (slabs_of da)" using t(2) by blast
  obtain page where page: "po_page ops (ijs_buddy t) x = Some page" and n: "new_slab ops held c ca x p (initSlabCacheObjs ca (raw_slab ca x)) t
    (updCache c (\<lambda>ca. ca\<lparr>sc_jlFree := sc_jlFree ca @ [p]\<rparr>) (updSlab p (initSlabCacheObjs ca)
      (markPages page (2 ^ sc_u32Order ca) (Some (c, p)) (t\<lparr>ijs_slab := (ijs_slab t)(p \<mapsto> raw_slab ca x)\<rparr>))))"
    by (rule grown_slab [OF tt(1-4) b(3) t2 tt(5)])
  show ?thesis
    using that [OF page evolved_new_slab [OF inv ca b(1,2) t(1,3) n new_slab_frame [OF n]] refl] new_slabD(3) [OF n]
    by (simp add: markPages_def)
qed

text \<open>Growth once there is a block.\<close>

lemma growBlock_ok:
  assumes inv: "slab_inv ops pok held s" and ca: "ijs_scCache s c = Some ca" "\<not> reapable ca"
    and al: "po_alloc ops (ijs_buddy s) (sc_u32Order ca) = Some (r, Some x, b)" and eq: "allocPage_loop ops (sc_u32Order ca) f s' = Some (r, Some x, s\<lparr>ijs_buddy := b\<rparr>)"
    and rec: "\<And>t m cm. OFF_SLAB ca \<Longrightarrow> slab_inv ops pok held t \<Longrightarrow> ijs_scCache t m = Some cm \<Longrightarrow> \<not> OFF_SLAB cm \<Longrightarrow> alloc_result ops pok held t m (rec t m)"
  shows "grow_result ops pok held s c (growBody ops rec s' c ca f)"
proof -
  let ?t = "s\<lparr>ijs_buddy := b\<rparr>" and ?u = "(x, sc_u32Order ca)"
  note a = alloc_block [OF inv al]
  note ps = pages_same [where s' = ?t and s = s and pg = "ijs_page s" and b = b, simplified]
  have x: "0 < x" "?u \<in> held b" "?u \<notin> held (ijs_buddy s)" using a(3) by auto
  have hb: "held b = insert ?u (held (ijs_buddy s))" using a(2) by simp
  have m: "case slabMgmt rec ?t ca x of
      None \<Rightarrow> waits ?t c \<or> stuck ?t
    | Some (None, s') \<Rightarrow> OFF_SLAB ca \<and> mgmt_step ops pok held c {} ?t s'
    | Some (Some p, s') \<Rightarrow> \<exists>M t. s' = t\<lparr>ijs_slab := (ijs_slab t)(p \<mapsto> raw_slab ca x)\<rparr> \<and> mgmt_step ops pok held c M ?t t \<and>
        (\<forall>d da. ijs_scCache t d = Some da \<longrightarrow> p \<notin> set (slabs_of da)) \<and>
        (if OFF_SLAB ca then \<exists>m. sc_pscSlab ca = Some m \<and> M = {(m, p)} else p = x)"
    using x ps(3,5) ca owned_held [OF inv] by (intro slabMgmt_ok a(1) rec) auto
  consider (wait) "slabMgmt rec ?t ca x = None" | (fail) s1 where "slabMgmt rec ?t ca x = Some (None, s1)"
    | (ok) p s1 where "slabMgmt rec ?t ca x = Some (Some p, s1)"
    by (metis option.exhaust prod.exhaust)
  then show ?thesis
  proof cases
    case wait
    then show ?thesis using m eq waits_frame [OF ps(4), of c] by (simp add: growBody_def grow_result_def)
  next
    case fail
    then have "mgmt_step ops pok held c {} ?t s1" "OFF_SLAB ca" using m by auto
    then show ?thesis
      using eq fail by (auto simp: growBody_def grow_result_def elim!: grow_fail [OF inv ca(1) _ hb x(3)])
  next
    case ok
    then obtain M t where t: "s1 = t\<lparr>ijs_slab := (ijs_slab t)(p \<mapsto> raw_slab ca x)\<rparr>" "mgmt_step ops pok held c M ?t t"
      "\<forall>d da. ijs_scCache t d = Some da \<longrightarrow> p \<notin> set (slabs_of da)" "if OFF_SLAB ca then \<exists>m. sc_pscSlab ca = Some m \<and> M = {(m, p)} else p = x"
      using m by auto
    obtain page s2 where d: "po_page ops (ijs_buddy t) x = Some page" "evolved ops pok held c M {} s s2"
      "s2 = updCache c (\<lambda>ca. ca\<lparr>sc_jlFree := sc_jlFree ca @ [p]\<rparr>) (updSlab p (initSlabCacheObjs ca)
        (markPages page (2 ^ sc_u32Order ca) (Some (c, p)) (t\<lparr>ijs_slab := (ijs_slab t)(p \<mapsto> raw_slab ca x)\<rparr>)))"
      "ijs_scCache s2 c = Some (ca\<lparr>sc_jlFree := sc_jlFree ca @ [p]\<rparr>)"
      by (rule grow_done [OF inv ca(1) hb x(3,1) t(2-4)])
    have "growBody ops rec s' c ca f = Some (JF_ERR_NO_ERROR, s2)" using eq ok t(1) d(1) unfolding d(3) by (simp add: growBody_def)
    then show ?thesis using d(2,4) ca by (auto simp: grow_result_def)
  qed
qed

lemma growBody_ok:
  assumes inv: "slab_inv ops pok held s" and ca: "ijs_scCache s c = Some ca" "\<not> reapable ca"
    and f: "JF_FLAG_GET f JF_JIUKUN_PAGE_ALLOC_FLAG_WAIT \<noteq> 0 \<Longrightarrow> mayWait ca"
    and rec: "\<And>t m cm. OFF_SLAB ca \<Longrightarrow> slab_inv ops pok held t \<Longrightarrow> ijs_scCache t m = Some cm \<Longrightarrow> \<not> OFF_SLAB cm \<Longrightarrow> alloc_result ops pok held t m (rec t m)"
  shows "grow_result ops pok held s c (growBody ops rec s c ca f)"
proof (cases "allocPage_loop ops (sc_u32Order ca) f s")
  case None
  have "mayWait ca \<or> stuck s" using allocPage_none(1) [OF None inv] f by blast
  then show ?thesis using None ca by (auto simp: growBody_def grow_result_def waits_def)
next
  case (Some res)
  note pr = allocPage_some [OF Some inv]
  obtain r pg s1 where res: "res = (r, pg, s1)" by (cases res)
  show ?thesis
  proof (cases pg)
    case N: None
    have r: "reaped ops pok held s s1" "r \<noteq> JF_ERR_NO_ERROR" using pr res N by (simp_all add: pages_result_def)
    then have "slab_inv ops pok held s1" by (simp add: reaped_def released_def)
    then have "evolved ops pok held c {} {} s s1" by (intro reaped_evolved [OF r(1) _ ca(1)]) (simp add: evolved_def)
    then show ?thesis using Some res N r(2) by (auto simp: growBody_def grow_result_def)
  next
    case P: (Some x)
    obtain s0 b where s0: "reaped ops pok held s s0" "po_alloc ops (ijs_buddy s0) (sc_u32Order ca) = Some (r, Some x, b)" "s1 = s0\<lparr>ijs_buddy := b\<rparr>"
      using pr res P by (auto simp: pages_result_def)
    have s0c: "slab_inv ops pok held s0" "ijs_scCache s0 c = Some ca" "frame s s0"
      using s0(1) reaped_same [OF s0(1) ca] by (simp_all add: reaped_def released_def)
    have g: "grow_result ops pok held s0 c (growBody ops rec s c ca f)"
      by (rule growBlock_ok [OF s0c(1,2) ca(2) s0(2) _ rec]) (use Some res P s0(3) in simp)
    show ?thesis
    proof (cases "growBody ops rec s c ca f")
      case None
      then show ?thesis using g waits_frame [OF s0c(3), of c] reaped_stuck [OF s0(1)] by (auto simp: grow_result_def)
    next
      case (Some y)
      then show ?thesis using g reaped_evolved [OF s0(1) _ ca(1)] s0c(2) ca(1) by (auto simp: grow_result_def)
    qed
  qed
qed

lemma growSlabCache_ok:
  assumes inv: "slab_inv ops pok held s" and ca: "ijs_scCache s c = Some ca" and f: "JF_FLAG_GET f JF_JIUKUN_PAGE_ALLOC_FLAG_WAIT \<noteq> 0 \<Longrightarrow> mayWait ca"
    and rec: "\<And>t m cm. OFF_SLAB ca \<Longrightarrow> slab_inv ops pok held t \<Longrightarrow> ijs_scCache t m = Some cm \<Longrightarrow> \<not> OFF_SLAB cm \<Longrightarrow> alloc_result ops pok held t m (rec t m)"
  shows "grow_result ops pok held s c (growSlabCache ops rec s c f)"
proof -
  define s1 where "s1 = updCache c (\<lambda>ca. ca\<lparr>sc_jfCache := JF_FLAG_SET (sc_jfCache ca) SC_FLAG_GROWN\<rparr>) s"
  define ca1 where "ca1 = ca\<lparr>sc_jfCache := JF_FLAG_SET (sc_jfCache ca) SC_FLAG_GROWN\<rparr>"
  define fin :: "'b internal_jiukun_slab \<Rightarrow> 'b internal_jiukun_slab" where "fin = updCache c (\<lambda>ca. ca\<lparr>sc_jfCache := JF_FLAG_CLEAR (sc_jfCache ca) SC_FLAG_GROWN\<rparr>)"
  have ch: "changed ops pok held c (live s) s s1" unfolding s1_def by (rule changed_mark(1) [OF inv ca]) simp
  note d = changedD [OF ch]
  have ca1: "ijs_scCache s1 c = Some ca1" using ca by (simp add: s1_def ca1_def updCache_cache)
  have "mayWait ca1 = mayWait ca" unfolding mayWait_def ca1_def using same_flagsD(3) [OF same_flags_set(1) [of SC_FLAG_GROWN ca]] by simp
  moreover have "OFF_SLAB ca1 = OFF_SLAB ca" unfolding ca1_def using same_flagsD(1) [OF same_flags_set(1) [of SC_FLAG_GROWN ca]] by simp
  moreover have nr: "\<not> reapable ca1" by (simp add: reapable_def ca1_def JF_FLAG_GET_bit bit_char SC_FLAG_GROWN_def)
  ultimately have g: "grow_result ops pok held s1 c (growBody ops rec s1 c ca1 f)" by (intro growBody_ok [OF d(1) ca1 nr _ rec]) (use f in auto)
  note st = stuck_marked [OF ch ca1 nr]
  have eq: "growSlabCache ops rec s c f = map_option (\<lambda>(r, s). (r, fin s)) (growBody ops rec s1 c ca1 f)"
    using growSlabCache_eq [OF ca, of ops rec f] cache_okD(2) [OF slab_invD(2) [OF inv ca]] by (simp add: s1_def ca1_def fin_def)
  show ?thesis
  proof (cases "growBody ops rec s1 c ca1 f")
    case None
    then show ?thesis using g eq waits_frame [OF d(6)] st by (auto simp: grow_result_def)
  next
    case (Some res)
    obtain r s2 where res: "res = (r, s2)" by (cases res)
    obtain N where N: "evolved ops pok held c N {} s1 s2" and
      ok: "r = JF_ERR_NO_ERROR \<longrightarrow> (\<exists>ca2 p. ijs_scCache s2 c = Some ca2 \<and> sc_jlFree ca2 = sc_jlFree ca1 @ [p])"
      using g Some res ca1 by (auto simp: grow_result_def)
    obtain ca2 where ca2: "ijs_scCache s2 c = Some ca2" using frameD [OF evolvedD(2) [OF N] ca1] by blast
    have "changed ops pok held c (live s2 \<union> {}) s2 (fin s2)"
      unfolding fin_def Un_empty_right by (rule changed_mark(2) [OF evolvedD(1) [OF N] ca2]) simp
    then have "evolved ops pok held c N {} s (fin s2)"
      using changed_evolved [OF ch evolved_changed [OF N, of "{}" "fin s2"] ca] by simp
    then show ?thesis using eq Some res ok ca ca2 by (auto simp: grow_result_def fin_def updCache_cache ca1_def)
  qed
qed

section \<open>Allocation of an object\<close>

lemma evolved_refl: "slab_inv ops pok held s \<Longrightarrow> evolved ops pok held c {} {} s s"
  by (simp add: evolved_def)

lemma first_free:
  assumes inv: "slab_inv ops pok held s" and ca: "ijs_scCache s c = Some ca" "sc_jlFree ca = p # ps"
  obtains s' where "s' = updCache c (moveSlab Partial p) s" "changed ops pok held c (live s) s s'"
    "\<exists>ca'. ijs_scCache s' c = Some ca' \<and> p \<in> set (sc_jlPartial ca')"
proof -
  note ok = slab_invD(2) [OF inv ca(1)]
  have p: "p \<in> set (slabs_of ca)" using ca(2) by (simp add: slabs_of_def)
  obtain sl where sl: "ijs_slab s p = Some sl" "in_list ca p sl" using cache_okD(4) [OF ok p] by blast
  then have "fits Partial ca sl" using ca(2) cache_shapeD(2) [OF cache_okD(1) [OF ok]] by (simp add: in_list_def fits_def)
  then have "changed ops pok held c (live s) s (updCache c (moveSlab Partial p) s)" by (rule changed_move [OF inv ca(1) p sl(1)])
  then show ?thesis using that [OF refl] ca(1) by (simp add: updCache_cache moveSlab_def)
qed

lemma partialSlab_ok:
  assumes inv: "slab_inv ops pok held s" and ca: "ijs_scCache s c = Some ca"
    and rec: "\<And>t m cm. OFF_SLAB ca \<Longrightarrow> slab_inv ops pok held t \<Longrightarrow> ijs_scCache t m = Some cm \<Longrightarrow> \<not> OFF_SLAB cm \<Longrightarrow> alloc_result ops pok held t m (rec t m)"
  shows "case partialSlab ops rec s c of
      None \<Rightarrow> waits s c \<or> stuck s
    | Some (r, p, s') \<Rightarrow> \<exists>N. evolved ops pok held c N {} s s' \<and>
        (r = JF_ERR_NO_ERROR \<longrightarrow> (\<exists>ca'. ijs_scCache s' c = Some ca' \<and> p \<in> set (sc_jlPartial ca')))"
proof (cases "sc_jlPartial ca")
  case (Cons p ps)
  then have "partialSlab ops rec s c = Some (JF_ERR_NO_ERROR, p, s)" using ca by (simp add: partialSlab_def)
  then show ?thesis using evolved_refl [OF inv] ca Cons by auto
next
  case Nil
  define f where "f = (if JF_FLAG_GET (sc_jfCache ca) JF_JIUKUN_CACHE_CREATE_FLAG_WAIT \<noteq> 0 then JF_FLAG_SET 0 JF_JIUKUN_PAGE_ALLOC_FLAG_WAIT else 0)"
  have f: "mayWait ca" if "JF_FLAG_GET f JF_JIUKUN_PAGE_ALLOC_FLAG_WAIT \<noteq> 0"
    using that by (auto simp: f_def mayWait_def JF_FLAG_GET_bit split: if_splits)
  have gr: "grow_result ops pok held s c (growSlabCache ops rec s c f)" by (rule growSlabCache_ok [OF inv ca f rec])
  define g where "g = (if sc_jlFree ca = [] then growSlabCache ops rec s c f else Some (JF_ERR_NO_ERROR, s))"
  have eq: "partialSlab ops rec s c = (case g of None \<Rightarrow> None | Some (u32Ret, s) \<Rightarrow>
      (if u32Ret \<noteq> JF_ERR_NO_ERROR then Some (u32Ret, 0, s)
       else (case ijs_scCache s c of None \<Rightarrow> None | Some pCache \<Rightarrow>
         (case sc_jlFree pCache of [] \<Rightarrow> None | entry # _ \<Rightarrow> Some (JF_ERR_NO_ERROR, entry, updCache c (moveSlab Partial entry) s)))))"
    unfolding partialSlab_def g_def f_def moveSlab_fun using ca Nil by simp
  show ?thesis
  proof (cases g)
    case None
    then have "growSlabCache ops rec s c f = None" by (simp add: g_def split: if_splits)
    then show ?thesis using gr eq None by (simp add: grow_result_def)
  next
    case (Some res)
    obtain r s1 where res: "res = (r, s1)" by (cases res)
    have "\<exists>N. evolved ops pok held c N {} s s1 \<and> (r = JF_ERR_NO_ERROR \<longrightarrow> (\<exists>ca1 p ps. ijs_scCache s1 c = Some ca1 \<and> sc_jlFree ca1 = p # ps))"
    proof (cases "sc_jlFree ca")
      case N: Nil
      then have "grow_result ops pok held s c (Some (r, s1))" using gr Some res N by (simp add: g_def)
      then show ?thesis using ca N by (auto simp: grow_result_def)
    next
      case (Cons q qs)
      then show ?thesis using Some res evolved_refl [OF inv] ca by (auto simp: g_def)
    qed
    then obtain N where N: "evolved ops pok held c N {} s s1"
      and ok: "r = JF_ERR_NO_ERROR \<Longrightarrow> \<exists>ca1 p ps. ijs_scCache s1 c = Some ca1 \<and> sc_jlFree ca1 = p # ps" by blast
    show ?thesis
    proof (cases "r = JF_ERR_NO_ERROR")
      case True
      then obtain ca1 p ps where p: "ijs_scCache s1 c = Some ca1" "sc_jlFree ca1 = p # ps" using ok by blast
      obtain s2 where s2: "s2 = updCache c (moveSlab Partial p) s1" "changed ops pok held c (live s1) s1 s2"
        "\<exists>ca'. ijs_scCache s2 c = Some ca' \<and> p \<in> set (sc_jlPartial ca')" by (rule first_free [OF evolvedD(1) [OF N] p])
      have "evolved ops pok held c N {} s s2" using evolved_changed [OF N, of "{}" s2] s2(2) by simp
      moreover have "partialSlab ops rec s c = Some (JF_ERR_NO_ERROR, p, s2)" using eq Some res True p s2(1) by simp
      ultimately show ?thesis using s2(3) by auto
    next
      case False
      then show ?thesis using eq Some res N by auto
    qed
  qed
qed

lemma allocObj_step:
  assumes inv: "slab_inv ops pok held s" and ca: "ijs_scCache s c = Some ca"
    and rec: "\<And>t m cm. OFF_SLAB ca \<Longrightarrow> slab_inv ops pok held t \<Longrightarrow> ijs_scCache t m = Some cm \<Longrightarrow> \<not> OFF_SLAB cm \<Longrightarrow>
      alloc_result ops pok held t m (allocObj n ops t m)"
  shows "alloc_result ops pok held s c (allocObj (Suc n) ops s c)"
proof -
  let ?s = "lockSlabCache c s"
  note l = changed_lock(1) [OF inv ca]
  note d = changedD [OF l]
  obtain ca0 where ca0: "ijs_scCache ?s c = Some ca0" "same_layout ca ca0" using frameD [OF d(6) ca] by blast
  have nr: "\<not> reapable ca0"
    using ca0(1) ca by (auto simp: lockSlabCache_def updCache_cache reapable_def JF_FLAG_GET_bit bit_char SC_FLAG_LOCKED_def)
  have p: "case partialSlab ops (allocObj n ops) ?s c of
      None \<Rightarrow> waits ?s c \<or> stuck ?s
    | Some (r, p, s') \<Rightarrow> \<exists>N. evolved ops pok held c N {} ?s s' \<and>
        (r = JF_ERR_NO_ERROR \<longrightarrow> (\<exists>ca'. ijs_scCache s' c = Some ca' \<and> p \<in> set (sc_jlPartial ca')))"
    by (rule partialSlab_ok [OF d(1) ca0(1) rec]) (use same_layoutD(6) [OF ca0(2)] in auto)
  show ?thesis
  proof (cases "partialSlab ops (allocObj n ops) ?s c")
    case None
    then show ?thesis using p waits_frame [OF d(6), of c] stuck_marked [OF l ca0(1) nr] by (auto simp: alloc_result_def)
  next
    case (Some res)
    obtain r q s1 where res: "res = (r, q, s1)" by (cases res)
    obtain N where N: "evolved ops pok held c N {} s s1"
      and ok: "r = JF_ERR_NO_ERROR \<Longrightarrow> \<exists>ca'. ijs_scCache s1 c = Some ca' \<and> q \<in> set (sc_jlPartial ca')"
      using p Some res changed_evolved [OF l _ ca] by auto
    obtain ca1 where ca1: "ijs_scCache s1 c = Some ca1" using frameD [OF evolvedD(2) [OF N] ca] by blast
    show ?thesis
    proof (cases "r = JF_ERR_NO_ERROR")
      case True
      then have q: "q \<in> set (sc_jlPartial ca1)" using ok ca1 by auto
      obtain a s2 where a: "allocOneObjFromTail s1 c q = Some (a, s2)" "0 < a" "(c, a) \<notin> live s1"
        and ch: "changed ops pok held c (insert (c, a) (live s1)) s1 s2" by (rule take_object [OF evolvedD(1) [OF N] ca1 q])
      obtain ca2 where ca2: "ijs_scCache s2 c = Some ca2" using frameD [OF changedD(6) [OF ch] ca1] by blast
      have "changed ops pok held c (live s1 \<union> {(c, a)}) s1 (unlockSlabCache c s2)"
        using changed_trans [OF ch changed_lock(2) [OF changedD(1) [OF ch] ca2]] changedD(2) [OF ch] by simp
      then have "evolved ops pok held c N {(c, a)} s (unlockSlabCache c s2)" using evolved_changed [OF N] a(3) by fastforce
      then show ?thesis using Some res True a by (auto simp: alloc_result_def)
    next
      case False
      have "changed ops pok held c (live s1 \<union> {}) s1 (unlockSlabCache c s1)" using changed_lock(2) [OF evolvedD(1) [OF N] ca1] by simp
      then have "evolved ops pok held c N {} s (unlockSlabCache c s1)" using evolved_changed [OF N, of "{}"] by simp
      then show ?thesis using Some res False by (auto simp: alloc_result_def)
    qed
  qed
qed

text \<open>One level is enough for a cache with its management structures in its slabs, and two are for every cache.\<close>

lemma allocObj_ok:
  assumes "slab_inv ops pok held s" "ijs_scCache s c = Some ca" "2 \<le> n"
  shows "alloc_result ops pok held s c (allocObj n ops s c)"
proof -
  have "alloc_result ops pok held s c (allocObj (Suc (Suc (n - 2))) ops s c)"
  proof (rule allocObj_step [OF assms(1,2)])
    fix t m cm
    assume t: "slab_inv ops pok held t" "ijs_scCache t m = Some cm" "\<not> OFF_SLAB cm"
    show "alloc_result ops pok held t m (allocObj (Suc (n - 2)) ops t m)" by (rule allocObj_step [OF t(1,2)]) (use t(3) in blast)
  qed
  moreover have "Suc (Suc (n - 2)) = n" using assms(3) by simp
  ultimately show ?thesis by simp
qed

text \<open>With a page at hand an allocation from a cache with its management structures in its slabs takes at most that page and succeeds.\<close>

lemma growSlabCache_page:
  assumes inv: "slab_inv ops pok held s" and ca: "ijs_scCache s c = Some ca" "\<not> OFF_SLAB ca"
    and al: "po_alloc ops (ijs_buddy s) (sc_u32Order ca) = Some (r, Some x, b)"
  obtains s' where "growSlabCache ops rec s c f = Some (JF_ERR_NO_ERROR, s')" "ijs_buddy s' = b"
proof -
  have b: "pok b" "(x, sc_u32Order ca) \<in> held b" using alloc_some [OF slab_invD(1) [OF inv] al] by auto
  obtain z q where zq: "\<forall>j < 2 ^ sc_u32Order ca * BUDDY_PAGE_SIZE. po_page ops b (x + j) = Some (z, q + j div BUDDY_PAGE_SIZE)"
    using block_pages [OF b] by blast
  have "0 < 2 ^ sc_u32Order ca * BUDDY_PAGE_SIZE" by simp
  then have page: "po_page ops b x = Some (z, q)" using zq by fastforce
  have off: "\<not> OFF_SLAB (ca\<lparr>sc_jfCache := JF_FLAG_SET (sc_jfCache ca) SC_FLAG_GROWN\<rparr>)"
    using ca(2) same_flagsD(1) [OF same_flags_set(1) [of SC_FLAG_GROWN ca]] by simp
  show ?thesis
    using that page off al by (auto simp: growSlabCache_eq [OF ca(1)] growBody_def allocPage_loop.simps slabMgmt_def Let_def updCache_def updSlab_def markPages_def)
qed

lemma partialSlab_page:
  assumes inv: "slab_inv ops pok held s" and ca: "ijs_scCache s c = Some ca" "\<not> OFF_SLAB ca"
    and al: "po_alloc ops (ijs_buddy s) (sc_u32Order ca) = Some (r, Some x, b)"
  obtains p s' where "partialSlab ops rec s c = Some (JF_ERR_NO_ERROR, p, s')" "ijs_buddy s' = ijs_buddy s \<or> ijs_buddy s' = b"
proof -
  define f where "f = (if JF_FLAG_GET (sc_jfCache ca) JF_JIUKUN_CACHE_CREATE_FLAG_WAIT \<noteq> 0 then JF_FLAG_SET 0 JF_JIUKUN_PAGE_ALLOC_FLAG_WAIT else 0)"
  have f: "mayWait ca" if "JF_FLAG_GET f JF_JIUKUN_PAGE_ALLOC_FLAG_WAIT \<noteq> 0"
    using that by (auto simp: f_def mayWait_def JF_FLAG_GET_bit split: if_splits)
  obtain s1 where s1: "growSlabCache ops rec s c f = Some (JF_ERR_NO_ERROR, s1)" "ijs_buddy s1 = b" by (rule growSlabCache_page [OF inv ca al])
  have "grow_result ops pok held s c (growSlabCache ops rec s c f)" by (rule growSlabCache_ok [OF inv ca(1) f]) (use ca(2) in blast)+
  then obtain ca1 p where ca1: "ijs_scCache s1 c = Some ca1" "sc_jlFree ca1 = sc_jlFree ca @ [p]" using s1(1) ca(1) by (auto simp: grow_result_def)
  show ?thesis
    using that s1 ca1 ca(1) by (cases "sc_jlPartial ca"; cases "sc_jlFree ca") (auto simp: partialSlab_def f_def updCache_def)
qed

lemma allocObj_page:
  assumes inv: "slab_inv ops pok held s" and ca: "ijs_scCache s c = Some ca" "\<not> OFF_SLAB ca"
    and al: "po_alloc ops (ijs_buddy s) (sc_u32Order ca) = Some (r, Some x, b)"
  obtains a s' where "allocObj (Suc n) ops s c = Some (JF_ERR_NO_ERROR, a, s')" "ijs_buddy s' = ijs_buddy s \<or> ijs_buddy s' = b"
proof -
  let ?s = "lockSlabCache c s"
  note l = changedD [OF changed_lock(1) [OF inv ca(1)]]
  obtain ca0 where ca0: "ijs_scCache ?s c = Some ca0" "same_layout ca ca0" using frameD [OF l(6) ca(1)] by blast
  have ca0': "\<not> OFF_SLAB ca0" "po_alloc ops (ijs_buddy ?s) (sc_u32Order ca0) = Some (r, Some x, b)"
    using ca(2) al same_layoutD [OF ca0(2)] by (simp_all add: lockSlabCache_def updCache_def)
  obtain p s1 where s1: "partialSlab ops (allocObj n ops) ?s c = Some (JF_ERR_NO_ERROR, p, s1)" "ijs_buddy s1 = ijs_buddy ?s \<or> ijs_buddy s1 = b"
    by (rule partialSlab_page [OF l(1) ca0(1) ca0'])
  have "case partialSlab ops (allocObj n ops) ?s c of
      None \<Rightarrow> waits ?s c \<or> stuck ?s
    | Some (r, p, s') \<Rightarrow> \<exists>N. evolved ops pok held c N {} ?s s' \<and>
        (r = JF_ERR_NO_ERROR \<longrightarrow> (\<exists>ca'. ijs_scCache s' c = Some ca' \<and> p \<in> set (sc_jlPartial ca')))"
    by (rule partialSlab_ok [OF l(1) ca0(1)]) (use ca0'(1) in blast)
  then obtain N ca1 where ca1: "evolved ops pok held c N {} ?s s1" "ijs_scCache s1 c = Some ca1" "p \<in> set (sc_jlPartial ca1)" using s1(1) by auto
  obtain a s2 where s2: "allocOneObjFromTail s1 c p = Some (a, s2)" "0 < a" "(c, a) \<notin> live s1"
    "changed ops pok held c (insert (c, a) (live s1)) s1 s2" by (rule take_object [OF evolvedD(1) [OF ca1(1)] ca1(2,3)])
  have "allocObj (Suc n) ops s c = Some (JF_ERR_NO_ERROR, a, unlockSlabCache c s2)" using s1(1) s2(1,2) by simp
  moreover have "ijs_buddy (unlockSlabCache c s2) = ijs_buddy s1" "ijs_buddy ?s = ijs_buddy s"
    using changedD(5) [OF s2(4)] by (simp_all add: unlockSlabCache_def lockSlabCache_def updCache_def)
  ultimately show ?thesis using that s1(2) by simp
qed

end

end
