(* ===== verification/Jf_Slab_Create.thy ===== *)
theory Jf_Slab_Create
  imports Jf_Slab_Grow
begin

text \<open>
  Creation of a cache: the number of objects of a slab, the search for the order of the slabs, which does not end for some object sizes, and
  the invariant with the new cache.
\<close>

section \<open>Objects of a slab\<close>

definition slab_bytes :: "bool \<Rightarrow> nat \<Rightarrow> nat \<Rightarrow> nat" where
  "slab_bytes off sz n = n * sz + (if off then 0 else ALIGN_CEIL (sizeof_slab + n * sizeof_slab_bufctl) SLAB_ALIGN_SIZE)"

lemma align_mono: "x \<le> y \<Longrightarrow> ALIGN_CEIL x SLAB_ALIGN_SIZE \<le> ALIGN_CEIL y SLAB_ALIGN_SIZE"
  by (simp add: ALIGN_CEIL_def SLAB_ALIGN_SIZE_def div_le_mono)

lemma align_next: "ALIGN_CEIL (x + 4) SLAB_ALIGN_SIZE \<le> ALIGN_CEIL x SLAB_ALIGN_SIZE + 8"
proof -
  have "(x + 4 + 8 - 1) div 8 \<le> (x + 8 - 1 + 8) div 8" by (rule div_le_mono) simp
  then have "(x + 4 + 8 - 1) div 8 \<le> (x + 8 - 1) div 8 + 1" by simp
  then have "(x + 4 + 8 - 1) div 8 * 8 \<le> ((x + 8 - 1) div 8 + 1) * 8" by (rule mult_le_mono1)
  then show ?thesis by (simp only: ALIGN_CEIL_def SLAB_ALIGN_SIZE_def distrib_right mult_1)
qed

lemma align_bounds: "x \<le> ALIGN_CEIL x SLAB_ALIGN_SIZE" "ALIGN_CEIL x SLAB_ALIGN_SIZE < x + 8" "ALIGN_CEIL x SLAB_ALIGN_SIZE mod 8 = 0"
  unfolding ALIGN_CEIL_def SLAB_ALIGN_SIZE_def by presburger+

lemma slab_bytes_mono: "m \<le> n \<Longrightarrow> slab_bytes off sz m \<le> slab_bytes off sz n"
  by (auto simp: slab_bytes_def sizeof_slab_bufctl_def intro!: add_mono mult_le_mono1 align_mono)

lemma estimate_loop_spec:
  fixes base extra
  assumes "0 < sz"
  defines "used \<equiv> \<lambda>i. i * sz + ALIGN_CEIL (base + i * extra) SLAB_ALIGN_SIZE"
  shows "\<exists>j\<ge>i. estimate_loop sz extra base W i = Some j \<and> W < used j \<and> (\<forall>k. i \<le> k \<longrightarrow> k < j \<longrightarrow> used k \<le> W)"
proof (induction "Suc W - i" arbitrary: i rule: less_induct)
  case less
  show ?case
  proof (cases "used i \<le> W")
    case True
    then have "i \<le> W" using assms(1) by (auto simp: used_def dest: order_trans [rotated] intro: order_trans [of i "i * sz"])
    then have "\<exists>j\<ge>i + 1. estimate_loop sz extra base W (i + 1) = Some j \<and> W < used j \<and> (\<forall>k. i + 1 \<le> k \<longrightarrow> k < j \<longrightarrow> used k \<le> W)"
      by (intro less) simp
    then obtain j where j: "j \<ge> i + 1" "estimate_loop sz extra base W (i + 1) = Some j" "W < used j" "\<And>k. i + 1 \<le> k \<Longrightarrow> k < j \<Longrightarrow> used k \<le> W" by blast
    have "used k \<le> W" if "i \<le> k" "k < j" for k using j(4) [of k] True that by (cases "k = i") simp_all
    moreover have "estimate_loop sz extra base W i = Some j" using True j(2) by (subst estimate_loop.simps) (simp add: used_def)
    ultimately show ?thesis using j by (intro exI [of _ j]) simp
  next
    case False
    then show ?thesis using estimate_loop.simps [of sz extra base W i] by (intro exI [of _ i]) (simp add: used_def)
  qed
qed

text \<open>The estimate is the greatest number of objects that fit.\<close>

lemma slabCacheEstimate_spec:
  assumes "0 < sz" "order \<le> MAX_JP_ORDER"
    and off_def: "off \<longleftrightarrow> JF_FLAG_GET flag SC_FLAG_OFF_SLAB \<noteq> 0" and W_def: "W = 2 ^ order * BUDDY_PAGE_SIZE"
  obtains num where "slabCacheEstimate order sz flag = Some (W - slab_bytes off sz num, num)" "slab_bytes off sz num \<le> W"
    "W < slab_bytes off sz (num + 1)"
proof -
  define base where "base = (if off then 0 else sizeof_slab)"
  define extra where "extra = (if off then 0 else sizeof_slab_bufctl)"
  have used: "i * sz + ALIGN_CEIL (base + i * extra) SLAB_ALIGN_SIZE = slab_bytes off sz i" for i
    by (simp add: slab_bytes_def base_def extra_def ALIGN_CEIL_def SLAB_ALIGN_SIZE_def)
  have W: "W = push_bit order BUDDY_PAGE_SIZE" by (simp add: W_def push_bit_eq_mult mult.commute)
  obtain j where j: "estimate_loop sz extra base W 0 = Some j" "W < slab_bytes off sz j" "\<And>k. k < j \<Longrightarrow> slab_bytes off sz k \<le> W"
    using estimate_loop_spec [OF assms(1), of 0 extra base W] unfolding used by auto
  have W1: "4096 \<le> W" "W \<le> 2048 * 4096"
  proof -
    have "(2::nat) ^ order \<le> 2 ^ 11" using assms(2) by (intro power_increasing) (auto simp: MAX_JP_ORDER_def)
    moreover have "1 \<le> (2::nat) ^ order" by simp
    ultimately show "4096 \<le> W" "W \<le> 2048 * 4096" by (simp_all add: W_def BUDDY_PAGE_SIZE_def JF_JIUKUN_PAGE_SHIFT_def)
  qed
  have "slab_bytes off sz 0 \<le> 32" by (simp add: slab_bytes_def ALIGN_CEIL_def SLAB_ALIGN_SIZE_def sizeof_slab_def)
  then have "j \<noteq> 0" using j(2) W1 by (intro notI) simp
  then obtain n where n: "j = Suc n" by (cases j) auto
  have "n * sz \<le> W" using j(3) [of n] n by (simp add: slab_bytes_def)
  moreover have "n \<le> n * sz" using assms(1) by simp
  ultimately have "n \<le> W" by (rule order_trans [rotated])
  then have "\<not> SLAB_LIMIT < n" using W1(2) by (simp add: SLAB_LIMIT_def)
  then have "slabCacheEstimate order sz flag = Some (W - n * sz - ALIGN_CEIL (base + n * extra) SLAB_ALIGN_SIZE, n)"
    using j(1) n unfolding slabCacheEstimate_def W base_def extra_def off_def by (simp add: Let_def)
  moreover have "W - n * sz - ALIGN_CEIL (base + n * extra) SLAB_ALIGN_SIZE = W - slab_bytes off sz n" using used [of n] by simp
  ultimately show ?thesis using that [of n] j n by simp
qed

section \<open>The order of the slabs\<close>

text \<open>A slab that wastes too much memory is tried again and again.\<close>

lemma order_loop_diverges:
  assumes est: "slabCacheEstimate order sz flag = Some (left_over, num)" and ord: "order < MAX_JP_ORDER" "num \<noteq> 0"
    and lim: "\<not> (JF_FLAG_GET flag SC_FLAG_OFF_SLAB \<noteq> 0 \<and> num > limit)" and waste: "\<not> left_over * 8 \<le> push_bit order BUDDY_PAGE_SIZE"
  shows "order_loop limit sz flag order = None"
proof -
  have "\<not> (l = limit \<and> z = sz \<and> f = flag \<and> k = order)" if "order_loop l z f k = Some y" for l z f k y
  proof (rule order_loop.raw_induct [where P = "\<lambda>l z f k y. \<not> (l = limit \<and> z = sz \<and> f = flag \<and> k = order)", OF _ that])
    fix g l z f k y
    assume IH: "\<And>l z f k y. g l z f k = Some y \<Longrightarrow> \<not> (l = limit \<and> z = sz \<and> f = flag \<and> k = order)"
      and step: "(case slabCacheEstimate k z f of
        None \<Rightarrow> None
      | Some (left_over, num) \<Rightarrow>
          (if k \<ge> MAX_JP_ORDER then Some (k, num, left_over)
           else if num = 0 then g l z f (k + 1)
           else if JF_FLAG_GET f SC_FLAG_OFF_SLAB \<noteq> 0 \<and> num > l then (if k = 0 then None else g l z f (k - 1))
           else if left_over * 8 \<le> push_bit k BUDDY_PAGE_SIZE then Some (k, num, left_over)
           else g l z f k)) = Some y"
    show "\<not> (l = limit \<and> z = sz \<and> f = flag \<and> k = order)"
      using IH [of limit sz flag order y] step est ord lim waste by auto
  qed
  then have "order_loop limit sz flag order \<noteq> Some y" for y by blast
  then show ?thesis by (cases "order_loop limit sz flag order") blast+
qed

text \<open>A small object: the slab is one page, which holds its management structure.\<close>

lemma order_loop_small:
  assumes flag: "JF_FLAG_GET flag SC_FLAG_OFF_SLAB = 0" and sz: "8 \<le> sz" "sz \<le> 504"
  obtains num left_over where "order_loop limit sz flag 0 = Some (0, num, left_over)" "0 < num" "slab_bytes False sz num \<le> BUDDY_PAGE_SIZE"
proof -
  obtain num where n: "slabCacheEstimate 0 sz flag = Some (BUDDY_PAGE_SIZE - slab_bytes False sz num, num)"
    "slab_bytes False sz num \<le> BUDDY_PAGE_SIZE" "BUDDY_PAGE_SIZE < slab_bytes False sz (num + 1)"
    using slabCacheEstimate_spec [of sz 0 False flag BUDDY_PAGE_SIZE] sz flag by (auto simp: MAX_JP_ORDER_def)
  have page: "BUDDY_PAGE_SIZE = 4096" by (simp add: BUDDY_PAGE_SIZE_def JF_JIUKUN_PAGE_SHIFT_def)
  have "slab_bytes False sz 1 \<le> 4096" using sz by (simp add: slab_bytes_def ALIGN_CEIL_def SLAB_ALIGN_SIZE_def sizeof_slab_def sizeof_slab_bufctl_def)
  then have "num \<noteq> 0" using n(3) page by (intro notI) simp
  have "slab_bytes False sz (num + 1) \<le> slab_bytes False sz num + sz + 8"
    using align_next [of "sizeof_slab + num * 4"] by (simp add: slab_bytes_def sizeof_slab_bufctl_def add_ac)
  then have "(BUDDY_PAGE_SIZE - slab_bytes False sz num) * 8 \<le> push_bit 0 BUDDY_PAGE_SIZE" using n(3) sz(2) page by simp
  then have "order_loop limit sz flag 0 = Some (0, num, BUDDY_PAGE_SIZE - slab_bytes False sz num)"
    using n(1) \<open>num \<noteq> 0\<close> flag by (subst order_loop.simps) (simp add: MAX_JP_ORDER_def)
  then show ?thesis using that n(2) \<open>num \<noteq> 0\<close> by blast
qed

text \<open>A large object: the smallest order that holds one.\<close>

definition least_order :: "nat \<Rightarrow> nat" where
  "least_order sz = (LEAST k. sz \<le> 2 ^ k * BUDDY_PAGE_SIZE)"

definition order_num :: "nat \<Rightarrow> nat" where
  "order_num sz = 2 ^ least_order sz * BUDDY_PAGE_SIZE div sz"

definition order_waste :: "nat \<Rightarrow> nat" where
  "order_waste sz = 2 ^ least_order sz * BUDDY_PAGE_SIZE mod sz"

lemma least_order:
  assumes "sz \<le> 2 ^ MAX_JP_ORDER * BUDDY_PAGE_SIZE"
  shows "sz \<le> 2 ^ least_order sz * BUDDY_PAGE_SIZE" "least_order sz \<le> MAX_JP_ORDER" "k < least_order sz \<Longrightarrow> 2 ^ k * BUDDY_PAGE_SIZE < sz"
  using LeastI [where P = "\<lambda>k. sz \<le> 2 ^ k * BUDDY_PAGE_SIZE", OF assms] Least_le [where P = "\<lambda>k. sz \<le> 2 ^ k * BUDDY_PAGE_SIZE", OF assms]
    not_less_Least [of k "\<lambda>k. sz \<le> 2 ^ k * BUDDY_PAGE_SIZE"]
  by (simp_all add: least_order_def)

lemma order_num:
  assumes "512 \<le> sz" "sz \<le> 2 ^ MAX_JP_ORDER * BUDDY_PAGE_SIZE"
  shows "0 < order_num sz" "order_num sz \<le> 8" "order_num sz * sz + order_waste sz = 2 ^ least_order sz * BUDDY_PAGE_SIZE" "order_waste sz < sz"
proof -
  note l = least_order [OF assms(2)]
  show "0 < order_num sz" using l(1) assms(1) by (simp add: order_num_def div_greater_zero_iff)
  show "order_num sz * sz + order_waste sz = 2 ^ least_order sz * BUDDY_PAGE_SIZE" by (simp add: order_num_def order_waste_def)
  show "order_waste sz < sz" using assms(1) by (simp add: order_waste_def)
  show "order_num sz \<le> 8"
  proof (cases "least_order sz")
    case 0
    have "BUDDY_PAGE_SIZE div sz \<le> BUDDY_PAGE_SIZE div 512" using assms(1) by (rule div_le_mono2 [rotated]) simp
    then show ?thesis by (simp add: order_num_def 0 BUDDY_PAGE_SIZE_def JF_JIUKUN_PAGE_SHIFT_def)
  next
    case (Suc j)
    then have "2 ^ least_order sz * BUDDY_PAGE_SIZE < 2 * sz" using l(3) [of j] by simp
    then have "order_num sz < 2" unfolding order_num_def by (simp add: less_mult_imp_div_less)
    then show ?thesis by simp
  qed
qed

lemma order_loop_large:
  assumes flag: "JF_FLAG_GET flag SC_FLAG_OFF_SLAB \<noteq> 0" and sz: "512 \<le> sz" "sz \<le> 2 ^ MAX_JP_ORDER * BUDDY_PAGE_SIZE" and lim: "8 \<le> limit"
  shows "order_loop limit sz flag 0 =
    (if least_order sz = MAX_JP_ORDER \<or> order_waste sz * 8 \<le> 2 ^ least_order sz * BUDDY_PAGE_SIZE
     then Some (least_order sz, order_num sz, order_waste sz) else None)"
proof -
  note l = least_order [OF sz(2)] and o = order_num [OF sz]
  have est: "slabCacheEstimate k sz flag = Some (2 ^ k * BUDDY_PAGE_SIZE mod sz, 2 ^ k * BUDDY_PAGE_SIZE div sz)" if k: "k \<le> MAX_JP_ORDER" for k
  proof -
    obtain num where num: "slabCacheEstimate k sz flag = Some (2 ^ k * BUDDY_PAGE_SIZE - num * sz, num)" "num * sz \<le> 2 ^ k * BUDDY_PAGE_SIZE"
      "2 ^ k * BUDDY_PAGE_SIZE < (num + 1) * sz"
      using slabCacheEstimate_spec [of sz k True flag "2 ^ k * BUDDY_PAGE_SIZE"] k sz(1) flag by (auto simp: slab_bytes_def)
    have "2 ^ k * BUDDY_PAGE_SIZE div sz = num" using num(2,3) sz(1) by (intro div_nat_eqI) (simp_all add: mult.commute)
    then show ?thesis using num(1) by (simp add: minus_div_mult_eq_mod [symmetric])
  qed
  have reach: "order_loop limit sz flag k = order_loop limit sz flag (least_order sz)" if "k \<le> least_order sz" for k
    using that
  proof (induction "least_order sz - k" arbitrary: k)
    case (Suc n)
    then have k: "k < least_order sz" by simp
    then have "2 ^ k * BUDDY_PAGE_SIZE div sz = 0" using l(3) by simp
    then have "order_loop limit sz flag k = order_loop limit sz flag (k + 1)"
      using est [of k] k l(2) by (subst order_loop.simps) simp
    then show ?case using Suc k by simp
  qed simp
  have e: "slabCacheEstimate (least_order sz) sz flag = Some (order_waste sz, order_num sz)"
    using est [OF l(2)] by (simp add: order_num_def order_waste_def)
  have p: "push_bit (least_order sz) BUDDY_PAGE_SIZE = 2 ^ least_order sz * BUDDY_PAGE_SIZE" by (simp add: push_bit_eq_mult mult.commute)
  show ?thesis
  proof (cases "least_order sz = MAX_JP_ORDER \<or> order_waste sz * 8 \<le> 2 ^ least_order sz * BUDDY_PAGE_SIZE")
    case True
    then have "order_loop limit sz flag (least_order sz) = Some (least_order sz, order_num sz, order_waste sz)"
      using e o(1,2) lim p by (subst order_loop.simps) auto
    then show ?thesis using True reach [of 0] by simp
  next
    case False
    then have "order_loop limit sz flag (least_order sz) = None"
      using e o(1,2) lim l(2) p by (intro order_loop_diverges [OF e]) auto
    then show ?thesis using False reach [of 0] by simp
  qed
qed

section \<open>A new cache\<close>

lemma new_cache_views:
  assumes "ijs_scCache t (Cache a) = None" "slabs_of ca = []" "t' = t\<lparr>ijs_scCache := (ijs_scCache t)(Cache a \<mapsto> ca), ijs_jlNext := js\<rparr>"
  shows "live t' = live t" "owned t' = owned t" "internal t' = insert (Cache_cache, a) (internal t)"
proof -
  have c: "ijs_scCache t' d = Some da \<and> q \<in> set (slabs_of da) \<longleftrightarrow> ijs_scCache t d = Some da \<and> q \<in> set (slabs_of da)" for d da q
    using assms by (cases "d = Cache a") auto
  have live: "(d, x) \<in> live t' \<longleftrightarrow> (d, x) \<in> live t" for d x 
    unfolding live_def mem_Collect_eq prod.case conj_assoc [symmetric] c using assms(3) by simp
  show "live t' = live t" using live by auto
  have own: "u \<in> owned t' \<longleftrightarrow> u \<in> owned t" for u
    unfolding owned_def mem_Collect_eq conj_assoc [symmetric] c using assms(3) by simp
  show "owned t' = owned t" using own by blast
  let ?I = "\<lambda>s. {(m, q). \<exists>d da. ijs_scCache s d = Some da \<and> OFF_SLAB da \<and> sc_pscSlab da = Some m \<and> q \<in> set (slabs_of da)}"
  have i: "(m, q) \<in> ?I t' \<longleftrightarrow> (m, q) \<in> ?I t" for m q
  proof -
    have "(\<exists>d da. ijs_scCache t' d = Some da \<and> OFF_SLAB da \<and> sc_pscSlab da = Some m \<and> q \<in> set (slabs_of da)) \<longleftrightarrow>
      (\<exists>d da. (ijs_scCache t' d = Some da \<and> q \<in> set (slabs_of da)) \<and> OFF_SLAB da \<and> sc_pscSlab da = Some m)" by blast
    then show ?thesis unfolding c by blast
  qed
  have "?I t' = ?I t" using i by blast
  moreover have "ijs_scCache t' (Cache x) \<noteq> None \<longleftrightarrow> x = a \<or> ijs_scCache t (Cache x) \<noteq> None" for x using assms(3) by simp
  ultimately show "internal t' = insert (Cache_cache, a) (internal t)" unfolding internal_def by auto
qed

context page_provider
begin

lemma new_cache_inv:
  assumes inv: "slab_inv ops pok held t" and a: "(Cache_cache, a) \<in> objects t"
    and ca: "slabs_of ca = []" "cache_shape ca" "sc_jfPage ca = 0" "mgmt_ok t ca"
    and t': "t' = t\<lparr>ijs_scCache := (ijs_scCache t)(Cache a \<mapsto> ca), ijs_jlNext := js\<rparr>"
  shows "ijs_scCache t (Cache a) = None" "slab_inv ops pok held t'" "objects t' = objects t - {(Cache_cache, a)}"
proof -
  have "(Cache_cache, a) \<notin> internal t" using a by (simp add: objects_def)
  then show fresh: "ijs_scCache t (Cache a) = None" unfolding internal_def by auto
  note v = new_cache_views [OF fresh ca(1) t'] and k = slab_invD [OF inv]
  show "objects t' = objects t - {(Cache_cache, a)}" using v by (auto simp: objects_def)
  have "ijs_scCache t' m = ijs_scCache t m" if "ijs_scCache t m \<noteq> None" for m using that fresh t' by auto
  then have mg: "mgmt_ok t' da" if "mgmt_ok t da" for da using that unfolding mgmt_ok_def by fastforce
  have at: "slab_at ops held t' = slab_at ops held t" by (simp add: fun_eq_iff slab_at_def t')
  have "cache_ok ops held t' d da \<and> mgmt_ok t' da" if "ijs_scCache t' d = Some da" for d da
  proof (cases "d = Cache a")
    case True
    then have "da = ca" using that t' by simp
    then show ?thesis using ca mg by (simp add: cache_ok_def)
  next
    case False
    then have d: "ijs_scCache t d = Some da" using that t' by simp
    then show ?thesis using k(2,3) [OF d] mg at by (simp add: cache_ok_def t')
  qed
  moreover have "internal t' \<subseteq> live t'" using v k(4) a by (auto simp: objects_def)
  ultimately show "slab_inv ops pok held t'" using k(1,5) t' by (auto simp: slab_inv_def)
qed

end

text \<open>The sizes for which the search for the order of the slabs ends.\<close>

definition order_found :: "nat \<Rightarrow> bool" where
  "order_found sz \<longleftrightarrow> sz < 512 \<or> least_order sz = MAX_JP_ORDER \<or> order_waste sz * 8 \<le> 2 ^ least_order sz * BUDDY_PAGE_SIZE"

text \<open>What a cache with large objects relies on: a general cache for the management structures of its slabs.\<close>

definition mgmt_cache :: "'b internal_jiukun_slab \<Rightarrow> cache_id \<Rightarrow> bool" where
  "mgmt_cache s m \<longleftrightarrow> 8 \<le> ijs_u32OffSlabLimit s \<and> m \<noteq> Cache_cache \<and> (\<exists>cm. ijs_scCache s m = Some cm \<and> \<not> OFF_SLAB cm) \<and>
     (\<forall>n. 32 < n \<longrightarrow> n \<le> 64 \<longrightarrow> findGeneralSlabCache (ijs_gcGeneral s) n = Some (Some m))"

lemma mgmt_cache_frame:
  assumes f: "frame s s'" and m: "mgmt_cache s m"
  shows "mgmt_cache s' m"
proof -
  obtain cm where cm: "ijs_scCache s m = Some cm" "\<not> OFF_SLAB cm" using m by (auto simp: mgmt_cache_def)
  obtain cm' where "ijs_scCache s' m = Some cm'" "same_layout cm cm'" by (rule frameD [OF f cm(1)])
  then have "\<exists>cm. ijs_scCache s' m = Some cm \<and> \<not> OFF_SLAB cm" using cm(2) same_layoutD(6) by blast
  then show ?thesis using f m by (simp add: mgmt_cache_def frame_def)
qed

lemma align_range:
  assumes "SLAB_ALIGN_SIZE \<le> n" "n \<le> 2 ^ MAX_JP_ORDER * BUDDY_PAGE_SIZE"
  shows "8 \<le> ALIGN_CEIL n SLAB_ALIGN_SIZE" "ALIGN_CEIL n SLAB_ALIGN_SIZE \<le> 2 ^ MAX_JP_ORDER * BUDDY_PAGE_SIZE"
    "ALIGN_CEIL n SLAB_ALIGN_SIZE < 512 \<Longrightarrow> ALIGN_CEIL n SLAB_ALIGN_SIZE \<le> 504"
proof -
  show "8 \<le> ALIGN_CEIL n SLAB_ALIGN_SIZE" using align_bounds(1) [of n] assms(1) by (simp add: SLAB_ALIGN_SIZE_def)
  have "ALIGN_CEIL n SLAB_ALIGN_SIZE \<le> ALIGN_CEIL (2 ^ MAX_JP_ORDER * BUDDY_PAGE_SIZE) SLAB_ALIGN_SIZE" using assms(2) by (rule align_mono)
  also have "\<dots> = 2 ^ MAX_JP_ORDER * BUDDY_PAGE_SIZE"
    by (simp add: ALIGN_CEIL_def SLAB_ALIGN_SIZE_def MAX_JP_ORDER_def BUDDY_PAGE_SIZE_def JF_JIUKUN_PAGE_SHIFT_def)
  finally show "ALIGN_CEIL n SLAB_ALIGN_SIZE \<le> 2 ^ MAX_JP_ORDER * BUDDY_PAGE_SIZE" .
  show "ALIGN_CEIL n SLAB_ALIGN_SIZE \<le> 504" if "ALIGN_CEIL n SLAB_ALIGN_SIZE < 512"
    using align_bounds(3) [of n] that by presburger
qed

text \<open>The layout of a new cache.\<close>

definition layout ::
  "nat \<Rightarrow> (int \<times> cache_id option) list \<Rightarrow> nat \<Rightarrow> u64 \<Rightarrow> (nat \<times> nat \<times> u64 \<times> cache_id option) option" where
  "layout limit gs sz jf =
     (let jf = (if sz \<ge> drop_bit 3 BUDDY_PAGE_SIZE then JF_FLAG_SET jf SC_FLAG_OFF_SLAB else jf)
      in case order_loop limit sz jf 0 of
           None \<Rightarrow> None
         | Some (order, num, left_over) \<Rightarrow>
             (let slab_size = ALIGN_CEIL (num * sizeof_slab_bufctl + sizeof_slab) SLAB_ALIGN_SIZE;
                  jf = (if JF_FLAG_GET jf SC_FLAG_OFF_SLAB \<noteq> 0 \<and> left_over \<ge> slab_size then JF_FLAG_CLEAR jf SC_FLAG_OFF_SLAB else jf)
              in map_option (\<lambda>psc. (order, num, jf, psc))
                   (if JF_FLAG_GET jf SC_FLAG_OFF_SLAB \<noteq> 0 then findGeneralSlabCache gs (int slab_size) else Some None)))"

definition layout_ok :: "nat \<Rightarrow> u64 \<Rightarrow> cache_id \<Rightarrow> slab_cache \<Rightarrow> bool" where
  "layout_ok sz jf m ca \<longleftrightarrow> cache_shape ca \<and> (OFF_SLAB ca \<longrightarrow> sc_pscSlab ca = Some m \<and> 512 \<le> sz) \<and>
     (0 < sc_u32Order ca \<longrightarrow> 512 \<le> sz) \<and> (\<forall>f. f \<noteq> SC_FLAG_OFF_SLAB \<longrightarrow> JF_FLAG_GET (sc_jfCache ca) f = JF_FLAG_GET jf f)"

lemma layout_small:
  assumes sz: "8 \<le> sz" "sz \<le> 504" and jf: "JF_FLAG_GET jf SC_FLAG_OFF_SLAB = 0"
  obtains num where "layout limit gs sz jf = Some (0, num, jf, None)" "0 < num" "slab_bytes False sz num \<le> BUDDY_PAGE_SIZE"
proof -
  have page: "drop_bit 3 BUDDY_PAGE_SIZE = 512" by (simp add: BUDDY_PAGE_SIZE_def JF_JIUKUN_PAGE_SHIFT_def drop_bit_eq_div)
  obtain num left_over where "order_loop limit sz jf 0 = Some (0, num, left_over)" "0 < num" "slab_bytes False sz num \<le> BUDDY_PAGE_SIZE"
    by (rule order_loop_small [OF jf sz])
  then show ?thesis using that jf sz(2) page by (simp add: layout_def Let_def)
qed

lemma layout_small_ok:
  assumes "8 \<le> sz" "0 < num" "slab_bytes False sz num \<le> BUDDY_PAGE_SIZE" "JF_FLAG_GET jf SC_FLAG_OFF_SLAB = 0"
    "sc_u32ObjSize ca = sz" "sc_u32Num ca = num" "sc_u32Order ca = 0" "sc_jfCache ca = jf"
  shows "layout_ok sz jf m ca"
proof -
  have off: "\<not> OFF_SLAB ca" using assms(4,8) by (simp add: OFF_SLAB_def)
  have o: "slab_offset ca + num * sz \<le> BUDDY_PAGE_SIZE"
    using assms(3,6) off by (simp add: slab_offset_def mgmt_size_def slab_bytes_def add.commute)
  moreover have "8 \<le> num * sz" using assms(1,2) by (metis One_nat_def Suc_leI mult.commute mult_le_mono nat_mult_1_right)
  moreover have "num < BUFCTL_END"
  proof -
    have "num \<le> num * sz" using assms(1) by simp
    then have "num \<le> BUDDY_PAGE_SIZE" using o by linarith
    then show ?thesis by (simp add: BUFCTL_END_def BUDDY_PAGE_SIZE_def JF_JIUKUN_PAGE_SHIFT_def)
  qed
  ultimately show ?thesis using assms off by (simp add: layout_ok_def cache_shape_def)
qed

lemma layout_large:
  assumes sz: "512 \<le> sz" "sz \<le> 2 ^ MAX_JP_ORDER * BUDDY_PAGE_SIZE" and lim: "8 \<le> limit"
    and gs: "\<And>n. 32 < n \<Longrightarrow> n \<le> 64 \<Longrightarrow> findGeneralSlabCache gs n = Some (Some m)"
    and mgmt: "mgmt = ALIGN_CEIL (order_num sz * sizeof_slab_bufctl + sizeof_slab) SLAB_ALIGN_SIZE"
  shows "layout limit gs sz jf =
    (if order_found sz then
       (if mgmt \<le> order_waste sz then Some (least_order sz, order_num sz, JF_FLAG_CLEAR (JF_FLAG_SET jf SC_FLAG_OFF_SLAB) SC_FLAG_OFF_SLAB, None)
        else Some (least_order sz, order_num sz, JF_FLAG_SET jf SC_FLAG_OFF_SLAB, Some m))
     else None)"
proof -
  have page: "drop_bit 3 BUDDY_PAGE_SIZE = 512" by (simp add: BUDDY_PAGE_SIZE_def JF_JIUKUN_PAGE_SHIFT_def drop_bit_eq_div)
  have fl: "JF_FLAG_GET (JF_FLAG_SET jf SC_FLAG_OFF_SLAB) SC_FLAG_OFF_SLAB \<noteq> 0"
    "JF_FLAG_GET (JF_FLAG_CLEAR (JF_FLAG_SET jf SC_FLAG_OFF_SLAB) SC_FLAG_OFF_SLAB) SC_FLAG_OFF_SLAB = 0"
    by (simp_all add: JF_FLAG_GET_bit bit_char SC_FLAG_OFF_SLAB_def)
  note o = order_num [OF sz] and n = align_bounds [of "order_num sz * 4 + 32"]
  have "32 < mgmt" "mgmt \<le> 64" using o(1,2) n mgmt by (auto simp: sizeof_slab_bufctl_def sizeof_slab_def)
  then have "findGeneralSlabCache gs (int mgmt) = Some (Some m)" by (intro gs) simp_all
  then show ?thesis using order_loop_large [OF fl(1) sz lim] sz(1) fl page mgmt by (simp add: layout_def Let_def order_found_def)
qed

lemma layout_large_ok:
  assumes sz: "512 \<le> sz" "sz \<le> 2 ^ MAX_JP_ORDER * BUDDY_PAGE_SIZE"
    and ca: "sc_u32ObjSize ca = sz" "sc_u32Num ca = order_num sz" "sc_u32Order ca = least_order sz"
      "if mgmt_size ca \<le> order_waste sz then sc_jfCache ca = JF_FLAG_CLEAR (JF_FLAG_SET jf SC_FLAG_OFF_SLAB) SC_FLAG_OFF_SLAB
       else sc_jfCache ca = JF_FLAG_SET jf SC_FLAG_OFF_SLAB \<and> sc_pscSlab ca = Some m"
  shows "layout_ok sz jf m ca"
proof -
  note o = order_num [OF sz] and n = align_bounds [of "order_num sz * 4 + 32"]
  have ms: "mgmt_size ca < 4096" using o(2) n(2) ca(2) by (simp add: mgmt_size_def sizeof_slab_bufctl_def sizeof_slab_def)
  have off: "OFF_SLAB ca \<longleftrightarrow> \<not> mgmt_size ca \<le> order_waste sz"
    using ca(4) by (auto simp: OFF_SLAB_def JF_FLAG_GET_bit bit_char SC_FLAG_OFF_SLAB_def split: if_splits)
  have "slab_offset ca < BUDDY_PAGE_SIZE" using ms by (simp add: slab_offset_def BUDDY_PAGE_SIZE_def JF_JIUKUN_PAGE_SHIFT_def)
  moreover have "slab_offset ca + sc_u32Num ca * sc_u32ObjSize ca \<le> 2 ^ sc_u32Order ca * BUDDY_PAGE_SIZE"
    using o(3) off ca(1-3) by (simp add: slab_offset_def split: if_splits)
  moreover have "JF_FLAG_GET (sc_jfCache ca) f = JF_FLAG_GET jf f" if "f \<noteq> SC_FLAG_OFF_SLAB" for f
    using ca(4) that by (auto simp: JF_FLAG_GET_bit bit_char SC_FLAG_OFF_SLAB_def split: if_splits dest: bit_imp_le_length)
  ultimately show ?thesis using off ca sz(1) o(1,2) by (auto simp: layout_ok_def cache_shape_def BUFCTL_END_def split: if_splits)
qed

definition descriptor :: "string \<Rightarrow> nat \<Rightarrow> nat \<times> nat \<times> u64 \<times> cache_id option \<Rightarrow> slab_cache" where
  "descriptor name sObj l =
     (case l of (order, num, jf, psc) \<Rightarrow>
        \<lparr>sc_u32ObjSize = ALIGN_CEIL sObj SLAB_ALIGN_SIZE, sc_u32RealObjSize = sObj, sc_jfCache = jf, sc_u32Num = num,
         sc_jlFull = [], sc_jlPartial = [], sc_jlFree = [], sc_u32Order = order, sc_jfPage = 0,
         sc_pscSlab = psc, sc_strName = take (CACHE_NAME_LEN - 1) name\<rparr>)"

lemma createSlabCache_found:
  assumes "allocObj slab_depth ops s Cache_cache = Some (JF_ERR_NO_ERROR, a, s1)"
    "layout (ijs_u32OffSlabLimit s1) (ijs_gcGeneral s1) (ALIGN_CEIL sObj SLAB_ALIGN_SIZE) jf = Some (order, num, jf', psc)" "0 < num"
  shows "createSlabCache ops mtx s name sObj jf =
    (if mtx name \<noteq> JF_ERR_NO_ERROR then map_option (\<lambda>s. (mtx name, None, s)) (freeObj ops s1 Cache_cache a)
     else Some (JF_ERR_NO_ERROR, Some (Cache a),
       s1\<lparr>ijs_scCache := (ijs_scCache s1)(Cache a \<mapsto> descriptor name sObj (order, num, jf', psc)), ijs_jlNext := Cache a # ijs_jlNext s1\<rparr>))"
proof -
  let ?sz = "ALIGN_CEIL sObj SLAB_ALIGN_SIZE"
  define jf1 where "jf1 = (if ?sz \<ge> drop_bit 3 BUDDY_PAGE_SIZE then JF_FLAG_SET jf SC_FLAG_OFF_SLAB else jf)"
  define n where "n = ALIGN_CEIL (num * sizeof_slab_bufctl + sizeof_slab) SLAB_ALIGN_SIZE"
  note lay = assms(2) [unfolded layout_def Let_def, folded jf1_def]
  obtain left_over where f1: "order_loop (ijs_u32OffSlabLimit s1) ?sz jf1 0 = Some (order, num, left_over)"
    using lay by (auto split: option.splits if_splits)
  have f2: "(if JF_FLAG_GET jf1 SC_FLAG_OFF_SLAB \<noteq> 0 \<and> left_over \<ge> n then JF_FLAG_CLEAR jf1 SC_FLAG_OFF_SLAB else jf1) = jf'"
    and f3: "(if JF_FLAG_GET jf' SC_FLAG_OFF_SLAB \<noteq> 0 then findGeneralSlabCache (ijs_gcGeneral s1) (int n) else Some None) = Some psc"
    using lay [unfolded f1 option.case prod.case, folded n_def] by (auto split: if_splits)
  have "num \<noteq> 0" using assms(3) by simp
  then show ?thesis
    unfolding createSlabCache_def Let_def assms(1) option.case prod.case jf1_def [symmetric] f1 n_def [symmetric] f2 f3
    by (simp add: descriptor_def)
qed

lemma createSlabCache_lost:
  assumes "allocObj slab_depth ops s Cache_cache = Some (JF_ERR_NO_ERROR, a, s1)"
    "order_loop (ijs_u32OffSlabLimit s1) (ALIGN_CEIL sObj SLAB_ALIGN_SIZE)
      (if ALIGN_CEIL sObj SLAB_ALIGN_SIZE \<ge> drop_bit 3 BUDDY_PAGE_SIZE then JF_FLAG_SET jf SC_FLAG_OFF_SLAB else jf) 0 = None"
  shows "createSlabCache ops mtx s name sObj jf = None"
  using assms by (simp add: createSlabCache_def Let_def)

lemma descriptor_simps [simp]:
  "slabs_of (descriptor name sObj l) = []" "sc_jfPage (descriptor name sObj l) = 0" "sc_u32ObjSize (descriptor name sObj l) = ALIGN_CEIL sObj SLAB_ALIGN_SIZE"
  "sc_u32RealObjSize (descriptor name sObj l) = sObj"
  "sc_u32Num (descriptor name sObj (order, num, jf, psc)) = num" "sc_u32Order (descriptor name sObj (order, num, jf, psc)) = order"
  "sc_jfCache (descriptor name sObj (order, num, jf, psc)) = jf" "sc_pscSlab (descriptor name sObj (order, num, jf, psc)) = psc"
  by (cases l; simp add: descriptor_def slabs_of_def)+

text \<open>Every size whose search ends gives a layout.\<close>

lemma layout_exists:
  assumes sObj: "SLAB_ALIGN_SIZE \<le> sObj" "sObj \<le> 2 ^ MAX_JP_ORDER * BUDDY_PAGE_SIZE" and found: "order_found (ALIGN_CEIL sObj SLAB_ALIGN_SIZE)"
    and jf: "JF_FLAG_GET jf SC_FLAG_OFF_SLAB = 0"
    and m: "512 \<le> ALIGN_CEIL sObj SLAB_ALIGN_SIZE \<Longrightarrow> 8 \<le> limit \<and> (\<forall>n. 32 < n \<longrightarrow> n \<le> 64 \<longrightarrow> findGeneralSlabCache gs n = Some (Some m))"
  obtains l where "layout limit gs (ALIGN_CEIL sObj SLAB_ALIGN_SIZE) jf = Some l" "0 < fst (snd l)"
    "layout_ok (ALIGN_CEIL sObj SLAB_ALIGN_SIZE) jf m (descriptor name sObj l)"
proof -
  let ?sz = "ALIGN_CEIL sObj SLAB_ALIGN_SIZE"
  note r = align_range [OF sObj]
  show ?thesis
  proof (cases "?sz < 512")
    case True
    obtain num where n: "layout limit gs ?sz jf = Some (0, num, jf, None)" "0 < num" "slab_bytes False ?sz num \<le> BUDDY_PAGE_SIZE"
      by (rule layout_small [OF r(1) r(3) [OF True] jf])
    then show ?thesis using that layout_small_ok [OF r(1) n(2,3) jf, of "descriptor name sObj (0, num, jf, None)"] by simp
  next
    case False
    then have sz: "512 \<le> ?sz" by simp
    let ?m = "ALIGN_CEIL (order_num ?sz * sizeof_slab_bufctl + sizeof_slab) SLAB_ALIGN_SIZE"
    define l where "l = (if ?m \<le> order_waste ?sz then (least_order ?sz, order_num ?sz, JF_FLAG_CLEAR (JF_FLAG_SET jf SC_FLAG_OFF_SLAB) SC_FLAG_OFF_SLAB, None)
      else (least_order ?sz, order_num ?sz, JF_FLAG_SET jf SC_FLAG_OFF_SLAB, Some m))"
    have "layout limit gs ?sz jf = Some l"
      using layout_large [OF sz r(2), of limit gs m ?m jf] m [OF sz] found by (simp add: l_def)
    moreover have "layout_ok ?sz jf m (descriptor name sObj l)"
      by (rule layout_large_ok [OF sz r(2)]) (simp_all add: l_def mgmt_size_def)
    moreover have "0 < fst (snd l)" using order_num(1) [OF sz r(2)] by (simp add: l_def)
    ultimately show ?thesis using that by blast
  qed
qed

context page_provider
begin

lemma createSlabCache_ok:
  assumes inv: "slab_inv ops pok held s" and und: "undestroyed s {}" and al: "allocObj slab_depth ops s Cache_cache = Some (r0, a, s1)"
    and sObj: "SLAB_ALIGN_SIZE \<le> sObj" "sObj \<le> 2 ^ MAX_JP_ORDER * BUDDY_PAGE_SIZE" and found: "order_found (ALIGN_CEIL sObj SLAB_ALIGN_SIZE)"
    and jf: "JF_FLAG_GET jf SC_FLAG_OFF_SLAB = 0" and m: "512 \<le> ALIGN_CEIL sObj SLAB_ALIGN_SIZE \<Longrightarrow> mgmt_cache s m"
  shows "\<exists>r cid s'. createSlabCache ops mtx s name sObj jf = Some (r, cid, s') \<and> slab_inv ops pok held s' \<and> objects s' = objects s \<and>
    ijs_buddy s' = ijs_buddy s1 \<and> unowned held s' = unowned held s \<and>
    (case cid of
       None \<Rightarrow> r \<noteq> JF_ERR_NO_ERROR \<and> frame s s' \<and> (r0 = JF_ERR_NO_ERROR \<longrightarrow> r = mtx name)
     | Some c \<Rightarrow> r = JF_ERR_NO_ERROR \<and> (\<exists>a l t. c = Cache a \<and> ijs_scCache s c = None \<and> frame s t \<and>
         layout_ok (ALIGN_CEIL sObj SLAB_ALIGN_SIZE) jf m (descriptor name sObj l) \<and>
         s' = t\<lparr>ijs_scCache := (ijs_scCache t)(c \<mapsto> descriptor name sObj l), ijs_jlNext := c # ijs_jlNext t\<rparr>))"
proof -
  obtain cc where cc: "ijs_scCache s Cache_cache = Some cc" using slab_invD(5) [OF inv] by blast
  have "alloc_result ops pok held s Cache_cache (allocObj slab_depth ops s Cache_cache)"
    by (rule allocObj_ok [OF inv cc]) (simp add: slab_depth_def)
  then obtain N where ev: "evolved ops pok held Cache_cache N (if r0 = JF_ERR_NO_ERROR then {(Cache_cache, a)} else {}) s s1"
    using al by (auto simp: alloc_result_def split: option.splits)
  note e = evolvedD(1-3) [OF ev] and o = evolved_objects [OF ev slab_invD(4) [OF inv]]
  show ?thesis
  proof (cases "r0 = JF_ERR_NO_ERROR")
    case False
    then have "createSlabCache ops mtx s name sObj jf = Some (r0, None, s1)" using al by (simp add: createSlabCache_def Let_def)
    then show ?thesis using e o False by auto
  next
    case True
    have m1: "512 \<le> ALIGN_CEIL sObj SLAB_ALIGN_SIZE \<Longrightarrow> mgmt_cache s1 m" using mgmt_cache_frame [OF e(2)] m by blast
    obtain l where l: "layout (ijs_u32OffSlabLimit s1) (ijs_gcGeneral s1) (ALIGN_CEIL sObj SLAB_ALIGN_SIZE) jf = Some l" "0 < fst (snd l)"
      "layout_ok (ALIGN_CEIL sObj SLAB_ALIGN_SIZE) jf m (descriptor name sObj l)"
      by (rule layout_exists [OF sObj found jf]) (use m1 in \<open>auto simp: mgmt_cache_def\<close>)
    have a: "(Cache_cache, a) \<in> objects s1" "objects s1 - {(Cache_cache, a)} = objects s" using o True by (auto simp: objects_def)
    have cr: "createSlabCache ops mtx s name sObj jf =
      (if mtx name \<noteq> JF_ERR_NO_ERROR then map_option (\<lambda>s. (mtx name, None, s)) (freeObj ops s1 Cache_cache a)
       else Some (JF_ERR_NO_ERROR, Some (Cache a),
         s1\<lparr>ijs_scCache := (ijs_scCache s1)(Cache a \<mapsto> descriptor name sObj l), ijs_jlNext := Cache a # ijs_jlNext s1\<rparr>))"
      using createSlabCache_found [OF al [unfolded True], of sObj jf "fst l" "fst (snd l)" "fst (snd (snd l))" "snd (snd (snd l))"] l by simp
    show ?thesis
    proof (cases "mtx name = JF_ERR_NO_ERROR")
      case mt: True
      let ?ca = "descriptor name sObj l"
      have "mgmt_ok s1 ?ca" using l(3) m1 by (auto simp: layout_ok_def mgmt_ok_def mgmt_cache_def)
      then have nc: "ijs_scCache s1 (Cache a) = None"
        "slab_inv ops pok held (s1\<lparr>ijs_scCache := (ijs_scCache s1)(Cache a \<mapsto> ?ca), ijs_jlNext := Cache a # ijs_jlNext s1\<rparr>)"
        "objects (s1\<lparr>ijs_scCache := (ijs_scCache s1)(Cache a \<mapsto> ?ca), ijs_jlNext := Cache a # ijs_jlNext s1\<rparr>) = objects s1 - {(Cache_cache, a)}"
        using new_cache_inv [OF e(1) a(1), of ?ca _ "Cache a # ijs_jlNext s1"] l(3) by (simp_all add: layout_ok_def)
      then have "ijs_scCache s (Cache a) = None" using e(2) unfolding frame_def by (metis option.rel_sel)
      then have "\<exists>a' l' t. Cache a = Cache a' \<and> ijs_scCache s (Cache a) = None \<and> frame s t \<and>
         layout_ok (ALIGN_CEIL sObj SLAB_ALIGN_SIZE) jf m (descriptor name sObj l') \<and>
         s1\<lparr>ijs_scCache := (ijs_scCache s1)(Cache a \<mapsto> ?ca), ijs_jlNext := Cache a # ijs_jlNext s1\<rparr> =
           t\<lparr>ijs_scCache := (ijs_scCache t)(Cache a \<mapsto> descriptor name sObj l'), ijs_jlNext := Cache a # ijs_jlNext t\<rparr>"
        using e(2) l(3) by blast
      moreover have "unowned held (s1\<lparr>ijs_scCache := (ijs_scCache s1)(Cache a \<mapsto> ?ca), ijs_jlNext := Cache a # ijs_jlNext s1\<rparr>) = unowned held s"
        using new_cache_views(2) [OF nc(1) _ refl, of ?ca "Cache a # ijs_jlNext s1"] e(3) by (simp add: unowned_def)
      ultimately show ?thesis using cr mt nc(2,3) a(2) by (simp del: split_paired_Ex)
    next
      case mt: False
      obtain cc1 where cc1: "ijs_scCache s1 Cache_cache = Some cc1" by (rule frameD [OF e(2) cc])
      have "JF_FLAG_GET (sc_jfCache cc1) SC_FLAG_DESTROY = 0" using undestroyed_frame [OF e(2) und] cc1 by (simp add: undestroyed_def)
      then obtain s2 where s2: "freeObj ops s1 Cache_cache a = Some s2" "changed ops pok held Cache_cache (live s1 - {(Cache_cache, a)}) s1 s2"
        by (rule freeObj_ok [OF e(1) a(1) cc1])
      note d = changedD [OF s2(2)]
      have "objects s2 = objects s" using d(2,3) a by (auto simp: objects_def)
      then show ?thesis using cr mt s2(1) d(1,5) frame_trans [OF e(2) d(6)] e(3) changed_unowned [OF s2(2)] by auto
    qed
  qed
qed

end

end
