(* ===== verification/Jf_Slab_System.thy ===== *)
theory Jf_Slab_System
  imports Jf_Slab_Create
begin

text \<open>
  The interface of the object caches over a page allocator that keeps the contract \<open>page_provider\<close>: the invariant of an initialized module,
  with its general caches and the list of caches, and what each function of the interface does to it and to the objects of the callers.
\<close>

section \<open>Destruction of a cache\<close>

lemma destroySlabCacheSlabs_append:
  "destroySlabCacheSlabs ops s c (xs @ ys) = Option.bind (destroySlabCacheSlabs ops s c xs) (\<lambda>s. destroySlabCacheSlabs ops s c ys)"
  by (induction xs arbitrary: s) (simp_all split: option.split)

lemma destroySlabCache_eq:
  "ijs_scCache s c = Some ca \<Longrightarrow> destroySlabCache ops s c = destroySlabCacheSlabs ops s c (sc_jlFree ca @ sc_jlPartial ca @ sc_jlFull ca)"
  by (simp add: destroySlabCache_def destroySlabCacheSlabs_append split: option.split)

lemma fold_delSlab: "distinct (slabs_of ca) \<Longrightarrow> set (slabs_of (fold delSlab ps ca)) = set (slabs_of ca) - set ps"
proof (induction ps arbitrary: ca)
  case (Cons p ps)
  then show ?case using slabs_of_delSlab(1,2) [OF Cons.prems, of p] by auto
qed simp

lemma slab_inv_jlNext [simp]: "slab_inv ops pok held (s\<lparr>ijs_jlNext := js\<rparr>) = slab_inv ops pok held s"
  "live (s\<lparr>ijs_jlNext := js\<rparr>) = live s" "internal (s\<lparr>ijs_jlNext := js\<rparr>) = internal s" "objects (s\<lparr>ijs_jlNext := js\<rparr>) = objects s"
proof -
  have "cache_ok ops held (s\<lparr>ijs_jlNext := js\<rparr>) = cache_ok ops held s" "mgmt_ok (s\<lparr>ijs_jlNext := js\<rparr>) = mgmt_ok s"
    by (simp_all add: fun_eq_iff cache_ok_def slab_at_def mgmt_ok_def)
  moreover show l: "live (s\<lparr>ijs_jlNext := js\<rparr>) = live s" "internal (s\<lparr>ijs_jlNext := js\<rparr>) = internal s" by (simp_all add: live_def internal_def)
  ultimately show "slab_inv ops pok held (s\<lparr>ijs_jlNext := js\<rparr>) = slab_inv ops pok held s" by (simp add: slab_inv_def)
  show "objects (s\<lparr>ijs_jlNext := js\<rparr>) = objects s" using l by (simp add: objects_def)
qed

lemma frame_None: "frame s s' \<Longrightarrow> ijs_scCache s' d = None \<longleftrightarrow> ijs_scCache s d = None"
  unfolding frame_def by (metis option.rel_sel)

lemma frameD2:
  assumes "frame s s'" "ijs_scCache s' c = Some ca'"
  obtains ca where "ijs_scCache s c = Some ca" "same_layout ca ca'" "same_flags ca ca'"
proof -
  have "rel_option same_cache (ijs_scCache s c) (ijs_scCache s' c)" using assms(1) by (simp add: frame_def)
  then show ?thesis using assms(2) that by (cases "ijs_scCache s c") (auto simp: same_cache_def)
qed

context page_provider
begin

text \<open>A cache without slabs, and not used by others, is taken out.\<close>

lemma drop_cache:
  assumes inv: "slab_inv ops pok held s" and ca: "ijs_scCache s (Cache a) = Some ca" "slabs_of ca = []"
    and psc: "\<And>d da. ijs_scCache s d = Some da \<Longrightarrow> OFF_SLAB da \<Longrightarrow> sc_pscSlab da \<noteq> Some (Cache a)"
    and s': "s' = s\<lparr>ijs_scCache := (ijs_scCache s)(Cache a := None)\<rparr>"
  shows "slab_inv ops pok held s'" "live s' = live s" "internal s' = internal s - {(Cache_cache, a)}" "(Cache_cache, a) \<in> internal s"
proof -
  have s: "s = s'\<lparr>ijs_scCache := (ijs_scCache s')(Cache a \<mapsto> ca), ijs_jlNext := ijs_jlNext s'\<rparr>" using ca(1) s' by (simp add: fun_upd_idem)
  have fresh: "ijs_scCache s' (Cache a) = None" using s' by simp
  note v = new_cache_views [OF fresh ca(2) s] and k = slab_invD [OF inv]
  have "(Cache_cache, a) \<notin> internal s'"
  proof
    assume "(Cache_cache, a) \<in> internal s'"
    then obtain d da where "ijs_scCache s' d = Some da" "OFF_SLAB da" "sc_pscSlab da = Some Cache_cache" using fresh unfolding internal_def by auto
    then show False using k(3) [of d da] s' by (auto simp: mgmt_ok_def split: if_splits)
  qed
  then show int: "internal s' = internal s - {(Cache_cache, a)}" "(Cache_cache, a) \<in> internal s" using v(3) by auto
  show live: "live s' = live s" using v(1) by simp
  have mg: "mgmt_ok s' da" if "ijs_scCache s d = Some da" for d da
  proof -
    have "ijs_scCache s' n = ijs_scCache s n" if "n \<noteq> Cache a" for n using that s' by simp
    then show ?thesis using k(3) [OF that] psc [OF that] unfolding mgmt_ok_def by metis
  qed
  have at: "slab_at ops held s' = slab_at ops held s" by (simp add: fun_eq_iff slab_at_def s')
  have "cache_ok ops held s' d da \<and> mgmt_ok s' da" if "ijs_scCache s' d = Some da" for d da
  proof -
    have d: "ijs_scCache s d = Some da" using that s' by (simp split: if_splits)
    then show ?thesis using k(2) [OF d] mg at by (simp add: cache_ok_def s')
  qed
  then show "slab_inv ops pok held s'" using k(1,4,5) int live s' by (auto simp: slab_inv_def)
qed

lemma mark_destroyed:
  assumes inv: "slab_inv ops pok held s" and ca: "ijs_scCache s c = Some ca" and und: "undestroyed s {}"
  defines "s' \<equiv> updCache c (\<lambda>ca. ca\<lparr>sc_jfCache := JF_FLAG_SET (sc_jfCache ca) SC_FLAG_DESTROY\<rparr>) s"
  shows "slab_inv ops pok held s'" "live s' = live s" "internal s' = internal s" "undestroyed s' {c}" "unowned held s' = unowned held s"
proof -
  let ?ca = "ca\<lparr>sc_jfCache := JF_FLAG_SET (sc_jfCache ca) SC_FLAG_DESTROY\<rparr>"
  note ok = slab_invD(2) [OF inv ca]
  have caches: "ijs_scCache s' = (ijs_scCache s)(c \<mapsto> ?ca)" using ca by (simp add: s'_def updCache_cache)
  have "same_layout ca ?ca" by (simp add: same_layout_def OFF_SLAB_def JF_FLAG_GET_bit bit_char SC_FLAG_OFF_SLAB_def SC_FLAG_DESTROY_def)
  moreover have "\<exists>sl sl'. ijs_slab s q = Some sl \<and> ijs_slab s' q = Some sl' \<and> s_pMem sl' = s_pMem sl \<and> slab_ok (sc_u32Num ca) sl' \<and> in_list ?ca q sl'"
    if "q \<in> set (slabs_of ca)" for q
    using cache_okD(4) [OF ok that] by (auto simp: slab_at_def s'_def in_list_def)
  moreover have "slabs_of ?ca = slabs_of ca" by (simp add: slabs_of_def)
  ultimately have t: "touches c ca ?ca s s'" using ca cache_okD(3) [OF ok] caches by (simp add: touches_def s'_def)
  show live: "live s' = live s" by (rule touches_live_same [OF inv t]) (simp add: s'_def)
  show "internal s' = internal s" by (rule touches_internal [OF t])
  have ti: "slab_inv ops pok held s'" "owned s' = owned s" by (rule touches_inv [OF inv t]; simp add: live slab_invD(4) [OF inv])+
  then show "slab_inv ops pok held s'" by simp
  show "undestroyed s' {c}" using und caches by (auto simp: undestroyed_def)
  show "unowned held s' = unowned held s" using ti(2) by (simp add: unowned_def s'_def)
qed

text \<open>A cache gives up all its slabs.\<close>

lemma destroySlabCache_ok:
  assumes inv: "slab_inv ops pok held s" and ca: "ijs_scCache s c = Some ca" and und: "undestroyed s {c}" and free: "internal s \<inter> {c} \<times> UNIV = {}"
  obtains s' X ca' where "destroySlabCache ops s c = Some s'" "shed ops pok held c X s s'" "ijs_scCache s' c = Some ca'" "slabs_of ca' = []"
proof -
  have dist: "distinct (slabs_of ca)" by (rule cache_okD(3) [OF slab_invD(2) [OF inv ca]])
  define ps where "ps = sc_jlFree ca @ sc_jlPartial ca @ sc_jlFull ca"
  have ps: "distinct ps" "set ps = set (slabs_of ca)" using dist by (auto simp: ps_def slabs_of_def)
  have "\<exists>s' X. destroySlabCacheSlabs ops s c ps = Some s' \<and> shed ops pok held c X s s' \<and> ijs_scCache s' c = Some (fold delSlab ps ca) \<and>
    (set ps \<subseteq> set (sc_jlFree ca) \<longrightarrow> X = {})"
    by (rule destroySlabCacheSlabs_ok [OF inv ca und ps(1)]) (use ps(2) free in auto)
  then obtain s' X where "destroySlabCache ops s c = Some s'" "shed ops pok held c X s s'" "ijs_scCache s' c = Some (fold delSlab ps ca)"
    using destroySlabCache_eq [OF ca] unfolding ps_def by auto
  moreover have "slabs_of (fold delSlab ps ca) = []" using fold_delSlab [OF dist, of ps] ps(2) by simp
  ultimately show ?thesis using that by blast
qed

text \<open>The descriptor of a cache without slabs is given back.\<close>

lemma drop_descriptor:
  assumes inv: "slab_inv ops pok held s" and ca: "ijs_scCache s (Cache a) = Some ca" "slabs_of ca = []" and und: "undestroyed s {Cache a}"
    and psc: "\<And>d da. ijs_scCache s d = Some da \<Longrightarrow> OFF_SLAB da \<Longrightarrow> sc_pscSlab da \<noteq> Some (Cache a)"
    and t: "t = s\<lparr>ijs_scCache := (ijs_scCache s)(Cache a := None)\<rparr>"
  obtains s' where "freeObj ops t Cache_cache a = Some s'" "slab_inv ops pok held s'" "frame t s'" "unowned held s' = unowned held s"
    "objects s' = objects s"
proof -
  have dc: "slab_inv ops pok held t" "live t = live s" "internal t = internal s - {(Cache_cache, a)}" "(Cache_cache, a) \<in> internal s"
    by (rule drop_cache [OF inv ca psc t]; assumption)+
  have s: "s = t\<lparr>ijs_scCache := (ijs_scCache t)(Cache a \<mapsto> ca), ijs_jlNext := ijs_jlNext t\<rparr>" using ca(1) t by (simp add: fun_upd_idem)
  have "ijs_scCache t (Cache a) = None" using t by simp
  then have "owned s = owned t" by (rule new_cache_views(2) [OF _ ca(2) s])
  then have un: "unowned held t = unowned held s" using t by (simp add: unowned_def)
  have obj: "objects t = insert (Cache_cache, a) (objects s)" "(Cache_cache, a) \<notin> objects s"
    using dc(2-4) slab_invD(4) [OF inv] by (auto simp: objects_def)
  obtain cc where cc: "ijs_scCache t Cache_cache = Some cc" using slab_invD(5) [OF dc(1)] by blast
  have "JF_FLAG_GET (sc_jfCache cc) SC_FLAG_DESTROY = 0" using und cc t by (simp add: undestroyed_def)
  then obtain s' where s': "freeObj ops t Cache_cache a = Some s'" "changed ops pok held Cache_cache (live t - {(Cache_cache, a)}) t s'"
    using freeObj_ok [OF dc(1) _ cc] obj(1) by blast
  note d = changedD [OF s'(2)]
  have "objects s' = objects t - {(Cache_cache, a)}" using d(2,3) by (auto simp: objects_def)
  then show ?thesis using that s'(1) d(1,6) changed_unowned [OF s'(2)] un obj by simp
qed

lemma jf_jiukun_destroyCache_ok:
  assumes inv: "slab_inv ops pok held s" and ca: "ijs_scCache s (Cache a) = Some ca" and und: "undestroyed s {}"
    and psc: "\<And>d da. ijs_scCache s d = Some da \<Longrightarrow> OFF_SLAB da \<Longrightarrow> sc_pscSlab da \<noteq> Some (Cache a)"
  obtains s' t where "jf_jiukun_destroyCache ops s (Cache a) = Some s'" "slab_inv ops pok held s'"
    "objects s' = objects s - {Cache a} \<times> UNIV" "frame t s'" "\<forall>d. d \<noteq> Cache a \<longrightarrow> rel_option same_cache (ijs_scCache s d) (ijs_scCache t d)"
    "ijs_scCache t (Cache a) = None" "ijs_jlNext t = remove1 (Cache a) (ijs_jlNext s)" "ijs_gcGeneral t = ijs_gcGeneral s"
    "ijs_bInitialized t = ijs_bInitialized s" "ijs_u32OffSlabLimit t = ijs_u32OffSlabLimit s" "unowned held s' = unowned held s"
proof -
  let ?c = "Cache a"
  define s1 where "s1 = s\<lparr>ijs_jlNext := remove1 ?c (ijs_jlNext s)\<rparr>"
  define s2 where "s2 = updCache ?c (\<lambda>ca. ca\<lparr>sc_jfCache := JF_FLAG_SET (sc_jfCache ca) SC_FLAG_DESTROY\<rparr>) s1"
  have inv1: "slab_inv ops pok held s1" "ijs_scCache s1 ?c = Some ca" "undestroyed s1 {}" using inv ca und by (simp_all add: s1_def undestroyed_def)
  note m = mark_destroyed [OF inv1, folded s2_def]
  define ca2 where "ca2 = ca\<lparr>sc_jfCache := JF_FLAG_SET (sc_jfCache ca) SC_FLAG_DESTROY\<rparr>"
  have c2: "ijs_scCache s2 = (ijs_scCache s)(?c \<mapsto> ca2)" using inv1(2) by (simp add: s2_def ca2_def updCache_cache) (simp add: s1_def)
  then have ca2: "ijs_scCache s2 ?c = Some ca2" by simp
  have off2: "OFF_SLAB ca2 = OFF_SLAB ca" by (simp add: ca2_def OFF_SLAB_def JF_FLAG_GET_bit bit_char SC_FLAG_OFF_SLAB_def SC_FLAG_DESTROY_def)
  have psc2: "sc_pscSlab da \<noteq> Some ?c" if "ijs_scCache s2 d = Some da" "OFF_SLAB da" for d da
    using that c2 psc [of d] psc [OF ca] off2 by (auto simp: ca2_def split: if_splits)
  then have free: "internal s2 \<inter> {?c} \<times> UNIV = {}" unfolding internal_def by auto
  obtain s3 X ca3 where s3: "destroySlabCache ops s2 ?c = Some s3" "shed ops pok held ?c X s2 s3" and ca3: "ijs_scCache s3 ?c = Some ca3" "slabs_of ca3 = []"
    by (rule destroySlabCache_ok [OF m(1) ca2 m(4) free])
  note sh = shedD [OF s3(2)]
  have psc3: "sc_pscSlab da \<noteq> Some ?c" if mem: "ijs_scCache s3 d = Some da" "OFF_SLAB da" for d da
  proof -
    obtain da2 where "ijs_scCache s2 d = Some da2" "same_layout da2 da" by (rule frameD2 [OF sh(2) mem(1)])
    then show ?thesis using psc2 mem(2) same_layoutD(5,6) by metis
  qed
  define t where "t = s3\<lparr>ijs_scCache := (ijs_scCache s3)(?c := None)\<rparr>"
  obtain s' where s': "freeObj ops t Cache_cache a = Some s'" "slab_inv ops pok held s'" "frame t s'" "unowned held s' = unowned held s3"
    "objects s' = objects s3" by (rule drop_descriptor [OF sh(1) ca3 undestroyed_frame [OF sh(2) m(4)] psc3 t_def])
  have "objects s3 = objects s - {?c} \<times> X" using sh(4) m(2,3) by (simp add: objects_def s1_def)
  moreover have "(?c, x) \<notin> objects s3" for x using ca3 by (auto simp: objects_def elim: liveE)
  ultimately have "objects s' = objects s - {?c} \<times> UNIV" using s'(5) by auto
  moreover have "unowned held s' = unowned held s" using s'(4) sh(5) m(5) by (simp add: s1_def unowned_def owned_def)
  moreover have "jf_jiukun_destroyCache ops s ?c = Some s'"
    using s3(1) s'(1) by (simp add: jf_jiukun_destroyCache_def s2_def s1_def t_def)
  moreover have "ijs_jlNext t = remove1 ?c (ijs_jlNext s)" "ijs_gcGeneral t = ijs_gcGeneral s" "ijs_bInitialized t = ijs_bInitialized s"
    "ijs_u32OffSlabLimit t = ijs_u32OffSlabLimit s"
    using sh(2) by (simp_all add: frame_def t_def s2_def s1_def)
  moreover have "\<forall>d. d \<noteq> ?c \<longrightarrow> rel_option same_cache (ijs_scCache s d) (ijs_scCache t d)"
  proof (intro allI impI)
    fix d
    assume "d \<noteq> ?c"
    moreover have "rel_option same_cache (ijs_scCache s2 d) (ijs_scCache s3 d)" using sh(2) by (simp add: frame_def)
    ultimately show "rel_option same_cache (ijs_scCache s d) (ijs_scCache t d)" using c2 by (simp add: t_def)
  qed
  ultimately show ?thesis using that [of s' t] s'(2,3) by (simp add: t_def)
qed

end

section \<open>The invariant of an initialized module\<close>

text \<open>
  \<open>cs\<close> are the general caches, in the order of their sizes. A cache with its management structures elsewhere keeps them in the second
  one, whose objects have 64 bytes.
\<close>

definition general_ok :: "cache_id list \<Rightarrow> 'b internal_jiukun_slab \<Rightarrow> bool" where
  "general_ok cs s \<longleftrightarrow> length cs = length ls_sCacheSize \<and> distinct cs \<and> Cache_cache \<notin> set cs \<and>
     ijs_gcGeneral s = zip (map int ls_sCacheSize) (map Some cs) @ [(OLSIZE_MAX, None)] \<and>
     (\<forall>i < length cs. \<exists>ca. ijs_scCache s (cs ! i) = Some ca \<and> sc_u32ObjSize ca = ls_sCacheSize ! i \<and> \<not> mayWait ca \<and> (OFF_SLAB ca \<or> 0 < sc_u32Order ca \<longrightarrow> 512 \<le> sc_u32ObjSize ca)) \<and>
     mgmt_cache s (cs ! 1) \<and> (\<forall>c ca. ijs_scCache s c = Some ca \<longrightarrow> OFF_SLAB ca \<longrightarrow> sc_pscSlab ca = Some (cs ! 1))"

definition caches_ok :: "cache_id list \<Rightarrow> 'b internal_jiukun_slab \<Rightarrow> bool" where
  "caches_ok cs s \<longleftrightarrow> ijs_bInitialized s \<and> undestroyed s {} \<and> \<not> waits s Cache_cache \<and>
     distinct (ijs_jlNext s) \<and> set (ijs_jlNext s) = {c. c \<noteq> Cache_cache \<and> ijs_scCache s c \<noteq> None} \<and> general_ok cs s \<and>
     (\<exists>cc. ijs_scCache s Cache_cache = Some cc \<and> \<not> OFF_SLAB cc)"

definition sys_inv ::
  "'b page_ops \<Rightarrow> ('b \<Rightarrow> bool) \<Rightarrow> ('b \<Rightarrow> (addr \<times> nat) set) \<Rightarrow> cache_id list \<Rightarrow> 'b internal_jiukun_slab \<Rightarrow> bool" where
  "sys_inv ops pok held cs s \<longleftrightarrow> slab_inv ops pok held s \<and> caches_ok cs s"

lemma length_ls_sCacheSize [simp]: "length ls_sCacheSize = 19"
  by (simp add: ls_sCacheSize_def)

lemma sys_invD:
  assumes "sys_inv ops pok held cs s"
  shows "slab_inv ops pok held s" "ijs_bInitialized s" "undestroyed s {}" "\<not> waits s Cache_cache" "distinct (ijs_jlNext s)"
    "set (ijs_jlNext s) = {c. c \<noteq> Cache_cache \<and> ijs_scCache s c \<noteq> None}" "general_ok cs s"
  using assms by (simp_all add: sys_inv_def caches_ok_def)

lemma general_okD:
  assumes "general_ok cs s"
  shows "length cs = 19" "distinct cs" "Cache_cache \<notin> set cs" "ijs_gcGeneral s = zip (map int ls_sCacheSize) (map Some cs) @ [(OLSIZE_MAX, None)]"
    "i < 19 \<Longrightarrow> \<exists>ca. ijs_scCache s (cs ! i) = Some ca \<and> sc_u32ObjSize ca = ls_sCacheSize ! i \<and> \<not> mayWait ca \<and> (OFF_SLAB ca \<or> 0 < sc_u32Order ca \<longrightarrow> 512 \<le> sc_u32ObjSize ca)"
    "mgmt_cache s (cs ! 1)" "ijs_scCache s c = Some ca \<Longrightarrow> OFF_SLAB ca \<Longrightarrow> sc_pscSlab ca = Some (cs ! 1)"
  using assms by (simp_all add: general_ok_def ls_sCacheSize_def)

text \<open>The part of the invariant that is about the caches and not their slabs follows from the frame.\<close>

lemma general_frame:
  assumes f: "frame s s'" and g: "general_ok cs s"
  shows "general_ok cs s'"
proof -
  note k = general_okD [OF g]
  have "\<exists>ca. ijs_scCache s' (cs ! i) = Some ca \<and> sc_u32ObjSize ca = ls_sCacheSize ! i \<and> \<not> mayWait ca \<and> (OFF_SLAB ca \<or> 0 < sc_u32Order ca \<longrightarrow> 512 \<le> sc_u32ObjSize ca)" if i: "i < length cs" for i
  proof -
    obtain ca where ca: "ijs_scCache s (cs ! i) = Some ca" "sc_u32ObjSize ca = ls_sCacheSize ! i" "\<not> mayWait ca"
      "OFF_SLAB ca \<or> 0 < sc_u32Order ca \<longrightarrow> 512 \<le> sc_u32ObjSize ca" using k(1) k(5) [of i] i by auto
    obtain ca' where ca': "ijs_scCache s' (cs ! i) = Some ca'" "same_layout ca ca'" "same_flags ca ca'" by (rule frameD [OF f ca(1)])
    then show ?thesis using ca(2-4) same_layoutD(1,3,6) [OF ca'(2)] same_flagsD(3) [OF ca'(3)] by (auto simp: mayWait_def)
  qed
  moreover have "sc_pscSlab ca' = Some (cs ! 1)" if mem: "ijs_scCache s' c = Some ca'" "OFF_SLAB ca'" for c ca'
  proof -
    obtain ca where ca: "ijs_scCache s c = Some ca" "same_layout ca ca'" by (rule frameD2 [OF f mem(1)])
    then show ?thesis using k(7) [OF ca(1)] mem(2) same_layoutD(5,6) [OF ca(2)] by simp
  qed
  moreover have "ijs_gcGeneral s' = ijs_gcGeneral s" using f by (simp add: frame_def)
  ultimately show ?thesis using k(1-4,6) mgmt_cache_frame [OF f] g by (simp add: general_ok_def)
qed

lemma caches_frame:
  assumes f: "frame s s'" and c: "caches_ok cs s"
  shows "caches_ok cs s'"
proof -
  obtain cc where cc: "ijs_scCache s Cache_cache = Some cc" "\<not> OFF_SLAB cc" using c by (auto simp: caches_ok_def)
  obtain cc' where "ijs_scCache s' Cache_cache = Some cc'" "same_layout cc cc'" by (rule frameD [OF f cc(1)])
  then have "\<exists>cc. ijs_scCache s' Cache_cache = Some cc \<and> \<not> OFF_SLAB cc" using cc(2) same_layoutD(6) by blast
  then show ?thesis
    using c general_frame [OF f] undestroyed_frame [OF f] waits_frame [OF f] frame_None [OF f] f
    by (simp add: caches_ok_def frame_def)
qed

lemma sys_frame: "frame s s' \<Longrightarrow> sys_inv ops pok held cs s \<Longrightarrow> slab_inv ops pok held s' \<Longrightarrow> sys_inv ops pok held cs s'"
  using caches_frame by (auto simp: sys_inv_def)

text \<open>The general caches by size.\<close>

lemma findGeneral_64:
  assumes "general_ok cs s" "32 < n" "n \<le> 64"
  shows "findGeneralSlabCache (ijs_gcGeneral s) n = Some (Some (cs ! 1))"
  using general_okD(6) [OF assms(1)] assms(2,3) by (simp add: mgmt_cache_def)

lemma find_map: "find P (map f xs) = map_option f (find (\<lambda>x. P (f x)) xs)"
  by (induction xs) simp_all

lemma allocGeneral_skip:
  assumes "length cs = length szs" "\<forall>x\<in>set szs. int x < OLSIZE_MAX"
  shows "allocGeneral ops s (zip (map int szs) (map Some cs) @ [(OLSIZE_MAX, x)]) sz =
    (case find (\<lambda>i. sz \<le> int (szs ! i)) [0..<length szs] of
       None \<Rightarrow> Some (JF_ERR_UNSUPPORTED_MEMORY_SIZE, 0, s)
     | Some i \<Rightarrow> allocObj slab_depth ops s (cs ! i))"
  using assms
proof (induction szs arbitrary: cs)
  case Nil
  then show ?case by simp
next
  case (Cons n szs)
  obtain c cs' where cs: "cs = c # cs'" using Cons.prems(1) by (cases cs) auto
  have f: "find P [0..<Suc k] = (if P 0 then Some 0 else map_option Suc (find (\<lambda>i. P (Suc i)) [0..<k]))" for P k
    by (simp only: upt_conv_Cons [OF zero_less_Suc] find.simps map_Suc_upt [symmetric]) (simp add: find_map)
  show ?case using Cons.IH [of cs'] Cons.prems cs by (auto simp: f simp del: upt_Suc split: option.splits)
qed

text \<open>A new cache, and a cache less.\<close>

lemma caches_new:
  assumes t: "caches_ok cs t" and c: "ijs_scCache t (Cache a) = None"
    and ca: "OFF_SLAB ca \<longrightarrow> sc_pscSlab ca = Some (cs ! 1)" "JF_FLAG_GET (sc_jfCache ca) SC_FLAG_DESTROY = 0"
    and t': "t' = t\<lparr>ijs_scCache := (ijs_scCache t)(Cache a \<mapsto> ca), ijs_jlNext := Cache a # ijs_jlNext t\<rparr>"
  shows "caches_ok cs t'"
proof -
  have gk: "general_ok cs t" using t by (simp add: caches_ok_def)
  note g = general_okD [OF gk]
  have same: "ijs_scCache t' d = ijs_scCache t d" if "ijs_scCache t d \<noteq> None" for d using that c t' by auto
  have gs: "ijs_scCache t' (cs ! i) = ijs_scCache t (cs ! i)" if "i < 19" for i using g(5) [OF that] same by auto
  have "general_ok cs t'"
    unfolding general_ok_def
  proof (intro conjI)
    show "length cs = length ls_sCacheSize" "distinct cs" "Cache_cache \<notin> set cs" using g by simp_all
    show "ijs_gcGeneral t' = zip (map int ls_sCacheSize) (map Some cs) @ [(OLSIZE_MAX, None)]" using g(4) t' by simp
    show "\<forall>i<length cs. \<exists>ca. ijs_scCache t' (cs ! i) = Some ca \<and> sc_u32ObjSize ca = ls_sCacheSize ! i \<and> \<not> mayWait ca \<and> (OFF_SLAB ca \<or> 0 < sc_u32Order ca \<longrightarrow> 512 \<le> sc_u32ObjSize ca)"
      using g(1,5) gs by simp
    show "mgmt_cache t' (cs ! 1)" using g(6) gs [of 1] t' by (simp add: mgmt_cache_def)
    show "\<forall>c ca. ijs_scCache t' c = Some ca \<longrightarrow> OFF_SLAB ca \<longrightarrow> sc_pscSlab ca = Some (cs ! 1)" using g(7) ca(1) t' by auto
  qed
  moreover obtain cc where cc: "ijs_scCache t Cache_cache = Some cc" "\<not> OFF_SLAB cc" using t by (auto simp: caches_ok_def)
  then have "\<not> waits t' Cache_cache" "\<exists>cc. ijs_scCache t' Cache_cache = Some cc \<and> \<not> OFF_SLAB cc"
    using t same by (simp_all add: waits_def caches_ok_def)
  moreover have "undestroyed t' {}" using t ca(2) t' by (simp add: undestroyed_def caches_ok_def)
  ultimately show ?thesis using t t' c unfolding caches_ok_def by auto
qed

lemma caches_drop:
  assumes s: "caches_ok cs s" and c: "Cache a \<notin> set cs"
    and u: "u = s\<lparr>ijs_scCache := (ijs_scCache s)(Cache a := None), ijs_jlNext := remove1 (Cache a) (ijs_jlNext s)\<rparr>"
  shows "caches_ok cs u"
proof -
  have gk: "general_ok cs s" using s by (simp add: caches_ok_def)
  note g = general_okD [OF gk]
  have gs: "cs ! i \<noteq> Cache a" if "i < 19" for i using c that g(1) by (metis nth_mem)
  have "general_ok cs u"
    unfolding general_ok_def
  proof (intro conjI)
    show "length cs = length ls_sCacheSize" "distinct cs" "Cache_cache \<notin> set cs" using g by simp_all
    show "ijs_gcGeneral u = zip (map int ls_sCacheSize) (map Some cs) @ [(OLSIZE_MAX, None)]" using g(4) u by simp
    show "\<forall>i<length cs. \<exists>ca. ijs_scCache u (cs ! i) = Some ca \<and> sc_u32ObjSize ca = ls_sCacheSize ! i \<and> \<not> mayWait ca \<and> (OFF_SLAB ca \<or> 0 < sc_u32Order ca \<longrightarrow> 512 \<le> sc_u32ObjSize ca)"
      using g(1,5) gs u by simp
    show "mgmt_cache u (cs ! 1)" using g(6) gs [of 1] u by (simp add: mgmt_cache_def)
    show "\<forall>c ca. ijs_scCache u c = Some ca \<longrightarrow> OFF_SLAB ca \<longrightarrow> sc_pscSlab ca = Some (cs ! 1)" using g(7) u by simp
  qed
  moreover obtain cc where "ijs_scCache s Cache_cache = Some cc" "\<not> OFF_SLAB cc" using s by (auto simp: caches_ok_def)
  then have "\<not> waits u Cache_cache" "\<exists>cc. ijs_scCache u Cache_cache = Some cc \<and> \<not> OFF_SLAB cc" using s u by (simp_all add: waits_def caches_ok_def)
  moreover have "undestroyed u {}" using s u by (simp add: undestroyed_def caches_ok_def)
  ultimately show ?thesis using s u unfolding caches_ok_def by auto
qed

section \<open>The interface\<close>

text \<open>An allocation from a cache gives an object that was not in use, or fails and changes nothing for the callers.\<close>

definition object_result :: "cache_id \<Rightarrow> jf_err \<Rightarrow> addr \<Rightarrow> 'b internal_jiukun_slab \<Rightarrow> 'b internal_jiukun_slab \<Rightarrow> bool" where
  "object_result c r a s s' \<longleftrightarrow>
     (if r = JF_ERR_NO_ERROR then a \<noteq> 0 \<and> (c, a) \<notin> live s \<and> objects s' = insert (c, a) (objects s) else a = 0 \<and> objects s' = objects s)"

text \<open>No cache came or went, and no block but those of slabs.\<close>

definition steady :: "('b \<Rightarrow> (addr \<times> nat) set) \<Rightarrow> 'b internal_jiukun_slab \<Rightarrow> 'b internal_jiukun_slab \<Rightarrow> bool" where
  "steady held s s' \<longleftrightarrow> frame s s' \<and> unowned held s' = unowned held s"

text \<open>The index of the general cache for a size.\<close>

definition general_index :: "int \<Rightarrow> nat option" where
  "general_index sz = find (\<lambda>i. sz \<le> int (ls_sCacheSize ! i)) [0..<19]"

lemma general_index_Some:
  assumes "general_index sz = Some i"
  shows "i < 19" "sz \<le> int (ls_sCacheSize ! i)"
  using assms by (auto simp: general_index_def find_Some_iff)

lemma general_index_None: "general_index sz = None \<longleftrightarrow> 8388608 < sz"
proof -
  have "general_index sz = None \<longleftrightarrow> (\<forall>i<19. \<not> sz \<le> int (ls_sCacheSize ! i))" by (auto simp: general_index_def find_None_iff)
  also have "\<dots> \<longleftrightarrow> (\<forall>x\<in>set ls_sCacheSize. \<not> sz \<le> int x)" 
    unfolding all_set_conv_all_nth by (simp add: length_ls_sCacheSize)
  also have "\<dots> \<longleftrightarrow> 8388608 < sz" by (auto simp: ls_sCacheSize_def)
  finally show ?thesis .
qed

text \<open>What can keep the reaper from returning once the module is initialized.\<close>

lemma stuck_sys:
  assumes "sys_inv ops pok held cs s"
  shows "stuck s \<longleftrightarrow> (\<exists>c ca. ijs_scCache s c = Some ca \<and> reapable ca \<and> OFF_SLAB ca \<and> sc_jlFree ca \<noteq> [])"
proof -
  note k = sys_invD [OF assms]
  obtain cc where cc: "ijs_scCache s Cache_cache = Some cc" "\<not> OFF_SLAB cc" using slab_invD(5) [OF k(1)] by blast
  have "c \<in> set (ijs_jlNext s) \<and> blocks_reaper s c \<longleftrightarrow> (\<exists>ca. ijs_scCache s c = Some ca \<and> reapable ca \<and> OFF_SLAB ca \<and> sc_jlFree ca \<noteq> [])" for c
    unfolding k(6) blocks_reaper_def using cc by (cases "ijs_scCache s c"; cases "c = Cache_cache") simp_all
  then show ?thesis using k(2) unfolding stuck_def Bex_def by simp
qed

context page_provider
begin

lemma allocObj_sys:
  assumes s: "sys_inv ops pok held cs s" and ca: "ijs_scCache s c = Some ca"
  shows "case allocObj slab_depth ops s c of None \<Rightarrow> waits s c \<or> stuck s | Some (r, a, s') \<Rightarrow> sys_inv ops pok held cs s' \<and> object_result c r a s s' \<and> steady held s s'"
proof (cases "allocObj slab_depth ops s c")
  case None
  then show ?thesis using allocObj_ok [OF sys_invD(1) [OF s] ca, of slab_depth] by (simp add: alloc_result_def slab_depth_def)
next
  case (Some res)
  note k = sys_invD [OF s]
  obtain r a s' where res: "res = (r, a, s')" by (cases res)
  have "alloc_result ops pok held s c (allocObj slab_depth ops s c)" by (rule allocObj_ok [OF k(1) ca]) (simp add: slab_depth_def)
  then obtain N where al: "r = JF_ERR_NO_ERROR \<longleftrightarrow> a \<noteq> 0"
    and ev: "evolved ops pok held c N (if r = JF_ERR_NO_ERROR then {(c, a)} else {}) s s'"
    using Some res by (auto simp: alloc_result_def)
  have "object_result c r a s s'" using evolved_objects [OF ev slab_invD(4) [OF k(1)]] al by (auto simp: object_result_def)
  then show ?thesis using Some res sys_frame [OF evolvedD(2) [OF ev] s evolvedD(1) [OF ev]] evolvedD(2,3) [OF ev] by (simp add: steady_def)
qed

lemma freeObj_sys:
  assumes s: "sys_inv ops pok held cs s" and a: "(c, a) \<in> objects s"
  obtains s' where "freeObj ops s c a = Some s'" "sys_inv ops pok held cs s'" "objects s' = objects s - {(c, a)}" "steady held s s'"
proof -
  note k = sys_invD [OF s]
  obtain ca where ca: "ijs_scCache s c = Some ca" using a live_cache [OF _ k(1)] by (auto simp: objects_def)
  have "JF_FLAG_GET (sc_jfCache ca) SC_FLAG_DESTROY = 0" using k(3) ca by (simp add: undestroyed_def)
  then obtain s' where s': "freeObj ops s c a = Some s'" "changed ops pok held c (live s - {(c, a)}) s s'" by (rule freeObj_ok [OF k(1) a ca])
  note d = changedD [OF s'(2)]
  have "objects s' = objects s - {(c, a)}" using d(2,3) by (auto simp: objects_def)
  then show ?thesis using that s'(1) sys_frame [OF d(6) s d(1)] d(6) changed_unowned [OF s'(2)] by (simp add: steady_def)
qed

text \<open>Memory of a size comes from the first general cache that is large enough; more than 8 MB are refused.\<close>

lemma not_waits_general:
  assumes g: "general_ok cs s" and i: "i < 19"
  shows "\<not> waits s (cs ! i)"
proof -
  obtain ca where ca: "ijs_scCache s (cs ! i) = Some ca" "\<not> mayWait ca" using general_okD(5) [OF g i] by blast
  obtain cm where cm: "ijs_scCache s (cs ! 1) = Some cm" "\<not> mayWait cm" using general_okD(5) [OF g, of 1] by auto
  have "OFF_SLAB ca \<Longrightarrow> sc_pscSlab ca = Some (cs ! 1)" by (rule general_okD(7) [OF g ca(1)])
  then show ?thesis using ca cm by (auto simp: waits_def)
qed

lemma allocMemory_eq:
  assumes s: "sys_inv ops pok held cs s"
  shows "jf_jiukun_allocMemory ops s sz =
    (case general_index sz of None \<Rightarrow> Some (JF_ERR_UNSUPPORTED_MEMORY_SIZE, 0, s) | Some i \<Rightarrow> allocObj slab_depth ops s (cs ! i))"
proof -
  note g = general_okD [OF sys_invD(7) [OF s]]
  have len: "length cs = length ls_sCacheSize" "length ls_sCacheSize = 19" using g(1) by (simp_all add: ls_sCacheSize_def)
  show ?thesis
    using allocGeneral_skip [OF len(1), of ops s None sz] len(2) sys_invD(2) [OF s] g(4)
    by (simp add: jf_jiukun_allocMemory_def general_index_def) (simp add: ls_sCacheSize_def OLSIZE_MAX_def)
qed

lemma allocMemory_sys:
  assumes s: "sys_inv ops pok held cs s"
  shows "case general_index sz of
      None \<Rightarrow> jf_jiukun_allocMemory ops s sz = Some (JF_ERR_UNSUPPORTED_MEMORY_SIZE, 0, s)
    | Some i \<Rightarrow>
        (case jf_jiukun_allocMemory ops s sz of None \<Rightarrow> stuck s | Some (r, a, s') \<Rightarrow> sys_inv ops pok held cs s' \<and> object_result (cs ! i) r a s s' \<and> steady held s s')"
proof -
  note k = sys_invD [OF s] and g = general_okD [OF sys_invD(7) [OF s]]
  note eq = allocMemory_eq [OF s, of sz]
  show ?thesis
  proof (cases "general_index sz")
    case None
    then show ?thesis using eq by simp
  next
    case (Some i)
    note i = general_index_Some [OF Some]
    obtain ca where ca: "ijs_scCache s (cs ! i) = Some ca" using g(5) [OF i(1)] by blast
    show ?thesis using allocObj_sys [OF s ca] not_waits_general [OF k(7) i(1)] eq Some by (auto split: option.splits)
  qed
qed

lemma object_mark:
  assumes inv: "slab_inv ops pok held s" and a: "(c, a) \<in> live s"
  shows "\<exists>p. Option.bind (po_page ops (ijs_buddy s) a) (ijs_page s) = Some (c, p)"
proof -
  obtain ca p sl where p: "ijs_scCache s c = Some ca" "p \<in> set (slabs_of ca)" "ijs_slab s p = Some sl" "a \<in> objs ca sl"
    using a by (rule liveE)
  then have "a \<in> blk (slab_block ca sl)" using objs_in_block(1) [OF inv p(1-3)] by blast
  then show ?thesis using mark_of_object [OF inv p(1-3)] by blast
qed

lemma freeMemory_sys:
  assumes s: "sys_inv ops pok held cs s" and a: "(c, a) \<in> objects s"
  obtains s' where "jf_jiukun_freeMemory ops s a = Some s'" "sys_inv ops pok held cs s'" "objects s' = objects s - {(c, a)}" "steady held s s'"
proof -
  note k = sys_invD [OF s]
  have l: "(c, a) \<in> live s" using a by (simp add: objects_def)
  obtain p where p: "Option.bind (po_page ops (ijs_buddy s) a) (ijs_page s) = Some (c, p)" using object_mark [OF k(1) l] by blast
  have "0 < a" using live_cache [OF l k(1)] by blast
  moreover obtain s' where "freeObj ops s c a = Some s'" "sys_inv ops pok held cs s'" "objects s' = objects s - {(c, a)}"
    "steady held s s'" by (rule freeObj_sys [OF s a])
  ultimately show ?thesis using that p k(2) by (simp add: jf_jiukun_freeMemory_def)
qed

text \<open>Reaping releases slabs and no object.\<close>

lemma reapJiukunSlab_sys:
  assumes s: "sys_inv ops pok held cs s"
  shows "case reapJiukunSlab ops bNoWait locked s of
      None \<Rightarrow> stuck s \<and> (bNoWait \<longrightarrow> locked)
    | Some (n, s') \<Rightarrow> sys_inv ops pok held cs s' \<and> objects s' = objects s \<and> steady held s s' \<and> \<not> (stuck s \<and> (bNoWait \<longrightarrow> locked))"
proof -
  note k = sys_invD [OF s]
  have r: "sys_inv ops pok held cs s'" "objects s' = objects s" "steady held s s'" if "reaped ops pok held s s'" for s'
    using that sys_frame [of s s'] s by (auto simp: reaped_def released_def objects_def steady_def)
  show ?thesis
    using reapCaches_ok [OF k(1), of "ijs_jlNext s" 0] k(2) s
    by (auto simp: reapJiukunSlab_def stuck_def steady_def frame_refl split: option.splits dest: r [unfolded steady_def])
qed

lemma createCache_returns:
  assumes s: "sys_inv ops pok held cs s" and sObj: "SLAB_ALIGN_SIZE \<le> sObj" "sObj \<le> push_bit MAX_JP_ORDER 1 * BUDDY_PAGE_SIZE"
    and found: "order_found (ALIGN_CEIL sObj SLAB_ALIGN_SIZE)" and jf: "JF_FLAG_GET jf SC_FLAG_OFF_SLAB = 0" "JF_FLAG_GET jf SC_FLAG_DESTROY = 0"
    and al: "allocObj slab_depth ops s Cache_cache = Some (r0, a0, s0)"
  shows "\<exists>r cid s'. createSlabCache ops mtx s name sObj jf = Some (r, cid, s') \<and> sys_inv ops pok held cs s' \<and> objects s' = objects s \<and>
    unowned held s' = unowned held s \<and>
    (case cid of
       None \<Rightarrow> r \<noteq> JF_ERR_NO_ERROR \<and> frame s s'
     | Some c \<Rightarrow> r = JF_ERR_NO_ERROR \<and> ijs_scCache s c = None \<and> c \<noteq> Cache_cache \<and>
         (\<forall>d. ijs_scCache s' d \<noteq> None \<longleftrightarrow> d = c \<or> ijs_scCache s d \<noteq> None) \<and>
         (\<exists>ca. ijs_scCache s' c = Some ca \<and> sc_u32ObjSize ca = ALIGN_CEIL sObj SLAB_ALIGN_SIZE))"
proof -
  note k = sys_invD [OF s]
  have sz: "sObj \<le> 2 ^ MAX_JP_ORDER * BUDDY_PAGE_SIZE" using sObj(2) by (simp add: push_bit_eq_mult)
  obtain r cid s' where cr: "createSlabCache ops mtx s name sObj jf = Some (r, cid, s')" "slab_inv ops pok held s'" "objects s' = objects s" "unowned held s' = unowned held s"
    and cid: "case cid of
       None \<Rightarrow> r \<noteq> JF_ERR_NO_ERROR \<and> frame s s' \<and> (r0 = JF_ERR_NO_ERROR \<longrightarrow> r = mtx name)
     | Some c \<Rightarrow> r = JF_ERR_NO_ERROR \<and> (\<exists>a l t. c = Cache a \<and> ijs_scCache s c = None \<and> frame s t \<and>
         layout_ok (ALIGN_CEIL sObj SLAB_ALIGN_SIZE) jf (cs ! 1) (descriptor name sObj l) \<and>
         s' = t\<lparr>ijs_scCache := (ijs_scCache t)(c \<mapsto> descriptor name sObj l), ijs_jlNext := c # ijs_jlNext t\<rparr>)"
    using createSlabCache_ok [OF k(1,3) al sObj(1) sz found jf(1) general_okD(6) [OF k(7)], of mtx name] by blast
  show ?thesis
  proof (cases cid)
    case None
    then show ?thesis using cr cid sys_frame [OF _ s cr(2)] by auto
  next
    case (Some c)
    then obtain a l t where c: "c = Cache a" "ijs_scCache s c = None" "frame s t" "r = JF_ERR_NO_ERROR"
      and l: "layout_ok (ALIGN_CEIL sObj SLAB_ALIGN_SIZE) jf (cs ! 1) (descriptor name sObj l)"
      and s': "s' = t\<lparr>ijs_scCache := (ijs_scCache t)(Cache a \<mapsto> descriptor name sObj l), ijs_jlNext := Cache a # ijs_jlNext t\<rparr>"
      using cid by auto
    have "caches_ok cs t" using caches_frame [OF c(3)] s by (simp add: sys_inv_def)
    moreover have "JF_FLAG_GET (sc_jfCache (descriptor name sObj l)) SC_FLAG_DESTROY = 0"
      using l jf(2) by (simp add: layout_ok_def SC_FLAG_DESTROY_def SC_FLAG_OFF_SLAB_def)
    ultimately have "caches_ok cs s'"
      using l c(1,2) frame_None [OF c(3), of c] by (intro caches_new [OF _ _ _ _ s']) (simp_all add: layout_ok_def)
    then have "sys_inv ops pok held cs s'" using cr(2) by (simp add: sys_inv_def)
    moreover have "ijs_scCache s' d \<noteq> None \<longleftrightarrow> d = c \<or> ijs_scCache s d \<noteq> None" for d using frame_None [OF c(3), of d] s' c(1) by auto
    ultimately show ?thesis using cr Some c s' by auto
  qed
qed

lemma createCache_sys:
  assumes s: "sys_inv ops pok held cs s" and sObj: "SLAB_ALIGN_SIZE \<le> sObj" "sObj \<le> push_bit MAX_JP_ORDER 1 * BUDDY_PAGE_SIZE"
    and found: "order_found (ALIGN_CEIL sObj SLAB_ALIGN_SIZE)" and jf: "JF_FLAG_GET jf SC_FLAG_OFF_SLAB = 0" "JF_FLAG_GET jf SC_FLAG_DESTROY = 0"
  shows "case jf_jiukun_createCache ops mtx s name sObj jf of
      None \<Rightarrow> stuck s
    | Some (r, cid, s') \<Rightarrow> sys_inv ops pok held cs s' \<and> objects s' = objects s \<and>
        unowned held s' = unowned held s \<and>
        (case cid of
           None \<Rightarrow> r \<noteq> JF_ERR_NO_ERROR \<and> frame s s'
         | Some c \<Rightarrow> r = JF_ERR_NO_ERROR \<and> ijs_scCache s c = None \<and> c \<noteq> Cache_cache \<and>
             (\<forall>d. ijs_scCache s' d \<noteq> None \<longleftrightarrow> d = c \<or> ijs_scCache s d \<noteq> None) \<and>
         (\<exists>ca. ijs_scCache s' c = Some ca \<and> sc_u32ObjSize ca = ALIGN_CEIL sObj SLAB_ALIGN_SIZE))"
proof -
  note k = sys_invD [OF s]
  have eq: "jf_jiukun_createCache ops mtx s name sObj jf = createSlabCache ops mtx s name sObj jf"
    using k(2) sObj by (simp add: jf_jiukun_createCache_def)
  obtain cc where cc: "ijs_scCache s Cache_cache = Some cc" using slab_invD(5) [OF k(1)] by blast
  show ?thesis
  proof (cases "allocObj slab_depth ops s Cache_cache")
    case None
    then show ?thesis using eq allocObj_sys [OF s cc] k(4) by (simp add: createSlabCache_def Let_def)
  next
    case (Some res)
    then obtain r0 a0 s0 where al: "allocObj slab_depth ops s Cache_cache = Some (r0, a0, s0)" by (cases res) auto
    show ?thesis using createCache_returns [OF s sObj found jf al, of mtx name] eq by auto
  qed
qed

text \<open>A search for an order that does not end is a call that does not return.\<close>

lemma createCache_diverges:
  assumes s: "sys_inv ops pok held cs s" and sObj: "SLAB_ALIGN_SIZE \<le> sObj" "sObj \<le> push_bit MAX_JP_ORDER 1 * BUDDY_PAGE_SIZE"
    and lost: "\<not> order_found (ALIGN_CEIL sObj SLAB_ALIGN_SIZE)" 
    and al: "allocObj slab_depth ops s Cache_cache = Some (JF_ERR_NO_ERROR, a, s1)"
  shows "jf_jiukun_createCache ops mtx s name sObj jf = None"
proof -
  let ?sz = "ALIGN_CEIL sObj SLAB_ALIGN_SIZE"
  note k = sys_invD [OF s]
  obtain cc where cc: "ijs_scCache s Cache_cache = Some cc" using slab_invD(5) [OF k(1)] by blast
  have "alloc_result ops pok held s Cache_cache (allocObj slab_depth ops s Cache_cache)" by (rule allocObj_ok [OF k(1) cc]) (simp add: slab_depth_def)
  then obtain N L where "evolved ops pok held Cache_cache N L s s1" using al by (auto simp: alloc_result_def)
  then have lim: "8 \<le> ijs_u32OffSlabLimit s1" using mgmt_cache_frame [OF evolvedD(2) general_okD(6) [OF k(7)]] by (auto simp: mgmt_cache_def)
  have page: "drop_bit 3 BUDDY_PAGE_SIZE = 512" by (simp add: BUDDY_PAGE_SIZE_def JF_JIUKUN_PAGE_SHIFT_def drop_bit_eq_div)
  have sz: "512 \<le> ?sz" "?sz \<le> 2 ^ MAX_JP_ORDER * BUDDY_PAGE_SIZE"
    using lost align_range(2) [OF sObj(1)] sObj(2) by (auto simp: order_found_def push_bit_eq_mult)
  have fl: "JF_FLAG_GET (JF_FLAG_SET jf SC_FLAG_OFF_SLAB) SC_FLAG_OFF_SLAB \<noteq> 0" by (simp add: JF_FLAG_GET_bit bit_char SC_FLAG_OFF_SLAB_def)
  have "createSlabCache ops mtx s name sObj jf = None"
    using order_loop_large [OF fl sz lim] lost sz(1) page by (intro createSlabCache_lost [OF al]) (simp add: order_found_def)
  then show ?thesis by (simp add: jf_jiukun_createCache_def)
qed

lemma destroyCache_sys:
  assumes s: "sys_inv ops pok held cs s" and c: "ijs_scCache s c \<noteq> None" "c \<noteq> Cache_cache" "c \<notin> set cs"
  obtains s' where "jf_jiukun_destroyCache ops s c = Some s'" "sys_inv ops pok held cs s'" "objects s' = objects s - {c} \<times> UNIV"
    "\<And>d. ijs_scCache s' d \<noteq> None \<longleftrightarrow> d \<noteq> c \<and> ijs_scCache s d \<noteq> None" "unowned held s' = unowned held s"
proof -
  note k = sys_invD [OF s]
  obtain a where a: "c = Cache a" using c(2) by (cases c) auto
  obtain ca where ca: "ijs_scCache s (Cache a) = Some ca" using c(1) a by auto
  have "cs ! 1 \<in> set cs" using general_okD(1) [OF k(7)] by (intro nth_mem) simp
  then have "cs ! 1 \<noteq> Cache a" using c(3) a by auto
  then have psc: "sc_pscSlab da \<noteq> Some (Cache a)" if "ijs_scCache s d = Some da" "OFF_SLAB da" for d da using general_okD(7) [OF k(7) that] by simp
  obtain s' t where s': "jf_jiukun_destroyCache ops s (Cache a) = Some s'" "slab_inv ops pok held s'"
    "objects s' = objects s - {Cache a} \<times> UNIV" "frame t s'" "\<forall>d. d \<noteq> Cache a \<longrightarrow> rel_option same_cache (ijs_scCache s d) (ijs_scCache t d)"
    "ijs_scCache t (Cache a) = None" "ijs_jlNext t = remove1 (Cache a) (ijs_jlNext s)" "ijs_gcGeneral t = ijs_gcGeneral s"
    "ijs_bInitialized t = ijs_bInitialized s" "ijs_u32OffSlabLimit t = ijs_u32OffSlabLimit s" "unowned held s' = unowned held s"
    by (rule jf_jiukun_destroyCache_ok [OF k(1) ca k(3) psc]) assumption+
  define u where "u = s\<lparr>ijs_scCache := (ijs_scCache s)(Cache a := None), ijs_jlNext := remove1 (Cache a) (ijs_jlNext s)\<rparr>"
  have "frame u t" using s'(5-10) by (auto simp: frame_def u_def)
  moreover have "caches_ok cs u" using s c(3) a by (intro caches_drop [OF _ _ u_def]) (simp_all add: sys_inv_def)
  ultimately have "sys_inv ops pok held cs s'" using caches_frame [OF frame_trans [OF _ s'(4)]] s'(2) by (auto simp: sys_inv_def)
  moreover have "ijs_scCache s' d \<noteq> None \<longleftrightarrow> d \<noteq> c \<and> ijs_scCache s d \<noteq> None" for d
    using frame_None [OF s'(4), of d] s'(6) s'(5) a by (cases "d = c") (auto dest!: spec [of _ d] simp: option.rel_sel)
  ultimately show ?thesis using that s'(1,3,11) a by simp
qed

text \<open>Pages for the callers: like the pages of a slab, and counted as theirs until they are given back.\<close>

lemma allocPage_sys:
  assumes s: "sys_inv ops pok held cs s"
  shows "case allocPage_loop ops k f s of
      None \<Rightarrow> JF_FLAG_GET f JF_JIUKUN_PAGE_ALLOC_FLAG_WAIT \<noteq> 0 \<or> stuck s
    | Some (r, pg, s') \<Rightarrow> sys_inv ops pok held cs s' \<and> objects s' = objects s \<and> frame s s' \<and>
        (case pg of
           None \<Rightarrow> r \<noteq> JF_ERR_NO_ERROR \<and> unowned held s' = unowned held s
         | Some a \<Rightarrow> r = JF_ERR_NO_ERROR \<and> 0 < a \<and> (a, k) \<notin> unowned held s \<and> unowned held s' = insert (a, k) (unowned held s))"
proof (cases "allocPage_loop ops k f s")
  case None
  then show ?thesis using allocPage_none(1) [OF None sys_invD(1) [OF s]] by auto
next
  case (Some res)
  obtain r pg s' where res: "res = (r, pg, s')" by (cases res)
  have pr: "pages_result ops pok held k s (r, pg, s')" using allocPage_some [OF Some sys_invD(1) [OF s]] res by simp
  show ?thesis
  proof (cases pg)
    case None
    then have rl: "released ops pok held s s'" "r \<noteq> JF_ERR_NO_ERROR" using pr by (simp_all add: pages_result_def reaped_def)
    then show ?thesis using Some res None sys_frame [OF _ s] by (simp add: released_def objects_def)
  next
    case pg: (Some a)
    then obtain s0 b where s0: "reaped ops pok held s s0" "po_alloc ops (ijs_buddy s0) k = Some (r, Some a, b)" "s' = s0\<lparr>ijs_buddy := b\<rparr>"
      using pr by (auto simp: pages_result_def)
    have rl: "released ops pok held s s0" using s0(1) by (simp add: reaped_def)
    then have r0: "slab_inv ops pok held s0" "frame s s0" "objects s0 = objects s" "unowned held s0 = unowned held s"
      by (simp_all add: released_def objects_def)
    note ab = alloc_block [OF r0(1) s0(2)] and ps = pages_same [where s' = "s0\<lparr>ijs_buddy := b\<rparr>" and s = s0 and pg = "ijs_page s0" and b = b, simplified, folded s0(3)]
    have "frame s s'" using frame_trans [OF r0(2) ps(4)] .
    moreover have "slab_inv ops pok held s'" using ab(1) s0(3) by simp
    moreover have "objects s' = objects s" using ps(1,2) r0(3) by (simp add: objects_def)
    moreover have "r = JF_ERR_NO_ERROR" "0 < a" "(a, k) \<notin> held (ijs_buddy s0)" using ab(3) [OF refl] by simp_all
    moreover have "(a, k) \<notin> owned s0" using owned_held [OF r0(1)] calculation(6) by blast
    moreover have "unowned held s' = insert (a, k) (unowned held s0)" using ab(2) ps(3) s0(3) calculation(7) by (auto simp: unowned_def)
    moreover have "(a, k) \<notin> unowned held s" using calculation(6) r0(4) by (auto simp: unowned_def)
    ultimately show ?thesis using Some res pg sys_frame [OF _ s] r0(4) by simp
  qed
qed

lemma freePage_sys:
  assumes s: "sys_inv ops pok held cs s" and a: "(a, k) \<in> unowned held s"
  obtains b where "po_free ops (ijs_buddy s) a = Some b" "sys_inv ops pok held cs (s\<lparr>ijs_buddy := b\<rparr>)" "objects (s\<lparr>ijs_buddy := b\<rparr>) = objects s"
    "unowned held (s\<lparr>ijs_buddy := b\<rparr>) = unowned held s - {(a, k)}" "frame s (s\<lparr>ijs_buddy := b\<rparr>)"
proof -
  note inv = sys_invD(1) [OF s]
  note ok = slab_invD(1) [OF inv]
  have u: "(a, k) \<in> held (ijs_buddy s)" "(a, k) \<notin> owned s" using a by (simp_all add: unowned_def)
  obtain b where "po_free ops (ijs_buddy s) a = Some b \<and> pok b \<and> held b = held (ijs_buddy s) - {(a, k)} \<and>
      (\<forall>u\<in>held b. \<forall>y\<in>blk u. po_page ops b y = po_page ops (ijs_buddy s) y)"
    using free_block [OF ok u(1), of a] by auto
  then have b: "po_free ops (ijs_buddy s) a = Some b" "pok b" "held b = held (ijs_buddy s) - {(a, k)}"
    "\<And>v z. v \<in> held b \<Longrightarrow> z \<in> blk v \<Longrightarrow> po_page ops b z = po_page ops (ijs_buddy s) z" by simp_all
  have sub: "owned s \<subseteq> held b" using owned_held [OF inv] u(2) b(3) by blast
  have "slab_inv ops pok held (s\<lparr>ijs_buddy := b\<rparr>)"
    by (rule pages_inv [OF inv _ b(2) sub, where pg = "ijs_page s"]) (use b(4) sub in auto)
  note ps = pages_same [where s' = "s\<lparr>ijs_buddy := b\<rparr>" and s = s and pg = "ijs_page s" and b = b, simplified]
  then show ?thesis using that [of b] b(1,3) sys_frame [OF ps(4) s] \<open>slab_inv ops pok held (s\<lparr>ijs_buddy := b\<rparr>)\<close>
    by (auto simp: unowned_def objects_def)
qed

text \<open>The bytes of objects and of the pages of the callers do not overlap.\<close>

lemma object_page_apart:
  assumes inv: "slab_inv ops pok held s" and a: "(c, a) \<in> live s" "ijs_scCache s c = Some ca" and u: "u \<in> unowned held s"
  shows "{a ..< a + sc_u32ObjSize ca} \<inter> blk u = {}"
proof -
  obtain p sl where p: "p \<in> set (slabs_of ca)" "ijs_slab s p = Some sl" "a \<in> objs ca sl" using a by (auto elim: liveE)
  have o: "slab_block ca sl \<in> owned s" by (rule ownedI [OF a(2) p(1,2)])
  have "slab_at ops held s c ca p sl" using cache_okD(4) [OF slab_invD(2) [OF inv a(2)] p(1)] p(2) by auto
  then have "{a ..< a + sc_u32ObjSize ca} \<subseteq> blk (slab_block ca sl)"
    using object_in_block(1) [OF cache_okD(1) [OF slab_invD(2) [OF inv a(2)]] _ p(3)] by blast
  moreover have "u \<noteq> slab_block ca sl" "u \<in> held (ijs_buddy s)" "slab_block ca sl \<in> held (ijs_buddy s)"
    using u o owned_held [OF inv] by (auto simp: unowned_def)
  then have "blk (slab_block ca sl) \<inter> blk u = {}" using blocks_apart [OF slab_invD(1) [OF inv]] by blast
  ultimately show ?thesis by blast
qed

end

end
