(* ===== verification/Jf_Slab_Init.thy ===== *)
theory Jf_Slab_Init
  imports Jf_Slab_System
begin

text \<open>
  Start and end of the object caches over a page allocator that keeps the contract \<open>page_provider\<close>: the start makes the general
  caches and gives a state with the invariant of \<open>Jf_Slab_System\<close>, or takes everything back when a step fails; the end destroys the caches.
\<close>

section \<open>Sizes of the general caches\<close>

lemma ls_sCacheSize_nth:
  assumes "i < 19"
  shows "ls_sCacheSize ! i = 2 ^ (i + 5)"
proof -
  have eq: "ls_sCacheSize = map (\<lambda>i. 2 ^ (i + 5)) [0..<19]" by (simp add: ls_sCacheSize_def upt_rec)
  have "map (\<lambda>i. 2 ^ (i + 5)) [0..<19] ! i = (2::nat) ^ ([0..<19] ! i + 5)" using assms by (intro nth_map) simp
  also have "[0..<19] ! i = i" using nth_upt [of 0 i 19] assms by simp
  finally show ?thesis unfolding eq .
qed

lemma general_size:
  assumes "i < 19"
  shows "SLAB_ALIGN_SIZE \<le> ls_sCacheSize ! i" "ls_sCacheSize ! i \<le> 2 ^ MAX_JP_ORDER * BUDDY_PAGE_SIZE"
    "ALIGN_CEIL (ls_sCacheSize ! i) SLAB_ALIGN_SIZE = ls_sCacheSize ! i" "order_found (ls_sCacheSize ! i)"
    "512 \<le> ls_sCacheSize ! i \<Longrightarrow> 4 \<le> i" "1 \<le> i \<Longrightarrow> 64 \<le> ls_sCacheSize ! i" "i = 1 \<Longrightarrow> ls_sCacheSize ! i = 64"
proof -
  note n = ls_sCacheSize_nth [OF assms]
  have page: "2 ^ k * BUDDY_PAGE_SIZE = 2 ^ (k + 12)" for k by (simp add: BUDDY_PAGE_SIZE_def JF_JIUKUN_PAGE_SHIFT_def power_add push_bit_eq_mult)
  have "(2::nat) ^ 3 \<le> 2 ^ (i + 5)" by (intro power_increasing) auto
  then show "SLAB_ALIGN_SIZE \<le> ls_sCacheSize ! i" using n by (simp add: SLAB_ALIGN_SIZE_def)
  have "(2::nat) ^ (i + 5) \<le> 2 ^ (11 + 12)" using assms by (intro power_increasing) auto
  then show le: "ls_sCacheSize ! i \<le> 2 ^ MAX_JP_ORDER * BUDDY_PAGE_SIZE" using n page [of MAX_JP_ORDER] by (simp add: MAX_JP_ORDER_def)
  have e: "(2::nat) ^ (i + 5) = 8 * 2 ^ (i + 2)" by (simp add: power_add)
  show "ALIGN_CEIL (ls_sCacheSize ! i) SLAB_ALIGN_SIZE = ls_sCacheSize ! i"
    unfolding n e ALIGN_CEIL_def SLAB_ALIGN_SIZE_def by simp
  show "order_found (ls_sCacheSize ! i)"
  proof -
    have "2 ^ (i + 5) \<le> (2::nat) ^ (least_order (ls_sCacheSize ! i) + 12)" using least_order(1) [OF le] n page by simp
    then have "i + 5 \<le> least_order (ls_sCacheSize ! i) + 12" by (rule power_le_imp_le_exp [rotated]) simp
    then have "ls_sCacheSize ! i dvd 2 ^ least_order (ls_sCacheSize ! i) * BUDDY_PAGE_SIZE" unfolding n page by (rule le_imp_power_dvd)
    then show ?thesis by (simp add: order_found_def order_waste_def)
  qed
  show "4 \<le> i" if "512 \<le> ls_sCacheSize ! i"
  proof (rule ccontr)
    assume "\<not> 4 \<le> i"
    then have "(2::nat) ^ (i + 5) \<le> 2 ^ 8" by (intro power_increasing) auto
    then show False using that n by simp
  qed
  show "64 \<le> ls_sCacheSize ! i" if "1 \<le> i"
  proof -
    have "(2::nat) ^ 6 \<le> 2 ^ (i + 5)" using that by (intro power_increasing) auto
    then show ?thesis using n by simp
  qed
  show "i = 1 \<Longrightarrow> ls_sCacheSize ! i = 64" using n by simp
qed

section \<open>The general caches\<close>

text \<open>The caches \<open>cs\<close> are made, and nothing else.\<close>

definition gen_upto ::
  "'b page_ops \<Rightarrow> ('b \<Rightarrow> bool) \<Rightarrow> ('b \<Rightarrow> (addr \<times> nat) set) \<Rightarrow> cache_id list \<Rightarrow> 'b internal_jiukun_slab \<Rightarrow> bool" where
  "gen_upto ops pok held cs s \<longleftrightarrow> slab_inv ops pok held s \<and> undestroyed s {} \<and> \<not> waits s Cache_cache \<and> objects s = {} \<and>
     distinct cs \<and> Cache_cache \<notin> set cs \<and> length cs \<le> 19 \<and> ijs_jlNext s = rev cs \<and> \<not> ijs_bInitialized s \<and>
     (\<forall>c. ijs_scCache s c \<noteq> None \<longleftrightarrow> c = Cache_cache \<or> c \<in> set cs) \<and>
     (\<exists>rest. ijs_gcGeneral s = zip (map int ls_sCacheSize) (map Some cs) @ rest \<and> length rest = 20 - length cs \<and> (\<forall>x\<in>set rest. snd x = None)) \<and>
     (\<forall>i < length cs. \<exists>ca. ijs_scCache s (cs ! i) = Some ca \<and> sc_u32ObjSize ca = ls_sCacheSize ! i \<and> \<not> mayWait ca \<and>
        (OFF_SLAB ca \<or> 0 < sc_u32Order ca \<longrightarrow> 512 \<le> sc_u32ObjSize ca) \<and> (OFF_SLAB ca \<longrightarrow> sc_pscSlab ca = Some (cs ! 1))) \<and>
     (2 \<le> length cs \<longrightarrow> 8 \<le> ijs_u32OffSlabLimit s) \<and> (\<exists>cc. ijs_scCache s Cache_cache = Some cc \<and> sc_u32Order cc = 0)"

lemma gen_uptoD:
  assumes "gen_upto ops pok held cs s"
  shows "slab_inv ops pok held s" "undestroyed s {}" "\<not> waits s Cache_cache" "objects s = {}" "distinct cs" "Cache_cache \<notin> set cs"
    "length cs \<le> 19" "ijs_jlNext s = rev cs" "\<not> ijs_bInitialized s" "ijs_scCache s c \<noteq> None \<longleftrightarrow> c = Cache_cache \<or> c \<in> set cs"
    "\<exists>rest. ijs_gcGeneral s = zip (map int ls_sCacheSize) (map Some cs) @ rest \<and> length rest = 20 - length cs \<and> (\<forall>x\<in>set rest. snd x = None)"
    "i < length cs \<Longrightarrow> \<exists>ca. ijs_scCache s (cs ! i) = Some ca \<and> sc_u32ObjSize ca = ls_sCacheSize ! i \<and> \<not> mayWait ca \<and>
        (OFF_SLAB ca \<or> 0 < sc_u32Order ca \<longrightarrow> 512 \<le> sc_u32ObjSize ca) \<and> (OFF_SLAB ca \<longrightarrow> sc_pscSlab ca = Some (cs ! 1))"
    "2 \<le> length cs \<Longrightarrow> 8 \<le> ijs_u32OffSlabLimit s" "\<exists>cc. ijs_scCache s Cache_cache = Some cc \<and> sc_u32Order cc = 0"
  using assms unfolding gen_upto_def by blast+

lemma gen_off:
  assumes g: "gen_upto ops pok held cs s" and ca: "ijs_scCache s c = Some ca" "OFF_SLAB ca"
  shows "sc_pscSlab ca = Some (cs ! 1)" "512 \<le> sc_u32ObjSize ca" "c \<in> set cs"
proof -
  have "c \<noteq> Cache_cache" using slab_invD(5) [OF gen_uptoD(1) [OF g]] ca by auto
  then show c: "c \<in> set cs" using gen_uptoD(10) [OF g, of c] ca(1) by simp
  then obtain i where "i < length cs" "cs ! i = c" by (auto simp: in_set_conv_nth)
  then show "sc_pscSlab ca = Some (cs ! 1)" "512 \<le> sc_u32ObjSize ca" using gen_uptoD(12) [OF g, of i] ca by auto
qed

lemma gen_mgmt:
  assumes g: "gen_upto ops pok held cs s" and l: "2 \<le> length cs"
  shows "mgmt_cache s (cs ! 1)"
proof -
  obtain rest where r: "ijs_gcGeneral s = zip (map int ls_sCacheSize) (map Some cs) @ rest" using gen_uptoD(11) [OF g] by blast
  obtain c0 c1 cs' where cs: "cs = c0 # c1 # cs'" using l by (cases cs; cases "tl cs") auto
  obtain ca where ca: "ijs_scCache s (cs ! 1) = Some ca" "sc_u32ObjSize ca = ls_sCacheSize ! 1" "OFF_SLAB ca \<or> 0 < sc_u32Order ca \<longrightarrow> 512 \<le> sc_u32ObjSize ca"
    using gen_uptoD(12) [OF g, of 1] l by auto
  have "\<not> OFF_SLAB ca" using ca(2,3) general_size(7) [of 1] by auto
  moreover have "cs ! 1 \<noteq> Cache_cache" using gen_uptoD(6) [OF g] cs by auto
  moreover have "findGeneralSlabCache (ijs_gcGeneral s) n = Some (Some (cs ! 1))" if "32 < n" "n \<le> 64" for n
    using that r cs by (simp add: ls_sCacheSize_def OLSIZE_MAX_def)
  ultimately show ?thesis using ca(1) gen_uptoD(13) [OF g l] by (auto simp: mgmt_cache_def)
qed

lemma gen_frame:
  assumes f: "frame s s'" and g: "gen_upto ops pok held cs s" and s': "slab_inv ops pok held s'" "objects s' = {}"
  shows "gen_upto ops pok held cs s'"
proof -
  note k = gen_uptoD [OF g]
  have "\<exists>ca. ijs_scCache s' (cs ! i) = Some ca \<and> sc_u32ObjSize ca = ls_sCacheSize ! i \<and> \<not> mayWait ca \<and>
        (OFF_SLAB ca \<or> 0 < sc_u32Order ca \<longrightarrow> 512 \<le> sc_u32ObjSize ca) \<and> (OFF_SLAB ca \<longrightarrow> sc_pscSlab ca = Some (cs ! 1))" if i: "i < length cs" for i
  proof -
    obtain ca where ca: "ijs_scCache s (cs ! i) = Some ca" "sc_u32ObjSize ca = ls_sCacheSize ! i" "\<not> mayWait ca"
      "(OFF_SLAB ca \<or> 0 < sc_u32Order ca \<longrightarrow> 512 \<le> sc_u32ObjSize ca) \<and> (OFF_SLAB ca \<longrightarrow> sc_pscSlab ca = Some (cs ! 1))" using k(12) [OF i] by (elim exE conjE) simp
    obtain ca' where ca': "ijs_scCache s' (cs ! i) = Some ca'" "same_layout ca ca'" "same_flags ca ca'" by (rule frameD [OF f ca(1)])
    show ?thesis
      using ca(2-4) ca'(1) same_layoutD(1,3,5,6) [OF ca'(2)] same_flagsD(3) [OF ca'(3)] by (intro exI [of _ ca']) (simp add: mayWait_def)
  qed
  moreover have "ijs_gcGeneral s' = ijs_gcGeneral s" "ijs_jlNext s' = ijs_jlNext s" "ijs_bInitialized s' = ijs_bInitialized s"
    "ijs_u32OffSlabLimit s' = ijs_u32OffSlabLimit s" using f by (simp_all add: frame_def)
  moreover have "\<exists>cc. ijs_scCache s' Cache_cache = Some cc \<and> sc_u32Order cc = 0" using k(14) by (auto elim!: frameD [OF f] dest: same_layoutD)
  ultimately show ?thesis
    using k(2,3,5-11,13) s' undestroyed_frame [OF f] waits_frame [OF f] frame_None [OF f] unfolding gen_upto_def by simp
qed

text \<open>What does not depend on the general caches and the list of caches.\<close>

lemma same_heap:
  assumes "ijs_scCache s' = ijs_scCache s" "ijs_slab s' = ijs_slab s" "ijs_page s' = ijs_page s" "ijs_buddy s' = ijs_buddy s"
  shows "slab_inv ops pok held s' = slab_inv ops pok held s" "objects s' = objects s" "undestroyed s' D = undestroyed s D" "waits s' c = waits s c"
    "unowned held s' = unowned held s"
proof -
  have "cache_ok ops held s' = cache_ok ops held s" "mgmt_ok s' = mgmt_ok s" 
    by (intro ext; simp add: cache_ok_def slab_at_def mgmt_ok_def assms)+
  moreover have l: "live s' = live s" "internal s' = internal s" using assms by (simp_all add: live_def internal_def)
  ultimately show "slab_inv ops pok held s' = slab_inv ops pok held s" using assms by (simp add: slab_inv_def)
  show "objects s' = objects s" using l by (simp add: objects_def)
  show "undestroyed s' D = undestroyed s D" "waits s' c = waits s c" unfolding undestroyed_def waits_def assms by (rule refl)+
  show "unowned held s' = unowned held s" by (simp add: unowned_def owned_def assms)
qed

lemma gen_slot:
  assumes g: "gen_upto ops pok held cs s" and i: "i = length cs" "i < 19" and sz: "sz = ls_sCacheSize ! i"
    and s1: "s1 = s\<lparr>ijs_gcGeneral := (ijs_gcGeneral s)[i := (int sz, snd (ijs_gcGeneral s ! i))]\<rparr>"
  shows "gen_upto ops pok held cs s1" "length (ijs_gcGeneral s) = 20"
proof -
  note k = gen_uptoD [OF g] and h = same_heap [of s1 s]
  obtain rest where r: "ijs_gcGeneral s = zip (map int ls_sCacheSize) (map Some cs) @ rest" "length rest = 20 - length cs" "\<forall>x\<in>set rest. snd x = None"
    using k(11) by blast
  then show "length (ijs_gcGeneral s) = 20" using i by simp
  obtain x rest' where x: "rest = x # rest'" using r(2) i by (cases rest) auto
  have "ijs_gcGeneral s1 = zip (map int ls_sCacheSize) (map Some cs) @ (int sz, None) # rest'"
    using r i x by (simp add: s1 list_update_append nth_append)
  then have "\<exists>rest. ijs_gcGeneral s1 = zip (map int ls_sCacheSize) (map Some cs) @ rest \<and> length rest = 20 - length cs \<and> (\<forall>x\<in>set rest. snd x = None)"
    using r(2,3) x by (intro exI [of _ "(int sz, None) # rest'"]) auto
  moreover have "ijs_scCache s1 = ijs_scCache s" "ijs_jlNext s1 = ijs_jlNext s" "ijs_bInitialized s1 = ijs_bInitialized s"
    "ijs_u32OffSlabLimit s1 = ijs_u32OffSlabLimit s" by (simp_all add: s1)
  ultimately show "gen_upto ops pok held cs s1" using k h unfolding gen_upto_def by (simp add: s1)
qed

lemma zip_take_length: "zip (take (length ys) xs) ys = zip xs ys"
proof (induction ys arbitrary: xs)
  case (Cons y ys)
  then show ?case by (cases xs) simp_all
qed simp

text \<open>The state after a general cache was made and entered.\<close>

lemma gen_next:
  assumes g: "gen_upto ops pok held cs s" and i: "i = length cs" "i < 19" and sz: "sz = ls_sCacheSize ! i"
    and c: "c = Cache a" "ijs_scCache s c = None" and f: "frame s t"
    and ca: "layout_ok sz 0 (cs ! 1) ca" "sc_u32ObjSize ca = sz"
    and s2: "s2 = t\<lparr>ijs_scCache := (ijs_scCache t)(c \<mapsto> ca), ijs_jlNext := c # ijs_jlNext t\<rparr>" "slab_inv ops pok held s2" "objects s2 = {}"
    and s4: "s4 = s2\<lparr>ijs_gcGeneral := (ijs_gcGeneral s2)[i := (int sz, Some c)], ijs_u32OffSlabLimit := lim\<rparr>"
      "lim = (if OFF_SLAB ca then ijs_u32OffSlabLimit s2 else (sz - sizeof_slab) div 2)"
  shows "gen_upto ops pok held (cs @ [c]) s4"
proof -
  note k = gen_uptoD [OF g] and gs = general_size [OF i(2), folded sz]
  have fr: "ijs_gcGeneral t = ijs_gcGeneral s" "ijs_jlNext t = ijs_jlNext s" "ijs_bInitialized t = ijs_bInitialized s"
    "ijs_u32OffSlabLimit t = ijs_u32OffSlabLimit s" using f by (simp_all add: frame_def)
  have caches: "ijs_scCache s4 = (ijs_scCache t)(c \<mapsto> ca)" using s2(1) s4(1) by simp
  have fl: "JF_FLAG_GET (sc_jfCache ca) h = 0" if "h \<noteq> SC_FLAG_OFF_SLAB" for h using ca(1) that by (simp add: layout_ok_def JF_FLAG_GET_bit)
  have cN: "c \<notin> set cs" "c \<noteq> Cache_cache" using k(10) [of c] c by auto
  obtain rest where r: "ijs_gcGeneral s = zip (map int ls_sCacheSize) (map Some cs) @ rest" "length rest = 20 - length cs" "\<forall>x\<in>set rest. snd x = None"
    using k(11) by blast
  obtain x rest' where x: "rest = x # rest'" using r(2) i by (cases rest) auto
  have zip: "zip (map int ls_sCacheSize) (map Some (cs @ [c])) = zip (map int ls_sCacheSize) (map Some cs) @ [(int sz, Some c)]"
    using i sz zip_take_length [of "map Some cs" "map int ls_sCacheSize"]
    by (simp add: zip_append2 drop_map) (simp add: Cons_nth_drop_Suc [symmetric])
  have "ijs_gcGeneral s4 = zip (map int ls_sCacheSize) (map Some (cs @ [c])) @ rest'"
    unfolding zip using r(1) fr(1) x i s2(1) by (simp add: s4(1) list_update_append)
  moreover have "length rest' = 20 - length (cs @ [c])" "\<forall>x\<in>set rest'. snd x = None" using r(2,3) x by auto
  ultimately have gc: "\<exists>rest. ijs_gcGeneral s4 = zip (map int ls_sCacheSize) (map Some (cs @ [c])) @ rest \<and> length rest = 20 - length (cs @ [c]) \<and>
      (\<forall>x\<in>set rest. snd x = None)" by blast
  have "und": "undestroyed s4 {}"
    using undestroyed_frame [OF f k(2)] fl [of SC_FLAG_DESTROY] by (simp add: undestroyed_def caches SC_FLAG_DESTROY_def SC_FLAG_OFF_SLAB_def)
  obtain cc where cc: "ijs_scCache t Cache_cache = Some cc" "\<not> OFF_SLAB cc" using slab_invD(5) [OF s2(2)] s2(1) cN(2) by auto
  have "\<not> waits t Cache_cache" using waits_frame [OF f, of Cache_cache] k(3) by blast
  then have wt: "\<not> waits s4 Cache_cache" using cc cN(2) by (simp add: waits_def caches)
  have each: "\<exists>ca. ijs_scCache s4 ((cs @ [c]) ! j) = Some ca \<and> sc_u32ObjSize ca = ls_sCacheSize ! j \<and> \<not> mayWait ca \<and>
        (OFF_SLAB ca \<or> 0 < sc_u32Order ca \<longrightarrow> 512 \<le> sc_u32ObjSize ca) \<and> (OFF_SLAB ca \<longrightarrow> sc_pscSlab ca = Some ((cs @ [c]) ! 1))" if j: "j < length (cs @ [c])" for j
  proof (cases "j < length cs")
    case True
    obtain ca0 where ca0: "ijs_scCache s (cs ! j) = Some ca0" "sc_u32ObjSize ca0 = ls_sCacheSize ! j" "\<not> mayWait ca0"
      "(OFF_SLAB ca0 \<or> 0 < sc_u32Order ca0 \<longrightarrow> 512 \<le> sc_u32ObjSize ca0) \<and> (OFF_SLAB ca0 \<longrightarrow> sc_pscSlab ca0 = Some (cs ! 1))" using k(12) [OF True] by (elim exE conjE) simp
    obtain ca' where ca': "ijs_scCache t (cs ! j) = Some ca'" "same_layout ca0 ca'" "same_flags ca0 ca'" by (rule frameD [OF f ca0(1)])
    have "OFF_SLAB ca' \<longrightarrow> 4 \<le> j" using ca0(2,4) same_layoutD(6) [OF ca'(2)] general_size(5) [of j] True i by auto
    moreover have "cs ! j \<noteq> c" using cN(1) True by (metis nth_mem)
    ultimately show ?thesis
      using True ca0(2-4) ca'(1) same_layoutD(1,3,5,6) [OF ca'(2)] same_flagsD(3) [OF ca'(3)]
      by (intro exI [of _ ca']) (auto simp: caches nth_append mayWait_def)
  next
    case False
    then have "j = length cs" using j by simp
    moreover have "OFF_SLAB ca \<or> 0 < sc_u32Order ca \<longrightarrow> 512 \<le> sz" "OFF_SLAB ca \<longrightarrow> sc_pscSlab ca = Some (cs ! 1) \<and> 1 < length cs" using ca(1) gs(5) i by (auto simp: layout_ok_def)
    moreover have "\<not> mayWait ca" using fl [of JF_JIUKUN_CACHE_CREATE_FLAG_WAIT] by (simp add: mayWait_def JF_JIUKUN_CACHE_CREATE_FLAG_WAIT_def SC_FLAG_OFF_SLAB_def)
    ultimately show ?thesis using ca(2) sz i by (auto simp: caches nth_append)
  qed
  have lim: "8 \<le> ijs_u32OffSlabLimit s4" if l: "2 \<le> length (cs @ [c])"
  proof (cases "OFF_SLAB ca")
    case True
    then have "4 \<le> i" using ca(1) gs(5) by (simp add: layout_ok_def)
    then show ?thesis using True k(13) i fr(4) s2(1) s4 by simp
  next
    case False
    have "64 \<le> sz" using gs(6) l i by simp
    then show ?thesis using False s4 by (simp add: sizeof_slab_def)
  qed
  have ord: "\<exists>cc. ijs_scCache s4 Cache_cache = Some cc \<and> sc_u32Order cc = 0" using k(14) cN(2) by (auto simp: caches elim!: frameD [OF f] dest: same_layoutD)
  have dom: "ijs_scCache s4 d \<noteq> None \<longleftrightarrow> d = Cache_cache \<or> d \<in> set (cs @ [c])" for d using frame_None [OF f, of d] k(10) [of d] by (auto simp: caches)
  have "slab_inv ops pok held s4" "objects s4 = {}" using same_heap(1,2) [of s4 s2] s2(2,3) s4(1) by simp_all
  then show ?thesis
    unfolding gen_upto_def using "und" wt k(5,6) cN i fr s2(1) s4(1) k(8,9) dom gc each lim ord by simp
qed

section \<open>The start\<close>

text \<open>The state before the start, as C leaves a static variable: nothing is there. \<open>b\<close> is the page allocator.\<close>

definition slab_start :: "'b \<Rightarrow> 'b internal_jiukun_slab" where
  "slab_start b = \<lparr>ijs_bInitialized = False, ijs_scCache = Map.empty, ijs_slab = Map.empty, ijs_page = Map.empty, ijs_u32OffSlabLimit = 0,
     ijs_gcGeneral = replicate MAX_NUM_OF_GENERAL_CACHE (0, None), ijs_jlNext = [], ijs_buddy = b\<rparr>"

text \<open>The cache of cache descriptors as it is set up.\<close>

definition cache_cache :: "nat \<Rightarrow> nat \<Rightarrow> slab_cache" where
  "cache_cache csize num = \<lparr>sc_u32ObjSize = csize, sc_u32RealObjSize = 0, sc_jfCache = JF_FLAG_SET 0 JF_JIUKUN_CACHE_CREATE_FLAG_NOREAP,
     sc_u32Num = num, sc_jlFull = [], sc_jlPartial = [], sc_jlFree = [], sc_u32Order = 0, sc_jfPage = 0,
     sc_pscSlab = None, sc_strName = ''cache_cache''\<rparr>"

lemma cache_cache_flags:
  "\<not> OFF_SLAB (cache_cache csize num)" "JF_FLAG_GET (sc_jfCache (cache_cache csize num)) SC_FLAG_DESTROY = 0" "\<not> mayWait (cache_cache csize num)"
  by (simp_all add: cache_cache_def OFF_SLAB_def mayWait_def JF_FLAG_GET_bit bit_JF_FLAG_SET JF_JIUKUN_CACHE_CREATE_FLAG_NOREAP_def
        JF_JIUKUN_CACHE_CREATE_FLAG_WAIT_def SC_FLAG_OFF_SLAB_def SC_FLAG_DESTROY_def)

lemma cache_cache_shape:
  assumes "0 < csize" "csize + 40 \<le> 4096"
  obtains lo num where "slabCacheEstimate 0 csize 0 = Some (lo, num)" "cache_shape (cache_cache csize num)"
proof -
  have page: "BUDDY_PAGE_SIZE = 4096" by (simp add: BUDDY_PAGE_SIZE_def JF_JIUKUN_PAGE_SHIFT_def push_bit_eq_mult)
  obtain num where n: "slabCacheEstimate 0 csize 0 = Some (4096 - slab_bytes False csize num, num)" "slab_bytes False csize num \<le> 4096"
    "4096 < slab_bytes False csize (num + 1)"
    by (rule slabCacheEstimate_spec [of csize 0 False 0 4096]) (use assms(1) page in \<open>simp_all add: JF_FLAG_GET_bit\<close>)
  have pos: "0 < num"
  proof (rule ccontr)
    assume "\<not> 0 < num"
    then show False using n(3) assms(2) by (simp add: slab_bytes_def ALIGN_CEIL_def SLAB_ALIGN_SIZE_def sizeof_slab_def sizeof_slab_bufctl_def)
  qed
  have off: "slab_offset (cache_cache csize num) + num * csize = slab_bytes False csize num"
    using cache_cache_flags(1) by (simp add: slab_offset_def mgmt_size_def slab_bytes_def cache_cache_def add.commute)
  moreover have "num \<le> num * csize" "0 < num * csize" using assms(1) pos by simp_all
  ultimately have "num \<le> 4096" "slab_offset (cache_cache csize num) < 4096" "slab_offset (cache_cache csize num) + num * csize \<le> 4096"
    using n(2) by linarith+
  moreover from this(1) have "num < BUFCTL_END" by (simp add: BUFCTL_END_def)
  ultimately have "cache_shape (cache_cache csize num)" unfolding cache_shape_def using pos assms(1) page by (simp add: cache_cache_def)
  then show ?thesis using n(1) that by blast
qed

section \<open>The end\<close>

text \<open>The caches after a successful start, and after the end or a failed start.\<close>

definition started ::
  "'b page_ops \<Rightarrow> ('b \<Rightarrow> bool) \<Rightarrow> ('b \<Rightarrow> (addr \<times> nat) set) \<Rightarrow> 'b internal_jiukun_slab \<Rightarrow> bool" where
  "started ops pok held s \<longleftrightarrow> (\<exists>cs. sys_inv ops pok held cs s \<and> objects s = {} \<and> (\<forall>c. ijs_scCache s c \<noteq> None \<longleftrightarrow> c = Cache_cache \<or> c \<in> set cs) \<and>
     (\<exists>cc. ijs_scCache s Cache_cache = Some cc \<and> sc_u32Order cc = 0))"

definition ended ::
  "'b page_ops \<Rightarrow> ('b \<Rightarrow> bool) \<Rightarrow> ('b \<Rightarrow> (addr \<times> nat) set) \<Rightarrow> 'b internal_jiukun_slab \<Rightarrow> bool" where
  "ended ops pok held s \<longleftrightarrow> slab_inv ops pok held s \<and> owned s = {} \<and> live s = {} \<and> \<not> ijs_bInitialized s \<and>
     generalCaches (ijs_gcGeneral s) = Some []"

lemma endedI:
  assumes "slab_inv ops pok held s" "owned s = {}" "live s = {}" "\<not> ijs_bInitialized s" "ijs_gcGeneral s = map (\<lambda>(gsz, c). (gsz, None)) gs" "gs \<noteq> []"
  shows "ended ops pok held s"
  using assms by (cases gs) (auto simp: ended_def split: prod.splits)

context page_provider
begin

lemma destroyCaches_ok:
  assumes "slab_inv ops pok held s" "undestroyed s {}" "distinct xs" "Cache_cache \<notin> set xs" "\<forall>x\<in>set xs. ijs_scCache s x \<noteq> None"
    "\<forall>d da. ijs_scCache s d = Some da \<longrightarrow> OFF_SLAB da \<longrightarrow> sc_pscSlab da = Some m \<and> d \<in> set (takeWhile (\<lambda>x. x \<noteq> m) xs)"
  shows "\<exists>s'. destroyCaches ops s xs = Some s' \<and> slab_inv ops pok held s' \<and> undestroyed s' {} \<and> objects s' \<subseteq> objects s \<and>
    (\<forall>d. ijs_scCache s' d \<noteq> None \<longleftrightarrow> ijs_scCache s d \<noteq> None \<and> d \<notin> set xs) \<and> ijs_gcGeneral s' = ijs_gcGeneral s \<and> unowned held s' = unowned held s"
  using assms
proof (induction xs arbitrary: s)
  case Nil
  then show ?case by simp
next
  case (Cons x xs)
  obtain a where a: "x = Cache a" using Cons.prems(4) by (cases x) auto
  obtain ca where ca: "ijs_scCache s (Cache a) = Some ca" using Cons.prems(5) a by auto
  have psc: "sc_pscSlab da \<noteq> Some (Cache a)" if "ijs_scCache s d = Some da" "OFF_SLAB da" for d da
    using Cons.prems(6) that a by (cases "x = m") auto
  obtain s1 t where s1: "jf_jiukun_destroyCache ops s (Cache a) = Some s1" "slab_inv ops pok held s1"
    "objects s1 = objects s - {Cache a} \<times> UNIV" "frame t s1" "\<forall>d. d \<noteq> Cache a \<longrightarrow> rel_option same_cache (ijs_scCache s d) (ijs_scCache t d)"
    "ijs_scCache t (Cache a) = None" "ijs_jlNext t = remove1 (Cache a) (ijs_jlNext s)" "ijs_gcGeneral t = ijs_gcGeneral s"
    "ijs_bInitialized t = ijs_bInitialized s" "ijs_u32OffSlabLimit t = ijs_u32OffSlabLimit s" "unowned held s1 = unowned held s"
    by (rule jf_jiukun_destroyCache_ok [OF Cons.prems(1) ca Cons.prems(2) psc]) assumption+
  have view: "\<exists>da. ijs_scCache s d = Some da \<and> same_layout da da' \<and> same_flags da da' \<and> d \<noteq> x" if d: "ijs_scCache s1 d = Some da'" for d da'
  proof -
    obtain dt where dt: "ijs_scCache t d = Some dt" "same_layout dt da'" "same_flags dt da'" by (rule frameD2 [OF s1(4) d])
    then have "d \<noteq> Cache a" using s1(6) by auto
    moreover from this obtain da where "ijs_scCache s d = Some da" "same_layout da dt" "same_flags da dt"
      using s1(5) dt(1) by (auto simp: option_rel_Some2 same_cache_def dest!: spec [of _ d])
    ultimately show ?thesis using dt(2,3) same_layout_trans same_flags_trans a by blast
  qed
  have dom: "ijs_scCache s1 d \<noteq> None \<longleftrightarrow> ijs_scCache s d \<noteq> None \<and> d \<noteq> x" for d
    using frame_None [OF s1(4), of d] s1(5,6) a by (cases "d = x") (auto dest!: spec [of _ d] simp: option.rel_sel)
  have "\<exists>s'. destroyCaches ops s1 xs = Some s' \<and> slab_inv ops pok held s' \<and> undestroyed s' {} \<and> objects s' \<subseteq> objects s1 \<and>
    (\<forall>d. ijs_scCache s' d \<noteq> None \<longleftrightarrow> ijs_scCache s1 d \<noteq> None \<and> d \<notin> set xs) \<and> ijs_gcGeneral s' = ijs_gcGeneral s1 \<and>
    unowned held s' = unowned held s1"
  proof (rule Cons.IH [OF s1(2)])
    show "undestroyed s1 {}" using view same_flagsD(2) Cons.prems(2) unfolding undestroyed_def by metis
    show "distinct xs" "Cache_cache \<notin> set xs" using Cons.prems(3,4) by simp_all
    show "\<forall>x\<in>set xs. ijs_scCache s1 x \<noteq> None" using dom Cons.prems(3,5) by auto
    show "\<forall>d da. ijs_scCache s1 d = Some da \<longrightarrow> OFF_SLAB da \<longrightarrow> sc_pscSlab da = Some m \<and> d \<in> set (takeWhile (\<lambda>x. x \<noteq> m) xs)"
    proof (intro allI impI)
      fix d da
      assume d: "ijs_scCache s1 d = Some da" "OFF_SLAB da"
      obtain da0 where da0: "ijs_scCache s d = Some da0" "same_layout da0 da" "d \<noteq> x" using view [OF d(1)] by blast
      then have "sc_pscSlab da0 = Some m \<and> d \<in> set (takeWhile (\<lambda>x. x \<noteq> m) (x # xs))"
        using Cons.prems(6) d(2) same_layoutD(6) [OF da0(2)] by blast
      then show "sc_pscSlab da = Some m \<and> d \<in> set (takeWhile (\<lambda>x. x \<noteq> m) xs)"
        using same_layoutD(5) [OF da0(2)] da0(3) by (auto split: if_splits)
    qed
  qed
  then show ?case using s1(1,3,4,8,11) a dom by (auto simp: frame_def)
qed

lemma generalCaches_upto:
  "(\<forall>x\<in>set (take (length cs) szs). x \<noteq> OLSIZE_MAX) \<Longrightarrow> length cs \<le> length szs \<Longrightarrow> rest \<noteq> [] \<Longrightarrow> snd (hd rest) = None \<Longrightarrow>
    generalCaches (zip szs (map Some cs) @ rest) = Some cs"
proof (induction cs arbitrary: szs)
  case Nil
  then show ?case by (cases rest) (auto split: option.split)
next
  case (Cons c cs)
  then show ?case by (cases szs) auto
qed

text \<open>Everything is taken back when only general caches are left.\<close>

lemma finiJiukunSlab_ok:
  assumes g: "slab_inv ops pok held s" "undestroyed s {}" and cs: "distinct cs" "Cache_cache \<notin> set cs"
    and dom: "\<forall>c. ijs_scCache s c \<noteq> None \<longleftrightarrow> c = Cache_cache \<or> c \<in> set cs" and gc: "generalCaches (ijs_gcGeneral s) = Some cs"
    and off: "\<forall>d da. ijs_scCache s d = Some da \<longrightarrow> OFF_SLAB da \<longrightarrow> sc_pscSlab da = Some m \<and> d \<in> set (takeWhile (\<lambda>x. x \<noteq> m) (rev cs))"
  obtains s' where "finiJiukunSlab ops s = Some s'" "ended ops pok held s'" "unowned held s' = unowned held s"
proof -
  obtain s1 where s1: "destroyCaches ops s (rev cs) = Some s1" "slab_inv ops pok held s1" "undestroyed s1 {}"
    "\<forall>d. ijs_scCache s1 d \<noteq> None \<longleftrightarrow> ijs_scCache s d \<noteq> None \<and> d \<notin> set (rev cs)" "unowned held s1 = unowned held s"
    "ijs_gcGeneral s1 = ijs_gcGeneral s"
    using destroyCaches_ok [OF g, of "rev cs" m] cs dom off by auto
  have dom1: "ijs_scCache s1 d \<noteq> None \<longleftrightarrow> d = Cache_cache" for d using s1(4) dom cs(2) by auto
  obtain cc where cc: "ijs_scCache s1 Cache_cache = Some cc" using dom1 by blast
  have int: "internal s1 \<inter> {Cache_cache} \<times> UNIV = {}"
  proof -
    have "ijs_scCache s1 (Cache x) = None" for x using dom1 [of "Cache x"] by simp
    moreover have "sc_pscSlab da \<noteq> Some Cache_cache" if "ijs_scCache s1 d = Some da" "OFF_SLAB da" for d da
      using slab_invD(3) [OF s1(2) that(1)] that(2) by (auto simp: mgmt_ok_def)
    ultimately show ?thesis unfolding internal_def by auto
  qed
  have "undestroyed s1 {Cache_cache}" using s1(3) by (simp add: undestroyed_def)
  then obtain s2 X ca2 where s2: "destroySlabCache ops s1 Cache_cache = Some s2" "shed ops pok held Cache_cache X s1 s2"
    "ijs_scCache s2 Cache_cache = Some ca2" "slabs_of ca2 = []"
    by (rule destroySlabCache_ok [OF s1(2) cc _ int])
  note sh = shedD [OF s2(2)]
  have empty: "slabs_of da = []" if "ijs_scCache s2 d = Some da" for d da
    using that s2(3,4) frame_None [OF sh(2), of d] dom1 [of d] by auto
  define s3 where "s3 = s2\<lparr>ijs_bInitialized := False, ijs_gcGeneral := map (\<lambda>(gsz, c). (gsz, None)) (ijs_gcGeneral s2)\<rparr>"
  have "finiJiukunSlab ops s = Some s3" using gc s1(1) s2(1) by (simp add: finiJiukunSlab_def s3_def)
  moreover have "slab_inv ops pok held s3" "unowned held s3 = unowned held s"
    using same_heap(1,5) [of s3 s2] sh(1,5) s1(5) by (simp_all add: s3_def)
  moreover have "owned s3 = {}" "live s3 = {}" using empty by (auto simp: owned_def live_def s3_def)
  moreover have "ijs_gcGeneral s2 \<noteq> []" using gc s1(6) sh(2) by (auto simp: frame_def)
  ultimately have "ended ops pok held s3" using endedI [of ops pok held s3 "ijs_gcGeneral s2"] by (simp add: s3_def)
  then show ?thesis using that \<open>finiJiukunSlab ops s = Some s3\<close> \<open>unowned held s3 = unowned held s\<close> by blast
qed

text \<open>A second end, as after a failed start, finds nothing to take back.\<close>

lemma fini_again:
  assumes e: "ended ops pok held s"
  obtains s' where "finiJiukunSlab ops s = Some s'" "ijs_buddy s' = ijs_buddy s" "ended ops pok held s'"
proof -
  have k: "slab_inv ops pok held s" "owned s = {}" "live s = {}" "\<not> ijs_bInitialized s" "generalCaches (ijs_gcGeneral s) = Some []"
    using e by (simp_all add: ended_def)
  obtain cc where cc: "ijs_scCache s Cache_cache = Some cc" using slab_invD(5) [OF k(1)] by blast
  have "slabs_of cc = []"
  proof (rule ccontr)
    assume "slabs_of cc \<noteq> []"
    then obtain p where p: "p \<in> set (slabs_of cc)" by (cases "slabs_of cc") auto
    then obtain sl where "ijs_slab s p = Some sl" using cache_okD(4) [OF slab_invD(2) [OF k(1) cc]] by blast
    then show False using ownedI [OF cc p] k(2) by auto
  qed
  then have "destroySlabCache ops s Cache_cache = Some s" using cc by (simp add: destroySlabCache_def slabs_of_def)
  then have fin: "finiJiukunSlab ops s = Some (s\<lparr>ijs_bInitialized := False, ijs_gcGeneral := map (\<lambda>(gsz, c). (gsz, None)) (ijs_gcGeneral s)\<rparr>)"
    (is "_ = Some ?s'") using k(5) by (simp add: finiJiukunSlab_def)
  note h = same_heap [of ?s' s]
  have "ended ops pok held ?s'"
    using h k by (intro endedI [of _ _ _ _ "ijs_gcGeneral s"]) (auto simp: owned_def live_def)
  then show ?thesis using fin that [of ?s'] by simp
qed

lemma slab_start_gen:
  assumes "pok b" "cache_shape (cache_cache csize num)"
    and s: "s = (slab_start b)\<lparr>ijs_scCache := [Cache_cache \<mapsto> cache_cache csize num], ijs_jlNext := []\<rparr>"
  shows "gen_upto ops pok held [] s"
proof -
  note fl = cache_cache_flags [of csize num]
  have only: "ijs_scCache s c = (if c = Cache_cache then Some (cache_cache csize num) else None)" for c by (simp add: s)
  have "slabs_of (cache_cache csize num) = []" "sc_jfPage (cache_cache csize num) = 0" by (simp_all add: slabs_of_def cache_cache_def)
  then have "live s = {}" "internal s = {}" "cache_ok ops held s Cache_cache (cache_cache csize num)" "mgmt_ok s (cache_cache csize num)"
    using assms(2) fl(1) by (auto simp: live_def internal_def cache_ok_def mgmt_ok_def only split: if_splits)
  moreover have "ijs_buddy s = b" by (simp add: s slab_start_def)
  ultimately have "slab_inv ops pok held s" "objects s = {}" using fl(1) assms(1) by (simp_all add: slab_inv_def objects_def only)
  moreover have "sc_u32Order (cache_cache csize num) = 0" by (simp add: cache_cache_def)
  ultimately show ?thesis
    using fl by (simp add: gen_upto_def undestroyed_def waits_def only s slab_start_def MAX_NUM_OF_GENERAL_CACHE_def)
qed

lemma fini_order:
  assumes "distinct cs" "2 \<le> j" "j < length cs"
  shows "cs ! j \<in> set (takeWhile (\<lambda>x. x \<noteq> cs ! 1) (rev cs))"
proof -
  obtain c0 c1 cs' where cs: "cs = c0 # c1 # cs'" using assms(2,3) by (cases cs; cases "tl cs") auto
  have "cs ! j \<in> set cs'" using assms(2,3) cs by (auto simp: nth_Cons split: nat.splits)
  moreover have "c1 \<notin> set cs'" using assms(1) cs by simp
  then have "takeWhile (\<lambda>x. x \<noteq> c1) (rev cs' @ c1 # [c0]) = rev cs'" by (subst takeWhile_append2) auto
  ultimately show ?thesis using cs by simp
qed

lemma gen_fini:
  assumes g: "gen_upto ops pok held cs s" and gc: "generalCaches (ijs_gcGeneral s) = Some cs"
  obtains s' where "finiJiukunSlab ops s = Some s'" "ended ops pok held s'" "unowned held s' = unowned held s"
proof -
  note k = gen_uptoD [OF g]
  have "sc_pscSlab da = Some (cs ! 1) \<and> d \<in> set (takeWhile (\<lambda>x. x \<noteq> cs ! 1) (rev cs))" if d: "ijs_scCache s d = Some da" "OFF_SLAB da" for d da
  proof -
    note o = gen_off [OF g d]
    obtain j where j: "j < length cs" "cs ! j = d" using o(3) by (auto simp: in_set_conv_nth)
    then have "sc_u32ObjSize da = ls_sCacheSize ! j" using k(12) [of j] d(1) by auto
    then have "4 \<le> j" using o(2) general_size(5) [of j] j(1) k(7) by simp
    then show ?thesis using o(1) fini_order [OF k(5), of j] j by simp
  qed
  then show ?thesis using finiJiukunSlab_ok [OF k(1,2,5,6) _ gc, of "cs ! 1"] k(10) that by blast
qed

text \<open>The end of a running module whose callers destroyed the caches they made.\<close>

lemma fini_sys:
  assumes s: "sys_inv ops pok held cs s" and only: "\<And>c. ijs_scCache s c \<noteq> None \<Longrightarrow> c = Cache_cache \<or> c \<in> set cs"
  obtains s' where "finiJiukunSlab ops s = Some s'" "ended ops pok held s'" "unowned held s' = unowned held s"
proof -
  note k = sys_invD [OF s] and g = general_okD [OF sys_invD(7) [OF s]]
  have dom: "ijs_scCache s c \<noteq> None \<longleftrightarrow> c = Cache_cache \<or> c \<in> set cs" for c
    using only [of c] slab_invD(5) [OF k(1)] g(1,5) by (auto simp: in_set_conv_nth)
  have off: "sc_pscSlab da = Some (cs ! 1) \<and> d \<in> set (takeWhile (\<lambda>x. x \<noteq> cs ! 1) (rev cs))" if d: "ijs_scCache s d = Some da" "OFF_SLAB da" for d da
  proof -
    have "d \<noteq> Cache_cache" using d slab_invD(5) [OF k(1)] by auto
    then obtain j where j: "j < 19" "cs ! j = d" using dom [of d] d(1) g(1) by (auto simp: in_set_conv_nth)
    then have "4 \<le> j" using g(5) [OF j(1)] d general_size(5) [OF j(1)] by auto
    then show ?thesis using g(7) [OF d] fini_order [OF g(2), of j] j g(1) by simp
  qed
  have "\<forall>x\<in>set (map int ls_sCacheSize). x \<noteq> OLSIZE_MAX" by (simp add: ls_sCacheSize_def OLSIZE_MAX_def)
  then have "\<forall>x\<in>set (take (length cs) (map int ls_sCacheSize)). x \<noteq> OLSIZE_MAX" by (meson in_set_takeD)
  then have "generalCaches (ijs_gcGeneral s) = Some cs" unfolding g(4) using g(1) by (intro generalCaches_upto) simp_all
  then show ?thesis using finiJiukunSlab_ok [OF k(1,3) g(2,3) _ _, of "cs ! 1"] dom off that by blast
qed

lemma gen_generalCaches:
  assumes g: "gen_upto ops pok held cs s"
  shows "generalCaches (ijs_gcGeneral s) = Some cs"
proof -
  note k = gen_uptoD [OF g]
  obtain rest where r: "ijs_gcGeneral s = zip (map int ls_sCacheSize) (map Some cs) @ rest" "length rest = 20 - length cs" "\<forall>x\<in>set rest. snd x = None"
    using k(11) by blast
  have "rest \<noteq> []" using r(2) k(7) by auto
  moreover have "\<forall>x\<in>set (map int ls_sCacheSize). x \<noteq> OLSIZE_MAX" by (simp add: ls_sCacheSize_def OLSIZE_MAX_def)
  then have "\<forall>x\<in>set (take (length cs) (map int ls_sCacheSize)). x \<noteq> OLSIZE_MAX"
    by (meson in_set_takeD)
  ultimately show ?thesis
    unfolding r(1) using r(3) k(7) by (intro generalCaches_upto) simp_all
qed

text \<open>The table of the general caches is closed behind the last of them.\<close>

lemma gen_close:
  assumes g: "gen_upto ops pok held cs s" and l: "length cs = 19"
    and s': "s' = s\<lparr>ijs_gcGeneral := (ijs_gcGeneral s)[19 := (OLSIZE_MAX, snd (ijs_gcGeneral s ! 19))]\<rparr>"
  shows "gen_upto ops pok held cs s'" "sys_inv ops pok held cs (s'\<lparr>ijs_bInitialized := True\<rparr>)"
proof -
  note k = gen_uptoD [OF g] and h = same_heap [of s' s]
  obtain rest where r: "ijs_gcGeneral s = zip (map int ls_sCacheSize) (map Some cs) @ rest" "length rest = 1" "\<forall>x\<in>set rest. snd x = None"
    using k(11) l by auto
  obtain x where x: "rest = [x]" "snd x = None" using r(2,3) by (cases rest) auto
  have gc: "ijs_gcGeneral s' = zip (map int ls_sCacheSize) (map Some cs) @ [(OLSIZE_MAX, None)]"
    using r(1) x l by (simp add: s' list_update_append nth_append)
  then have "\<exists>rest. ijs_gcGeneral s' = zip (map int ls_sCacheSize) (map Some cs) @ rest \<and> length rest = 20 - length cs \<and> (\<forall>x\<in>set rest. snd x = None)"
    using l by (intro exI [of _ "[(OLSIZE_MAX, None)]"]) simp
  moreover have same: "ijs_scCache s' = ijs_scCache s" "ijs_jlNext s' = ijs_jlNext s" "ijs_bInitialized s' = ijs_bInitialized s"
    "ijs_u32OffSlabLimit s' = ijs_u32OffSlabLimit s" by (simp_all add: s')
  ultimately show g': "gen_upto ops pok held cs s'" using k h unfolding gen_upto_def by (simp add: s')
  let ?t = "s'\<lparr>ijs_bInitialized := True\<rparr>"
  note k' = gen_uptoD [OF g'] and h' = same_heap [of ?t s'] and m = gen_mgmt [OF g']
  have "\<forall>i < length cs. \<exists>ca. ijs_scCache ?t (cs ! i) = Some ca \<and> sc_u32ObjSize ca = ls_sCacheSize ! i \<and> \<not> mayWait ca \<and>
      (OFF_SLAB ca \<or> 0 < sc_u32Order ca \<longrightarrow> 512 \<le> sc_u32ObjSize ca)" using k'(12) by fastforce
  moreover have "mgmt_cache ?t (cs ! 1)" using m l by (simp add: mgmt_cache_def)
  ultimately have "general_ok cs ?t" using k'(5,6) l gc gen_off(1) [OF g'] unfolding general_ok_def by simp
  moreover have "set (ijs_jlNext ?t) = {c. c \<noteq> Cache_cache \<and> ijs_scCache ?t c \<noteq> None}" using k'(6,8,10) by auto
  moreover have "\<exists>cc. ijs_scCache ?t Cache_cache = Some cc \<and> \<not> OFF_SLAB cc" using slab_invD(5) [OF k'(1)] by simp
  ultimately show "sys_inv ops pok held cs ?t"
    using k'(1-3,5,8) h' unfolding sys_inv_def caches_ok_def by simp
qed

end

text \<open>A page allocator that can give at least \<open>n\<close> single pages, as \<open>rich n\<close> says.\<close>

locale page_supply = page_provider +
  fixes rich :: "nat \<Rightarrow> 'b \<Rightarrow> bool"
  assumes rich_alloc: "pok b \<Longrightarrow> rich (Suc n) b \<Longrightarrow> \<exists>a b'. po_alloc ops b 0 = Some (JF_ERR_NO_ERROR, Some a, b') \<and> rich n b'"
    and rich_less: "rich (Suc n) b \<Longrightarrow> rich n b"
begin

lemma initGeneral_ok:
  assumes "gen_upto ops pok held cs s" "rich (19 - length cs + e) (ijs_buddy s)"
  shows "\<exists>r n s' cs'. initGeneral ops mtx s (length cs) (drop (length cs) ls_sCacheSize) = Some (r, n, s') \<and> gen_upto ops pok held cs' s' \<and>
    unowned held s' = unowned held s \<and> (r = JF_ERR_NO_ERROR \<longrightarrow> length cs' = 19 \<and> n = 19 \<and> rich e (ijs_buddy s')) \<and>
    ((\<forall>name. mtx name = JF_ERR_NO_ERROR) \<longrightarrow> r = JF_ERR_NO_ERROR)"
  using assms
proof (induction "19 - length cs" arbitrary: cs s)
  case 0
  then have "length cs = 19" using gen_uptoD(7) [OF 0(2)] by simp
  then show ?case using 0(2,3) by auto
next
  case (Suc k)
  let ?i = "length cs" and ?sz = "ls_sCacheSize ! length cs"
  have i: "?i < 19" using Suc(2) by simp
  note gs = general_size [OF i]
  have drop: "drop ?i ls_sCacheSize = ?sz # drop (Suc ?i) ls_sCacheSize" using i by (simp add: Cons_nth_drop_Suc)
  define s1 where "s1 = s\<lparr>ijs_gcGeneral := (ijs_gcGeneral s)[?i := (int ?sz, snd (ijs_gcGeneral s ! ?i))]\<rparr>"
  note g1 = gen_slot [OF Suc(3) refl i refl s1_def]
  note k1 = gen_uptoD [OF g1(1)]
  obtain cc where cc: "ijs_scCache s1 Cache_cache = Some cc" "sc_u32Order cc = 0" using k1(14) by blast
  have on: "\<not> OFF_SLAB cc" using slab_invD(5) [OF k1(1)] cc(1) by auto
  have un1: "unowned held s1 = unowned held s" using same_heap(5) [of s1 s] by (simp add: s1_def)
  have rich1: "rich (Suc (k + e)) (ijs_buddy s1)" using Suc(4) unfolding Suc(2) [symmetric] by (simp add: s1_def)
  obtain x b where b: "po_alloc ops (ijs_buddy s1) (sc_u32Order cc) = Some (JF_ERR_NO_ERROR, Some x, b)" "rich (k + e) b"
    using rich_alloc [OF slab_invD(1) [OF k1(1)] rich1] cc(2) by auto
  obtain a0 s0 where al: "allocObj slab_depth ops s1 Cache_cache = Some (JF_ERR_NO_ERROR, a0, s0)" "ijs_buddy s0 = ijs_buddy s1 \<or> ijs_buddy s0 = b"
    using allocObj_page [OF k1(1) cc(1) on b(1), of 2] by (auto simp: slab_depth_def numeral_3_eq_3)
  have rich0: "rich (k + e) (ijs_buddy s0)" using al(2) b(2) rich_less [OF rich1] by auto
  let ?name = "''size-'' @ printInt (int ?sz)"
  have "\<exists>r cid s'. createSlabCache ops mtx s1 ?name ?sz 0 = Some (r, cid, s') \<and> slab_inv ops pok held s' \<and> objects s' = objects s1 \<and>
    ijs_buddy s' = ijs_buddy s0 \<and> unowned held s' = unowned held s1 \<and>
    (case cid of
       None \<Rightarrow> r \<noteq> JF_ERR_NO_ERROR \<and> frame s1 s' \<and> (JF_ERR_NO_ERROR = JF_ERR_NO_ERROR \<longrightarrow> r = mtx ?name)
     | Some c \<Rightarrow> r = JF_ERR_NO_ERROR \<and> (\<exists>a l t. c = Cache a \<and> ijs_scCache s1 c = None \<and> frame s1 t \<and>
         layout_ok (ALIGN_CEIL ?sz SLAB_ALIGN_SIZE) 0 (cs ! 1) (descriptor ?name ?sz l) \<and>
         s' = t\<lparr>ijs_scCache := (ijs_scCache t)(c \<mapsto> descriptor ?name ?sz l), ijs_jlNext := c # ijs_jlNext t\<rparr>))"
    by (rule createSlabCache_ok [OF k1(1,2) al(1) gs(1,2)]) (use gs(3-5) gen_mgmt [OF g1(1)] in \<open>auto simp: JF_FLAG_GET_bit\<close>)
  then obtain r cid s2 where cr: "createSlabCache ops mtx s1 ?name ?sz 0 = Some (r, cid, s2)" "slab_inv ops pok held s2" "objects s2 = objects s1"
    and bud: "ijs_buddy s2 = ijs_buddy s0" "unowned held s2 = unowned held s1" and cid: "case cid of
       None \<Rightarrow> r \<noteq> JF_ERR_NO_ERROR \<and> frame s1 s2 \<and> (JF_ERR_NO_ERROR = JF_ERR_NO_ERROR \<longrightarrow> r = mtx ?name)
     | Some c \<Rightarrow> r = JF_ERR_NO_ERROR \<and> (\<exists>a l t. c = Cache a \<and> ijs_scCache s1 c = None \<and> frame s1 t \<and>
         layout_ok (ALIGN_CEIL ?sz SLAB_ALIGN_SIZE) 0 (cs ! 1) (descriptor ?name ?sz l) \<and>
         s2 = t\<lparr>ijs_scCache := (ijs_scCache t)(c \<mapsto> descriptor ?name ?sz l), ijs_jlNext := c # ijs_jlNext t\<rparr>)" by blast
  show ?case
  proof (cases cid)
    case None
    then have r: "r \<noteq> JF_ERR_NO_ERROR" "frame s1 s2" "r = mtx ?name" using cid by auto
    have "gen_upto ops pok held cs s2" by (rule gen_frame [OF r(2) g1(1) cr(2)]) (simp add: cr(3) k1(4))
    then show ?thesis using cr(1) None r(1,3) g1(2) i bud(2) un1 unfolding drop by (auto simp: Let_def s1_def [symmetric])
  next
    case (Some c)
    then obtain a l t where c: "c = Cache a" "ijs_scCache s1 c = None" "r = JF_ERR_NO_ERROR" and f: "frame s1 t"
      and l: "layout_ok (ALIGN_CEIL ?sz SLAB_ALIGN_SIZE) 0 (cs ! 1) (descriptor ?name ?sz l)"
      and s2: "s2 = t\<lparr>ijs_scCache := (ijs_scCache t)(c \<mapsto> descriptor ?name ?sz l), ijs_jlNext := c # ijs_jlNext t\<rparr>"
      using cid by auto
    let ?ca = "descriptor ?name ?sz l"
    define lim where "lim = (if OFF_SLAB ?ca then ijs_u32OffSlabLimit s2 else (?sz - sizeof_slab) div 2)"
    define s4 where "s4 = s2\<lparr>ijs_gcGeneral := (ijs_gcGeneral s2)[?i := (int ?sz, Some c)], ijs_u32OffSlabLimit := lim\<rparr>"
    have g4: "gen_upto ops pok held (cs @ [c]) s4"
      by (rule gen_next [OF g1(1) refl i refl c(1,2) f _ _ s2 cr(2) _ s4_def lim_def]) (use l gs(3) cr(3) k1(4) in simp_all)
    have "initGeneral ops mtx s ?i (drop ?i ls_sCacheSize) = initGeneral ops mtx s4 (length (cs @ [c])) (drop (length (cs @ [c])) ls_sCacheSize)"
      using cr(1) Some c(3) g1(2) i unfolding drop by (simp add: Let_def s1_def [symmetric]) (simp add: s2 s4_def lim_def)
    moreover have "unowned held s4 = unowned held s" using same_heap(5) [of s4 s2] bud(2) un1 by (simp add: s4_def)
    moreover have "19 - length (cs @ [c]) = k" using Suc(2) by simp
    moreover have "rich (k + e) (ijs_buddy s4)" using rich0 bud(1) by (simp add: s4_def)
    ultimately show ?thesis using Suc(1) [of "cs @ [c]", OF _ g4] by simp
  qed
qed

text \<open>The start with any outcome of the mutexes of the caches.\<close>

lemma initJiukunSlab_ok:
  assumes "pok b" "0 < csize" "csize + 40 \<le> 4096" "rich (19 + e) b"
  obtains r s' where "initJiukunSlab csize ops mtx JF_ERR_NO_ERROR (slab_start b) = Some (r, s')"
    "if r = JF_ERR_NO_ERROR then started ops pok held s' \<and> rich e (ijs_buddy s') else ended ops pok held s'" "unowned held s' = held b"
    "(\<forall>name. mtx name = JF_ERR_NO_ERROR) \<longrightarrow> r = JF_ERR_NO_ERROR"
proof -
  obtain lo num where e: "slabCacheEstimate 0 csize 0 = Some (lo, num)" "cache_shape (cache_cache csize num)" by (rule cache_cache_shape [OF assms(2,3)])
  define s0 where "s0 = (slab_start b)\<lparr>ijs_scCache := [Cache_cache \<mapsto> cache_cache csize num], ijs_jlNext := []\<rparr>"
  have g0: "gen_upto ops pok held [] s0" using slab_start_gen [OF assms(1) e(2)] s0_def by blast
  have "owned s0 = {}" by (auto simp: owned_def s0_def cache_cache_def slabs_of_def split: if_splits)
  then have un0: "unowned held s0 = held b" by (simp add: unowned_def s0_def slab_start_def)
  have rich0: "rich (19 + e) (ijs_buddy s0)" using assms(4) by (simp add: s0_def slab_start_def)
  obtain r n s1 cs where s1: "initGeneral ops mtx s0 0 ls_sCacheSize = Some (r, n, s1)" "gen_upto ops pok held cs s1"
    "r = JF_ERR_NO_ERROR \<longrightarrow> length cs = 19 \<and> n = 19 \<and> rich e (ijs_buddy s1)" "unowned held s1 = held b" "(\<forall>name. mtx name = JF_ERR_NO_ERROR) \<longrightarrow> r = JF_ERR_NO_ERROR"
    using initGeneral_ok [OF g0, of e mtx] rich0 unfolding un0 list.size drop_0 diff_zero by blast
  let ?s2 = "s1\<lparr>ijs_gcGeneral := (ijs_gcGeneral s1)[19 := (OLSIZE_MAX, snd (ijs_gcGeneral s1 ! 19))]\<rparr>"
  have not: "\<not> ijs_bInitialized (slab_start b)" by (simp add: slab_start_def)
  have start: "initSlabCache csize ops mtx (slab_start b) = (if r \<noteq> JF_ERR_NO_ERROR then Some (r, s1) else Some (mtx ''cache_cache'', ?s2))"
    using e(1) s1(1,3) by (simp add: initSlabCache_def Let_def cache_cache_def [symmetric] s0_def slab_start_def MAX_NUM_OF_GENERAL_CACHE_def)
  show ?thesis
  proof (cases "r = JF_ERR_NO_ERROR \<and> mtx ''cache_cache'' = JF_ERR_NO_ERROR")
    case True
    let ?s3 = "?s2\<lparr>ijs_bInitialized := True\<rparr>"
    note c = gen_close(2) [OF s1(2) _ refl] and h = same_heap [of ?s3 s1]
    have "initJiukunSlab csize ops mtx JF_ERR_NO_ERROR (slab_start b) = Some (JF_ERR_NO_ERROR, ?s3)"
      using True start not by (simp add: initJiukunSlab_def)
    moreover have "started ops pok held ?s3"
      unfolding started_def using c True s1(3) h(2) gen_uptoD(4,10,14) [OF s1(2)] by (intro exI [of _ cs]) simp
    moreover have "unowned held ?s3 = held b" "rich e (ijs_buddy ?s3)" using h(5) s1(3,4) True by simp_all
    ultimately show ?thesis using that [of JF_ERR_NO_ERROR ?s3] by simp
  next
    case False
    obtain r' s2 where s2: "initSlabCache csize ops mtx (slab_start b) = Some (r', s2)" "r' \<noteq> JF_ERR_NO_ERROR" "gen_upto ops pok held cs s2"
      "unowned held s2 = unowned held s1"
      using start False s1(2,3) gen_close(1) [OF s1(2) _ refl] same_heap(5) [of ?s2 s1] by (cases "r = JF_ERR_NO_ERROR") auto
    obtain s3 where s3: "finiJiukunSlab ops s2 = Some s3" "ended ops pok held s3" "unowned held s3 = unowned held s2" by (rule gen_fini [OF s2(3) gen_generalCaches [OF s2(3)]])
    moreover have "\<not> (\<forall>name. mtx name = JF_ERR_NO_ERROR)" using s1(5) False by blast
    ultimately show ?thesis using that [of r' s3] s2(1,2,4) s3 s1(4) not by (simp add: initJiukunSlab_def)
  qed
qed

text \<open>With a page at hand small memory is given.\<close>

lemma general_small:
  assumes "sz \<le> 256"
  obtains i where "general_index sz = Some i" "i < 19" "ls_sCacheSize ! i < 512"
proof -
  have "general_index sz \<noteq> None" using assms by (simp add: general_index_None)
  then obtain i where i: "general_index sz = Some i" by blast
  then have "\<forall>j<i. \<not> sz \<le> int (ls_sCacheSize ! j)" by (auto simp: general_index_def find_Some_iff)
  moreover have "sz \<le> int (ls_sCacheSize ! 3)" using assms by (simp add: ls_sCacheSize_def)
  ultimately have "i \<le> 3" by (meson not_less)
  then have "i \<in> {0, 1, 2, 3}" by auto
  then have "ls_sCacheSize ! i < 512" by (auto simp: ls_sCacheSize_def)
  then show ?thesis using that i general_index_Some(1) [OF i] by blast
qed

lemma allocMemory_supply:
  assumes s: "sys_inv ops pok held cs s" and sz: "sz \<le> 256" and rich: "rich (Suc n) (ijs_buddy s)"
  obtains a s' where "jf_jiukun_allocMemory ops s sz = Some (JF_ERR_NO_ERROR, a, s')" "rich n (ijs_buddy s')"
proof -
  note k = sys_invD [OF s]
  obtain i where i: "general_index sz = Some i" "i < 19" "ls_sCacheSize ! i < 512" by (rule general_small [OF sz])
  obtain ca where ca: "ijs_scCache s (cs ! i) = Some ca" "sc_u32ObjSize ca = ls_sCacheSize ! i" "OFF_SLAB ca \<or> 0 < sc_u32Order ca \<longrightarrow> 512 \<le> sc_u32ObjSize ca"
    using general_okD(5) [OF k(7) i(2)] by (elim exE conjE) simp
  then have on: "\<not> OFF_SLAB ca" "sc_u32Order ca = 0" using i(3) by auto
  obtain x b where b: "po_alloc ops (ijs_buddy s) (sc_u32Order ca) = Some (JF_ERR_NO_ERROR, Some x, b)" "rich n b"
    using rich_alloc [OF slab_invD(1) [OF k(1)] rich] on(2) by auto
  obtain a s' where al: "allocObj slab_depth ops s (cs ! i) = Some (JF_ERR_NO_ERROR, a, s')" "ijs_buddy s' = ijs_buddy s \<or> ijs_buddy s' = b"
    using allocObj_page [OF k(1) ca(1) on(1) b(1), of 2] by (auto simp: slab_depth_def numeral_3_eq_3)
  have "rich n (ijs_buddy s')" using al(2) b(2) rich_less [OF rich] by auto
  moreover have "jf_jiukun_allocMemory ops s sz = Some (JF_ERR_NO_ERROR, a, s')" using allocMemory_eq [OF s, of sz] i(1) al(1) by simp
  ultimately show ?thesis using that by blast
qed

end

end
