(* ===== verification/Jf_Buddy_Zone.thy ===== *)
theory Jf_Buddy_Zone
  imports Jf_Buddy
begin

text \<open>
  One zone of the page allocator. A zone is described by its blocks: the free ones, read off the
  free lists, and the allocated ones, read off the flag words. \<open>zone_inv\<close> says that these blocks are
  aligned and partition the pages, that the counters are right, and that no two free blocks are
  buddies of each other. Taking a block with \<^verbatim>\<open>_rmqueue\<close> and returning it with \<^verbatim>\<open>_freeOnePage\<close>
  keep it.
\<close>

section \<open>Flags of a page\<close>

lemma unat_of_nat_u64: "n < 256 \<Longrightarrow> unat (of_nat n :: u64) = n"
  by (simp add: unat_of_nat take_bit_nat_eq_self)

lemma flag_value_mask: "n < 256 \<Longrightarrow> (of_nat n :: u64) AND mask 8 = of_nat n"
  by (rule word_and_mask_small) (simp add: unat_of_nat_u64)

lemmas flag_defs = setJpAllocated_def clearJpAllocated_def isJpAllocated_def setJpOrder_def getJpOrder_def
  setJpZoneId_def getJpZoneId_def JP_FLAG_ALLOCATED_def JF_FLAG_SET_VALUE_def JF_FLAG_GET_VALUE_def
  JF_FLAG_SET_def JF_FLAG_GET_def JF_FLAG_CLEAR_def

lemma getJpOrder_set [simp]: "k < 256 \<Longrightarrow> getJpOrder (setJpOrder f k) = k"
  and getJpZoneId_set [simp]: "k < 256 \<Longrightarrow> getJpZoneId (setJpZoneId f k) = k"
  by (simp_all add: flag_defs JF_BITOP_GET_SET_same flag_value_mask unat_of_nat_u64)

lemma flag_other [simp]:
  "getJpOrder (setJpAllocated f) = getJpOrder f" "getJpOrder (clearJpAllocated f) = getJpOrder f"
  "getJpOrder (setJpZoneId f k) = getJpOrder f"
  "getJpZoneId (setJpAllocated f) = getJpZoneId f" "getJpZoneId (clearJpAllocated f) = getJpZoneId f"
  "getJpZoneId (setJpOrder f k) = getJpZoneId f"
  "isJpAllocated (setJpOrder f k) = isJpAllocated f" "isJpAllocated (setJpZoneId f k) = isJpAllocated f"
  by (simp_all add: flag_defs JF_BITOP_GET_SET_other JF_BITOP_GET_CLEAR_other)

lemma isJpAllocated_set [simp]: "isJpAllocated (setJpAllocated f)" "\<not> isJpAllocated (clearJpAllocated f)"
  using flag.test_set1 [of 0 0 f] flag.test_clear1 [of 0 0 f]
  by (simp_all add: isJpAllocated_def setJpAllocated_def clearJpAllocated_def JP_FLAG_ALLOCATED_def)

lemma flag_zero [simp]: "getJpOrder 0 = 0" "\<not> isJpAllocated 0"
  by (simp_all add: flag_defs JF_BITOP_GET_def)

section \<open>Zone updates\<close>

definition freelist :: "buddy_zone \<Rightarrow> nat \<Rightarrow> nat list" where
  "freelist z k = fa_jlFree (bz_faFreeArea z ! k)"

definition freecount :: "buddy_zone \<Rightarrow> nat \<Rightarrow> u32" where
  "freecount z k = fa_u32Free (bz_faFreeArea z ! k)"

definition pflag :: "buddy_zone \<Rightarrow> nat \<Rightarrow> u64" where
  "pflag z i = bz_papPage z ! i"

definition areas :: "buddy_zone \<Rightarrow> nat" where
  "areas z = length (bz_faFreeArea z)"

definition pages :: "buddy_zone \<Rightarrow> nat" where
  "pages z = length (bz_papPage z)"

lemmas zone_view_defs = freelist_def freecount_def pflag_def areas_def pages_def
lemmas zone_upd_defs = updArea_def updPage_def listAddPage_def listDelPage_def setPageOrder_def
  clearPageOrder_def

lemma zone_upd_fixed [simp]:
  "bz_u32MaxOrder (updArea k f z) = bz_u32MaxOrder z" "bz_u32MaxOrder (updPage i g z) = bz_u32MaxOrder z"
  "bz_u32MaxOrder (listAddPage k i z) = bz_u32MaxOrder z" "bz_u32MaxOrder (listDelPage i z) = bz_u32MaxOrder z"
  "bz_u32MaxOrder (setPageOrder i k z) = bz_u32MaxOrder z" "bz_u32MaxOrder (clearPageOrder i z) = bz_u32MaxOrder z"
  "bz_u32NumOfPage (updArea k f z) = bz_u32NumOfPage z" "bz_u32NumOfPage (updPage i g z) = bz_u32NumOfPage z"
  "bz_u32NumOfPage (listAddPage k i z) = bz_u32NumOfPage z" "bz_u32NumOfPage (listDelPage i z) = bz_u32NumOfPage z"
  "bz_u32NumOfPage (setPageOrder i k z) = bz_u32NumOfPage z" "bz_u32NumOfPage (clearPageOrder i z) = bz_u32NumOfPage z"
  "bz_u32FreePages (updArea k f z) = bz_u32FreePages z" "bz_u32FreePages (updPage i g z) = bz_u32FreePages z"
  "bz_u32FreePages (listAddPage k i z) = bz_u32FreePages z" "bz_u32FreePages (listDelPage i z) = bz_u32FreePages z"
  "bz_u32FreePages (setPageOrder i k z) = bz_u32FreePages z" "bz_u32FreePages (clearPageOrder i z) = bz_u32FreePages z"
  "bz_pu8Pool (updArea k f z) = bz_pu8Pool z" "bz_pu8Pool (updPage i g z) = bz_pu8Pool z"
  "bz_pu8Pool (listAddPage k i z) = bz_pu8Pool z" "bz_pu8Pool (listDelPage i z) = bz_pu8Pool z"
  "bz_pu8Pool (setPageOrder i k z) = bz_pu8Pool z" "bz_pu8Pool (clearPageOrder i z) = bz_pu8Pool z"
  "bz_pu8PoolEnd (updArea k f z) = bz_pu8PoolEnd z" "bz_pu8PoolEnd (updPage i g z) = bz_pu8PoolEnd z"
  "bz_pu8PoolEnd (listAddPage k i z) = bz_pu8PoolEnd z" "bz_pu8PoolEnd (listDelPage i z) = bz_pu8PoolEnd z"
  "bz_pu8PoolEnd (setPageOrder i k z) = bz_pu8PoolEnd z" "bz_pu8PoolEnd (clearPageOrder i z) = bz_pu8PoolEnd z"
  "areas (updArea k f z) = areas z" "areas (updPage i g z) = areas z" "areas (listAddPage k i z) = areas z"
  "areas (listDelPage i z) = areas z" "areas (setPageOrder i k z) = areas z" "areas (clearPageOrder i z) = areas z"
  "pages (updArea k f z) = pages z" "pages (updPage i g z) = pages z" "pages (listAddPage k i z) = pages z"
  "pages (listDelPage i z) = pages z" "pages (setPageOrder i k z) = pages z" "pages (clearPageOrder i z) = pages z"
  "pflag (updArea k f z) = pflag z" "pflag (listAddPage k i z) = pflag z" "pflag (listDelPage i z) = pflag z"
  "freelist (updPage i g z) = freelist z" "freelist (setPageOrder i k z) = freelist z"
  "freelist (clearPageOrder i z) = freelist z"
  "freecount (updPage i g z) = freecount z" "freecount (setPageOrder i k z) = freecount z"
  "freecount (clearPageOrder i z) = freecount z"
  by (auto simp: zone_upd_defs zone_view_defs fun_eq_iff)

lemma zone_FreePages_upd [simp]:
  "freelist (z\<lparr>bz_u32FreePages := n\<rparr>) = freelist z" "freecount (z\<lparr>bz_u32FreePages := n\<rparr>) = freecount z"
  "pflag (z\<lparr>bz_u32FreePages := n\<rparr>) = pflag z" "areas (z\<lparr>bz_u32FreePages := n\<rparr>) = areas z"
  "pages (z\<lparr>bz_u32FreePages := n\<rparr>) = pages z"
  by (auto simp: zone_view_defs fun_eq_iff)

lemma pflag_updPage [simp]:
  "i < pages z \<Longrightarrow> pflag (updPage i g z) j = (if j = i then g (pflag z i) else pflag z j)"
  "i < pages z \<Longrightarrow> pflag (setPageOrder i k z) j = (if j = i then setJpOrder (pflag z i) k else pflag z j)"
  "i < pages z \<Longrightarrow> pflag (clearPageOrder i z) j = (if j = i then setJpOrder (pflag z i) 0 else pflag z j)"
  by (auto simp: zone_upd_defs zone_view_defs nth_list_update)

lemma freelist_upd [simp]:
  "k < areas z \<Longrightarrow> freelist (listAddPage k i z) j = (if j = k then i # freelist z k else freelist z j)"
  "j < areas z \<Longrightarrow> freelist (listDelPage i z) j = remove1 i (freelist z j)"
  "k < areas z \<Longrightarrow> freelist (updArea k (\<lambda>a. a\<lparr>fa_u32Free := n a\<rparr>) z) j = freelist z j"
  by (auto simp: zone_upd_defs zone_view_defs nth_list_update)

lemma freecount_upd [simp]:
  "k < areas z \<Longrightarrow> freecount (listAddPage k i z) j = freecount z j"
  "j < areas z \<Longrightarrow> freecount (listDelPage i z) j = freecount z j"
  "k < areas z \<Longrightarrow> freecount (updArea k (\<lambda>a. a\<lparr>fa_u32Free := fa_u32Free a + n\<rparr>) z) j =
     (if j = k then freecount z k + n else freecount z j)"
  "k < areas z \<Longrightarrow> freecount (updArea k (\<lambda>a. a\<lparr>fa_u32Free := fa_u32Free a - n\<rparr>) z) j =
     (if j = k then freecount z k - n else freecount z j)"
  by (auto simp: zone_upd_defs zone_view_defs nth_list_update)

section \<open>Blocks and buddies\<close>

definition block :: "nat \<times> nat \<Rightarrow> nat set" where
  "block b = {fst b ..< fst b + 2 ^ snd b}"

text \<open>\<open>tiling B M\<close>: the blocks of \<open>B\<close> are aligned and partition the \<open>2 ^ (M - 1)\<close> pages of a zone.\<close>

definition aligned :: "(nat \<times> nat) set \<Rightarrow> nat \<Rightarrow> bool" where
  "aligned B M \<longleftrightarrow> (\<forall>(i, k)\<in>B. k < M \<and> 2 ^ k dvd i \<and> i + 2 ^ k \<le> 2 ^ (M - 1))"

definition apart :: "(nat \<times> nat) set \<Rightarrow> bool" where
  "apart B \<longleftrightarrow> pairwise (\<lambda>b c. block b \<inter> block c = {}) B"

definition tiling :: "(nat \<times> nat) set \<Rightarrow> nat \<Rightarrow> bool" where
  "tiling B M \<longleftrightarrow> aligned B M \<and> apart B \<and> (\<Union>b\<in>B. block b) = {0..<2 ^ (M - 1)}"

lemma getBuddyIndex_mult: "getBuddyIndex (q * 2 ^ k) k = (if even q then (q + 1) * 2 ^ k else (q - 1) * 2 ^ k)"
proof -
  have "getBuddyIndex (q * 2 ^ k) k = push_bit k (q XOR 1)"
    by (simp only: getBuddyIndex_def push_bit_xor push_bit_eq_mult [of k q])
  also have "q XOR 1 = (if even q then q + 1 else q - 1)"
    by (subst xor_rec) (auto simp: odd_two_times_div_two_nat)
  finally show ?thesis by (simp add: push_bit_eq_mult)
qed

lemma getBuddyIndex_cases:
  assumes "2 ^ k dvd i"
  obtains "2 ^ Suc k dvd i" "getBuddyIndex i k = i + 2 ^ k"
    | "2 ^ k \<le> i" "2 ^ Suc k dvd i - 2 ^ k" "\<not> 2 ^ Suc k dvd i" "getBuddyIndex i k = i - 2 ^ k"
proof -
  from assms obtain q where q: "i = q * 2 ^ k" by (metis dvd_def mult.commute)
  show thesis
  proof (cases "even q")
    case True
    then show thesis using q that(1) getBuddyIndex_mult [of q k] by (auto simp: algebra_simps elim!: evenE)
  next
    case False
    then obtain r where r: "q = 2 * r + 1" by (rule oddE)
    then have "i = 2 ^ Suc k * r + 2 ^ k" using q by (simp add: algebra_simps)
    then show thesis using that(2) getBuddyIndex_mult [of q k] q r
      by (auto simp: algebra_simps dvd_add_right_iff)
  qed
qed

lemma block_simps [simp]: "p \<in> block (i, k) \<longleftrightarrow> i \<le> p \<and> p < i + 2 ^ k"
  by (simp add: block_def)

lemma block_nonempty: "fst b \<in> block b"
  by (simp add: block_def)

lemma tilingD:
  assumes "tiling B M" and "(i, k) \<in> B"
  shows "k < M" "2 ^ k dvd i" "i + 2 ^ k \<le> 2 ^ (M - 1)"
  using assms by (auto simp: tiling_def aligned_def)

lemma tiling_disjoint:
  assumes "tiling B M" and "b \<in> B" and "c \<in> B" and "p \<in> block b" and "p \<in> block c"
  shows "b = c"
  using assms unfolding tiling_def apart_def pairwise_def by (metis IntI empty_iff)

lemma tiling_cover:
  assumes "tiling B M" and "p < 2 ^ (M - 1)"
  shows "\<exists>i k. (i, k) \<in> B \<and> p \<in> block (i, k)"
proof -
  have "p \<in> (\<Union>b\<in>B. block b)" using assms by (simp add: tiling_def)
  then show ?thesis by (metis UN_E surj_pair)
qed

lemma aligned_same_head:
  assumes "(2 :: nat) ^ j dvd c" and "2 ^ j dvd b" and "c \<le> b" and "b < c + 2 ^ j"
  shows "c = b"
proof -
  from assms(1,2) obtain m n where mn: "c = 2 ^ j * m" "b = 2 ^ j * n" by (auto elim!: dvdE)
  have "m \<le> n" using assms(3) mn by simp
  moreover have "2 ^ j * n < 2 ^ j * (m + 1)" using assms(4) mn by (simp add: algebra_simps)
  then have "n < m + 1" by (simp only: mult_less_cancel1)
  ultimately show ?thesis using mn by simp
qed

text \<open>An aligned block of a higher order that contains one of two buddies contains both.\<close>

lemma aligned_contains_pair:
  assumes j: "k < j" and c: "(2 :: nat) ^ j dvd c" and m: "2 ^ Suc k dvd m"
    and p: "p = m \<or> p = m + 2 ^ k" "c \<le> p" "p < c + 2 ^ j"
  shows "c \<le> m" "m + 2 ^ k < c + 2 ^ j"
proof -
  have sj: "(2 :: nat) ^ Suc k dvd 2 ^ j" using j by (intro le_imp_power_dvd) simp
  then obtain x where x: "(2 :: nat) ^ j = 2 ^ Suc k * x" by (rule dvdE)
  obtain y where y: "c = 2 ^ Suc k * y" using sj c by (meson dvdE dvd_trans)
  obtain z where z: "m = 2 ^ Suc k * z" using m by (rule dvdE)
  have xyz: "(2 :: nat) ^ j = 2 * (2 ^ k * x)" "c = 2 * (2 ^ k * y)" "m = 2 * (2 ^ k * z)"
    using x y z by (simp_all add: mult.assoc)
  have pos: "(0 :: nat) < 2 ^ k" by simp
  have "2 * (2 ^ k * y) \<le> 2 * (2 ^ k * z) + 2 ^ k" using p xyz pos by linarith
  then have "2 ^ k * (2 * y) \<le> 2 ^ k * (2 * z + 1)" by (simp add: distrib_left mult.left_commute)
  then have yz: "2 * y \<le> 2 * z + 1" by (simp only: mult_le_cancel1 pos)
  have "2 * (2 ^ k * z) < 2 * (2 ^ k * y) + 2 * (2 ^ k * x)" using p xyz pos by linarith
  then have "2 ^ k * (2 * z) < 2 ^ k * (2 * y + 2 * x)" by (simp add: distrib_left mult.left_commute)
  then have "2 * z < 2 * y + 2 * x" by (simp only: mult_less_cancel1)
  then have "z + 1 \<le> y + x" by simp
  then have "2 ^ k * (2 * z + 2) \<le> 2 ^ k * (2 * y + 2 * x)" by (intro mult_le_mono2) simp
  then have "2 * (2 ^ k * z) + 2 * 2 ^ k \<le> 2 * (2 ^ k * y) + 2 * (2 ^ k * x)"
    by (simp add: distrib_left mult.left_commute mult.commute)
  then show "m + 2 ^ k < c + 2 ^ j" using xyz pos by linarith
  have "2 ^ k * y \<le> 2 ^ k * z" using yz by simp
  then show "c \<le> m" using xyz by linarith
qed

lemma pow_less_pow: "2 ^ k dvd i \<Longrightarrow> 2 ^ k dvd N \<Longrightarrow> i < N \<Longrightarrow> i + 2 ^ k \<le> (N :: nat)"
proof -
  assume "2 ^ k dvd i" "2 ^ k dvd N" "i < N"
  then obtain m n where mn: "i = 2 ^ k * m" "N = 2 ^ k * n" "m < n" by (auto elim!: dvdE)
  then have "2 ^ k * (m + 1) \<le> 2 ^ k * n" by (intro mult_le_mono2) simp
  then show ?thesis using mn by (simp add: algebra_simps)
qed

text \<open>
  The lemma behind coalescing: the buddy of a block of a tiling, below the top order, is the head of
  a block of at most the same order.
\<close>

lemma buddy_pair:
  assumes "2 ^ k dvd i"
  obtains m where "2 ^ Suc k dvd m" "i = m" "getBuddyIndex i k = m + 2 ^ k"
    | m where "2 ^ Suc k dvd m" "i = m + 2 ^ k" "getBuddyIndex i k = m"
  using assms
proof (rule getBuddyIndex_cases)
  assume "2 ^ k \<le> i" "2 ^ Suc k dvd i - 2 ^ k" "getBuddyIndex i k = i - 2 ^ k"
  then show thesis by (intro that(2) [of "i - 2 ^ k"]) simp_all
qed (use that(1) in blast)

lemma dvd_half: "2 ^ Suc k dvd (m :: nat) \<Longrightarrow> 2 ^ k dvd m"
  by (meson dvd_trans le_imp_power_dvd lessI less_imp_le)

lemma buddy_block:
  assumes B: "tiling B M" and ik: "(i, k) \<in> B" and k: "Suc k < M"
  shows "\<exists>j \<le> k. (getBuddyIndex i k, j) \<in> B"
proof -
  let ?b = "getBuddyIndex i k" and ?N = "2 ^ (M - 1) :: nat"
  note ikD = tilingD [OF B ik]
  obtain m where m: "2 ^ Suc k dvd m" "i = m \<and> ?b = m + 2 ^ k \<or> i = m + 2 ^ k \<and> ?b = m"
    using buddy_pair [OF ikD(2)] by metis
  then have bk: "2 ^ k dvd ?b" using dvd_half [OF m(1)] by auto
  have "i < ?N" using ikD(3) by (rule less_le_trans [rotated]) simp
  then have "m < ?N" using m(2) by auto
  moreover have "(2 :: nat) ^ Suc k dvd ?N" using k by (intro le_imp_power_dvd) simp
  ultimately have "m + 2 ^ Suc k \<le> ?N" using m(1) pow_less_pow by blast
  moreover have "(0 :: nat) < 2 ^ k" by simp
  ultimately have "m + 2 ^ k < ?N" by (simp only: power_Suc)
  then have "?b < ?N" using m(2) by auto
  then obtain c j where cj: "(c, j) \<in> B" "c \<le> ?b" "?b < c + 2 ^ j" using tiling_cover [OF B] by fastforce
  note cjD = tilingD [OF B cj(1)]
  have "j \<le> k"
  proof (rule ccontr)
    assume j: "\<not> j \<le> k"
    have "c \<le> m" "m + 2 ^ k < c + 2 ^ j"
      using aligned_contains_pair [OF _ cjD(2) m(1) _ cj(2,3)] j m(2) by auto
    then have "i \<in> block (c, j)" using m(2) by auto
    then have "(c, j) = (i, k)" using tiling_disjoint [OF B cj(1) ik, of i] by simp
    with j show False by simp
  qed
  moreover have "2 ^ j dvd ?b" using bk \<open>j \<le> k\<close> by (meson dvd_trans le_imp_power_dvd)
  then have "c = ?b" using cjD(2) cj(2,3) by (intro aligned_same_head)
  ultimately show ?thesis using cj(1) by blast
qed

lemma block_halves:
  "block (m, Suc k) = block (m, k) \<union> block (m + 2 ^ k, k)" "block (m, k) \<inter> block (m + 2 ^ k, k) = {}"
  by (auto simp: block_def)

lemma apart_insert:
  "b \<notin> C \<Longrightarrow> apart (insert b C) \<longleftrightarrow> apart C \<and> (\<forall>c\<in>C. block b \<inter> block c = {})"
  unfolding apart_def pairwise_insert by (metis Int_commute)

lemma tiling_split:
  assumes B: "tiling (insert (i, Suc k) C) M" and C: "(i, Suc k) \<notin> C" "(i, k) \<notin> C" "(i + 2 ^ k, k) \<notin> C"
  shows "tiling (insert (i, k) (insert (i + 2 ^ k, k) C)) M"
  unfolding tiling_def
proof (intro conjI)
  have al: "2 ^ k dvd i" using tilingD(2) [OF B, of i "Suc k"] dvd_half by blast
  have bd: "Suc k < M" "i + 2 ^ k + 2 ^ k \<le> 2 ^ (M - 1)" using tilingD [OF B, of i "Suc k"] by simp_all
  show "aligned (insert (i, k) (insert (i + 2 ^ k, k) C)) M"
    using B al bd by (auto simp: tiling_def aligned_def)
  have "apart C \<and> (\<forall>c\<in>C. block (i, Suc k) \<inter> block c = {})"
    using B C(1) by (simp add: tiling_def apart_insert)
  then show "apart (insert (i, k) (insert (i + 2 ^ k, k) C))"
    using C block_halves(2) [of i k] by (simp add: apart_insert block_halves(1) Int_Un_distrib2)
  show "(\<Union>b\<in>insert (i, k) (insert (i + 2 ^ k, k) C). block b) = {0..<2 ^ (M - 1)}"
    using B block_halves(1) [of i k] by (simp add: tiling_def Un_assoc)
qed

lemma tiling_merge:
  assumes B: "tiling (insert (m, k) (insert (m + 2 ^ k, k) C)) M" and m: "2 ^ Suc k dvd m" "Suc k < M"
    and C: "(m, k) \<notin> C" "(m + 2 ^ k, k) \<notin> C" "(m, Suc k) \<notin> C"
  shows "tiling (insert (m, Suc k) C) M"
  unfolding tiling_def
proof (intro conjI)
  have "m + 2 ^ k + 2 ^ k \<le> 2 ^ (M - 1)" using tilingD [OF B, of "m + 2 ^ k" k] by simp
  then show "aligned (insert (m, Suc k) C) M"
    using B m by (auto simp: tiling_def aligned_def)
  have "apart C \<and> (\<forall>c\<in>C. block (m, k) \<inter> block c = {}) \<and> (\<forall>c\<in>C. block (m + 2 ^ k, k) \<inter> block c = {})"
    using B C by (simp add: tiling_def apart_insert)
  then show "apart (insert (m, Suc k) C)"
    using C by (simp add: apart_insert block_halves(1) Int_Un_distrib2)
  show "(\<Union>b\<in>insert (m, Suc k) C. block b) = {0..<2 ^ (M - 1)}"
    using B block_halves(1) [of m k] by (simp add: tiling_def Un_assoc)
qed

lemma tiling_single: "0 < M \<Longrightarrow> tiling {(0, M - 1)} M"
  by (auto simp: tiling_def aligned_def apart_def block_def)

section \<open>The invariant of a zone\<close>

definition free_blocks :: "buddy_zone \<Rightarrow> (nat \<times> nat) set" where
  "free_blocks z = {(i, k). k < areas z \<and> i \<in> set (freelist z k)}"

definition allocated :: "buddy_zone \<Rightarrow> (nat \<times> nat) set" where
  "allocated z = {(i, k). i < pages z \<and> isJpAllocated (pflag z i) \<and> k = getJpOrder (pflag z i)}"

definition free_total :: "buddy_zone \<Rightarrow> nat" where
  "free_total z = (\<Sum>k<areas z. 2 ^ k * length (freelist z k))"

text \<open>
  \<open>zone_shape\<close>: the sizes that never change. \<open>zone_ok z A\<close>: the free blocks together with the
  blocks of \<open>A\<close>, which are in use, tile the zone; the heads of the free blocks carry their order and
  are not marked as allocated; the counters of the free lists are right; and no two buddies are both
  free.
\<close>

definition zone_shape :: "buddy_zone \<Rightarrow> bool" where
  "zone_shape z \<longleftrightarrow> 0 < bz_u32MaxOrder z \<and> bz_u32MaxOrder z \<le> areas z \<and>
     areas z = JF_JIUKUN_MAX_PAGE_ORDER + 1 \<and> pages z = 2 ^ (bz_u32MaxOrder z - 1)"

definition zone_ok :: "buddy_zone \<Rightarrow> (nat \<times> nat) set \<Rightarrow> bool" where
  "zone_ok z A \<longleftrightarrow> zone_shape z \<and>
     tiling (free_blocks z \<union> A) (bz_u32MaxOrder z) \<and> free_blocks z \<inter> A = {} \<and>
     (\<forall>k < areas z. distinct (freelist z k) \<and> freecount z k = of_nat (length (freelist z k))) \<and>
     (\<forall>(i, k)\<in>free_blocks z. getJpOrder (pflag z i) = k \<and> \<not> isJpAllocated (pflag z i)) \<and>
     (\<forall>(i, k)\<in>free_blocks z. Suc k < bz_u32MaxOrder z \<longrightarrow> (getBuddyIndex i k, k) \<notin> free_blocks z)"

definition zone_inv :: "buddy_zone \<Rightarrow> bool" where
  "zone_inv z \<longleftrightarrow> zone_ok z (allocated z) \<and> bz_u32FreePages z = of_nat (free_total z)"

lemma mem_free_blocks: "(i, k) \<in> free_blocks z \<longleftrightarrow> k < areas z \<and> i \<in> set (freelist z k)"
  by (simp add: free_blocks_def)

lemma zone_okD:
  assumes "zone_ok z A"
  shows "zone_shape z" "tiling (free_blocks z \<union> A) (bz_u32MaxOrder z)" "free_blocks z \<inter> A = {}"
    "k < areas z \<Longrightarrow> distinct (freelist z k)"
    "k < areas z \<Longrightarrow> freecount z k = of_nat (length (freelist z k))"
    "(i, k) \<in> free_blocks z \<Longrightarrow> getJpOrder (pflag z i) = k"
    "(i, k) \<in> free_blocks z \<Longrightarrow> \<not> isJpAllocated (pflag z i)"
    "(i, k) \<in> free_blocks z \<Longrightarrow> Suc k < bz_u32MaxOrder z \<Longrightarrow> (getBuddyIndex i k, k) \<notin> free_blocks z"
  using assms by (auto simp: zone_ok_def)

lemma zone_shapeD:
  assumes "zone_shape z"
  shows "0 < bz_u32MaxOrder z" "k < bz_u32MaxOrder z \<Longrightarrow> k < areas z" "k < areas z \<Longrightarrow> k < 256"
    "pages z = 2 ^ (bz_u32MaxOrder z - 1)" "areas z = 15"
  using assms by (auto simp: zone_shape_def JF_JIUKUN_MAX_PAGE_ORDER_def)

lemma zone_ok_page:
  assumes "zone_ok z A" and "(i, k) \<in> free_blocks z \<union> A"
  shows "k < bz_u32MaxOrder z" "k < areas z" "2 ^ k dvd i" "i + 2 ^ k \<le> pages z" "i < pages z"
proof -
  note D = tilingD [OF zone_okD(2) [OF assms(1)] assms(2)] and S = zone_shapeD [OF zone_okD(1) [OF assms(1)]]
  show "k < bz_u32MaxOrder z" "k < areas z" "2 ^ k dvd i" "i + 2 ^ k \<le> pages z" using D S by auto
  then show "i < pages z" using zero_less_power [of "2 :: nat" k] by linarith
qed

text \<open>Two blocks of a zone with a common page are the same block.\<close>

lemma zone_ok_same_block:
  assumes "zone_ok z A" and "(i, k) \<in> free_blocks z \<union> A" and "(j, l) \<in> free_blocks z \<union> A"
    and "q \<in> block (i, k)" and "q \<in> block (j, l)"
  shows "i = j \<and> k = l"
  using tiling_disjoint [OF zone_okD(2) [OF assms(1)] assms(2,3,4,5)] by simp

lemma zone_ok_same_head:
  "zone_ok z A \<Longrightarrow> (i, k) \<in> free_blocks z \<union> A \<Longrightarrow> (i, l) \<in> free_blocks z \<union> A \<Longrightarrow> k = l"
  using zone_ok_same_block [of z A i k i l i] by simp

text \<open>How the updates of the code look through the views: adding a block to its free list, and
  taking one out of it.\<close>

definition same_frame :: "buddy_zone \<Rightarrow> buddy_zone \<Rightarrow> bool" where
  "same_frame z z' \<longleftrightarrow> bz_u32MaxOrder z' = bz_u32MaxOrder z \<and> areas z' = areas z \<and> pages z' = pages z \<and>
     bz_u32NumOfPage z' = bz_u32NumOfPage z \<and> bz_pu8Pool z' = bz_pu8Pool z \<and> bz_pu8PoolEnd z' = bz_pu8PoolEnd z"

definition block_added :: "nat \<Rightarrow> nat \<Rightarrow> buddy_zone \<Rightarrow> buddy_zone \<Rightarrow> bool" where
  "block_added i k z z' \<longleftrightarrow> same_frame z z' \<and>
     (\<forall>j < areas z. freelist z' j = (if j = k then i # freelist z k else freelist z j) \<and>
                   freecount z' j = (if j = k then freecount z k + 1 else freecount z j)) \<and>
     (\<forall>j. pflag z' j = (if j = i then setJpOrder (pflag z i) k else pflag z j))"

definition block_removed :: "nat \<Rightarrow> nat \<Rightarrow> buddy_zone \<Rightarrow> buddy_zone \<Rightarrow> bool" where
  "block_removed i k z z' \<longleftrightarrow> same_frame z z' \<and>
     (\<forall>j < areas z. freelist z' j = remove1 i (freelist z j) \<and>
                   freecount z' j = (if j = k then freecount z k - 1 else freecount z j)) \<and>
     (\<forall>j. pflag z' j = (if j = i then setJpOrder (pflag z i) 0 else pflag z j))"

lemma block_addedD:
  assumes "block_added i k z z'"
  shows "same_frame z z'" "areas z' = areas z"
    "j < areas z \<Longrightarrow> freelist z' j = (if j = k then i # freelist z k else freelist z j)"
    "j < areas z \<Longrightarrow> freecount z' j = (if j = k then freecount z k + 1 else freecount z j)"
    "pflag z' j = (if j = i then setJpOrder (pflag z i) k else pflag z j)"
  using assms by (simp_all add: block_added_def same_frame_def)

lemma block_removedD:
  assumes "block_removed i k z z'"
  shows "same_frame z z'" "areas z' = areas z"
    "j < areas z \<Longrightarrow> freelist z' j = remove1 i (freelist z j)"
    "j < areas z \<Longrightarrow> freecount z' j = (if j = k then freecount z k - 1 else freecount z j)"
    "pflag z' j = (if j = i then setJpOrder (pflag z i) 0 else pflag z j)"
  using assms by (simp_all add: block_removed_def same_frame_def)

lemma free_blocks_added:
  assumes "block_added i k z z'" and "k < areas z"
  shows "free_blocks z' = insert (i, k) (free_blocks z)"
  using assms(2) by (auto simp: free_blocks_def block_addedD [OF assms(1)] split: if_splits)

lemma free_total_added:
  assumes "block_added i k z z'" and "k < areas z"
  shows "free_total z' = free_total z + 2 ^ k"
proof -
  have "free_total z' = (\<Sum>j<areas z. 2 ^ j * length (freelist z j) + (if j = k then 2 ^ k else 0))"
    using assms by (auto simp: free_total_def block_added_def same_frame_def intro!: sum.cong)
  also have "\<dots> = free_total z + 2 ^ k" using assms(2) by (simp add: free_total_def sum.distrib)
  finally show ?thesis .
qed

lemma zone_shape_frame: "same_frame z z' \<Longrightarrow> zone_shape z' = zone_shape z"
  by (simp add: zone_shape_def same_frame_def)

lemma getBuddyIndex_invol: "getBuddyIndex (getBuddyIndex i k) k = i"
  by (simp add: getBuddyIndex_def xor.assoc)

lemma getBuddyIndex_neq: "getBuddyIndex i k \<noteq> i"
proof
  assume "getBuddyIndex i k = i"
  then have "i XOR (i XOR push_bit k 1) = i XOR i" by (simp only: getBuddyIndex_def)
  then have "push_bit k (1 :: nat) = 0" by (simp flip: xor.assoc)
  then show False by simp
qed

lemma zone_ok_add:
  assumes ok: "zone_ok z (insert (i, k) A)" and new: "(i, k) \<notin> A"
    and buddy: "Suc k < bz_u32MaxOrder z \<Longrightarrow> (getBuddyIndex i k, k) \<notin> free_blocks z"
    and clear: "\<not> isJpAllocated (pflag z i)" and add: "block_added i k z z'"
  shows "zone_ok z' A"
proof -
  have fr: "same_frame z z'" using add by (simp add: block_added_def)
  have ka: "k < areas z" using zone_ok_page(2) [OF ok] by blast
  note fb = free_blocks_added [OF add ka] and k256 = zone_shapeD(3) [OF zone_okD(1) [OF ok] ka]
  have notin: "(i, k) \<notin> free_blocks z" using zone_okD(3) [OF ok] by blast
  have head: "j \<noteq> i" if "(j, l) \<in> free_blocks z" for j l
    using zone_ok_same_head [OF ok, of i k l] that notin by blast
  show ?thesis
    unfolding zone_ok_def
  proof (intro conjI)
    show "zone_shape z'" using zone_okD(1) [OF ok] zone_shape_frame [OF fr] by simp
    show "tiling (free_blocks z' \<union> A) (bz_u32MaxOrder z')"
      using zone_okD(2) [OF ok] fr by (simp add: fb same_frame_def)
    show "free_blocks z' \<inter> A = {}" using zone_okD(3) [OF ok] new by (simp add: fb)
    show "\<forall>j<areas z'. distinct (freelist z' j) \<and> freecount z' j = of_nat (length (freelist z' j))"
      using zone_okD(4,5) [OF ok] notin ka add
      by (auto simp: block_added_def same_frame_def mem_free_blocks)
    show "\<forall>(j, l)\<in>free_blocks z'. getJpOrder (pflag z' j) = l \<and> \<not> isJpAllocated (pflag z' j)"
      using zone_okD(6,7) [OF ok] head add clear k256 by (auto simp: fb block_added_def)
    show "\<forall>(j, l)\<in>free_blocks z'. Suc l < bz_u32MaxOrder z' \<longrightarrow> (getBuddyIndex j l, l) \<notin> free_blocks z'"
      using zone_okD(8) [OF ok] buddy fr getBuddyIndex_invol [of _ k] getBuddyIndex_neq
      by (auto simp: fb same_frame_def)
  qed
qed

lemma free_head_unique:
  "zone_ok z A \<Longrightarrow> (i, k) \<in> free_blocks z \<Longrightarrow> (i, l) \<in> free_blocks z \<Longrightarrow> l = k"
  using zone_ok_same_head by blast

lemma free_blocks_removed:
  assumes rem: "block_removed i k z z'" and ok: "zone_ok z A" and ik: "(i, k) \<in> free_blocks z"
  shows "free_blocks z' = free_blocks z - {(i, k)}"
proof -
  have "i \<notin> set (freelist z l)" if "l < areas z" "l \<noteq> k" for l
    using free_head_unique [OF ok ik, of l] that by (auto simp: mem_free_blocks)
  then show ?thesis
    using zone_okD(4) [OF ok] by (auto simp: free_blocks_def block_removedD [OF rem])
qed

lemma free_total_removed:
  assumes rem: "block_removed i k z z'" and ok: "zone_ok z A" and ik: "(i, k) \<in> free_blocks z"
  shows "free_total z = free_total z' + 2 ^ k"
proof -
  have ka: "k < areas z" "i \<in> set (freelist z k)" using ik by (simp_all add: mem_free_blocks)
  have "remove1 i (freelist z l) = freelist z l" if "l < areas z" "l \<noteq> k" for l
    using free_head_unique [OF ok ik, of l] that by (intro remove1_idem) (auto simp: mem_free_blocks)
  moreover have "length (freelist z k) = Suc (length (remove1 i (freelist z k)))"
    using ka(2) length_pos_if_in_set [OF ka(2)] by (simp add: length_remove1)
  ultimately have "free_total z = (\<Sum>j<areas z. 2 ^ j * length (freelist z' j) + (if j = k then 2 ^ k else 0))"
    unfolding free_total_def
    by (intro sum.cong) (auto simp: block_removedD [OF rem])
  also have "\<dots> = free_total z' + 2 ^ k"
    using ka by (simp add: free_total_def sum.distrib block_removedD [OF rem])
  finally show ?thesis .
qed

lemma zone_ok_remove:
  assumes ok: "zone_ok z A" and ik: "(i, k) \<in> free_blocks z" and rem: "block_removed i k z z'"
  shows "zone_ok z' (insert (i, k) A)" and "(i, k) \<notin> A"
proof -
  have fr: "same_frame z z'" using rem by (simp add: block_removed_def)
  note fb = free_blocks_removed [OF rem ok ik]
  have head: "j \<noteq> i" if "(j, l) \<in> free_blocks z'" for j l
    using free_head_unique [OF ok ik, of l] that by (auto simp: fb)
  have unique: "l = k" if "l < areas z" "i \<in> set (freelist z l)" for l
    using free_head_unique [OF ok ik, of l] that by (simp add: mem_free_blocks)
  show "(i, k) \<notin> A" using zone_okD(3) [OF ok] ik by blast
  show "zone_ok z' (insert (i, k) A)"
    unfolding zone_ok_def
  proof (intro conjI)
    show "zone_shape z'" using zone_okD(1) [OF ok] zone_shape_frame [OF fr] by simp
    have "free_blocks z' \<union> insert (i, k) A = free_blocks z \<union> A" using ik by (auto simp: fb)
    then show "tiling (free_blocks z' \<union> insert (i, k) A) (bz_u32MaxOrder z')"
      using zone_okD(2) [OF ok] fr by (simp add: same_frame_def)
    show "free_blocks z' \<inter> insert (i, k) A = {}" using zone_okD(3) [OF ok] by (auto simp: fb)
    show "\<forall>j<areas z'. distinct (freelist z' j) \<and> freecount z' j = of_nat (length (freelist z' j))"
    proof (intro allI impI)
      fix j assume "j < areas z'"
      then have j: "j < areas z" by (simp add: block_removedD [OF rem])
      show "distinct (freelist z' j) \<and> freecount z' j = of_nat (length (freelist z' j))"
      proof (cases "j = k")
        case True
        have "length (freelist z k) = Suc (length (remove1 i (freelist z k)))"
          using ik length_pos_if_in_set [of i "freelist z k"] by (simp add: length_remove1 mem_free_blocks)
        with True j zone_okD(4,5) [OF ok j] show ?thesis by (simp add: block_removedD [OF rem])
      next
        case False
        then have "remove1 i (freelist z j) = freelist z j" using unique [OF j] by (intro remove1_idem) auto
        with False j zone_okD(4,5) [OF ok j] show ?thesis by (simp add: block_removedD [OF rem])
      qed
    qed
    show "\<forall>(j, l)\<in>free_blocks z'. getJpOrder (pflag z' j) = l \<and> \<not> isJpAllocated (pflag z' j)"
    proof clarify
      fix j l assume "(j, l) \<in> free_blocks z'"
      with head [OF this] zone_okD(6,7) [OF ok, of j l]
      show "getJpOrder (pflag z' j) = l \<and> \<not> isJpAllocated (pflag z' j)"
        by (simp add: block_removedD [OF rem] fb)
    qed
    show "\<forall>(j, l)\<in>free_blocks z'. Suc l < bz_u32MaxOrder z' \<longrightarrow> (getBuddyIndex j l, l) \<notin> free_blocks z'"
      using zone_okD(8) [OF ok] fr by (auto simp: fb same_frame_def)
  qed
qed

section \<open>Splitting and merging blocks in use\<close>

lemma zone_ok_replace:
  assumes "zone_ok z A" and "tiling (free_blocks z \<union> A') (bz_u32MaxOrder z)" and "free_blocks z \<inter> A' = {}"
  shows "zone_ok z A'"
  using assms by (simp add: zone_ok_def)

lemma zone_ok_split:
  assumes ok: "zone_ok z (insert (i, Suc k) A)" and i: "(i, Suc k) \<notin> A"
  shows "zone_ok z (insert (i + 2 ^ k, k) (insert (i, k) A))"
    and "(i + 2 ^ k, k) \<notin> insert (i, k) A" and "(i, k) \<notin> A"
proof -
  have out: "(i, k) \<notin> free_blocks z \<union> A" "(i + 2 ^ k, k) \<notin> free_blocks z \<union> A"
    using zone_ok_same_block [OF ok, of i "Suc k" i k i]
      zone_ok_same_block [OF ok, of i "Suc k" "i + 2 ^ k" k "i + 2 ^ k"] by auto
  show "(i + 2 ^ k, k) \<notin> insert (i, k) A" "(i, k) \<notin> A" using out by auto
  have i': "(i, Suc k) \<notin> free_blocks z \<union> A" using i zone_okD(3) [OF ok] by auto
  have "tiling (insert (i, Suc k) (free_blocks z \<union> A)) (bz_u32MaxOrder z)" using zone_okD(2) [OF ok] by simp
  from tiling_split [OF this i' out]
  have "tiling (free_blocks z \<union> insert (i + 2 ^ k, k) (insert (i, k) A)) (bz_u32MaxOrder z)"
    by (simp add: insert_commute)
  then show "zone_ok z (insert (i + 2 ^ k, k) (insert (i, k) A))"
    using zone_ok_replace [OF ok] out zone_okD(3) [OF ok] by auto
qed

lemma zone_ok_merge:
  assumes ok: "zone_ok z (insert (m, k) (insert (m + 2 ^ k, k) A))" and m: "2 ^ Suc k dvd m" "Suc k < bz_u32MaxOrder z"
    and out: "(m, k) \<notin> A" "(m + 2 ^ k, k) \<notin> A"
  shows "zone_ok z (insert (m, Suc k) A)" and "(m, Suc k) \<notin> A"
proof -
  have out': "(m, k) \<notin> free_blocks z \<union> A" "(m + 2 ^ k, k) \<notin> free_blocks z \<union> A"
    using out zone_okD(3) [OF ok] by auto
  have new: "(m, Suc k) \<notin> free_blocks z \<union> A"
    using zone_ok_same_head [OF ok, of m k "Suc k"] by auto
  then show "(m, Suc k) \<notin> A" by simp
  have "tiling (insert (m, k) (insert (m + 2 ^ k, k) (free_blocks z \<union> A))) (bz_u32MaxOrder z)"
    using zone_okD(2) [OF ok] by simp
  from tiling_merge [OF this m out' new]
  show "zone_ok z (insert (m, Suc k) A)"
    using zone_ok_replace [OF ok] new zone_okD(3) [OF ok] by auto
qed

lemma block_added_code:
  assumes "k < areas z" and "i < pages z"
  shows "block_added i k z (setPageOrder i k (updArea k (\<lambda>a. a\<lparr>fa_u32Free := fa_u32Free a + 1\<rparr>) (listAddPage k i z)))"
    and "block_added i k z (updArea k (\<lambda>a. a\<lparr>fa_u32Free := fa_u32Free a + 1\<rparr>) (listAddPage k i (setPageOrder i k z)))"
  using assms by (auto simp: block_added_def same_frame_def)

lemma block_removed_code:
  assumes "k < areas z" and "i < pages z"
  shows "block_removed i k z (updArea k (\<lambda>a. a\<lparr>fa_u32Free := fa_u32Free a - 1\<rparr>) (clearPageOrder i (listDelPage i z)))"
    and "block_removed i k z (clearPageOrder i (updArea k (\<lambda>a. a\<lparr>fa_u32Free := fa_u32Free a - 1\<rparr>) (listDelPage i z)))"
  using assms by (auto simp: block_removed_def same_frame_def)

text \<open>What the operations keep of the flag words: everything outside one block, and every bit but
  the order inside it.\<close>

definition flags_kept :: "nat set \<Rightarrow> buddy_zone \<Rightarrow> buddy_zone \<Rightarrow> bool" where
  "flags_kept S z z' \<longleftrightarrow> (\<forall>j. j \<notin> S \<longrightarrow> pflag z' j = pflag z j) \<and>
     (\<forall>j. isJpAllocated (pflag z' j) = isJpAllocated (pflag z j) \<and> getJpZoneId (pflag z' j) = getJpZoneId (pflag z j))"

lemma flags_kept_trans: "flags_kept S z z' \<Longrightarrow> flags_kept T z' z'' \<Longrightarrow> S \<subseteq> U \<Longrightarrow> T \<subseteq> U \<Longrightarrow> flags_kept U z z''"
  unfolding flags_kept_def by (metis subsetD)

lemma flags_kept_refl: "flags_kept S z z"
  by (simp add: flags_kept_def)

lemma flags_kept_added: "block_added i k z z' \<Longrightarrow> flags_kept {i} z z'"
  and flags_kept_removed: "block_removed i k z z' \<Longrightarrow> flags_kept {i} z z'"
  by (auto simp: flags_kept_def block_addedD block_removedD)

lemma same_frame_trans: "same_frame z z' \<Longrightarrow> same_frame z' z'' \<Longrightarrow> same_frame z z''"
  by (simp add: same_frame_def)

lemma buddy_of_half: "2 ^ Suc k dvd m \<Longrightarrow> getBuddyIndex m k = m + 2 ^ k \<and> getBuddyIndex (m + 2 ^ k) k = m"
  using getBuddyIndex_cases [OF dvd_half, of k m] getBuddyIndex_invol [of m k] by metis

lemma splitPageList_ok:
  assumes "zone_ok z (insert (p, high) A)" and "(p, high) \<notin> A" and "low \<le> high"
    and "\<forall>j\<in>block (p, high). \<not> isJpAllocated (pflag z j)"
  shows "\<exists>z'. splitPageList z p low high (2 ^ high) = (p, z') \<and> zone_ok z' (insert (p, low) A) \<and>
     (p, low) \<notin> A \<and> same_frame z z' \<and> bz_u32FreePages z' = bz_u32FreePages z \<and>
     free_total z' = free_total z + (2 ^ high - 2 ^ low) \<and> flags_kept (block (p, high)) z z'"
  using assms
proof (induction high arbitrary: z)
  case 0
  then show ?case by (subst splitPageList.simps) (simp add: same_frame_def flags_kept_refl)
next
  case (Suc h)
  show ?case
  proof (cases "low = Suc h")
    case True
    then show ?thesis using Suc.prems
      by (subst splitPageList.simps) (simp add: same_frame_def flags_kept_refl)
  next
    case False
    let ?i = "p + 2 ^ h"
    let ?z1 = "setPageOrder ?i h (updArea h (\<lambda>a. a\<lparr>fa_u32Free := fa_u32Free a + 1\<rparr>) (listAddPage h ?i z))"
    note sp = zone_ok_split [OF Suc.prems(1,2)]
    have i: "h < areas z" "?i < pages z" using zone_ok_page [OF sp(1), of ?i h] by simp_all
    note add = block_added_code(1) [OF i]
    have "getBuddyIndex ?i h = p" using zone_ok_page(3) [OF Suc.prems(1), of p "Suc h"] buddy_of_half by blast
    then have "(getBuddyIndex ?i h, h) \<notin> free_blocks z" using zone_okD(3) [OF sp(1)] by auto
    then have ok1: "zone_ok ?z1 (insert (p, h) A)"
      using zone_ok_add [OF sp(1,2) _ _ add] Suc.prems(4) by simp
    have "\<forall>j\<in>block (p, h). \<not> isJpAllocated (pflag ?z1 j)"
      using Suc.prems(4) flags_kept_added [OF add] by (auto simp: flags_kept_def)
    with Suc.IH [OF ok1 sp(3)] False Suc.prems(3) obtain z' where
      z': "splitPageList ?z1 p low h (2 ^ h) = (p, z')" "zone_ok z' (insert (p, low) A)" "(p, low) \<notin> A"
        "same_frame ?z1 z'" "bz_u32FreePages z' = bz_u32FreePages ?z1"
        "free_total z' = free_total ?z1 + (2 ^ h - 2 ^ low)" "flags_kept (block (p, h)) ?z1 z'"
      by auto
    have "splitPageList z p low (Suc h) (2 ^ Suc h) = splitPageList ?z1 p low h (2 ^ h)"
      using False Suc.prems(3) by (subst splitPageList.simps) (simp add: Let_def)
    moreover have "(2 :: nat) ^ low \<le> 2 ^ h" using False Suc.prems(3) by (intro power_increasing) auto
    then have "free_total z' = free_total z + (2 ^ Suc h - 2 ^ low)"
      using z'(6) free_total_added [OF add i(1)] by (simp only: power_Suc)
    moreover have "flags_kept (block (p, Suc h)) z z'"
      using flags_kept_trans [OF flags_kept_added [OF add] z'(7)] by (auto simp: block_halves(1))
    ultimately show ?thesis
      using z' same_frame_trans [OF block_addedD(1) [OF add]] by auto
  qed
qed

section \<open>Taking a block out of a zone\<close>

definition marked :: "buddy_zone \<Rightarrow> (nat \<times> nat) set \<Rightarrow> bool" where
  "marked z A \<longleftrightarrow> (\<forall>j < pages z. isJpAllocated (pflag z j) \<longrightarrow> (\<exists>k. (j, k) \<in> A))"

lemma free_block_unmarked:
  assumes ok: "zone_ok z A" and m: "marked z A" and f: "(i, k) \<in> free_blocks z" and j: "j \<in> block (i, k)"
  shows "\<not> isJpAllocated (pflag z j)"
proof
  assume a: "isJpAllocated (pflag z j)"
  have "j < pages z" using zone_ok_page(4) [OF ok, of i k] f j by auto
  with m a obtain l where l: "(j, l) \<in> A" by (auto simp: marked_def)
  then have "j = i \<and> l = k" using zone_ok_same_block [OF ok, of j l i k j] f j by auto
  with l f zone_okD(3) [OF ok] show False by auto
qed

definition rm_post :: "buddy_zone \<Rightarrow> (nat \<times> nat) set \<Rightarrow> nat \<Rightarrow> nat \<Rightarrow> nat option \<times> buddy_zone \<Rightarrow> bool" where
  "rm_post z A order cur r \<longleftrightarrow> (case r of
     (None, z') \<Rightarrow> z' = z \<and> (\<forall>k. cur \<le> k \<and> k < bz_u32MaxOrder z \<longrightarrow> freelist z k = [])
   | (Some p, z') \<Rightarrow> (\<exists>k \<ge> cur. (p, k) \<in> free_blocks z \<and> flags_kept (block (p, k)) z z') \<and>
       zone_ok z' (insert (p, order) A) \<and> (p, order) \<notin> A \<and> same_frame z z' \<and>
       bz_u32FreePages z' = bz_u32FreePages z - of_nat (2 ^ order) \<and>
       free_total z = free_total z' + 2 ^ order)"

lemma zone_ok_FreePages [simp]:
  "zone_ok (z\<lparr>bz_u32FreePages := n\<rparr>) A = zone_ok z A" "free_total (z\<lparr>bz_u32FreePages := n\<rparr>) = free_total z"
  "same_frame z (y\<lparr>bz_u32FreePages := n\<rparr>) = same_frame z y" "same_frame (z\<lparr>bz_u32FreePages := n\<rparr>) y = same_frame z y"
  "flags_kept S z (y\<lparr>bz_u32FreePages := n\<rparr>) = flags_kept S z y" "flags_kept S (z\<lparr>bz_u32FreePages := n\<rparr>) y = flags_kept S z y"
  "free_blocks (z\<lparr>bz_u32FreePages := n\<rparr>) = free_blocks z"
  by (auto simp: zone_ok_def free_blocks_def zone_shape_def free_total_def same_frame_def flags_kept_def)

lemma rmqueue_take:
  assumes ok: "zone_ok z A" and m: "marked z A" and oc: "order \<le> cur" "cur < bz_u32MaxOrder z"
    and fl: "freelist z cur = p # ps"
  shows "rm_post z A order cur (rmqueue_loop z order cur)"
proof -
  have f: "(p, cur) \<in> free_blocks z"
    using fl oc zone_shapeD(2) [OF zone_okD(1) [OF ok]] by (simp add: mem_free_blocks)
  let ?z1 = "updArea cur (\<lambda>a. a\<lparr>fa_u32Free := fa_u32Free a - 1\<rparr>) (clearPageOrder p (listDelPage p z))"
  let ?z2 = "?z1\<lparr>bz_u32FreePages := bz_u32FreePages ?z1 - push_bit order 1\<rparr>"
  have p: "cur < areas z" "p < pages z" using zone_ok_page [OF ok, of p cur] f by auto
  note rem = block_removed_code(1) [OF p]
  note ok1 = zone_ok_remove [OF ok f rem]
  have "\<forall>j\<in>block (p, cur). \<not> isJpAllocated (pflag ?z2 j)"
    using free_block_unmarked [OF ok m f] flags_kept_removed [OF rem] by (auto simp: flags_kept_def)
  then obtain z' where z': "splitPageList ?z2 p order cur (2 ^ cur) = (p, z')" "zone_ok z' (insert (p, order) A)"
      "(p, order) \<notin> A" "same_frame ?z2 z'" "bz_u32FreePages z' = bz_u32FreePages ?z2"
      "free_total z' = free_total ?z2 + (2 ^ cur - 2 ^ order)" "flags_kept (block (p, cur)) ?z2 z'"
    using splitPageList_ok [of ?z2 p cur A order] ok1 oc(1) by auto
  have "rmqueue_loop z order cur = (Some p, z')"
    using z'(1) fl oc by (subst rmqueue_loop.simps) (simp add: Let_def freelist_def push_bit_eq_mult)
  moreover have "(2 :: nat) ^ order \<le> 2 ^ cur" using oc(1) by (intro power_increasing) auto
  then have "free_total z = free_total z' + 2 ^ order"
    using z'(6) free_total_removed [OF rem ok f] by (simp only: zone_ok_FreePages)
  moreover have "flags_kept (block (p, cur)) z z'"
    using flags_kept_trans [OF flags_kept_removed [OF rem], of "block (p, cur)" z'] z'(7) by auto
  moreover have "same_frame z z'" using same_frame_trans [OF block_removedD(1) [OF rem]] z'(4) by simp
  ultimately show ?thesis
    using z' f by (auto simp: rm_post_def push_bit_eq_mult)
qed

lemma rm_post_weaken:
  assumes "rm_post z A order (Suc cur) r" and "freelist z cur = []"
  shows "rm_post z A order cur r"
proof (cases r)
  case (Pair q z')
  have "freelist z k = []" if "cur \<le> k" "k < bz_u32MaxOrder z"
    "\<forall>k. Suc cur \<le> k \<and> k < bz_u32MaxOrder z \<longrightarrow> freelist z k = []" for k
    using that assms(2) by (cases "k = cur") auto
  with assms(1) Pair show ?thesis
    by (cases q) (auto simp: rm_post_def intro: Suc_leD)
qed

lemma rmqueue_loop_post:
  "zone_ok z A \<Longrightarrow> marked z A \<Longrightarrow> order \<le> cur \<Longrightarrow> rm_post z A order cur (rmqueue_loop z order cur)"
proof (induction z order cur rule: rmqueue_loop.induct)
  case (1 z order cur)
  show ?case
  proof (cases "cur < bz_u32MaxOrder z \<and> freelist z cur = []")
    case True
    then have "rm_post z A order (cur + 1) (rmqueue_loop z order (cur + 1))"
      using 1 by (simp add: freelist_def)
    moreover have "rmqueue_loop z order cur = rmqueue_loop z order (cur + 1)"
      using True by (subst rmqueue_loop.simps) (simp add: freelist_def)
    ultimately show ?thesis using rm_post_weaken True by simp
  next
    case False
    then show ?thesis
    proof (cases "cur < bz_u32MaxOrder z")
      case True
      with False obtain p ps where "freelist z cur = p # ps" by (cases "freelist z cur") auto
      with 1 True show ?thesis by (intro rmqueue_take)
    next
      case False
      then show ?thesis by (subst rmqueue_loop.simps) (auto simp: rm_post_def)
    qed
  qed
qed

section \<open>Returning a block to a zone\<close>

lemma findBuddyPage_self [simp]: "findBuddyPage p p k = getBuddyIndex p k"
  by (simp add: findBuddyPage_def Let_def)

lemma isBuddyPage_iff:
  assumes ok: "zone_ok z (insert (p, k) A)" and k: "Suc k < bz_u32MaxOrder z"
    and A: "\<forall>(i, l)\<in>A. isJpAllocated (pflag z i)"
  shows "isBuddyPage z (getBuddyIndex p k) k \<longleftrightarrow> (getBuddyIndex p k, k) \<in> free_blocks z"
proof
  let ?b = "getBuddyIndex p k"
  assume b: "isBuddyPage z ?b k"
  obtain j where j: "j \<le> k" "(?b, j) \<in> free_blocks z \<union> insert (p, k) A"
    using buddy_block [OF zone_okD(2) [OF ok] _ k, of p] by blast
  have "(?b, j) \<notin> A" using A b by (auto simp: isBuddyPage_def pflag_def)
  moreover have "(?b, j) \<noteq> (p, k)" using getBuddyIndex_neq by simp
  ultimately have f: "(?b, j) \<in> free_blocks z" using j by blast
  then have "j = k" using zone_okD(6) [OF ok f] b by (simp add: isBuddyPage_def getPageOrder_def pflag_def)
  with f show "(?b, k) \<in> free_blocks z" by simp
next
  assume "(getBuddyIndex p k, k) \<in> free_blocks z"
  then show "isBuddyPage z (getBuddyIndex p k) k"
    using zone_okD(6,7) [OF ok] by (simp add: isBuddyPage_def getPageOrder_def pflag_def)
qed

definition merge_post ::
  "buddy_zone \<Rightarrow> (nat \<times> nat) set \<Rightarrow> nat \<Rightarrow> nat \<Rightarrow> buddy_zone \<times> nat \<times> nat \<Rightarrow> bool" where
  "merge_post z A p k r \<longleftrightarrow> (case r of (z', p', k') \<Rightarrow>
     zone_ok z' (insert (p', k') A) \<and> (p', k') \<notin> A \<and> same_frame z z' \<and>
     bz_u32FreePages z' = bz_u32FreePages z \<and> free_total z + 2 ^ k = free_total z' + 2 ^ k' \<and>
     block (p, k) \<subseteq> block (p', k') \<and> flags_kept (block (p', k')) z z' \<and>
     \<not> isJpAllocated (pflag z' p') \<and>
     (Suc k' < bz_u32MaxOrder z' \<longrightarrow> (getBuddyIndex p' k', k') \<notin> free_blocks z'))"

lemma zone_ok_merge_buddy:
  assumes ok: "zone_ok z (insert (getBuddyIndex p k, k) (insert (p, k) A))"
    and new: "(getBuddyIndex p k, k) \<notin> insert (p, k) A" "(p, k) \<notin> A"
    and k: "Suc k < bz_u32MaxOrder z" and m: "m = (if getBuddyIndex p k > p then p else getBuddyIndex p k)"
  shows "zone_ok z (insert (m, Suc k) A)" "(m, Suc k) \<notin> A"
    "block (p, k) \<subseteq> block (m, Suc k)" "getBuddyIndex p k \<in> block (m, Suc k)" "m \<in> {p, getBuddyIndex p k}"
proof -
  have al: "2 ^ k dvd p" using zone_ok_page(3) [OF ok, of p k] by simp
  obtain a where a: "2 ^ Suc k dvd a" "p = a \<and> getBuddyIndex p k = a + 2 ^ k \<or> p = a + 2 ^ k \<and> getBuddyIndex p k = a"
    using buddy_pair [OF al] by metis
  have ma: "m = a" using a(2) m by auto
  have "zone_ok z (insert (a, k) (insert (a + 2 ^ k, k) A))" "(a, k) \<notin> A" "(a + 2 ^ k, k) \<notin> A"
    using ok new a(2) by (auto simp: insert_commute)
  then show "zone_ok z (insert (m, Suc k) A)" "(m, Suc k) \<notin> A"
    using zone_ok_merge [OF _ a(1) k] ma by auto
  show "block (p, k) \<subseteq> block (m, Suc k)" "getBuddyIndex p k \<in> block (m, Suc k)" "m \<in> {p, getBuddyIndex p k}"
    using a(2) ma by (auto simp: block_def)
qed

lemma merge_post_step:
  assumes post: "merge_post z1 A m (Suc k) r" and kept: "flags_kept {b} z z1" and b: "b \<in> block (m, Suc k)"
    and sub: "block (p, k) \<subseteq> block (m, Suc k)" and fr: "same_frame z z1"
    and fp: "bz_u32FreePages z1 = bz_u32FreePages z" and tot: "free_total z = free_total z1 + 2 ^ k"
  shows "merge_post z A p k r"
proof -
  obtain z' p' k' where r: "r = (z', p', k')" by (cases r)
  have big: "block (m, Suc k) \<subseteq> block (p', k')" using post r by (simp add: merge_post_def)
  then have "flags_kept (block (p', k')) z z'"
    using flags_kept_trans [OF kept, of "block (p', k')" z'] post r b by (auto simp: merge_post_def)
  moreover have "same_frame z z'" using same_frame_trans [OF fr] post r by (simp add: merge_post_def)
  moreover have "block (p, k) \<subseteq> block (p', k')" using sub big by blast
  ultimately show ?thesis using post r fp tot by (simp add: merge_post_def)
qed

lemma freeOnePage_loop_post:
  assumes "zone_ok z (insert (p, k) A)" and "(p, k) \<notin> A" and "\<not> isJpAllocated (pflag z p)"
    and "\<forall>(i, l)\<in>A. isJpAllocated (pflag z i)" and "p' = p"
  shows "merge_post z A p k (freeOnePage_loop z p p' k)"
  using assms
proof (induction z p p' k rule: freeOnePage_loop.induct)
  case (1 z p p' k)
  let ?b = "getBuddyIndex p k"
  show ?case
  proof (cases "Suc k < bz_u32MaxOrder z \<and> isBuddyPage z ?b k")
    case False
    then have "freeOnePage_loop z p p' k = (z, p, k)"
      using 1(6) by (subst freeOnePage_loop.simps) (auto simp: Let_def)
    with False 1 isBuddyPage_iff [OF 1(2) _ 1(5)] show ?thesis
      by (auto simp: merge_post_def same_frame_def flags_kept_refl)
  next
    case True
    then have f: "(?b, k) \<in> free_blocks z" using isBuddyPage_iff [OF 1(2) _ 1(5)] by blast
    let ?z1 = "clearPageOrder ?b (updArea k (\<lambda>a. a\<lparr>fa_u32Free := fa_u32Free a - 1\<rparr>) (listDelPage ?b z))"
    let ?m = "if ?b > p then p else ?b"
    have b: "k < areas z" "?b < pages z" using zone_ok_page [OF 1(2), of ?b k] f by auto
    note rem = block_removed_code(2) [OF b]
    note kept = flags_kept_removed [OF rem]
    note ok1 = zone_ok_remove [OF 1(2) f rem]
    have k1: "Suc k < bz_u32MaxOrder ?z1" using True by simp
    note mg = zone_ok_merge_buddy [OF ok1 1(3) k1 refl]
    have "\<not> isJpAllocated (pflag ?z1 ?m)"
      using kept 1(4) zone_okD(7) [OF 1(2) f] by (auto simp: flags_kept_def)
    moreover have "\<forall>(i, l)\<in>A. isJpAllocated (pflag ?z1 i)" using kept 1(5) by (auto simp: flags_kept_def)
    ultimately have "merge_post ?z1 A ?m (Suc k) (freeOnePage_loop ?z1 ?m ?m (k + 1))"
      using "1.IH" mg(1,2) True 1(6) by auto
    moreover have "freeOnePage_loop z p p' k = freeOnePage_loop ?z1 ?m ?m (k + 1)"
      using True 1(6) by (subst freeOnePage_loop.simps) (simp add: Let_def less_diff_conv)
    ultimately show ?thesis
      using merge_post_step [of ?z1 A ?m k _ ?b z p] mg(3,4) kept block_removedD(1) [OF rem]
        free_total_removed [OF rem 1(2) f] by simp
  qed
qed

lemma page_mask: "page < 2 ^ M \<Longrightarrow> page AND (push_bit M 1 - 1) = (page :: nat)"
  by (simp only: push_bit_eq_mult mult_1 take_bit_nat_eq_self
      mask_eq_exp_minus_1 [symmetric] take_bit_eq_mask [symmetric])

lemma zone_ok_clear:
  assumes ok: "zone_ok z A" and ik: "(i, k) \<in> A" and z': "z' = updPage i clearJpAllocated z"
  shows "zone_ok z' A" "free_total z' = free_total z" "free_blocks z' = free_blocks z" "same_frame z z'"
    "pflag z' j = (if j = i then clearJpAllocated (pflag z i) else pflag z j)"
proof -
  have i: "i < pages z" using zone_ok_page(5) [OF ok, of i k] ik by simp
  show pf: "pflag z' j = (if j = i then clearJpAllocated (pflag z i) else pflag z j)" for j
    using i z' by simp
  show fr: "same_frame z z'" and fb: "free_blocks z' = free_blocks z" and "free_total z' = free_total z"
    by (simp_all add: z' same_frame_def free_blocks_def free_total_def)
  show "zone_ok z' A"
    using ok unfolding zone_ok_def fb zone_shape_frame [OF fr] by (auto simp: z' pf [unfolded z'] split: if_splits)
qed

text \<open>The state after a release: \<open>A\<close> are the blocks that stay in use.\<close>

lemma freeOnePage_post:
  assumes ok: "zone_ok z (insert (p, k) A)" and new: "(p, k) \<notin> A"
    and A: "\<forall>(i, l)\<in>A. isJpAllocated (pflag z i)" and z': "z' = freeOnePage z p k"
  shows "zone_ok z' A \<and> same_frame z z' \<and> bz_u32FreePages z' = bz_u32FreePages z + of_nat (2 ^ k) \<and>
    free_total z' = free_total z + 2 ^ k \<and>
    (\<forall>j. getJpZoneId (pflag z' j) = getJpZoneId (pflag z j)) \<and>
    (\<forall>j. isJpAllocated (pflag z' j) \<longleftrightarrow> j \<noteq> p \<and> isJpAllocated (pflag z j)) \<and>
    (\<forall>(i, l)\<in>A. pflag z' i = pflag z i)"
proof -
  define z1 where "z1 = updPage p clearJpAllocated z"
  define z2 where "z2 = z1\<lparr>bz_u32FreePages := bz_u32FreePages z1 + push_bit k 1\<rparr>"
  note c = zone_ok_clear [OF ok insertI1 z1_def]
  have p: "p < pages z" using zone_ok_page(5) [OF ok, of p k] by simp
  have "pages z \<le> 2 ^ bz_u32MaxOrder z"
    using zone_shapeD(1,4) [OF zone_okD(1) [OF ok]] by (simp add: power_increasing)
  then have idx: "p AND (push_bit (bz_u32MaxOrder z1) 1 - 1) = p"
    using p c(4) by (intro page_mask) (simp add: same_frame_def)
  have pA: "(p, l) \<notin> A" for l using zone_ok_same_head [OF ok, of p k l] new by auto
  have "merge_post z2 A p k (freeOnePage_loop z2 p p k)"
    using c new A pA by (intro freeOnePage_loop_post) (auto simp: z2_def)
  then obtain z3 q l where r: "freeOnePage_loop z2 p p k = (z3, q, l)" and post: "merge_post z2 A p k (z3, q, l)"
    by (metis prod_cases3)
  have ok3: "zone_ok z3 (insert (q, l) A)" "(q, l) \<notin> A" and fr3: "same_frame z2 z3"
    and kept: "flags_kept (block (q, l)) z2 z3" and sub: "block (p, k) \<subseteq> block (q, l)"
    and ncl: "\<not> isJpAllocated (pflag z3 q)"
    using post by (auto simp: merge_post_def)
  have ql: "l < areas z3" "q < pages z3" using zone_ok_page [OF ok3(1), of q l] by simp_all
  note add = block_added_code(2) [OF ql]
  have zeq: "z' = updArea l (\<lambda>a. a\<lparr>fa_u32Free := fa_u32Free a + 1\<rparr>) (listAddPage l q (setPageOrder q l z3))"
    using r idx by (simp add: z' freeOnePage_def Let_def z1_def z2_def)
  have "zone_ok z' A"
    unfolding zeq using zone_ok_add [OF ok3 _ ncl add] post by (simp add: merge_post_def)
  moreover have "same_frame z z'" unfolding zeq
    using same_frame_trans [OF same_frame_trans [OF c(4)] block_addedD(1) [OF add]] fr3 by (simp add: z2_def)
  moreover have "bz_u32FreePages z' = bz_u32FreePages z + of_nat (2 ^ k)"
    unfolding zeq using post by (simp add: merge_post_def z2_def z1_def push_bit_eq_mult)
  moreover have "free_total z' = free_total z + 2 ^ k"
    using free_total_added [OF add ql(1)] post c(2) by (simp add: merge_post_def z2_def flip: zeq)
  moreover have "\<forall>j. getJpZoneId (pflag z' j) = getJpZoneId (pflag z j) \<and>
      (isJpAllocated (pflag z' j) \<longleftrightarrow> j \<noteq> p \<and> isJpAllocated (pflag z j))"
    using kept flags_kept_added [OF add] by (simp add: flags_kept_def c(5) z2_def flip: zeq)
  moreover have "pflag z' i = pflag z i" if "(i, m) \<in> A" for i m
  proof -
    have "i \<notin> block (q, l)" using zone_ok_same_block [OF ok3(1), of i m q l i] that ok3(2) by auto
    moreover from this have "i \<noteq> q" by auto
    moreover have "i \<noteq> p" using pA that by auto
    ultimately show ?thesis
      using kept block_addedD(5) [OF add, of i]
      by (simp add: flags_kept_def c(5) z2_def del: block_simps flip: zeq)
  qed
  ultimately show ?thesis by blast
qed

section \<open>Allocating and releasing\<close>

lemma zone_inv_marked: "marked z (allocated z)"
  by (auto simp: marked_def allocated_def)

lemma allocated_flag: "\<forall>(i, l)\<in>allocated z. isJpAllocated (pflag z i)"
  by (auto simp: allocated_def)

text \<open>What \<^verbatim>\<open>getJiukunPage\<close> does to the flags of the page it returns.\<close>

definition take_page :: "nat \<Rightarrow> nat \<Rightarrow> buddy_zone \<Rightarrow> buddy_zone" where
  "take_page p order z = updPage p setJpAllocated (setPageOrder p order z)"

lemma zone_ok_flags:
  assumes ok: "zone_ok z A" and fr: "same_frame z z'"
    and views: "freelist z' = freelist z" "freecount z' = freecount z"
    and flags: "\<And>j l. (j, l) \<in> free_blocks z \<Longrightarrow> pflag z' j = pflag z j"
  shows "zone_ok z' A"
proof -
  have fb: "free_blocks z' = free_blocks z" using fr views by (simp add: free_blocks_def same_frame_def)
  show ?thesis
    using ok flags fr unfolding zone_ok_def fb views zone_shape_frame [OF fr] same_frame_def by fastforce
qed

lemma zone_take:
  assumes inv: "zone_inv z" and order: "order < bz_u32MaxOrder z" and rm: "rmqueue z order = (Some p, z1)"
    and z': "z' = take_page p order z1"
  shows "zone_inv z' \<and> same_frame z z' \<and> allocated z' = insert (p, order) (allocated z) \<and>
    (p, order) \<notin> allocated z \<and> free_total z = free_total z' + 2 ^ order \<and>
    (\<exists>k \<ge> order. (p, k) \<in> free_blocks z) \<and> (\<forall>j. getJpZoneId (pflag z' j) = getJpZoneId (pflag z j))"
proof -
  have okz: "zone_ok z (allocated z)" using inv by (simp add: zone_inv_def)
  have "rm_post z (allocated z) order order (Some p, z1)"
    using rmqueue_loop_post [OF okz zone_inv_marked order_refl, of order] rm by (simp add: rmqueue_def)
  then obtain k where k: "k \<ge> order" "(p, k) \<in> free_blocks z" "flags_kept (block (p, k)) z z1"
    and ok1: "zone_ok z1 (insert (p, order) (allocated z))" "(p, order) \<notin> allocated z"
    and fr: "same_frame z z1" and fp: "bz_u32FreePages z1 = bz_u32FreePages z - of_nat (2 ^ order)"
    and tot: "free_total z = free_total z1 + 2 ^ order"
    by (auto simp: rm_post_def)
  have p: "p < pages z1" "order < 256"
    using zone_ok_page(2,5) [OF ok1(1), of p order] zone_shapeD(3) [OF zone_okD(1) [OF ok1(1)]] by simp_all
  have pf: "pflag z' j = (if j = p then setJpAllocated (setJpOrder (pflag z1 p) order) else pflag z1 j)" for j
    using p(1) by (simp add: z' take_page_def)
  have fr': "same_frame z1 z'" and views: "freelist z' = freelist z1" "freecount z' = freecount z1"
    by (simp_all add: z' take_page_def same_frame_def)
  have "j \<noteq> p" if "(j, l) \<in> free_blocks z1" for j l
    using zone_ok_same_head [OF ok1(1), of p l order] that zone_okD(3) [OF ok1(1)] by auto
  then have ok': "zone_ok z' (insert (p, order) (allocated z))"
    using zone_ok_flags [OF ok1(1) fr' views] pf by auto
  have out: "j \<notin> block (p, k)" if "isJpAllocated (pflag z j)" for j
    using free_block_unmarked [OF okz zone_inv_marked k(2)] that by blast
  have al: "allocated z' = insert (p, order) (allocated z)"
    using k(3) out p fr fr' free_block_unmarked [OF okz zone_inv_marked k(2), of p]
    by (auto simp: allocated_def pf flags_kept_def same_frame_def split: if_splits)
  have tot': "free_total z' = free_total z1" using fr' views by (simp add: free_total_def same_frame_def)
  have "bz_u32FreePages z' = of_nat (free_total z')"
    using inv fp tot tot' by (simp add: zone_inv_def z' take_page_def)
  then show ?thesis
    using ok' al ok1(2) tot tot' k same_frame_trans [OF fr fr']
    by (auto simp: zone_inv_def pf flags_kept_def)
qed

lemma zone_put:
  assumes inv: "zone_inv z" and pk: "(p, k) \<in> allocated z" and z': "z' = freeOnePage z p k"
  shows "zone_inv z' \<and> same_frame z z' \<and> allocated z' = allocated z - {(p, k)} \<and>
    free_total z' = free_total z + 2 ^ k \<and> (\<forall>j. getJpZoneId (pflag z' j) = getJpZoneId (pflag z j))"
proof -
  define A where "A = allocated z - {(p, k)}"
  have ins: "insert (p, k) A = allocated z" using pk by (auto simp: A_def)
  then have okz: "zone_ok z (insert (p, k) A)" using inv by (simp add: zone_inv_def)
  have A: "\<forall>(i, l)\<in>A. isJpAllocated (pflag z i)" using allocated_flag [of z] by (auto simp: A_def)
  have post: "zone_ok z' A" "same_frame z z'" "bz_u32FreePages z' = bz_u32FreePages z + of_nat (2 ^ k)"
    "free_total z' = free_total z + 2 ^ k" "\<forall>j. getJpZoneId (pflag z' j) = getJpZoneId (pflag z j)"
    "\<forall>j. isJpAllocated (pflag z' j) \<longleftrightarrow> j \<noteq> p \<and> isJpAllocated (pflag z j)"
    "\<forall>(i, l)\<in>A. pflag z' i = pflag z i"
    using freeOnePage_post [OF okz _ A z'] by (auto simp: A_def)
  have "allocated z' = A"
  proof (rule set_eqI, rule iffI)
    fix x assume x: "x \<in> allocated z'"
    obtain i l where il: "x = (i, l)" by (cases x)
    have "i \<noteq> p" "isJpAllocated (pflag z i)" "i < pages z" "l = getJpOrder (pflag z' i)"
      using x il post(2,6) by (auto simp: allocated_def same_frame_def)
    moreover from this have "(i, getJpOrder (pflag z i)) \<in> A" by (auto simp: A_def allocated_def)
    ultimately show "x \<in> A" using post(7) il by auto
  next
    fix x assume x: "x \<in> A"
    obtain i l where il: "x = (i, l)" by (cases x)
    have "i \<noteq> p" using x il pk by (auto simp: A_def allocated_def)
    moreover have "pflag z' i = pflag z i" using post(7) x il by auto
    ultimately show "x \<in> allocated z'"
      using x il post(2,6) by (auto simp: A_def allocated_def same_frame_def)
  qed
  then show ?thesis
    using post inv by (auto simp: A_def zone_inv_def)
qed

text \<open>A zone in which nothing is allocated is one block again.\<close>

lemma zone_all_free:
  assumes inv: "zone_inv z" and none: "allocated z = {}"
  shows "free_blocks z = {(0, bz_u32MaxOrder z - 1)}"
proof -
  let ?M = "bz_u32MaxOrder z"
  have ok: "zone_ok z {}" using inv none by (simp add: zone_inv_def)
  note til = zone_okD(2) [OF ok, simplified]
  have top: "Suc k = ?M" if "(i, k) \<in> free_blocks z" for i k
    using that
  proof (induction k arbitrary: i rule: less_induct)
    case (less k)
    show ?case
    proof (rule ccontr)
      assume "Suc k \<noteq> ?M"
      then have k: "Suc k < ?M" using tilingD(1) [OF til less.prems] by simp
      then obtain j where j: "j \<le> k" "(getBuddyIndex i k, j) \<in> free_blocks z"
        using buddy_block [OF til less.prems] by blast
      then have "j \<noteq> k" using zone_okD(8) [OF ok less.prems k] by auto
      then show False using less.IH [OF _ j(2)] j(1) k by simp
    qed
  qed
  have head: "i = 0 \<and> k = ?M - 1" if "(i, k) \<in> free_blocks z" for i k
    using top [OF that] tilingD [OF til that] by (cases "bz_u32MaxOrder z") auto
  obtain i k where "(i, k) \<in> free_blocks z" using tiling_cover [OF til, of 0] by auto
  with head show ?thesis by auto
qed

end
