(* ===== verification/Jf_Buddy_Alloc.thy ===== *)
theory Jf_Buddy_Alloc
  imports Jf_Buddy_Zone
begin

text \<open>
  The page allocator as a whole: the contract of an allocator of disjoint blocks, which a zone
  provides, the invariant of the zones together, and the operations of \<^verbatim>\<open>buddy.c\<close> and of the page
  interface of jiukun on it.
\<close>

section \<open>The contract of a block allocator\<close>

locale block_allocator =
  fixes ok :: "'s \<Rightarrow> bool"
    and used :: "'s \<Rightarrow> 'b set"
    and cells :: "'b \<Rightarrow> 'c set"
    and valid :: "'s \<Rightarrow> 'n \<Rightarrow> bool"
    and alloc :: "'n \<Rightarrow> 's \<Rightarrow> ('b \<times> 's) option"
    and free :: "'b \<Rightarrow> 's \<Rightarrow> 's"
  assumes alloc_ok: "ok s \<Longrightarrow> valid s n \<Longrightarrow> alloc n s = Some (b, s') \<Longrightarrow> ok s'"
    and alloc_used: "ok s \<Longrightarrow> valid s n \<Longrightarrow> alloc n s = Some (b, s') \<Longrightarrow> b \<notin> used s \<and> used s' = insert b (used s)"
    and alloc_valid: "ok s \<Longrightarrow> valid s n \<Longrightarrow> alloc n s = Some (b, s') \<Longrightarrow> valid s' m = valid s m"
    and free_ok: "ok s \<Longrightarrow> b \<in> used s \<Longrightarrow> ok (free b s)"
    and free_used: "ok s \<Longrightarrow> b \<in> used s \<Longrightarrow> used (free b s) = used s - {b}"
    and used_disjoint: "ok s \<Longrightarrow> b \<in> used s \<Longrightarrow> c \<in> used s \<Longrightarrow> b \<noteq> c \<Longrightarrow> cells b \<inter> cells c = {}"
begin

lemma alloc_fresh:
  "ok s \<Longrightarrow> valid s n \<Longrightarrow> alloc n s = Some (b, s') \<Longrightarrow> c \<in> used s \<Longrightarrow> cells b \<inter> cells c = {}"
  using alloc_ok [of s n b s'] alloc_used [of s n b s'] used_disjoint [of s' b c] by auto

lemma alloc_free:
  "ok s \<Longrightarrow> valid s n \<Longrightarrow> alloc n s = Some (b, s') \<Longrightarrow> ok (free b s') \<and> used (free b s') = used s"
  using alloc_ok [of s n b s'] alloc_used [of s n b s'] free_ok [of s' b] free_used [of s' b] by auto

lemma free_list:
  "ok s \<Longrightarrow> distinct bs \<Longrightarrow> set bs \<subseteq> used s \<Longrightarrow> ok (fold free bs s) \<and> used (fold free bs s) = used s - set bs"
proof (induction bs arbitrary: s)
  case (Cons b bs)
  then have "ok (free b s)" "used (free b s) = used s - {b}" by (simp_all add: free_ok free_used)
  with Cons show ?case by auto
qed simp

lemma free_everything: "ok s \<Longrightarrow> distinct bs \<Longrightarrow> set bs = used s \<Longrightarrow> ok (fold free bs s) \<and> used (fold free bs s) = {}"
  using free_list [of s bs] by simp

end

definition zone_alloc :: "nat \<Rightarrow> buddy_zone \<Rightarrow> ((nat \<times> nat) \<times> buddy_zone) option" where
  "zone_alloc order z = (case rmqueue z order of (None, z') \<Rightarrow> None | (Some p, z') \<Rightarrow> Some ((p, order), take_page p order z'))"

definition zone_free :: "nat \<times> nat \<Rightarrow> buddy_zone \<Rightarrow> buddy_zone" where
  "zone_free b z = freeOnePage z (fst b) (snd b)"

lemma zone_allocD:
  assumes "zone_inv z" and "order < bz_u32MaxOrder z" and "zone_alloc order z = Some (b, z')"
  shows "zone_inv z' \<and> same_frame z z' \<and> allocated z' = insert b (allocated z) \<and> b \<notin> allocated z \<and>
    (\<forall>j. getJpZoneId (pflag z' j) = getJpZoneId (pflag z j)) \<and> free_total z = free_total z' + 2 ^ order"
  using assms zone_take [OF assms(1,2)] by (auto simp: zone_alloc_def split: prod.splits option.splits)

lemma allocated_disjoint:
  assumes inv: "zone_inv z" and "b \<in> allocated z" "c \<in> allocated z" "b \<noteq> c"
  shows "block b \<inter> block c = {}"
proof -
  have "zone_ok z (allocated z)" using inv by (simp add: zone_inv_def)
  from zone_okD(2) [OF this] tiling_disjoint assms(2-4) show ?thesis by blast
qed

interpretation zone: block_allocator zone_inv allocated block "\<lambda>z order. order < bz_u32MaxOrder z" zone_alloc
  zone_free
proof unfold_locales
  fix s n b s' m
  assume a: "zone_inv s" "n < bz_u32MaxOrder s" "zone_alloc n s = Some (b, s')"
  note D = zone_allocD [OF a]
  show "zone_inv s'" "b \<notin> allocated s \<and> allocated s' = insert b (allocated s)" using D by blast+
  show "m < bz_u32MaxOrder s' \<longleftrightarrow> m < bz_u32MaxOrder s" using D by (simp add: same_frame_def)
next
  fix s b assume a: "zone_inv s" "b \<in> allocated s"
  obtain p k where b: "b = (p, k)" by (cases b)
  from zone_put [OF a(1) a(2) [unfolded b] refl]
  show "zone_inv (zone_free b s)" "allocated (zone_free b s) = allocated s - {b}"
    by (simp_all add: b zone_free_def)
qed (rule allocated_disjoint)

section \<open>A new zone\<close>

lemma createBuddyZone_ok:
  assumes m: "calloc_zone m" "calloc_pages m" "alloc_pool m = Some pool" and M: "0 < M" "M \<le> JF_JIUKUN_MAX_PAGE_ORDER + 1"
    and zid: "zid < 256"
  shows "\<exists>z. createBuddyZone m M zid = Some (Inr z) \<and> zone_inv z \<and> allocated z = {} \<and> bz_u32MaxOrder z = M \<and>
     (\<forall>j < pages z. getJpZoneId (pflag z j) = zid) \<and> bz_pu8Pool z = pool \<and>
     bz_pu8PoolEnd z = pool + pages z * BUDDY_PAGE_SIZE \<and> free_blocks z = {(0, M - 1)}"
proof -
  let ?N = "2 ^ (M - 1) :: nat"
  define z where "z = \<lparr>bz_u32FreePages = of_nat ?N,
      bz_faFreeArea = (replicate 15 \<lparr>fa_jlFree = [], fa_u32Free = 0\<rparr>)[M - 1 := \<lparr>fa_jlFree = [0], fa_u32Free = 1\<rparr>],
      bz_u32MaxOrder = M, bz_u32NumOfPage = ?N,
      bz_papPage = (replicate ?N (setJpZoneId 0 zid))[0 := setJpOrder (setJpZoneId 0 zid) (M - 1)],
      bz_pu8Pool = pool, bz_pu8PoolEnd = pool + ?N * BUDDY_PAGE_SIZE\<rparr>"
  have N: "0 < ?N" and M15: "M - 1 < 15" "M \<le> 15" using M by (auto simp: JF_JIUKUN_MAX_PAGE_ORDER_def)
  have "createBuddyZone m M zid = Some (Inr z)"
    using m M15 N by (simp add: createBuddyZone_def initBuddyPage_def JF_JIUKUN_MAX_PAGE_ORDER_def push_bit_eq_mult
        zone_upd_defs Let_def z_def)
  moreover have shape: "areas z = 15" "pages z = ?N" "bz_u32MaxOrder z = M"
    by (simp_all add: z_def zone_view_defs)
  have fl: "freelist z k = (if k = M - 1 then [0] else [])" "freecount z k = (if k = M - 1 then 1 else 0)"
    if "k < 15" for k
    using that M15 by (simp_all add: z_def zone_view_defs nth_list_update)
  have pf: "pflag z j = (if j = 0 then setJpOrder (setJpZoneId 0 zid) (M - 1) else setJpZoneId 0 zid)"
    if "j < ?N" for j using that by (simp add: z_def zone_view_defs nth_list_update)
  have fb: "free_blocks z = {(0, M - 1)}"
    using M15 by (auto simp: free_blocks_def shape fl split: if_splits)
  have al: "allocated z = {}" by (auto simp: allocated_def shape pf split: if_splits)
  have tot: "free_total z = ?N"
  proof -
    have "free_total z = (\<Sum>k<15. if k = M - 1 then ?N else 0)"
      unfolding free_total_def shape by (intro sum.cong) (auto simp: fl)
    then show ?thesis using M15(1) by simp
  qed
  have "zone_ok z {}"
    unfolding zone_ok_def fb
    using tiling_single [OF M(1)] M M15 N
    by (auto simp: zone_shape_def shape fl pf JF_JIUKUN_MAX_PAGE_ORDER_def)
  then have "zone_inv z" by (simp add: zone_inv_def al tot) (simp add: z_def)
  moreover have "\<forall>j < pages z. getJpZoneId (pflag z j) = zid" using zid by (simp add: shape pf)
  moreover have "bz_pu8Pool z = pool \<and> bz_pu8PoolEnd z = pool + pages z * BUDDY_PAGE_SIZE"
    by (simp add: shape) (simp add: z_def)
  ultimately show ?thesis using al fb shape by blast
qed

lemma createBuddyZone_fail:
  assumes "createBuddyZone m M zid = Some (Inl e)"
  shows "e = JF_ERR_OUT_OF_MEMORY \<and> \<not> (calloc_zone m \<and> calloc_pages m \<and> alloc_pool m \<noteq> None)"
  using assms by (auto simp: createBuddyZone_def Let_def split: if_splits option.splits)

lemma rmqueue_new:
  assumes inv: "zone_inv z" and fb: "free_blocks z = {(0, bz_u32MaxOrder z - 1)}" and order: "order < bz_u32MaxOrder z"
  shows "\<exists>p z'. rmqueue z order = (Some p, z')"
proof -
  have ok: "zone_ok z (allocated z)" using inv by (simp add: zone_inv_def)
  obtain r z' where r: "rmqueue z order = (r, z')" by (cases "rmqueue z order")
  have post: "rm_post z (allocated z) order order (r, z')"
    using rmqueue_loop_post [OF ok zone_inv_marked order_refl, of order] r by (simp add: rmqueue_def)
  have "(0, bz_u32MaxOrder z - 1) \<in> free_blocks z" using fb by simp
  then have ne: "freelist z (bz_u32MaxOrder z - 1) \<noteq> []" by (auto simp: mem_free_blocks)
  have "r \<noteq> None"
  proof
    assume "r = None"
    then have "freelist z (bz_u32MaxOrder z - 1) = []" using post order by (simp add: rm_post_def)
    with ne show False by contradiction
  qed
  with r show ?thesis by auto
qed

section \<open>The invariant of the allocator\<close>

definition zone_good :: "nat \<Rightarrow> nat \<Rightarrow> buddy_zone \<Rightarrow> bool" where
  "zone_good M i z \<longleftrightarrow> zone_inv z \<and> bz_u32MaxOrder z = M \<and> (\<forall>j < pages z. getJpZoneId (pflag z j) = i) \<and>
     bz_pu8PoolEnd z = bz_pu8Pool z + pages z * BUDDY_PAGE_SIZE"

definition pool :: "buddy_zone \<Rightarrow> nat set" where
  "pool z = {bz_pu8Pool z ..< bz_pu8PoolEnd z}"

definition zone_at :: "internal_jiukun_buddy \<Rightarrow> nat \<Rightarrow> buddy_zone" where
  "zone_at b i = the (ijb_pbzZone b ! i)"

definition buddy_inv :: "internal_jiukun_buddy \<Rightarrow> bool" where
  "buddy_inv b \<longleftrightarrow> length (ijb_pbzZone b) = MAX_BUDDY_ZONES \<and> ijb_u32NumOfZone b \<le> MAX_BUDDY_ZONES \<and>
     0 < ijb_u32MaxOrder b \<and> ijb_u32MaxOrder b \<le> JF_JIUKUN_MAX_PAGE_ORDER + 1 \<and>
     (\<forall>i < ijb_u32NumOfZone b. ijb_pbzZone b ! i \<noteq> None \<and> zone_good (ijb_u32MaxOrder b) i (zone_at b i)) \<and>
     (\<forall>i < ijb_u32NumOfZone b. \<forall>j < ijb_u32NumOfZone b. i \<noteq> j \<longrightarrow> pool (zone_at b i) \<inter> pool (zone_at b j) = {})"

definition used :: "internal_jiukun_buddy \<Rightarrow> (nat \<times> nat \<times> nat) set" where
  "used b = {(i, p, k). i < ijb_u32NumOfZone b \<and> (p, k) \<in> allocated (zone_at b i)}"

text \<open>Memory that a zone may be created from: its pool overlaps no pool in use.\<close>

definition fresh_memory :: "internal_jiukun_buddy \<Rightarrow> zone_memory \<Rightarrow> bool" where
  "fresh_memory b m \<longleftrightarrow> (\<forall>a i. alloc_pool m = Some a \<longrightarrow> i < ijb_u32NumOfZone b \<longrightarrow>
     {a ..< a + 2 ^ (ijb_u32MaxOrder b - 1) * BUDDY_PAGE_SIZE} \<inter> pool (zone_at b i) = {})"

lemma buddy_invD:
  assumes "buddy_inv b" and "i < ijb_u32NumOfZone b"
  shows "ijb_pbzZone b ! i = Some (zone_at b i)" "zone_good (ijb_u32MaxOrder b) i (zone_at b i)"
    "i < length (ijb_pbzZone b)" "i < 20"
  using assms by (auto simp: buddy_inv_def zone_at_def MAX_BUDDY_ZONES_def)

lemma zone_goodD:
  assumes "zone_good M i z"
  shows "zone_inv z" "zone_ok z (allocated z)" "bz_u32MaxOrder z = M" "j < pages z \<Longrightarrow> getJpZoneId (pflag z j) = i"
    "bz_pu8PoolEnd z = bz_pu8Pool z + pages z * BUDDY_PAGE_SIZE" "pages z = 2 ^ (M - 1)"
  using assms zone_shapeD(4) [of z] by (auto simp: zone_good_def zone_inv_def zone_ok_def)

definition put_zone :: "nat \<Rightarrow> buddy_zone \<Rightarrow> internal_jiukun_buddy \<Rightarrow> internal_jiukun_buddy" where
  "put_zone i z b = b\<lparr>ijb_pbzZone := (ijb_pbzZone b)[i := Some z]\<rparr>"

lemma zone_at_put [simp]:
  "i < length (ijb_pbzZone b) \<Longrightarrow> zone_at (put_zone i z b) j = (if j = i then z else zone_at b j)"
  by (auto simp: zone_at_def put_zone_def nth_list_update)

lemma put_zone_fields [simp]:
  "ijb_u32NumOfZone (put_zone i z b) = ijb_u32NumOfZone b" "ijb_u32MaxOrder (put_zone i z b) = ijb_u32MaxOrder b"
  "ijb_bInitialized (put_zone i z b) = ijb_bInitialized b" "ijb_bNoGrow (put_zone i z b) = ijb_bNoGrow b"
  "length (ijb_pbzZone (put_zone i z b)) = length (ijb_pbzZone b)" "put_zone i y (put_zone i z b) = put_zone i y b"
  by (simp_all add: put_zone_def)

lemma put_zone_same: "buddy_inv b \<Longrightarrow> i < ijb_u32NumOfZone b \<Longrightarrow> put_zone i (zone_at b i) b = b"
  using buddy_invD(1) [of b i] by (metis put_zone_def list_update_id internal_jiukun_buddy.surjective
      internal_jiukun_buddy.update_convs(5))

lemma buddy_inv_put:
  assumes b: "buddy_inv b" and i: "i < ijb_u32NumOfZone b" and z': "zone_inv z'" "same_frame (zone_at b i) z'"
    "\<forall>j. getJpZoneId (pflag z' j) = getJpZoneId (pflag (zone_at b i) j)"
  shows "buddy_inv (put_zone i z' b)"
proof -
  note D = buddy_invD [OF b i]
  have good: "zone_good (ijb_u32MaxOrder b) i z'" and p: "pool z' = pool (zone_at b i)"
    using D(2) z' by (auto simp: zone_good_def same_frame_def pool_def)
  then show ?thesis
    using b D(3) by (auto simp: buddy_inv_def) (auto simp: put_zone_def nth_list_update)
qed

lemma mem_used: "(i, x) \<in> used b \<longleftrightarrow> i < ijb_u32NumOfZone b \<and> x \<in> allocated (zone_at b i)"
  by (cases x) (simp add: used_def)

lemma used_put:
  assumes "buddy_inv b" and i: "i < ijb_u32NumOfZone b"
  shows "allocated z' = insert x (allocated (zone_at b i)) \<Longrightarrow> used (put_zone i z' b) = insert (i, x) (used b)"
    and "allocated z' = allocated (zone_at b i) - {x} \<Longrightarrow> used (put_zone i z' b) = used b - {(i, x)}"
proof -
  note at = zone_at_put [OF buddy_invD(3) [OF assms]]
  show "used (put_zone i z' b) = insert (i, x) (used b)" if "allocated z' = insert x (allocated (zone_at b i))"
    using i by (auto simp only: mem_used put_zone_fields(1) at that set_eq_iff split_paired_All split: if_splits)
  show "used (put_zone i z' b) = used b - {(i, x)}" if "allocated z' = allocated (zone_at b i) - {x}"
    using i by (auto simp only: mem_used put_zone_fields(1) at that set_eq_iff split_paired_All split: if_splits)
qed

section \<open>Allocation\<close>

lemma findZone_ok:
  assumes b: "buddy_inv b"
  shows "index \<le> ijb_u32NumOfZone b \<Longrightarrow> (\<forall>i. u32Id = Some i \<longrightarrow> i < ijb_u32NumOfZone b) \<Longrightarrow>
    \<exists>r. findZone (ijb_pbzZone b) (ijb_u32NumOfZone b) pgs index lft u32Id = Some r \<and>
      (\<forall>i. r = Some i \<longrightarrow> i < ijb_u32NumOfZone b)"
proof (induction "ijb_u32NumOfZone b - index" arbitrary: index lft u32Id)
  case 0
  then show ?case by (subst findZone.simps) simp
next
  case (Suc n)
  then have i: "index < ijb_u32NumOfZone b" by simp
  note IH = Suc.hyps(1) [of "Suc index"]
  show ?case
    using IH Suc i buddy_invD(1) [OF b i] by (subst findZone.simps) auto
qed

lemma rmqueueZone_eq:
  assumes "buddy_inv b" and "i < ijb_u32NumOfZone b" and "rmqueue (zone_at b i) order = (r, z')"
  shows "rmqueueZone b i order = Some (map_option (Pair i) r, put_zone i z' b)"
  using assms buddy_invD(1) [OF assms(1,2)] by (simp add: rmqueueZone_def put_zone_def)

text \<open>The zones stay where they are; one more may have come from the memory \<open>m\<close>.\<close>

definition pools_grow :: "zone_memory \<Rightarrow> internal_jiukun_buddy \<Rightarrow> internal_jiukun_buddy \<Rightarrow> bool" where
  "pools_grow m b b' \<longleftrightarrow> ijb_u32NumOfZone b \<le> ijb_u32NumOfZone b' \<and>
     (\<forall>i < ijb_u32NumOfZone b. bz_pu8Pool (zone_at b' i) = bz_pu8Pool (zone_at b i)) \<and>
     (\<forall>i < ijb_u32NumOfZone b'. ijb_u32NumOfZone b \<le> i \<longrightarrow> alloc_pool m = Some (bz_pu8Pool (zone_at b' i)))"

text \<open>
  A successful allocation: some zone of an allocator \<open>b\<^sub>0\<close>, which is \<open>b\<close> or \<open>b\<close> with one more, unused
  zone, gave out a block.
\<close>

definition alloc_success ::
  "zone_memory \<Rightarrow> internal_jiukun_buddy \<Rightarrow> nat \<Rightarrow> page_ref \<Rightarrow> internal_jiukun_buddy \<Rightarrow> bool" where
  "alloc_success m b order pg b' \<longleftrightarrow> (\<exists>b0 z'. buddy_inv b0 \<and> used b0 = used b \<and> pools_grow m b b0 \<and>
     ijb_bInitialized b0 = ijb_bInitialized b \<and> ijb_u32MaxOrder b0 = ijb_u32MaxOrder b \<and>
     fst pg < ijb_u32NumOfZone b0 \<and> rmqueue (zone_at b0 (fst pg)) order = (Some (snd pg), z') \<and>
     b' = put_zone (fst pg) z' b0)"

lemma rmqueue_None:
  assumes "zone_inv z" and "rmqueue z order = (None, z')"
  shows "z' = z"
proof -
  have ok: "zone_ok z (allocated z)" using assms(1) by (simp add: zone_inv_def)
  then show ?thesis
    using rmqueue_loop_post [OF ok zone_inv_marked order_refl, of order] assms(2)
    by (simp add: rmqueue_def rm_post_def)
qed

definition add_zone :: "buddy_zone \<Rightarrow> internal_jiukun_buddy \<Rightarrow> internal_jiukun_buddy" where
  "add_zone z b = b\<lparr>ijb_pbzZone := (ijb_pbzZone b)[ijb_u32NumOfZone b := Some z],
     ijb_u32NumOfZone := ijb_u32NumOfZone b + 1\<rparr>"

lemma buddy_inv_add:
  assumes b: "buddy_inv b" and n: "ijb_u32NumOfZone b < MAX_BUDDY_ZONES"
    and z: "zone_good (ijb_u32MaxOrder b) (ijb_u32NumOfZone b) z" "allocated z = {}"
    and apart: "\<forall>i < ijb_u32NumOfZone b. pool z \<inter> pool (zone_at b i) = {}"
  shows "buddy_inv (add_zone z b)" and "used (add_zone z b) = used b"
    and "zone_at (add_zone z b) (ijb_u32NumOfZone b) = z"
proof -
  have len: "ijb_u32NumOfZone b < length (ijb_pbzZone b)" using b n by (simp add: buddy_inv_def)
  then have at: "zone_at (add_zone z b) i = (if i = ijb_u32NumOfZone b then z else zone_at b i)" for i
    by (auto simp: zone_at_def add_zone_def nth_list_update)
  then show "zone_at (add_zone z b) (ijb_u32NumOfZone b) = z" by simp
  have nz: "ijb_u32NumOfZone (add_zone z b) = Suc (ijb_u32NumOfZone b)"
    "ijb_u32MaxOrder (add_zone z b) = ijb_u32MaxOrder b"
    "ijb_pbzZone (add_zone z b) ! i = (if i = ijb_u32NumOfZone b then Some z else ijb_pbzZone b ! i)" for i
    using len by (auto simp: add_zone_def nth_list_update)
  show "used (add_zone z b) = used b"
    using z(2) by (auto simp: used_def at nz less_Suc_eq split: if_splits)
  have "\<forall>i < Suc (ijb_u32NumOfZone b). \<forall>j < Suc (ijb_u32NumOfZone b). i \<noteq> j \<longrightarrow>
      pool (zone_at (add_zone z b) i) \<inter> pool (zone_at (add_zone z b) j) = {}"
    using b apart by (auto simp: at less_Suc_eq buddy_inv_def Int_commute)
  moreover have "length (ijb_pbzZone (add_zone z b)) = length (ijb_pbzZone b)" by (simp add: add_zone_def)
  ultimately show "buddy_inv (add_zone z b)"
    using b n z(1) by (simp add: buddy_inv_def nz at less_Suc_eq)
qed

lemma rmqueueZone_cases:
  assumes b: "buddy_inv b" and i: "i < ijb_u32NumOfZone b"
  shows "rmqueueZone b i order = Some (None, b) \<or>
    (\<exists>p b'. rmqueueZone b i order = Some (Some (i, p), b') \<and> alloc_success m b order (i, p) b')"
proof -
  obtain r z' where r: "rmqueue (zone_at b i) order = (r, z')" by (cases "rmqueue (zone_at b i) order")
  note eq = rmqueueZone_eq [OF b i r] and good = buddy_invD(2) [OF b i]
  show ?thesis
  proof (cases r)
    case None
    then have "z' = zone_at b i" using rmqueue_None [OF zone_goodD(1) [OF good]] r by simp
    then show ?thesis using eq None put_zone_same [OF b i] by simp
  next
    case (Some p)
    then have "alloc_success m b order (i, p) (put_zone i z' b)"
      using b i r by (auto simp: alloc_success_def pools_grow_def)
    then show ?thesis using eq Some by auto
  qed
qed

lemma growZone_cases:
  assumes b: "buddy_inv b" and n: "ijb_u32NumOfZone b < MAX_BUDDY_ZONES" and m: "fresh_memory b m"
    and order: "order < ijb_u32MaxOrder b"
  shows "growZone m b order = Some (None, b) \<and> \<not> (calloc_zone m \<and> calloc_pages m \<and> alloc_pool m \<noteq> None) \<or>
    (\<exists>pg b'. growZone m b order = Some (Some pg, b') \<and> alloc_success m b order pg b')"
proof (cases "calloc_zone m \<and> calloc_pages m \<and> alloc_pool m \<noteq> None")
  case True
  let ?n = "ijb_u32NumOfZone b" and ?M = "ijb_u32MaxOrder b"
  have M: "0 < ?M" "?M \<le> JF_JIUKUN_MAX_PAGE_ORDER + 1" "?n < 256"
    using b n by (auto simp: buddy_inv_def MAX_BUDDY_ZONES_def)
  from True obtain a where a: "alloc_pool m = Some a" by auto
  obtain z where z: "createBuddyZone m ?M ?n = Some (Inr z)" "zone_inv z" "allocated z = {}" "bz_u32MaxOrder z = ?M"
      "\<forall>j < pages z. getJpZoneId (pflag z j) = ?n" "bz_pu8Pool z = a"
      "bz_pu8PoolEnd z = a + pages z * BUDDY_PAGE_SIZE" "free_blocks z = {(0, ?M - 1)}"
    using createBuddyZone_ok [OF _ _ a M] True by blast
  have good: "zone_good ?M ?n z" using z by (simp add: zone_good_def)
  have "\<forall>i < ?n. pool z \<inter> pool (zone_at b i) = {}"
    using m a z(6,7) zone_goodD(6) [OF good] by (simp add: fresh_memory_def pool_def)
  note add = buddy_inv_add [OF b n good z(3) this]
  have b0: "ijb_u32NumOfZone (add_zone z b) = Suc ?n" by (simp add: add_zone_def)
  have "zone_at (add_zone z b) i = zone_at b i" if "i < ?n" for i
    using that by (simp add: zone_at_def add_zone_def)
  then have pg: "pools_grow m b (add_zone z b)" using a z(6) add(3) b0 by (auto simp: pools_grow_def less_Suc_eq)
  obtain p z' where rm: "rmqueue z order = (Some p, z')"
    using rmqueue_new [OF z(2), of order] z(4,8) order by auto
  have "growZone m b order = rmqueueZone (add_zone z b) ?n order"
    by (simp add: growZone_def z(1) Let_def add_zone_def)
  moreover have "rmqueueZone (add_zone z b) ?n order = Some (Some (?n, p), put_zone ?n z' (add_zone z b))"
    using rmqueueZone_eq [OF add(1), of ?n] b0 rm add(3) by simp
  moreover have "alloc_success m b order (?n, p) (put_zone ?n z' (add_zone z b))"
    unfolding alloc_success_def using add b0 rm pg
    by (intro exI [of _ "add_zone z b"] exI [of _ z']) (simp add: add_zone_def)
  ultimately show ?thesis by auto
next
  case False
  then have "createBuddyZone m (ijb_u32MaxOrder b) (ijb_u32NumOfZone b) = Some (Inl JF_ERR_OUT_OF_MEMORY)"
    using b by (auto simp: createBuddyZone_def Let_def buddy_inv_def split: option.splits)
  with False show ?thesis by (simp add: growZone_def)
qed

lemma allocPages_cases:
  assumes b: "buddy_inv b" and m: "fresh_memory b m" and order: "order < ijb_u32MaxOrder b"
  shows "allocPages m b order = Some (None, b) \<and>
      (ijb_u32NumOfZone b = MAX_BUDDY_ZONES \<or> ijb_bNoGrow b \<or> \<not> (calloc_zone m \<and> calloc_pages m \<and> alloc_pool m \<noteq> None)) \<or>
    (\<exists>pg b'. allocPages m b order = Some (Some pg, b') \<and> alloc_success m b order pg b')"
proof -
  obtain r where r: "findZone (ijb_pbzZone b) (ijb_u32NumOfZone b) (push_bit order 1) 0 (- 1) None = Some r"
    and ri: "\<forall>i. r = Some i \<longrightarrow> i < ijb_u32NumOfZone b"
    using findZone_ok [OF b, of 0 None "push_bit order 1" "- 1"] by auto
  let ?stop = "ijb_u32NumOfZone b = MAX_BUDDY_ZONES \<or> ijb_bNoGrow b"
  let ?rest = "if ?stop then Some (None, b) else growZone m b order"
  have rest: "?rest = Some (None, b) \<and> (?stop \<or> \<not> (calloc_zone m \<and> calloc_pages m \<and> alloc_pool m \<noteq> None)) \<or>
      (\<exists>pg b'. ?rest = Some (Some pg, b') \<and> alloc_success m b order pg b')"
  proof (cases ?stop)
    case False
    then have "ijb_u32NumOfZone b < MAX_BUDDY_ZONES" using b by (auto simp: buddy_inv_def)
    with False growZone_cases [OF b _ m order] show ?thesis by simp
  qed simp
  consider "allocPages m b order = ?rest" |
      pg b' where "allocPages m b order = Some (Some pg, b')" "alloc_success m b order pg b'"
  proof (cases r)
    case (Some i)
    with ri rmqueueZone_cases [OF b, of i order m] r that show thesis by (auto simp: allocPages_def)
  qed (use r in \<open>simp add: allocPages_def\<close>)
  then show ?thesis using rest by cases (simp, blast)
qed

lemma updZone_put:
  assumes "buddy_inv b0" and "i < ijb_u32NumOfZone b0"
  shows "updZone i f (put_zone i z b0) = put_zone i (f z) b0"
  using buddy_invD(3) [OF assms] by (simp add: updZone_def put_zone_def)

lemma alloc_success_take:
  assumes s: "alloc_success m b order (i, p) b1" and order: "order < ijb_u32MaxOrder b"
    and b': "b' = updZone i (updPage p setJpAllocated) (updZone i (setPageOrder p order) b1)"
  shows "buddy_inv b' \<and> used b' = insert (i, p, order) (used b) \<and> (i, p, order) \<notin> used b \<and>
    ijb_bInitialized b' = ijb_bInitialized b \<and> ijb_u32MaxOrder b' = ijb_u32MaxOrder b \<and> pools_grow m b b'"
proof -
  from s obtain b0 z' where pg: "pools_grow m b b0" and b0: "buddy_inv b0" "used b0 = used b" "ijb_bInitialized b0 = ijb_bInitialized b"
      "ijb_u32MaxOrder b0 = ijb_u32MaxOrder b" "i < ijb_u32NumOfZone b0"
      "rmqueue (zone_at b0 i) order = (Some p, z')" "b1 = put_zone i z' b0"
    by (auto simp: alloc_success_def)
  note good = zone_goodD [OF buddy_invD(2) [OF b0(1,5)]]
  have eq: "b' = put_zone i (take_page p order z') b0"
    using b' b0(7) updZone_put [OF b0(1,5)] by (simp add: take_page_def)
  have t: "zone_inv (take_page p order z')" "same_frame (zone_at b0 i) (take_page p order z')"
      "allocated (take_page p order z') = insert (p, order) (allocated (zone_at b0 i))"
      "(p, order) \<notin> allocated (zone_at b0 i)"
      "\<forall>j. getJpZoneId (pflag (take_page p order z') j) = getJpZoneId (pflag (zone_at b0 i) j)"
    using zone_take [OF good(1) _ b0(6) refl] order b0(4) good(3) by auto
  have "used b' = insert (i, p, order) (used b)"
    using used_put(1) [OF b0(1,5) t(3)] b0(2) by (simp add: eq)
  moreover have "(i, p, order) \<notin> used b0" using t(4) by (simp add: used_def)
  then have "(i, p, order) \<notin> used b" by (subst (asm) b0(2))
  moreover have "bz_pu8Pool (zone_at b' j) = bz_pu8Pool (zone_at b0 j)" for j
    using t(2) zone_at_put [OF buddy_invD(3) [OF b0(1,5)]] by (simp add: eq same_frame_def)
  then have "pools_grow m b b'" using pg by (simp add: pools_grow_def eq)
  ultimately show ?thesis
    using buddy_inv_put [OF b0(1,5) t(1,2,5)] b0(3,4) by (simp add: eq)
qed

section \<open>Release and addresses\<close>

lemma pageFlag_eq:
  "buddy_inv b \<Longrightarrow> i < ijb_u32NumOfZone b \<Longrightarrow> pageFlag b (i, p) = Some (pflag (zone_at b i) p)"
  by (simp add: pageFlag_def buddy_invD(1) pflag_def)

lemma used_page:
  assumes b: "buddy_inv b" and u: "(i, p, k) \<in> used b"
  shows "i < ijb_u32NumOfZone b" "(p, k) \<in> allocated (zone_at b i)" "p + 2 ^ k \<le> pages (zone_at b i)"
    "p < pages (zone_at b i)" "isJpAllocated (pflag (zone_at b i) p)" "getJpOrder (pflag (zone_at b i) p) = k"
proof -
  show i: "i < ijb_u32NumOfZone b" and a: "(p, k) \<in> allocated (zone_at b i)" using u by (simp_all add: used_def)
  note ok = zone_goodD(2) [OF buddy_invD(2) [OF b i]]
  show "p + 2 ^ k \<le> pages (zone_at b i)" "p < pages (zone_at b i)"
    using zone_ok_page [OF ok, of p k] a by auto
  show "isJpAllocated (pflag (zone_at b i) p)" "getJpOrder (pflag (zone_at b i) p) = k"
    using a by (auto simp: allocated_def)
qed

lemma updZone_zone_at: "buddy_inv b \<Longrightarrow> i < ijb_u32NumOfZone b \<Longrightarrow> updZone i f b = put_zone i (f (zone_at b i)) b"
  using buddy_invD(1) [of b i] by (simp add: updZone_def put_zone_def)

lemma putJiukunPage_used:
  assumes b: "buddy_inv b" "ijb_bInitialized b" and u: "(i, p, k) \<in> used b"
  shows "\<exists>b'. putJiukunPage b (i, p) = Some b' \<and> buddy_inv b' \<and> used b' = used b - {(i, p, k)} \<and>
    ijb_bInitialized b' \<and> ijb_u32MaxOrder b' = ijb_u32MaxOrder b \<and> ijb_u32NumOfZone b' = ijb_u32NumOfZone b \<and>
    (\<forall>j. bz_pu8Pool (zone_at b' j) = bz_pu8Pool (zone_at b j))"
proof -
  note U = used_page [OF b(1) u]
  note good = buddy_invD(2) [OF b(1) U(1)]
  let ?z' = "freeOnePage (zone_at b i) p k"
  have put: "zone_inv ?z'" "same_frame (zone_at b i) ?z'" "allocated ?z' = allocated (zone_at b i) - {(p, k)}"
    "\<forall>j. getJpZoneId (pflag ?z' j) = getJpZoneId (pflag (zone_at b i) j)"
    using zone_put [OF zone_goodD(1) [OF good] U(2) refl] by blast+
  have "putJiukunPage b (i, p) = Some (put_zone i ?z' b)"
    using b U pageFlag_eq [OF b(1) U(1)] zone_goodD(4) [OF good U(4)]
    by (simp add: putJiukunPage_def Let_def updZone_zone_at)
  moreover have "bz_pu8Pool (zone_at (put_zone i ?z' b) j) = bz_pu8Pool (zone_at b j)" for j
    using put(2) zone_at_put [OF buddy_invD(3) [OF b(1) U(1)]] by (simp add: same_frame_def)
  ultimately show ?thesis
    using buddy_inv_put [OF b(1) U(1) put(1,2,4)] used_put(2) [OF b(1) U(1) put(3)] b(2) by simp
qed

lemma putJiukunPage_unused:
  assumes b: "buddy_inv b" and i: "i < ijb_u32NumOfZone b" and p: "p < pages (zone_at b i)"
    and u: "\<forall>k. (i, p, k) \<notin> used b"
  shows "putJiukunPage b (i, p) = None"
proof -
  have "\<not> isJpAllocated (pflag (zone_at b i) p)" using u i p by (auto simp: used_def allocated_def)
  then show ?thesis using pageFlag_eq [OF b i] by (simp add: putJiukunPage_def Let_def)
qed

lemma BUDDY_PAGE_SIZE_eq: "BUDDY_PAGE_SIZE = 4096"
  by (simp add: BUDDY_PAGE_SIZE_def JF_JIUKUN_PAGE_SHIFT_def push_bit_eq_mult)

lemma jiukunPageToAddr_eq:
  assumes "buddy_inv b" "ijb_bInitialized b" "i < ijb_u32NumOfZone b" "p < pages (zone_at b i)"
  shows "jiukunPageToAddr b (i, p) = Some (bz_pu8Pool (zone_at b i) + p * BUDDY_PAGE_SIZE)"
  using assms pageFlag_eq [OF assms(1,3)] zone_goodD(4) [OF buddy_invD(2) [OF assms(1,3)] assms(4)]
    buddy_invD(1) [OF assms(1,3)]
  by (simp add: jiukunPageToAddr_def)

lemma pools_disjoint:
  "buddy_inv b \<Longrightarrow> i < ijb_u32NumOfZone b \<Longrightarrow> j < ijb_u32NumOfZone b \<Longrightarrow> i \<noteq> j \<Longrightarrow>
   pool (zone_at b i) \<inter> pool (zone_at b j) = {}"
  by (simp add: buddy_inv_def)

lemma addrZone_loop_eq:
  assumes b: "buddy_inv b" and i: "i < ijb_u32NumOfZone b" and a: "a \<in> pool (zone_at b i)"
  shows "index \<le> i \<Longrightarrow> addrZone_loop b a index = Some (Some i)"
proof (induction "i - index" arbitrary: index)
  case 0
  then show ?case using i a buddy_invD(1) [OF b i] by (subst addrZone_loop.simps) (simp add: pool_def)
next
  case (Suc n)
  then have j: "index < i" "index < ijb_u32NumOfZone b" using i by auto
  then have "a \<notin> pool (zone_at b index)" using pools_disjoint [OF b i j(2)] a by blast
  with Suc j buddy_invD(1) [OF b j(2)] show ?case by (subst addrZone_loop.simps) (auto simp: pool_def)
qed

lemma page_in_pool:
  assumes "zone_good M i z" and "p < pages z" and "d < BUDDY_PAGE_SIZE"
  shows "bz_pu8Pool z + p * BUDDY_PAGE_SIZE + d \<in> pool z"
proof -
  have "(p + 1) * BUDDY_PAGE_SIZE \<le> pages z * BUDDY_PAGE_SIZE" using assms(2) by (intro mult_le_mono1) simp
  then show ?thesis using assms(3) zone_goodD(5) [OF assms(1)] by (simp add: pool_def)
qed

lemma addrToJiukunPage_eq:
  assumes b: "buddy_inv b" "ijb_bInitialized b" and i: "i < ijb_u32NumOfZone b" and p: "p < pages (zone_at b i)"
    and d: "d < BUDDY_PAGE_SIZE"
  shows "addrToJiukunPage b (bz_pu8Pool (zone_at b i) + p * BUDDY_PAGE_SIZE + d) = Some (i, p)"
proof -
  have "(p * BUDDY_PAGE_SIZE + d) div BUDDY_PAGE_SIZE = p" using d by simp
  then show ?thesis
    using addrZone_loop_eq [OF b(1) i page_in_pool [OF buddy_invD(2) [OF b(1) i] p d], of 0]
      buddy_invD(1) [OF b(1) i] b(2)
    by (simp add: addrToJiukunPage_def add.assoc)
qed

text \<open>The addresses of a block.\<close>

definition block_addrs :: "internal_jiukun_buddy \<Rightarrow> nat \<times> nat \<times> nat \<Rightarrow> nat set" where
  "block_addrs b u = (case u of (i, p, k) \<Rightarrow>
     {bz_pu8Pool (zone_at b i) + p * BUDDY_PAGE_SIZE ..< bz_pu8Pool (zone_at b i) + (p + 2 ^ k) * BUDDY_PAGE_SIZE})"

lemma block_addrs_pool:
  assumes b: "buddy_inv b" and u: "(i, p, k) \<in> used b"
  shows "block_addrs b (i, p, k) \<subseteq> pool (zone_at b i)"
proof -
  note U = used_page [OF b u]
  have "(p + 2 ^ k) * BUDDY_PAGE_SIZE \<le> pages (zone_at b i) * BUDDY_PAGE_SIZE" using U(3) by (intro mult_le_mono1)
  then show ?thesis
    using zone_goodD(5) [OF buddy_invD(2) [OF b U(1)]] by (auto simp: block_addrs_def pool_def)
qed

lemma block_addrs_disjoint:
  assumes b: "buddy_inv b" and u: "u \<in> used b" "v \<in> used b" "u \<noteq> v"
  shows "block_addrs b u \<inter> block_addrs b v = {}"
proof -
  obtain i p k j q l where uv: "u = (i, p, k)" "v = (j, q, l)" by (metis prod_cases3)
  note U = used_page [OF b u(1) [unfolded uv]] and V = used_page [OF b u(2) [unfolded uv]]
  show ?thesis
  proof (cases "i = j")
    case False
    then have "pool (zone_at b i) \<inter> pool (zone_at b j) = {}" using pools_disjoint [OF b U(1) V(1)] by simp
    then show ?thesis using block_addrs_pool [OF b] u uv by blast
  next
    case True
    then have "block (p, k) \<inter> block (q, l) = {}"
      using allocated_disjoint [OF zone_goodD(1) [OF buddy_invD(2) [OF b U(1)]] U(2), of "(q, l)"] V(2) u(3) uv by simp
    then have "\<not> (p \<le> q \<and> q < p + 2 ^ k)" "\<not> (q \<le> p \<and> p < q + 2 ^ l)"
      by (auto simp: disjoint_iff)
    then have "p + 2 ^ k \<le> q \<or> q + 2 ^ l \<le> p" by auto
    then have "(p + 2 ^ k) * BUDDY_PAGE_SIZE \<le> q * BUDDY_PAGE_SIZE \<or> (q + 2 ^ l) * BUDDY_PAGE_SIZE \<le> p * BUDDY_PAGE_SIZE"
      using mult_le_mono1 by blast
    then show ?thesis using True uv by (auto simp: block_addrs_def)
  qed
qed

section \<open>Start\<close>

lemma init_ok:
  assumes m: "calloc_zone m" "calloc_pages m" "alloc_pool m = Some a" and o: "0 < maxOrder" "maxOrder < JF_JIUKUN_MAX_PAGE_ORDER + 1"
  shows "\<exists>b. initJiukunBuddy m JF_ERR_NO_ERROR maxOrder noGrow ls_ijbBuddy = Some (JF_ERR_NO_ERROR, b) \<and>
    buddy_inv b \<and> used b = {} \<and> ijb_bInitialized b \<and> ijb_u32MaxOrder b = maxOrder + 1 \<and> ijb_u32NumOfZone b = 1 \<and>
    bz_pu8Pool (zone_at b 0) = a"
proof -
  obtain z where z: "createBuddyZone m (maxOrder + 1) 0 = Some (Inr z)" "zone_inv z" "allocated z = {}"
      "bz_u32MaxOrder z = maxOrder + 1" "\<forall>j < pages z. getJpZoneId (pflag z j) = 0"
      "bz_pu8PoolEnd z = bz_pu8Pool z + pages z * BUDDY_PAGE_SIZE" "bz_pu8Pool z = a"
    using createBuddyZone_ok [OF m, of "maxOrder + 1" 0] o by auto
  define b where "b = \<lparr>ijb_bInitialized = True, ijb_bNoGrow = noGrow, ijb_u32MaxOrder = maxOrder + 1,
     ijb_u32NumOfZone = 1, ijb_pbzZone = (replicate MAX_BUDDY_ZONES None)[0 := Some z]\<rparr>"
  have "initJiukunBuddy m JF_ERR_NO_ERROR maxOrder noGrow ls_ijbBuddy = Some (JF_ERR_NO_ERROR, b)"
    using z(1) o by (simp add: initJiukunBuddy_def ls_ijbBuddy_def b_def)
  moreover have at: "zone_at b 0 = z" by (simp add: zone_at_def b_def MAX_BUDDY_ZONES_def)
  moreover have "buddy_inv b" unfolding buddy_inv_def
    using z o at by (simp add: b_def zone_good_def MAX_BUDDY_ZONES_def)
  moreover have "used b = {}" using at z(3) by (auto simp: used_def b_def)
  moreover have "ijb_bInitialized b" "ijb_u32MaxOrder b = maxOrder + 1" "ijb_u32NumOfZone b = 1" by (simp_all add: b_def)
  ultimately show ?thesis using z(7) by auto
qed

lemma primes_nth:
  assumes "k < 15"
  shows "ls_u32OrderPrimes ! k = 2 ^ (k + 1) - 1"
proof -
  have "k = 0 \<or> k = 1 \<or> k = 2 \<or> k = 3 \<or> k = 4 \<or> k = 5 \<or> k = 6 \<or> k = 7 \<or> k = 8 \<or>
      k = 9 \<or> k = 10 \<or> k = 11 \<or> k = 12 \<or> k = 13 \<or> k = 14" using assms by presburger
  then show ?thesis by (elim disjE) (simp_all add: ls_u32OrderPrimes_def)
qed

lemma maxOrder_loop_ok:
  assumes "2 ^ k \<le> n" and "n < 2 ^ 15"
  shows "\<exists>j. maxOrder_loop n k = Some j \<and> 2 ^ j \<le> n \<and> n < 2 ^ (j + 1)"
  using assms(1)
proof (induction "15 - k" arbitrary: k)
  case 0
  then have "(2 :: nat) ^ 15 \<le> 2 ^ k" by (intro power_increasing) auto
  with 0 assms(2) show ?case by simp
next
  case (Suc d)
  then have k: "k < 15" by simp
  have le: "n > ls_u32OrderPrimes ! k \<longleftrightarrow> 2 ^ (k + 1) \<le> n"
    using primes_nth [OF k] zero_less_power [of "2 :: nat" "k + 1"] by linarith
  have len: "k < length ls_u32OrderPrimes" using k by (simp add: ls_u32OrderPrimes_def)
  show ?case
  proof (cases "2 ^ (k + 1) \<le> n")
    case True
    then obtain j where "maxOrder_loop n (k + 1) = Some j" "2 ^ j \<le> n" "n < 2 ^ (j + 1)"
      using Suc.hyps(1) [of "k + 1"] Suc.hyps(2) k by force
    with True le len show ?thesis by (subst maxOrder_loop.simps) auto
  next
    case False
    with le len Suc.prems show ?thesis by (subst maxOrder_loop.simps) auto
  qed
qed

lemma zone_alloc_possible:
  assumes inv: "zone_inv z" and tot: "0 < free_total z"
  shows "\<exists>b z'. zone_alloc 0 z = Some (b, z')"
proof -
  have ok: "zone_ok z (allocated z)" using inv by (simp add: zone_inv_def)
  obtain r z' where r: "rmqueue z 0 = (r, z')" by (cases "rmqueue z 0")
  have post: "rm_post z (allocated z) 0 0 (r, z')"
    using rmqueue_loop_post [OF ok zone_inv_marked order_refl, of 0] r by (simp add: rmqueue_def)
  have "r \<noteq> None"
  proof
    assume "r = None"
    then have "freelist z k = []" if "k < bz_u32MaxOrder z" for k using post that by (simp add: rm_post_def)
    moreover have "k < bz_u32MaxOrder z" if "k < areas z" "i \<in> set (freelist z k)" for i k
      using zone_ok_page(1) [OF ok, of i k] that by (simp add: mem_free_blocks)
    ultimately have "\<forall>k < areas z. freelist z k = []" by (metis list.set_intros(1) neq_Nil_conv)
    with tot show False by (simp add: free_total_def)
  qed
  with r show ?thesis by (auto simp: zone_alloc_def)
qed

lemma distinct_set_singleton:
  assumes "distinct xs" and "set xs = {x}"
  shows "xs = [x]"
proof -
  have "length xs = 1" using distinct_card [OF assms(1)] assms(2) by simp
  with assms(2) show ?thesis by (cases xs) auto
qed

lemma all_free_total:
  assumes "zone_inv z" and "allocated z = {}"
  shows "free_total z = 2 ^ (bz_u32MaxOrder z - 1)"
proof -
  note fb = zone_all_free [OF assms]
  have ok: "zone_ok z {}" using assms by (simp add: zone_inv_def)
  have "freelist z k = (if k = bz_u32MaxOrder z - 1 then [0] else [])" if "k < areas z" for k
  proof -
    have "i \<in> set (freelist z k) \<longleftrightarrow> i = 0 \<and> k = bz_u32MaxOrder z - 1" for i
      using mem_free_blocks [of i k z] that by (simp add: fb)
    then have "set (freelist z k) = (if k = bz_u32MaxOrder z - 1 then {0} else {})" by (simp add: set_eq_iff)
    then show ?thesis using distinct_set_singleton [OF zone_okD(4) [OF ok that]] by (simp split: if_splits)
  qed
  then have "free_total z = (\<Sum>k<areas z. if k = bz_u32MaxOrder z - 1 then 2 ^ (bz_u32MaxOrder z - 1) else 0)"
    unfolding free_total_def by (intro sum.cong) auto
  moreover have "bz_u32MaxOrder z - 1 < areas z"
    using zone_shapeD(1,2) [OF zone_okD(1) [OF ok]] by simp
  ultimately show ?thesis by simp
qed

lemma list_update_replicate: "(replicate n x)[i := x] = replicate n x"
  using list_update_id [of "replicate n x" i] by (cases "i < n") (simp_all add: list_update_beyond)

section \<open>Properties\<close>


definition demo_memory :: zone_memory where
  "demo_memory = \<lparr>calloc_zone = True, calloc_pages = True, alloc_pool = Some 65536\<rparr>"

lemma demo_start:
  "\<exists>b. initJiukunBuddy demo_memory JF_ERR_NO_ERROR 8 True ls_ijbBuddy = Some (JF_ERR_NO_ERROR, b) \<and>
    buddy_inv b \<and> used b = {} \<and> ijb_bInitialized b \<and> ijb_u32MaxOrder b = 9 \<and> ijb_u32NumOfZone b = 1"
  using init_ok [of demo_memory 65536 8 True] by (auto simp: demo_memory_def JF_JIUKUN_MAX_PAGE_ORDER_def)

definition no_memory :: zone_memory where
  "no_memory = \<lparr>calloc_zone = False, calloc_pages = False, alloc_pool = None\<rparr>"


text \<open>
  (C4) Releasing a block in use keeps the invariant and removes exactly that block from the blocks in
  use; releasing a page that is not the first page of a block in use (a second release, for example)
  aborts.
\<close>

theorem putJiukunPage_correct:
  assumes "buddy_inv b" and "ijb_bInitialized b" and "i < ijb_u32NumOfZone b" and "p < pages (zone_at b i)"
  shows "if \<exists>k. (i, p, k) \<in> used b
    then \<exists>k b'. putJiukunPage b (i, p) = Some b' \<and> (i, p, k) \<in> used b \<and> buddy_inv b' \<and>
      used b' = used b - {(i, p, k)} \<and> putJiukunPage b' (i, p) = None
    else putJiukunPage b (i, p) = None"
proof (cases "\<exists>k. (i, p, k) \<in> used b")
  case True
  then obtain k where k: "(i, p, k) \<in> used b" by blast
  obtain b' where b': "putJiukunPage b (i, p) = Some b'" "buddy_inv b'" "used b' = used b - {(i, p, k)}"
    using putJiukunPage_used [OF assms(1,2) k] by blast
  note put = b'(1) and U = used_page [OF assms(1)]
  have "\<forall>l. (i, p, l) \<notin> used b'" using b'(3) U(6) [OF k] U(6) by auto
  moreover have frame: "i < ijb_u32NumOfZone b'" "p < pages (zone_at b' i)"
  proof -
    have eq: "b' = put_zone i (freeOnePage (zone_at b i) p (getJpOrder (pflag (zone_at b i) p))) b"
      using put pageFlag_eq [OF assms(1,3)] zone_goodD(4) [OF buddy_invD(2) [OF assms(1,3)] assms(4)]
      by (auto simp: putJiukunPage_def Let_def updZone_zone_at [OF assms(1,3)] split: if_splits)
    have "same_frame (zone_at b i) (freeOnePage (zone_at b i) p k)"
      using zone_put [OF zone_goodD(1) [OF buddy_invD(2) [OF assms(1,3)]] U(2) [OF k] refl] by blast
    then show "i < ijb_u32NumOfZone b'" "p < pages (zone_at b' i)"
      using assms(3,4) U(6) [OF k] buddy_invD(3) [OF assms(1,3)] by (simp_all add: eq same_frame_def)
  qed
  ultimately have "putJiukunPage b' (i, p) = None" using putJiukunPage_unused [OF b'(2)] by blast
  with True b' k show ?thesis by auto
next
  case False
  then show ?thesis using putJiukunPage_unused [OF assms(1,3,4)] by simp
qed

theorem putJiukunPage_correct_witness:
  "\<exists>b. initJiukunBuddy demo_memory JF_ERR_NO_ERROR 8 True ls_ijbBuddy = Some (JF_ERR_NO_ERROR, b) \<and>
    putJiukunPage b (0, 0) = None"
proof -
  obtain b where b: "initJiukunBuddy demo_memory JF_ERR_NO_ERROR 8 True ls_ijbBuddy = Some (JF_ERR_NO_ERROR, b)"
    "buddy_inv b" "used b = {}" "ijb_bInitialized b" "ijb_u32NumOfZone b = 1" using demo_start by blast
  have "0 < pages (zone_at b 0)" using zone_goodD(6) [OF buddy_invD(2) [OF b(2), of 0]] b(5) by simp
  then show ?thesis using putJiukunPage_correct [of b 0 0] b by simp
qed

text \<open>
  (C15) \<^verbatim>\<open>_rmqueue\<close> finds a block whenever there is one: it fails only if no free list of the requested
  or a higher order has an entry, and then leaves the zone as it was. A block it takes comes out of
  a free block, and the counter of free pages and the free lists shrink by exactly its size.
\<close>

theorem rmqueue_complete:
  assumes "zone_inv z" and "order < bz_u32MaxOrder z"
  shows "case rmqueue z order of
      (None, z') \<Rightarrow> z' = z \<and> (\<forall>k. order \<le> k \<and> k < bz_u32MaxOrder z \<longrightarrow> freelist z k = [])
    | (Some p, z') \<Rightarrow> (\<exists>k \<ge> order. (p, k) \<in> free_blocks z) \<and> free_total z = free_total z' + 2 ^ order \<and>
        bz_u32FreePages z' = of_nat (free_total z')"
proof -
  have ok: "zone_ok z (allocated z)" and fp: "bz_u32FreePages z = of_nat (free_total z)"
    using assms(1) by (simp_all add: zone_inv_def)
  obtain r z' where r: "rmqueue z order = (r, z')" by (cases "rmqueue z order")
  have "rm_post z (allocated z) order order (r, z')"
    using rmqueue_loop_post [OF ok zone_inv_marked order_refl, of order] r by (simp add: rmqueue_def)
  then show ?thesis using r fp by (cases r) (auto simp: rm_post_def)
qed

definition demo_zone :: buddy_zone where
  "demo_zone = (case createBuddyZone demo_memory 3 0 of Some (Inr z) \<Rightarrow> z)"

lemma demo_zone_inv: "zone_inv demo_zone \<and> bz_u32MaxOrder demo_zone = 3 \<and> allocated demo_zone = {}"
proof -
  obtain z where "createBuddyZone demo_memory 3 0 = Some (Inr z)" "zone_inv z" "allocated z = {}" "bz_u32MaxOrder z = 3"
    using createBuddyZone_ok [of demo_memory 65536 3 0] by (auto simp: demo_memory_def JF_JIUKUN_MAX_PAGE_ORDER_def)
  then show ?thesis by (simp add: demo_zone_def)
qed

theorem rmqueue_complete_witness:
  "case rmqueue demo_zone 1 of
     (None, z') \<Rightarrow> z' = demo_zone
   | (Some p, z') \<Rightarrow> free_total demo_zone = free_total z' + 2 ^ 1"
  using rmqueue_complete [of demo_zone 1] demo_zone_inv by (simp split: prod.splits option.splits)




lemma two_blocks:
  "\<exists>b u v. buddy_inv b \<and> ijb_bInitialized b \<and> ijb_u32NumOfZone b = 1 \<and> u \<in> used b \<and> v \<in> used b \<and> u \<noteq> v \<and>
     0 < pages (zone_at b 0)"
proof -
  obtain b where b: "buddy_inv b" "used b = {}" "ijb_bInitialized b" "ijb_u32MaxOrder b = 9" "ijb_u32NumOfZone b = 1"
    using demo_start by blast
  let ?z = "zone_at b 0"
  note good = buddy_invD(2) [OF b(1), of 0, unfolded b, simplified]
  have "allocated ?z = {}" using b(2,5) by (auto simp: used_def)
  then have tot: "free_total ?z = 256" using all_free_total zone_goodD(1,3) [OF good] by simp
  obtain x z1 where z1: "zone_alloc 0 ?z = Some (x, z1)"
    using zone_alloc_possible [OF zone_goodD(1) [OF good]] tot by auto
  note A = zone_allocD [OF zone_goodD(1) [OF good] _ z1, unfolded zone_goodD(3) [OF good], simplified]
  then have M1: "bz_u32MaxOrder z1 = 9" using zone_goodD(3) [OF good] by (simp add: same_frame_def)
  obtain y z2 where z2: "zone_alloc 0 z1 = Some (y, z2)" using zone_alloc_possible [of z1] A tot by auto
  have B: "zone_inv z2" "same_frame z1 z2" "allocated z2 = insert y (allocated z1)" "y \<notin> allocated z1"
    "\<forall>j. getJpZoneId (pflag z2 j) = getJpZoneId (pflag z1 j)"
    using zone_allocD [OF _ _ z2] A M1 by auto
  have "buddy_inv (put_zone 0 z2 b)"
    using buddy_inv_put [OF b(1), of 0 z2] b(5) A B same_frame_trans [of ?z z1 z2] by simp
  moreover have "(0, x) \<in> used (put_zone 0 z2 b)" "(0, y) \<in> used (put_zone 0 z2 b)" "x \<noteq> y"
    using A B b buddy_invD(3) [OF b(1), of 0] by (auto simp: mem_used)
  moreover have "0 < pages (zone_at (put_zone 0 z2 b) 0)"
    using A B(2) zone_goodD(6) [OF good] buddy_invD(3) [OF b(1), of 0] b(5) by (simp add: same_frame_def)
  ultimately show ?thesis
    using b(3,5) by (intro exI [of _ "put_zone 0 z2 b"] exI [of _ "(0, x)"] exI [of _ "(0, y)"]) simp
qed


text \<open>
  \<^verbatim>\<open>initJiukunBuddy\<close> works for every order from 1 to 14 when memory is available. Its assertion
  also admits the order 15, for which the creation of the first zone writes the free area with index
  15 of an array of 15 entries.
\<close>

lemma initJiukunBuddy_order_range:
  assumes "calloc_zone m" and "calloc_pages m" and "alloc_pool m = Some a"
  shows "(\<forall>n\<in>{1..14}. \<exists>b. initJiukunBuddy m JF_ERR_NO_ERROR n noGrow ls_ijbBuddy = Some (JF_ERR_NO_ERROR, b) \<and>
      buddy_inv b \<and> used b = {}) \<and>
    15 \<le> JF_JIUKUN_MAX_PAGE_ORDER + 1 \<and> createBuddyZone m (15 + 1) 0 = None \<and>
    initJiukunBuddy m JF_ERR_NO_ERROR 15 noGrow ls_ijbBuddy = None"
proof (intro conjI ballI)
  fix k :: nat assume "k \<in> {1..14}"
  then show "\<exists>b. initJiukunBuddy m JF_ERR_NO_ERROR k noGrow ls_ijbBuddy = Some (JF_ERR_NO_ERROR, b) \<and>
      buddy_inv b \<and> used b = {}"
    using init_ok [OF assms, of k noGrow] by (auto simp: JF_JIUKUN_MAX_PAGE_ORDER_def)
next
  show "15 \<le> JF_JIUKUN_MAX_PAGE_ORDER + 1" by (simp add: JF_JIUKUN_MAX_PAGE_ORDER_def)
  show "createBuddyZone m (15 + 1) 0 = None"
    using assms by (simp add: createBuddyZone_def JF_JIUKUN_MAX_PAGE_ORDER_def Let_def)
  then show "initJiukunBuddy m JF_ERR_NO_ERROR 15 noGrow ls_ijbBuddy = None"
    by (simp add: initJiukunBuddy_def Let_def)
qed

text \<open>
  (C33) \<^verbatim>\<open>finiJiukunBuddy\<close> destroys the zones and does not reset their number: after the allocator has
  been initialised, finalised and initialised again, it counts a zone whose pointer is null, and the
  next allocation of any valid order reads through that pointer.
\<close>

theorem buddy_restart_crashes:
  assumes "calloc_zone m" and "calloc_pages m" and "alloc_pool m = Some a" and "order \<le> n" and "0 < n" and "n \<le> 14"
  shows "\<exists>b1 b2 b3. initJiukunBuddy m JF_ERR_NO_ERROR n noGrow ls_ijbBuddy = Some (JF_ERR_NO_ERROR, b1) \<and>
    finiJiukunBuddy b1 = Some b2 \<and> initJiukunBuddy m JF_ERR_NO_ERROR n noGrow b2 = Some (JF_ERR_NO_ERROR, b3) \<and>
    getJiukunPage mem reap b3 order flag = Some None"
proof -
  obtain z where z: "createBuddyZone m (n + 1) 0 = Some (Inr z)"
    using createBuddyZone_ok [OF assms(1-3), of "n + 1" 0] assms(5,6) by (auto simp: JF_JIUKUN_MAX_PAGE_ORDER_def)
  define b1 where "b1 = \<lparr>ijb_bInitialized = True, ijb_bNoGrow = noGrow, ijb_u32MaxOrder = n + 1,
     ijb_u32NumOfZone = 1, ijb_pbzZone = (replicate 20 None)[0 := Some z]\<rparr>"
  define b2 where "b2 = b1\<lparr>ijb_bInitialized := False, ijb_pbzZone := replicate 20 None\<rparr>"
  define b3 where "b3 = b1\<lparr>ijb_u32NumOfZone := 2\<rparr>"
  have le: "n \<le> JF_JIUKUN_MAX_PAGE_ORDER + 1" using assms(6) by (simp add: JF_JIUKUN_MAX_PAGE_ORDER_def)
  have i1: "initJiukunBuddy m JF_ERR_NO_ERROR n noGrow ls_ijbBuddy = Some (JF_ERR_NO_ERROR, b1)"
    using z le assms(5) by (simp add: initJiukunBuddy_def ls_ijbBuddy_def b1_def MAX_BUDDY_ZONES_def)
  have i2: "finiJiukunBuddy b1 = Some b2"
    by (simp add: finiJiukunBuddy_def b1_def b2_def destroyBuddyZone_def list_update_replicate)
  have i3: "initJiukunBuddy m JF_ERR_NO_ERROR n noGrow b2 = Some (JF_ERR_NO_ERROR, b3)"
    using z le assms(5) by (simp add: initJiukunBuddy_def b1_def b2_def b3_def)
  have "ijb_pbzZone b3 ! 1 = None" "ijb_u32NumOfZone b3 = 2" by (simp_all add: b3_def b1_def)
  then have f1: "findZone (ijb_pbzZone b3) (ijb_u32NumOfZone b3) pgs 1 lft zid = None" for pgs lft zid
    by (subst findZone.simps) simp
  have "ijb_pbzZone b3 ! 0 = Some z" by (simp add: b3_def b1_def)
  with f1 have "findZone (ijb_pbzZone b3) (ijb_u32NumOfZone b3) pgs 0 lft zid = None" for pgs lft zid
    by (subst findZone.simps) (simp add: b3_def)
  then have "allocPages (mem 0) b3 order = None" by (simp add: allocPages_def)
  then have "getJiukunPage mem reap b3 order flag = Some None"
    using assms(4) getPage_loop.simps [of mem reap order flag 0 b3]
    by (simp add: getJiukunPage_def) (simp add: b3_def b1_def)
  with i1 i2 i3 show ?thesis by blast
qed

theorem buddy_restart_crashes_witness:
  "\<exists>b1 b2 b3. initJiukunBuddy demo_memory JF_ERR_NO_ERROR 8 True ls_ijbBuddy = Some (JF_ERR_NO_ERROR, b1) \<and>
    finiJiukunBuddy b1 = Some b2 \<and> initJiukunBuddy demo_memory JF_ERR_NO_ERROR 8 True b2 = Some (JF_ERR_NO_ERROR, b3) \<and>
    getJiukunPage (\<lambda>_. no_memory) (\<lambda>b. b) b3 3 0 = Some None"
  by (rule buddy_restart_crashes [of _ 65536]) (simp_all add: demo_memory_def)

text \<open>
  The pool that \<^verbatim>\<open>jf_jiukun_init\<close> sets up for a requested size has the largest power of two of
  pages that is not larger than the request: the order is within the range the page allocator
  supports, and the request is less than twice the pool.
\<close>

lemma jiukun_pool_order:
  assumes "MIN_JIUKUN_POOL_SIZE \<le> sPool" and "sPool \<le> JF_JIUKUN_MAX_POOL_SIZE"
  shows "\<exists>k. maxOrder_loop (sizeToPages sPool) 0 = Some k \<and> 0 < k \<and> k \<le> JF_JIUKUN_MAX_PAGE_ORDER \<and>
    2 ^ k \<le> sizeToPages sPool \<and> sizeToPages sPool < 2 ^ (k + 1)"
proof -
  let ?n = "sizeToPages sPool"
  have n: "256 \<le> ?n" "?n \<le> 16384"
    using assms by (simp_all add: sizeToPages_def BUDDY_PAGE_SIZE_eq MIN_JIUKUN_POOL_SIZE_def
        JF_JIUKUN_MAX_POOL_SIZE_def JF_JIUKUN_MAX_PAGE_ORDER_def push_bit_eq_mult)
  then obtain k where k: "maxOrder_loop ?n 0 = Some k" "2 ^ k \<le> ?n" "?n < 2 ^ (k + 1)"
    using maxOrder_loop_ok [of 0 ?n] by auto
  have "k \<noteq> 0" using k(3) n(1) by (cases k) auto
  moreover have "k \<le> 14"
  proof (rule ccontr)
    assume "\<not> k \<le> 14"
    then have "(2 :: nat) ^ 15 \<le> 2 ^ k" by (intro power_increasing) auto
    with k(2) n(2) show False by simp
  qed
  ultimately show ?thesis using k by (auto simp: JF_JIUKUN_MAX_PAGE_ORDER_def)
qed

end
