(* ===== verification/Jf_Slab_Buddy.thy ===== *)
theory Jf_Slab_Buddy
  imports Jf_Slab_Init Jf_Buddy_Alloc
begin

text \<open>
  The object caches on the page allocator: the model of \<^verbatim>\<open>buddy.c\<close> keeps the contract \<open>page_provider\<close> of the caches, and the memory of a new
  zone comes from the operating system, whose contract is the locale \<open>os_memory\<close>.
\<close>

section \<open>Memory of the operating system\<close>

text \<open>\<open>osmem b\<close> is what the operating system gives when the allocator \<open>b\<close> asks for the memory of one more zone.\<close>

locale os_memory =
  fixes osmem :: "internal_jiukun_buddy \<Rightarrow> zone_memory"
  assumes os_fresh: "buddy_inv b \<Longrightarrow> fresh_memory b (osmem b)"
    and os_positive: "alloc_pool (osmem b) = Some a \<Longrightarrow> 0 < a"

definition buddy_ops :: "(internal_jiukun_buddy \<Rightarrow> zone_memory) \<Rightarrow> internal_jiukun_buddy page_ops" where
  "buddy_ops osmem =
     \<lparr>po_alloc = (\<lambda>b order. Option.bind (jf_jiukun_allocPage (\<lambda>_. osmem b) (\<lambda>b. b) b order 0) (\<lambda>r. r)),
      po_free = jf_jiukun_freePage, po_page = addrToJiukunPage\<rparr>"

definition buddy_pok :: "internal_jiukun_buddy \<Rightarrow> bool" where
  "buddy_pok b \<longleftrightarrow> buddy_inv b \<and> ijb_bInitialized b \<and> (\<forall>i < ijb_u32NumOfZone b. 0 < bz_pu8Pool (zone_at b i))"

definition page_addr :: "internal_jiukun_buddy \<Rightarrow> nat \<Rightarrow> nat \<Rightarrow> addr" where
  "page_addr b i p = bz_pu8Pool (zone_at b i) + p * BUDDY_PAGE_SIZE"

definition buddy_held :: "internal_jiukun_buddy \<Rightarrow> (addr \<times> nat) set" where
  "buddy_held b = {(page_addr b i p, k) | i p k. (i, p, k) \<in> used b}"

lemma buddy_pokD:
  assumes "buddy_pok b"
  shows "buddy_inv b" "ijb_bInitialized b" "i < ijb_u32NumOfZone b \<Longrightarrow> 0 < bz_pu8Pool (zone_at b i)"
  using assms by (simp_all add: buddy_pok_def)

lemma heldI: "(i, p, k) \<in> used b \<Longrightarrow> (page_addr b i p, k) \<in> buddy_held b"
  by (auto simp: buddy_held_def)

lemma heldE:
  assumes "u \<in> buddy_held b"
  obtains i p k where "u = (page_addr b i p, k)" "(i, p, k) \<in> used b"
  using assms by (auto simp: buddy_held_def)

lemma blk_addrs: "blk (page_addr b i p, k) = block_addrs b (i, p, k)"
  by (simp add: blk_def page_addr_def block_addrs_def algebra_simps)

text \<open>A block in use is known by its address.\<close>

lemma held_inj:
  assumes b: "buddy_inv b" and u: "(i, p, k) \<in> used b" "(j, q, l) \<in> used b" and eq: "page_addr b i p = page_addr b j q"
  shows "(i, p, k) = (j, q, l)"
proof (rule ccontr)
  assume "(i, p, k) \<noteq> (j, q, l)"
  then have "blk (page_addr b i p, k) \<inter> blk (page_addr b i p, l) = {}"
    using block_addrs_disjoint [OF b u] eq by (metis blk_addrs)
  moreover have "page_addr b i p \<in> blk (page_addr b i p, m)" for m using blk_page [of "(page_addr b i p, m)" "page_addr b i p" m 0] by simp
  ultimately show False by blast
qed

lemma held_insert:
  assumes "used b' = insert (i, p, k) (used b)" "\<And>j q l. (j, q, l) \<in> used b \<Longrightarrow> page_addr b' j q = page_addr b j q"
  shows "buddy_held b' = insert (page_addr b' i p, k) (buddy_held b)"
proof (intro equalityI subsetI)
  fix u
  assume "u \<in> buddy_held b'"
  then show "u \<in> insert (page_addr b' i p, k) (buddy_held b)"
    by (elim heldE) (use assms heldI in fastforce)
next
  fix u
  assume "u \<in> insert (page_addr b' i p, k) (buddy_held b)"
  moreover have "(page_addr b' i p, k) \<in> buddy_held b'" using assms(1) by (intro heldI) simp
  moreover have "u \<in> buddy_held b'" if mem: "u \<in> buddy_held b"
  proof -
    obtain j q l where u: "u = (page_addr b j q, l)" "(j, q, l) \<in> used b" using mem by (rule heldE)
    then show ?thesis using assms heldI [of j q l b'] by simp
  qed
  ultimately show "u \<in> buddy_held b'" by blast
qed

lemma held_remove:
  assumes b: "buddy_inv b" "(i, p, k) \<in> used b" and b': "used b' = used b - {(i, p, k)}" "\<And>j q. page_addr b' j q = page_addr b j q"
  shows "buddy_held b' = buddy_held b - {(page_addr b i p, k)}"
proof (intro equalityI subsetI)
  fix u
  assume "u \<in> buddy_held b'"
  then obtain j q l where u: "u = (page_addr b j q, l)" "(j, q, l) \<in> used b" "(j, q, l) \<noteq> (i, p, k)" using b' by (elim heldE) auto
  then show "u \<in> buddy_held b - {(page_addr b i p, k)}" using heldI [OF u(2)] held_inj [OF b(1) u(2) b(2)] by auto
next
  fix u
  assume u: "u \<in> buddy_held b - {(page_addr b i p, k)}"
  then have "u \<in> buddy_held b" by simp
  then obtain j q l where "u = (page_addr b j q, l)" "(j, q, l) \<in> used b" by (rule heldE)
  then show "u \<in> buddy_held b'" using u b' heldI [of j q l b'] by auto
qed

section \<open>Pages of a block\<close>

lemma block_page:
  assumes b: "buddy_pok b" and u: "(i, p, k) \<in> used b" and j: "j < 2 ^ k * BUDDY_PAGE_SIZE"
  shows "addrToJiukunPage b (page_addr b i p + j) = Some (i, p + j div BUDDY_PAGE_SIZE)"
proof -
  note U = used_page [OF buddy_pokD(1) [OF b] u]
  have "j div BUDDY_PAGE_SIZE < 2 ^ k" using j by (simp add: div_less_iff_less_mult)
  then have "p + j div BUDDY_PAGE_SIZE < pages (zone_at b i)" using U(3) by simp
  moreover have "page_addr b i p + j = bz_pu8Pool (zone_at b i) + (p + j div BUDDY_PAGE_SIZE) * BUDDY_PAGE_SIZE + j mod BUDDY_PAGE_SIZE"
    by (simp add: page_addr_def distrib_right)
  ultimately show ?thesis using addrToJiukunPage_eq [OF buddy_pokD(1,2) [OF b] U(1), of _ "j mod BUDDY_PAGE_SIZE"] by simp
qed

lemma blk_split:
  assumes "x \<in> blk (a, k)"
  obtains j where "x = a + j" "j < 2 ^ k * BUDDY_PAGE_SIZE"
  using assms that [of "x - a"] by (auto simp: blk_def)

lemma blocks_pages_apart:
  assumes b: "buddy_pok b" and uv: "u \<in> buddy_held b" "v \<in> buddy_held b" "u \<noteq> v"
  shows "blk u \<inter> blk v = {}" "x \<in> blk u \<Longrightarrow> y \<in> blk v \<Longrightarrow> addrToJiukunPage b x \<noteq> addrToJiukunPage b y"
proof -
  obtain i p k where u: "u = (page_addr b i p, k)" "(i, p, k) \<in> used b" using uv(1) by (rule heldE)
  obtain j q l where v: "v = (page_addr b j q, l)" "(j, q, l) \<in> used b" using uv(2) by (rule heldE)
  have ne: "(i, p, k) \<noteq> (j, q, l)" using uv(3) u(1) v(1) by auto
  show dis: "blk u \<inter> blk v = {}" using block_addrs_disjoint [OF buddy_pokD(1) [OF b] u(2) v(2) ne] unfolding u(1) v(1) blk_addrs .
  show "addrToJiukunPage b x \<noteq> addrToJiukunPage b y" if xy: "x \<in> blk u" "y \<in> blk v"
  proof
    assume eq: "addrToJiukunPage b x = addrToJiukunPage b y"
    obtain m where m: "x = page_addr b i p + m" "m < 2 ^ k * BUDDY_PAGE_SIZE" using xy(1) unfolding u(1) by (rule blk_split)
    obtain n where n: "y = page_addr b j q + n" "n < 2 ^ l * BUDDY_PAGE_SIZE" using xy(2) unfolding v(1) by (rule blk_split)
    have pq: "j = i" "p + m div BUDDY_PAGE_SIZE = q + n div BUDDY_PAGE_SIZE"
      using eq block_page [OF b u(2) m(2)] block_page [OF b v(2) n(2)] m(1) n(1) by auto
    then have "page_addr b i p + m div BUDDY_PAGE_SIZE * BUDDY_PAGE_SIZE = page_addr b j q + n div BUDDY_PAGE_SIZE * BUDDY_PAGE_SIZE"
      by (simp add: page_addr_def distrib_right [symmetric])
    moreover have "page_addr b i p + m div BUDDY_PAGE_SIZE * BUDDY_PAGE_SIZE \<in> blk u"
      using m(2) by (simp add: u(1) blk_def div_less_iff_less_mult)
    moreover have "page_addr b j q + n div BUDDY_PAGE_SIZE * BUDDY_PAGE_SIZE \<in> blk v"
      using n(2) by (simp add: v(1) blk_def div_less_iff_less_mult)
    ultimately show False using dis by (metis IntI empty_iff)
  qed
qed

section \<open>One attempt to get a block\<close>

text \<open>A block that was not in use is in use now, and the others are where they were.\<close>

definition block_taken :: "zone_memory \<Rightarrow> internal_jiukun_buddy \<Rightarrow> nat \<Rightarrow> nat \<Rightarrow> nat \<Rightarrow> internal_jiukun_buddy \<Rightarrow> bool" where
  "block_taken m b k i p b' \<longleftrightarrow> buddy_inv b' \<and> ijb_bInitialized b' \<and> pools_grow m b b' \<and> (i, p, k) \<notin> used b \<and>
     used b' = insert (i, p, k) (used b)"

lemma getJiukunPage_attempt:
  assumes b: "buddy_inv b" "ijb_bInitialized b" and m: "fresh_memory b m"
  shows "(\<exists>r. r \<noteq> JF_ERR_NO_ERROR \<and> getJiukunPage (\<lambda>_. m) (\<lambda>b. b) b k 0 = Some (Some (r, None, b))) \<or>
    (\<exists>i p b'. getJiukunPage (\<lambda>_. m) (\<lambda>b. b) b k 0 = Some (Some (JF_ERR_NO_ERROR, Some (i, p), b')) \<and> block_taken m b k i p b')"
proof (cases "k \<ge> ijb_u32MaxOrder b")
  case True
  then show ?thesis using b(2) by (simp add: getJiukunPage_def)
next
  case False
  have flag: "JF_FLAG_GET 0 JF_JIUKUN_PAGE_ALLOC_FLAG_WAIT = 0" by (simp add: JF_FLAG_GET_bit)
  note loop = getPage_loop.simps [of "\<lambda>_. m" "\<lambda>b. b" k 0 0 b]
  consider "allocPages m b k = Some (None, b)" | i p b1 where "allocPages m b k = Some (Some (i, p), b1)" "alloc_success m b k (i, p) b1"
    using allocPages_cases [OF b(1) m, of k] False by (auto simp: not_le)
  then show ?thesis
  proof cases
    case 1
    then have "getJiukunPage (\<lambda>_. m) (\<lambda>b. b) b k 0 = Some (Some (JF_ERR_JIUKUN_OUT_OF_MEMORY, None, b))"
      using False b(2) loop flag by (simp add: getJiukunPage_def Let_def)
    then show ?thesis by auto
  next
    case (2 i p b1)
    define b' where "b' = updZone i (updPage p setJpAllocated) (updZone i (setPageOrder p k) b1)"
    have "getJiukunPage (\<lambda>_. m) (\<lambda>b. b) b k 0 = Some (Some (JF_ERR_NO_ERROR, Some (i, p), b'))"
      using 2 False b(2) loop by (simp add: getJiukunPage_def Let_def b'_def)
    moreover have "block_taken m b k i p b'"
      using alloc_success_take [OF 2(2) _ b'_def] False b(2) by (simp add: block_taken_def)
    ultimately show ?thesis by blast
  qed
qed

context os_memory
begin

abbreviation "ops \<equiv> buddy_ops osmem"

lemma attempt:
  assumes b: "buddy_pok b"
  shows "(\<exists>r. r \<noteq> JF_ERR_NO_ERROR \<and> po_alloc ops b k = Some (r, None, b)) \<or>
    (\<exists>i p b'. po_alloc ops b k = Some (JF_ERR_NO_ERROR, Some (page_addr b' i p), b') \<and> block_taken (osmem b) b k i p b' \<and> buddy_pok b')"
proof -
  note B = buddy_pokD [OF b]
  show ?thesis
  proof (cases "\<exists>r. r \<noteq> JF_ERR_NO_ERROR \<and> getJiukunPage (\<lambda>_. osmem b) (\<lambda>b. b) b k 0 = Some (Some (r, None, b))")
    case True
    then show ?thesis by (auto simp: buddy_ops_def jf_jiukun_allocPage_def)
  next
    case False
    then obtain i p b' where g: "getJiukunPage (\<lambda>_. osmem b) (\<lambda>b. b) b k 0 = Some (Some (JF_ERR_NO_ERROR, Some (i, p), b'))"
      and t: "block_taken (osmem b) b k i p b'" using getJiukunPage_attempt [OF B(1,2) os_fresh [OF B(1)], of k] by blast
    have b': "buddy_inv b'" "ijb_bInitialized b'" "(i, p, k) \<in> used b'" using t by (auto simp: block_taken_def)
    note U = used_page [OF b'(1,3)]
    have "0 < bz_pu8Pool (zone_at b' j)" if "j < ijb_u32NumOfZone b'" for j
      using that t B(3) [of j] os_positive by (cases "j < ijb_u32NumOfZone b") (auto simp: block_taken_def pools_grow_def)
    then have "buddy_pok b'" using b' by (simp add: buddy_pok_def)
    moreover have "po_alloc ops b k = Some (JF_ERR_NO_ERROR, Some (page_addr b' i p), b')"
      using g jiukunPageToAddr_eq [OF b'(1,2) U(1,4)] by (simp add: buddy_ops_def jf_jiukun_allocPage_def page_addr_def)
    ultimately show ?thesis using t by blast
  qed
qed

lemma taken_addr:
  assumes b: "buddy_pok b" and t: "block_taken m b k i p b'" and u: "(j, q, l) \<in> used b"
  shows "page_addr b' j q = page_addr b j q" "(j, q, l) \<in> used b'"
  using t u used_page(1) [OF buddy_pokD(1) [OF b] u] by (auto simp: block_taken_def pools_grow_def page_addr_def)

lemma same_page:
  assumes b: "buddy_pok b" "buddy_pok b'" and u: "(j, q, l) \<in> used b" "(j, q, l) \<in> used b'" "page_addr b' j q = page_addr b j q"
    and x: "x \<in> blk (page_addr b j q, l)"
  shows "addrToJiukunPage b' x = addrToJiukunPage b x"
proof -
  obtain n where n: "x = page_addr b j q + n" "n < 2 ^ l * BUDDY_PAGE_SIZE" using x by (rule blk_split)
  then show ?thesis using block_page [OF b(1) u(1) n(2)] block_page [OF b(2) u(2) n(2)] u(3) by simp
qed

end

sublocale os_memory \<subseteq> buddy: page_provider "buddy_ops osmem" buddy_pok buddy_held
proof unfold_locales
  fix b k r a b'
  assume b: "buddy_pok b"
  note at = attempt [OF b, of k]
  show "po_alloc ops b k \<noteq> None" using at by auto
  show "r \<noteq> JF_ERR_NO_ERROR \<and> buddy_pok b' \<and> buddy_held b' = buddy_held b" if "po_alloc ops b k = Some (r, None, b')" using at that b by auto
  show "r = JF_ERR_NO_ERROR \<and> buddy_pok b' \<and> 0 < a \<and> (a, k) \<notin> buddy_held b \<and> buddy_held b' = insert (a, k) (buddy_held b)"
    if al: "po_alloc ops b k = Some (r, Some a, b')"
  proof -
    obtain i p where t: "r = JF_ERR_NO_ERROR" "a = page_addr b' i p" "block_taken (osmem b) b k i p b'" "buddy_pok b'" using at al by auto
    have u: "(i, p, k) \<in> used b'" "(i, p, k) \<notin> used b" "used b' = insert (i, p, k) (used b)" using t(3) by (auto simp: block_taken_def)
    have "0 < a" using buddy_pokD(3) [OF t(4)] used_page(1) [OF buddy_pokD(1) [OF t(4)] u(1)] t(2) by (simp add: page_addr_def)
    moreover have "(a, k) \<notin> buddy_held b"
    proof
      assume "(a, k) \<in> buddy_held b"
      then obtain j q where q: "a = page_addr b j q" "(j, q, k) \<in> used b" by (auto elim: heldE)
      then show False using taken_addr [OF b t(3) q(2)] held_inj [OF buddy_pokD(1) [OF t(4)] u(1), of j q k] t(2) u(2) by auto
    qed
    ultimately show ?thesis using t held_insert [OF u(3) taken_addr(1) [OF b t(3)]] by simp
  qed
next
  fix b k r pg b' u x
  assume b: "buddy_pok b" and al: "po_alloc ops b k = Some (r, pg, b')" and u: "u \<in> buddy_held b" "x \<in> blk u"
  obtain j q l where q: "u = (page_addr b j q, l)" "(j, q, l) \<in> used b" using u(1) by (rule heldE)
  show "po_page ops b' x = po_page ops b x"
  proof (cases "b' = b")
    case False
    then obtain i p where t: "block_taken (osmem b) b k i p b'" "buddy_pok b'" using attempt [OF b, of k] al by auto
    then show ?thesis using same_page [OF b t(2) q(2) taken_addr(2,1) [OF b t(1) q(2)]] u(2) q(1) by (simp add: buddy_ops_def)
  qed simp
next
  fix b a k x
  assume b: "buddy_pok b" and u: "(a, k) \<in> buddy_held b" and x: "a \<le> x" "x < a + BUDDY_PAGE_SIZE"
  note B = buddy_pokD [OF b]
  obtain i p where p: "a = page_addr b i p" "(i, p, k) \<in> used b" using u by (auto elim: heldE)
  have "1 * BUDDY_PAGE_SIZE \<le> 2 ^ k * BUDDY_PAGE_SIZE" by (intro mult_le_mono1) simp
  moreover have d: "x - a < BUDDY_PAGE_SIZE" using x by linarith
  ultimately have "x - a < 2 ^ k * BUDDY_PAGE_SIZE" by linarith
  moreover have "(x - a) div BUDDY_PAGE_SIZE = 0" using d by simp
  ultimately have pg: "addrToJiukunPage b x = Some (i, p)" using block_page [OF b p(2), of "x - a"] p(1) x(1) by simp
  obtain b' where b': "putJiukunPage b (i, p) = Some b'" "buddy_inv b'" "used b' = used b - {(i, p, k)}" "ijb_bInitialized b'"
    "ijb_u32NumOfZone b' = ijb_u32NumOfZone b" "\<forall>j. bz_pu8Pool (zone_at b' j) = bz_pu8Pool (zone_at b j)"
    using putJiukunPage_used [OF B(1,2) p(2)] by blast
  have ok: "buddy_pok b'" using b' B(3) by (simp add: buddy_pok_def)
  have addr: "page_addr b' j q = page_addr b j q" for j q using b'(6) by (simp add: page_addr_def)
  have "po_page ops b' y = po_page ops b y" if v: "v \<in> buddy_held b'" "y \<in> blk v" for v y
  proof -
    obtain j q l where q: "v = (page_addr b' j q, l)" "(j, q, l) \<in> used b'" using v(1) by (rule heldE)
    then show ?thesis using same_page [OF b ok _ q(2) addr] v(2) b'(3) addr by (simp add: buddy_ops_def)
  qed
  moreover have "po_free ops b x = Some b'" using pg b'(1) B(2) by (simp add: buddy_ops_def jf_jiukun_freePage_def)
  ultimately show "\<exists>b'. po_free ops b x = Some b' \<and> buddy_pok b' \<and> buddy_held b' = buddy_held b - {(a, k)} \<and>
      (\<forall>u\<in>buddy_held b'. \<forall>y\<in>blk u. po_page ops b' y = po_page ops b y)"
    using ok held_remove [OF B(1) p(2) b'(3) addr] p(1) by blast
next
  fix b a k
  assume b: "buddy_pok b" and u: "(a, k) \<in> buddy_held b"
  obtain i p where p: "a = page_addr b i p" "(i, p, k) \<in> used b" using u by (auto elim: heldE)
  then show "\<exists>z q. \<forall>j < 2 ^ k * BUDDY_PAGE_SIZE. po_page ops b (a + j) = Some (z, q + j div BUDDY_PAGE_SIZE)"
    using block_page [OF b p(2)] by (auto simp: buddy_ops_def)
next
  fix b u v
  assume "buddy_pok b" "u \<in> buddy_held b" "v \<in> buddy_held b" "u \<noteq> v"
  then show "blk u \<inter> blk v = {} \<and> (\<forall>x\<in>blk u. \<forall>y\<in>blk v. po_page ops b x \<noteq> po_page ops b y)"
    using blocks_pages_apart by (simp add: buddy_ops_def)
qed

section \<open>Enough pages for the start\<close>

definition buddy_rich :: "nat \<Rightarrow> internal_jiukun_buddy \<Rightarrow> bool" where
  "buddy_rich n b \<longleftrightarrow> ijb_u32NumOfZone b = 1 \<and> n \<le> free_total (zone_at b 0) \<and> free_total (zone_at b 0) < 2 ^ 31"

lemma findZone_single:
  assumes b: "buddy_inv b" and r: "buddy_rich (Suc n) b"
  shows "findZone (ijb_pbzZone b) (ijb_u32NumOfZone b) (push_bit 0 1) 0 (- 1) None = Some (Some 0)"
proof -
  have n: "ijb_u32NumOfZone b = 1" "0 < free_total (zone_at b 0)" "free_total (zone_at b 0) < 2 ^ 31" using r by (simp_all add: buddy_rich_def)
  have z: "ijb_pbzZone b ! 0 = Some (zone_at b 0)" "zone_inv (zone_at b 0)" using buddy_invD(1,2) [OF b, of 0] n(1) zone_goodD(1) by auto
  let ?F = "bz_u32FreePages (zone_at b 0)"
  have F: "unat ?F = free_total (zone_at b 0)" using z(2) n(3) by (simp add: zone_inv_def unat_of_nat take_bit_nat_eq_self)
  have ge: "1 \<le> ?F" using F n(2) by (simp add: word_le_nat_alt)
  have "unat (?F - 1) = unat ?F - 1" using ge by (simp add: unat_sub)
  moreover have "unat (- 1 :: u32) = 2 ^ 32 - 1" by (simp add: unsigned_minus_1_eq_mask mask_eq_exp_minus_1)
  ultimately have "?F - 1 < - 1" using F n(3) by (simp add: word_less_nat_alt)
  then show ?thesis using n(1) z(1) ge by (simp add: findZone.simps [of _ _ _ 0] findZone.simps [of _ _ _ "Suc 0"])
qed

lemma getJiukunPage_single:
  assumes b: "buddy_pok b" and r: "buddy_rich (Suc n) b"
  obtains p b' where "getJiukunPage (\<lambda>_. m) (\<lambda>b. b) b 0 0 = Some (Some (JF_ERR_NO_ERROR, Some (0, p), b'))" "buddy_rich n b'"
proof -
  note B = buddy_pokD [OF b]
  have n: "0 < ijb_u32NumOfZone b" using r by (simp add: buddy_rich_def)
  note good = zone_goodD [OF buddy_invD(2) [OF B(1) n]]
  have M: "0 < ijb_u32MaxOrder b" using B(1) by (simp add: buddy_inv_def)
  obtain p z' where rm: "rmqueue (zone_at b 0) 0 = (Some p, z')"
    using zone_alloc_possible [OF good(1)] r by (auto simp: buddy_rich_def zone_alloc_def split: prod.splits option.splits)
  then have za: "zone_alloc 0 (zone_at b 0) = Some ((p, 0), take_page p 0 z')" by (simp add: zone_alloc_def)
  have tot: "free_total (zone_at b 0) = free_total (take_page p 0 z') + 1" using zone_allocD [OF good(1) _ za] good(3) M by simp
  define b' where "b' = put_zone 0 (take_page p 0 z') b"
  have "allocPages m b 0 = Some (Some (0, p), put_zone 0 z' b)"
    using findZone_single [OF B(1) r] rmqueueZone_eq [OF B(1) n rm] by (simp add: allocPages_def)
  then have "getJiukunPage (\<lambda>_. m) (\<lambda>b. b) b 0 0 = Some (Some (JF_ERR_NO_ERROR, Some (0, p), b'))"
    using B(2) M getPage_loop.simps [of "\<lambda>_. m" "\<lambda>b. b" 0 0 0 b] updZone_put [OF B(1) n]
    by (simp add: getJiukunPage_def Let_def b'_def take_page_def)
  moreover have "buddy_rich n b'"
    using r tot zone_at_put [OF buddy_invD(3) [OF B(1) n]] by (simp add: buddy_rich_def b'_def)
  ultimately show ?thesis using that by blast
qed

sublocale os_memory \<subseteq> buddy: page_supply "buddy_ops osmem" buddy_pok buddy_held buddy_rich
proof unfold_locales
  fix b n
  assume b: "buddy_pok b" and r: "buddy_rich (Suc n) b"
  obtain p b' where g: "getJiukunPage (\<lambda>_. osmem b) (\<lambda>b. b) b 0 0 = Some (Some (JF_ERR_NO_ERROR, Some (0, p), b'))" "buddy_rich n b'"
    by (rule getJiukunPage_single [OF b r])
  then have "po_alloc ops b 0 = map_option (\<lambda>a. (JF_ERR_NO_ERROR, Some a, b')) (jiukunPageToAddr b' (0, p))"
    by (simp add: buddy_ops_def jf_jiukun_allocPage_def split: option.split)
  then show "\<exists>a b'. po_alloc ops b 0 = Some (JF_ERR_NO_ERROR, Some a, b') \<and> buddy_rich n b'" using attempt [OF b, of 0] g(2) by auto
next
  fix b n
  show "buddy_rich (Suc n) b \<Longrightarrow> buddy_rich n b" by (simp add: buddy_rich_def)
qed

text \<open>A new page allocator has the pages for the start when its order is at least five, that is from 128 KB on.\<close>

lemma buddy_start:
  assumes m: "calloc_zone m" "calloc_pages m" "alloc_pool m = Some a" "0 < a" and o: "5 \<le> maxOrder" "maxOrder < JF_JIUKUN_MAX_PAGE_ORDER + 1"
  obtains b where "initJiukunBuddy m JF_ERR_NO_ERROR maxOrder noGrow ls_ijbBuddy = Some (JF_ERR_NO_ERROR, b)" "buddy_pok b" "buddy_held b = {}"
    "buddy_rich 32 b"
proof -
  obtain b where b: "initJiukunBuddy m JF_ERR_NO_ERROR maxOrder noGrow ls_ijbBuddy = Some (JF_ERR_NO_ERROR, b)"
    "buddy_inv b" "used b = {}" "ijb_bInitialized b" "ijb_u32MaxOrder b = maxOrder + 1" "ijb_u32NumOfZone b = 1" "bz_pu8Pool (zone_at b 0) = a"
    using init_ok [OF m(1-3), of maxOrder noGrow] o by auto
  note good = zone_goodD [OF buddy_invD(2) [OF b(2), of 0]]
  have "allocated (zone_at b 0) = {}" using b(3,6) by (auto simp: used_def)
  then have "free_total (zone_at b 0) = 2 ^ maxOrder" using all_free_total good(1,3) b(5,6) by simp
  moreover have "(2::nat) ^ 5 \<le> 2 ^ maxOrder" "(2::nat) ^ maxOrder \<le> 2 ^ 14" using o by (intro power_increasing; simp add: JF_JIUKUN_MAX_PAGE_ORDER_def)+
  ultimately have "buddy_rich 32 b" using b(6) by (simp add: buddy_rich_def)
  moreover have "buddy_pok b" "buddy_held b = {}" using b m(4) by (simp_all add: buddy_pok_def buddy_held_def)
  ultimately show ?thesis using that b(1) by blast
qed

text \<open>An operating system that gives the memory behind all pools.\<close>

definition pools_end :: "internal_jiukun_buddy \<Rightarrow> nat" where
  "pools_end b = sum_list (map (\<lambda>i. bz_pu8PoolEnd (zone_at b i)) [0..<ijb_u32NumOfZone b]) + 65536"

definition memory_behind :: "internal_jiukun_buddy \<Rightarrow> zone_memory" where
  "memory_behind b = \<lparr>calloc_zone = True, calloc_pages = True, alloc_pool = Some (pools_end b)\<rparr>"

interpretation behind: os_memory memory_behind
proof
  fix b a
  show "fresh_memory b (memory_behind b)" if "buddy_inv b"
  proof -
    have "bz_pu8PoolEnd (zone_at b i) \<le> pools_end b" if "i < ijb_u32NumOfZone b" for i
      using member_le_sum_list [of "bz_pu8PoolEnd (zone_at b i)" "map (\<lambda>i. bz_pu8PoolEnd (zone_at b i)) [0..<ijb_u32NumOfZone b]"] that
      by (simp add: pools_end_def trans_le_add1)
    then show ?thesis by (fastforce simp: fresh_memory_def memory_behind_def pool_def)
  qed
  show "alloc_pool (memory_behind b) = Some a \<Longrightarrow> 0 < a" by (auto simp: memory_behind_def pools_end_def)
qed

section \<open>Start and end of jiukun\<close>

text \<open>
  \<^verbatim>\<open>jf_jiukun_init\<close> and \<^verbatim>\<open>jf_jiukun_fini\<close> of \<^verbatim>\<open>src/jiukun/jiukun.c\<close>. The state is the flag of the module and the object caches with the page
  allocator below them. \<open>m\<close> is the memory of the first zone, \<open>lockb\<close> and \<open>lock\<close> are the outcomes of creating the locks of the page allocator and
  of the caches, and \<open>mtx\<close> those of the mutexes of the caches.
\<close>

type_synonym jiukun = "bool \<times> internal_jiukun_buddy internal_jiukun_slab"

definition jf_jiukun_fini :: "(internal_jiukun_buddy \<Rightarrow> zone_memory) \<Rightarrow> internal_jiukun_buddy internal_jiukun_slab \<Rightarrow> jiukun option" where
  "jf_jiukun_fini osmem s =
     (case finiJiukunSlab (buddy_ops osmem) s of
        None \<Rightarrow> None
      | Some s \<Rightarrow> map_option (\<lambda>b. (False, s\<lparr>ijs_buddy := b\<rparr>)) (finiJiukunBuddy (ijs_buddy s)))"

definition jf_jiukun_init ::
  "nat \<Rightarrow> (internal_jiukun_buddy \<Rightarrow> zone_memory) \<Rightarrow> zone_memory \<Rightarrow> jf_err \<Rightarrow> (string \<Rightarrow> jf_err) \<Rightarrow> jf_err \<Rightarrow> nat \<Rightarrow> bool \<Rightarrow> jiukun \<Rightarrow>
    (jf_err \<times> jiukun) option" where
  "jf_jiukun_init csize osmem m lockb mtx lock sPool noGrow st =
     (case st of (ia_bInitialized, s) \<Rightarrow>
        if ia_bInitialized then Some (JF_ERR_NO_ERROR, st)
        else if \<not> (sPool \<ge> MIN_JIUKUN_POOL_SIZE \<and> sPool \<le> JF_JIUKUN_MAX_POOL_SIZE) then None
        else case maxOrder_loop (sizeToPages sPool) 0 of
               None \<Rightarrow> None
             | Some u8MaxOrder \<Rightarrow>
                 (case initJiukunBuddy m lockb u8MaxOrder noGrow (ijs_buddy s) of
                    None \<Rightarrow> None
                  | Some (u32Ret, b) \<Rightarrow>
                      (let s = s\<lparr>ijs_buddy := b\<rparr>
                       in case (if u32Ret = JF_ERR_NO_ERROR then initJiukunSlab csize (buddy_ops osmem) mtx lock s else Some (u32Ret, s)) of
                            None \<Rightarrow> None
                          | Some (u32Ret, s) \<Rightarrow>
                              (if u32Ret = JF_ERR_NO_ERROR then Some (JF_ERR_NO_ERROR, True, s)
                               else map_option (Pair u32Ret) (jf_jiukun_fini osmem s)))))"

end
