(* ===== verification/Jf_Jiukun.thy ===== *)
theory Jf_Jiukun
  imports Jf_Slab_Buddy
begin

text \<open>
  The memory manager as its callers see it: the calls of \<^verbatim>\<open>jf_jiukun.h\<close> on the object caches over the page allocator, an abstract specification
  of them, and that every sequence of calls from the start on refines it. The abstract state has the caches the callers made, the objects and
  the pages they hold, and nothing of slabs, lists and zones.
\<close>

section \<open>Start and end\<close>

lemma finiSlab_unstarted: "finiJiukunSlab ops (slab_start b) = None"
  by (simp add: finiJiukunSlab_def slab_start_def MAX_NUM_OF_GENERAL_CACHE_def destroySlabCache_def eval_nat_numeral)

lemma destroyZones_ok:
  assumes "buddy_inv b" "n \<le> ijb_u32NumOfZone b"
  shows "\<exists>zs. destroyZones n b = Some (b\<lparr>ijb_pbzZone := zs\<rparr>) \<and> length zs = length (ijb_pbzZone b) \<and> (\<forall>i. n \<le> i \<longrightarrow> zs ! i = ijb_pbzZone b ! i)"
  using assms(2)
proof (induction n)
  case 0
  show ?case by (simp add: exI [of _ "ijb_pbzZone b"])
next
  case (Suc n)
  then obtain zs where zs: "destroyZones n b = Some (b\<lparr>ijb_pbzZone := zs\<rparr>)" "length zs = length (ijb_pbzZone b)" "\<forall>i. n \<le> i \<longrightarrow> zs ! i = ijb_pbzZone b ! i"
    by auto
  have "zs ! n \<noteq> None" using buddy_invD(1) [OF assms(1), of n] Suc.prems zs(3) by simp
  then show ?case using zs by (auto simp: destroyBuddyZone_def)
qed

lemma finiBuddy_ok:
  assumes "buddy_inv b"
  obtains b' where "finiJiukunBuddy b = Some b'" "\<not> ijb_bInitialized b'"
  using destroyZones_ok [OF assms order_refl] by (auto simp: finiJiukunBuddy_def)

text \<open>What the start needs from the system.\<close>

definition start_resources :: "zone_memory \<Rightarrow> jf_err \<Rightarrow> jf_err \<Rightarrow> bool" where
  "start_resources m lockb lock \<longleftrightarrow> calloc_zone m \<and> calloc_pages m \<and> alloc_pool m \<noteq> None \<and> lockb = JF_ERR_NO_ERROR \<and> lock = JF_ERR_NO_ERROR"

lemma pool_order:
  assumes "MIN_JIUKUN_POOL_SIZE \<le> sPool" "sPool \<le> JF_JIUKUN_MAX_POOL_SIZE"
  obtains k where "maxOrder_loop (sizeToPages sPool) 0 = Some k" "5 \<le> k" "k < JF_JIUKUN_MAX_PAGE_ORDER + 1"
proof -
  obtain k where k: "maxOrder_loop (sizeToPages sPool) 0 = Some k" "k \<le> JF_JIUKUN_MAX_PAGE_ORDER" "sizeToPages sPool < 2 ^ (k + 1)"
    using jiukun_pool_order [OF assms] by blast
  have n: "256 \<le> sizeToPages sPool" using assms(1) by (simp add: sizeToPages_def BUDDY_PAGE_SIZE_eq MIN_JIUKUN_POOL_SIZE_def push_bit_eq_mult)
  have "8 < k + 1" by (rule power_less_imp_less_exp [of "2::nat"]) (use k(3) n in simp_all)
  then show ?thesis using that k(1,2) by simp
qed

lemma initBuddy_resources:
  assumes "initJiukunBuddy m lockb k noGrow ls_ijbBuddy = Some (JF_ERR_NO_ERROR, b)"
  shows "calloc_zone m \<and> calloc_pages m \<and> alloc_pool m \<noteq> None \<and> lockb = JF_ERR_NO_ERROR"
  using assms by (auto simp: initJiukunBuddy_def createBuddyZone_def Let_def split: if_splits option.splits sum.splits)

lemma init_lacking:
  assumes lack: "\<not> start_resources m lockb lock"
  shows "jf_jiukun_init csize osmem m lockb mtx lock sPool noGrow (False, slab_start ls_ijbBuddy) = None"
proof -
  have fini: "jf_jiukun_fini osmem (slab_start b) = None" for b by (simp add: jf_jiukun_fini_def finiSlab_unstarted)
  have buddy: "(slab_start ls_ijbBuddy)\<lparr>ijs_buddy := b\<rparr> = slab_start b" "ijs_buddy (slab_start ls_ijbBuddy) = ls_ijbBuddy" for b
    by (simp_all add: slab_start_def)
  have run: "jf_jiukun_init csize osmem m lockb mtx lock sPool noGrow (False, slab_start ls_ijbBuddy) = None"
    if "\<And>k b. initJiukunBuddy m lockb k noGrow ls_ijbBuddy = Some (JF_ERR_NO_ERROR, b) \<Longrightarrow>
      initJiukunSlab csize (buddy_ops osmem) mtx lock (slab_start b) = None"
    using that fini by (auto simp: jf_jiukun_init_def buddy Let_def split: option.split)
  show ?thesis
  proof (cases "lock = JF_ERR_NO_ERROR")
    case True
    then show ?thesis using lack initBuddy_resources [of m lockb _ noGrow] by (intro run) (auto simp: start_resources_def)
  next
    case False
    then show ?thesis by (intro run) (simp add: initJiukunSlab_def finiSlab_unstarted)
  qed
qed

context os_memory
begin

lemma init_enough:
  assumes "start_resources m lockb lock" "alloc_pool m \<noteq> Some 0" "MIN_JIUKUN_POOL_SIZE \<le> sPool" "sPool \<le> JF_JIUKUN_MAX_POOL_SIZE"
    and c: "0 < csize" "csize + 40 \<le> 4096"
  obtains r s where "jf_jiukun_init csize osmem m lockb mtx lock sPool noGrow (False, slab_start ls_ijbBuddy) = Some (r, r = JF_ERR_NO_ERROR, s)"
    "if r = JF_ERR_NO_ERROR then started (buddy_ops osmem) buddy_pok buddy_held s \<and> unowned buddy_held s = {} \<and> buddy_rich 13 (ijs_buddy s)
     else \<not> ijb_bInitialized (ijs_buddy s) \<and> \<not> ijs_bInitialized s" "(\<forall>name. mtx name = JF_ERR_NO_ERROR) \<longrightarrow> r = JF_ERR_NO_ERROR"
proof -
  let ?s0 = "slab_start ls_ijbBuddy"
  obtain a where m: "calloc_zone m" "calloc_pages m" "alloc_pool m = Some a" "0 < a" "lockb = JF_ERR_NO_ERROR" "lock = JF_ERR_NO_ERROR"
    using assms(1,2) by (auto simp: start_resources_def)
  obtain k where k: "maxOrder_loop (sizeToPages sPool) 0 = Some k" "5 \<le> k" "k < JF_JIUKUN_MAX_PAGE_ORDER + 1" by (rule pool_order [OF assms(3,4)])
  obtain b where b: "initJiukunBuddy m JF_ERR_NO_ERROR k noGrow ls_ijbBuddy = Some (JF_ERR_NO_ERROR, b)" "buddy_pok b" "buddy_held b = {}"
    "buddy_rich 32 b" by (rule buddy_start [OF m(1-4) k(2,3)])
  then have rich: "buddy_rich (19 + 13) b" by simp
  obtain r s' where s': "initJiukunSlab csize (buddy_ops osmem) mtx JF_ERR_NO_ERROR (slab_start b) = Some (r, s')"
    "if r = JF_ERR_NO_ERROR then started (buddy_ops osmem) buddy_pok buddy_held s' \<and> buddy_rich 13 (ijs_buddy s') else ended (buddy_ops osmem) buddy_pok buddy_held s'"
    "unowned buddy_held s' = buddy_held b" "(\<forall>name. mtx name = JF_ERR_NO_ERROR) \<longrightarrow> r = JF_ERR_NO_ERROR"
    by (rule buddy.initJiukunSlab_ok [OF b(2) c rich])
  have eq: "jf_jiukun_init csize osmem m lockb mtx lock sPool noGrow (False, ?s0) =
      (if r = JF_ERR_NO_ERROR then Some (r, True, s') else map_option (Pair r) (jf_jiukun_fini osmem s'))"
    using assms(3,4) m(5,6) k(1) b(1) s'(1) by (simp add: jf_jiukun_init_def slab_start_def)
  show ?thesis
  proof (cases "r = JF_ERR_NO_ERROR")
    case True
    then show ?thesis using that eq s' b(3) by simp
  next
    case False
    obtain s2 where s2: "finiJiukunSlab (buddy_ops osmem) s' = Some s2" "ijs_buddy s2 = ijs_buddy s'" "ended (buddy_ops osmem) buddy_pok buddy_held s2"
      by (rule buddy.fini_again) (use s'(2) False in simp_all)
    then have "slab_inv (buddy_ops osmem) buddy_pok buddy_held s2" "\<not> ijs_bInitialized s2" by (simp_all add: ended_def)
    then have "buddy_pok (ijs_buddy s2)" "\<not> ijs_bInitialized s2" using slab_invD(1) by blast+
    moreover obtain b' where "finiJiukunBuddy (ijs_buddy s2) = Some b'" "\<not> ijb_bInitialized b'"
      by (rule finiBuddy_ok [OF buddy_pokD(1)]) (rule calculation(1))
    ultimately show ?thesis using that [of r "s2\<lparr>ijs_buddy := b'\<rparr>"] eq False s2(1) s'(4) by (simp add: jf_jiukun_fini_def)
  qed
qed

end

section \<open>The calls\<close>

datatype jiukun_call =
    Create_Cache string nat u64
  | Destroy_Cache cache_id
  | Alloc_Object cache_id
  | Free_Object cache_id addr
  | Alloc_Memory int
  | Clone_Memory int
  | Free_Memory addr
  | Alloc_Page nat u64
  | Free_Page addr

datatype jiukun_ret = Ret_Void | Ret_Err jf_err | Ret_Cache cache_id | Ret_Addr addr

type_synonym caches = "internal_jiukun_buddy internal_jiukun_slab"

definition ret_addr :: "(jf_err \<times> addr \<times> caches) option \<Rightarrow> (jiukun_ret \<times> caches) option" where
  "ret_addr = map_option (\<lambda>(r, a, s). (if r = JF_ERR_NO_ERROR then Ret_Addr a else Ret_Err r, s))"

definition ret_opt :: "('a \<Rightarrow> jiukun_ret) \<Rightarrow> (jf_err \<times> 'a option \<times> caches) option \<Rightarrow> (jiukun_ret \<times> caches) option" where
  "ret_opt f = map_option (\<lambda>(r, x, s). (case x of None \<Rightarrow> Ret_Err r | Some x \<Rightarrow> f x, s))"

fun jiukun_exec :: "(internal_jiukun_buddy \<Rightarrow> zone_memory) \<Rightarrow> (string \<Rightarrow> jf_err) \<Rightarrow> jiukun_call \<Rightarrow> caches \<Rightarrow> (jiukun_ret \<times> caches) option" where
  "jiukun_exec osmem mtx (Create_Cache name sObj jf) s = ret_opt Ret_Cache (jf_jiukun_createCache (buddy_ops osmem) mtx s name sObj jf)"
| "jiukun_exec osmem mtx (Destroy_Cache c) s = map_option (Pair Ret_Void) (jf_jiukun_destroyCache (buddy_ops osmem) s c)"
| "jiukun_exec osmem mtx (Alloc_Object c) s = ret_addr (jf_jiukun_allocObject (buddy_ops osmem) s c)"
| "jiukun_exec osmem mtx (Free_Object c a) s = map_option (Pair Ret_Void) (jf_jiukun_freeObject (buddy_ops osmem) s c a)"
| "jiukun_exec osmem mtx (Alloc_Memory sz) s = ret_addr (jf_jiukun_allocMemory (buddy_ops osmem) s sz)"
| "jiukun_exec osmem mtx (Clone_Memory sz) s = ret_addr (jf_jiukun_cloneMemory (buddy_ops osmem) s sz)"
| "jiukun_exec osmem mtx (Free_Memory a) s = map_option (Pair Ret_Void) (jf_jiukun_freeMemory (buddy_ops osmem) s a)"
| "jiukun_exec osmem mtx (Alloc_Page k f) s = ret_opt Ret_Addr (allocPage_loop (buddy_ops osmem) k f s)"
| "jiukun_exec osmem mtx (Free_Page a) s = map_option (\<lambda>b. (Ret_Void, s\<lparr>ijs_buddy := b\<rparr>)) (po_free (buddy_ops osmem) (ijs_buddy s) a)"

section \<open>The specification\<close>

record jiukun_spec =
  js_general :: "cache_id list"
  js_caches :: "cache_id set"
  js_objects :: "(cache_id \<times> addr) set"
  js_pages :: "(addr \<times> nat) set"

definition jiukun_abs :: "caches \<Rightarrow> jiukun_spec" where
  "jiukun_abs s =
     (let cs = List.map_filter snd (ijs_gcGeneral s)
      in \<lparr>js_general = cs, js_caches = {c. ijs_scCache s c \<noteq> None \<and> c \<noteq> Cache_cache \<and> c \<notin> set cs},
          js_objects = objects s, js_pages = unowned buddy_held s\<rparr>)"

text \<open>What a caller may call: sizes and flags in the range the interface states, and only what it holds is given back.\<close>

fun call_allowed :: "jiukun_spec \<Rightarrow> jiukun_call \<Rightarrow> bool" where
  "call_allowed A (Create_Cache name sObj jf) \<longleftrightarrow> SLAB_ALIGN_SIZE \<le> sObj \<and> sObj \<le> push_bit MAX_JP_ORDER 1 * BUDDY_PAGE_SIZE \<and>
     order_found (ALIGN_CEIL sObj SLAB_ALIGN_SIZE) \<and> JF_FLAG_GET jf SC_FLAG_OFF_SLAB = 0 \<and> JF_FLAG_GET jf SC_FLAG_DESTROY = 0"
| "call_allowed A (Destroy_Cache c) \<longleftrightarrow> c \<in> js_caches A"
| "call_allowed A (Alloc_Object c) \<longleftrightarrow> c \<in> js_caches A \<union> set (js_general A)"
| "call_allowed A (Free_Object c a) \<longleftrightarrow> (c, a) \<in> js_objects A"
| "call_allowed A (Alloc_Memory sz) \<longleftrightarrow> True"
| "call_allowed A (Clone_Memory sz) \<longleftrightarrow> 0 < sz"
| "call_allowed A (Free_Memory a) \<longleftrightarrow> a \<in> snd ` js_objects A"
| "call_allowed A (Alloc_Page k f) \<longleftrightarrow> True"
| "call_allowed A (Free_Page a) \<longleftrightarrow> a \<in> fst ` js_pages A"

fun call_fallible :: "jiukun_call \<Rightarrow> bool" where
  "call_fallible (Destroy_Cache c) = False"
| "call_fallible (Free_Object c a) = False"
| "call_fallible (Free_Memory a) = False"
| "call_fallible (Free_Page a) = False"
| "call_fallible _ = True"

text \<open>
  One call: it fails with an error and nothing changes, or it does what its name says. New caches, objects and pages are ones that nobody holds;
  memory comes from the first general cache whose objects are large enough.
\<close>

inductive spec_step :: "jiukun_spec \<Rightarrow> jiukun_call \<Rightarrow> jiukun_ret \<Rightarrow> jiukun_spec \<Rightarrow> bool" where
  failed: "call_fallible call \<Longrightarrow> e \<noteq> JF_ERR_NO_ERROR \<Longrightarrow> spec_step A call (Ret_Err e) A"
| created: "c \<notin> js_caches A \<Longrightarrow> c \<notin> set (js_general A) \<Longrightarrow> (\<And>a. (c, a) \<notin> js_objects A) \<Longrightarrow>
    spec_step A (Create_Cache name sObj jf) (Ret_Cache c) (A\<lparr>js_caches := insert c (js_caches A)\<rparr>)"
| destroyed: "spec_step A (Destroy_Cache c) Ret_Void (A\<lparr>js_caches := js_caches A - {c}, js_objects := js_objects A - {c} \<times> UNIV\<rparr>)"
| object: "a \<noteq> 0 \<Longrightarrow> (c, a) \<notin> js_objects A \<Longrightarrow> spec_step A (Alloc_Object c) (Ret_Addr a) (A\<lparr>js_objects := insert (c, a) (js_objects A)\<rparr>)"
| object_freed: "spec_step A (Free_Object c a) Ret_Void (A\<lparr>js_objects := js_objects A - {(c, a)}\<rparr>)"
| memory: "general_index sz = Some i \<Longrightarrow> a \<noteq> 0 \<Longrightarrow> (js_general A ! i, a) \<notin> js_objects A \<Longrightarrow> call = Alloc_Memory sz \<or> call = Clone_Memory sz \<Longrightarrow>
    spec_step A call (Ret_Addr a) (A\<lparr>js_objects := insert (js_general A ! i, a) (js_objects A)\<rparr>)"
| memory_freed: "(c, a) \<in> js_objects A \<Longrightarrow> spec_step A (Free_Memory a) Ret_Void (A\<lparr>js_objects := js_objects A - {(c, a)}\<rparr>)"
| pages: "a \<noteq> 0 \<Longrightarrow> (a, k) \<notin> js_pages A \<Longrightarrow> spec_step A (Alloc_Page k f) (Ret_Addr a) (A\<lparr>js_pages := insert (a, k) (js_pages A)\<rparr>)"
| pages_freed: "(a, k) \<in> js_pages A \<Longrightarrow> spec_step A (Free_Page a) Ret_Void (A\<lparr>js_pages := js_pages A - {(a, k)}\<rparr>)"

inductive_cases spec_memoryE: "spec_step A (Alloc_Memory sz) (Ret_Addr a) A'"

lemma abs_simps [simp]: "js_objects (jiukun_abs s) = objects s" "js_pages (jiukun_abs s) = unowned buddy_held s"
  by (simp_all add: jiukun_abs_def Let_def)

text \<open>A call that may wait for pages without end.\<close>

fun call_waits :: "caches \<Rightarrow> jiukun_call \<Rightarrow> bool" where
  "call_waits s (Alloc_Object c) \<longleftrightarrow> waits s c"
| "call_waits s (Alloc_Page k f) \<longleftrightarrow> JF_FLAG_GET f JF_JIUKUN_PAGE_ALLOC_FLAG_WAIT \<noteq> 0"
| "call_waits s _ \<longleftrightarrow> False"

text \<open>The states after a successful start and any calls that the specification allows.\<close>

inductive jiukun_reach :: "(internal_jiukun_buddy \<Rightarrow> zone_memory) \<Rightarrow> (string \<Rightarrow> jf_err) \<Rightarrow> caches \<Rightarrow> bool" for osmem mtx where
  start: "jf_jiukun_init csize osmem m lockb mtx lock sPool noGrow (False, slab_start ls_ijbBuddy) = Some (JF_ERR_NO_ERROR, True, s) \<Longrightarrow>
    alloc_pool m \<noteq> Some 0 \<Longrightarrow> 0 < csize \<Longrightarrow> csize + 40 \<le> 4096 \<Longrightarrow> jiukun_reach osmem mtx s"
| call: "jiukun_reach osmem mtx s \<Longrightarrow> call_allowed (jiukun_abs s) call \<Longrightarrow> jiukun_exec osmem mtx call s = Some (ret, s') \<Longrightarrow> jiukun_reach osmem mtx s'"


section \<open>The calls keep to the specification\<close>

lemma general_caches:
  assumes "general_ok cs s"
  shows "List.map_filter snd (ijs_gcGeneral s) = cs"
proof -
  have "List.map_filter snd (zip xs (map Some ys)) = ys" if "length ys = length xs" for xs :: "int list" and ys :: "cache_id list"
    using that by (induction ys xs rule: list_induct2) (simp_all add: map_filter_simps)
  then have "List.map_filter snd (zip (map int ls_sCacheSize) (map Some cs)) = cs" using general_okD(1) [OF assms] by simp
  then show ?thesis unfolding general_okD(4) [OF assms] by (simp add: List.map_filter_def)
qed

abbreviation (input) jiukun_inv :: "(internal_jiukun_buddy \<Rightarrow> zone_memory) \<Rightarrow> cache_id list \<Rightarrow> caches \<Rightarrow> bool" where
  "jiukun_inv osmem cs s \<equiv> sys_inv (buddy_ops osmem) buddy_pok buddy_held cs s"

definition caller_caches :: "cache_id list \<Rightarrow> caches \<Rightarrow> cache_id set" where
  "caller_caches cs s = {c. ijs_scCache s c \<noteq> None \<and> c \<noteq> Cache_cache \<and> c \<notin> set cs}"

lemma abs_eq:
  assumes "jiukun_inv osmem cs s"
  shows "jiukun_abs s = \<lparr>js_general = cs, js_caches = caller_caches cs s, js_objects = objects s, js_pages = unowned buddy_held s\<rparr>"
  using general_caches [OF sys_invD(7) [OF assms]] by (simp add: jiukun_abs_def caller_caches_def)

lemma frame_caller: "frame s s' \<Longrightarrow> caller_caches cs s' = caller_caches cs s"
  by (simp add: caller_caches_def frame_None [of s s'] del: not_None_eq)

lemma objects_cache: "(c, a) \<in> objects s \<Longrightarrow> ijs_scCache s c \<noteq> None"
  by (auto simp: objects_def live_def)

definition call_ok ::
  "(internal_jiukun_buddy \<Rightarrow> zone_memory) \<Rightarrow> cache_id list \<Rightarrow> caches \<Rightarrow> jiukun_call \<Rightarrow> (jiukun_ret \<times> caches) option \<Rightarrow> bool" where
  "call_ok osmem cs s call res \<longleftrightarrow>
     (case res of
        None \<Rightarrow> stuck s \<or> call_waits s call
      | Some (ret, s') \<Rightarrow> jiukun_inv osmem cs s' \<and> spec_step (jiukun_abs s) call ret (jiukun_abs s'))"

context os_memory
begin

lemma exec_create:
  assumes s: "jiukun_inv osmem cs s" and a: "call_allowed (jiukun_abs s) (Create_Cache name sObj jf)"
  shows "call_ok osmem cs s (Create_Cache name sObj jf) (jiukun_exec osmem mtx (Create_Cache name sObj jf) s)"
proof (cases "jf_jiukun_createCache (buddy_ops osmem) mtx s name sObj jf")
  case None
  then show ?thesis using buddy.createCache_sys [OF s, of sObj jf mtx name] a by (simp add: call_ok_def ret_opt_def)
next
  case (Some res)
  obtain r cid s' where res: "res = (r, cid, s')" by (cases res)
  have cr: "jiukun_inv osmem cs s'" "objects s' = objects s" "unowned buddy_held s' = unowned buddy_held s"
    and cid: "case cid of
       None \<Rightarrow> r \<noteq> JF_ERR_NO_ERROR \<and> frame s s'
     | Some c \<Rightarrow> r = JF_ERR_NO_ERROR \<and> ijs_scCache s c = None \<and> c \<noteq> Cache_cache \<and>
         (\<forall>d. ijs_scCache s' d \<noteq> None \<longleftrightarrow> d = c \<or> ijs_scCache s d \<noteq> None) \<and>
         (\<exists>ca. ijs_scCache s' c = Some ca \<and> sc_u32ObjSize ca = ALIGN_CEIL sObj SLAB_ALIGN_SIZE)"
    using buddy.createCache_sys [OF s, of sObj jf mtx name] a Some res by simp_all
  note A = abs_eq [OF s] abs_eq [OF cr(1)]
  show ?thesis
  proof (cases cid)
    case None
    then have "r \<noteq> JF_ERR_NO_ERROR" "jiukun_abs s' = jiukun_abs s" using cid A cr(2,3) frame_caller by simp_all
    then show ?thesis using Some res None cr(1) by (simp add: call_ok_def ret_opt_def spec_step.failed)
  next
    case c: (Some c)
    then have new: "ijs_scCache s c = None" "c \<noteq> Cache_cache" "\<And>d. ijs_scCache s' d \<noteq> None \<longleftrightarrow> d = c \<or> ijs_scCache s d \<noteq> None"
      using cid by simp_all
    have g: "c \<notin> set cs" using new(1) general_okD(1,5) [OF sys_invD(7) [OF s]] by (metis in_set_conv_nth option.distinct(1))
    have "caller_caches cs s' = insert c (caller_caches cs s)" using new g by (auto simp: caller_caches_def)
    moreover have "(c, x) \<notin> objects s" for x using objects_cache new(1) by blast
    moreover have "c \<notin> caller_caches cs s" using new(1) by (simp add: caller_caches_def)
    ultimately have "spec_step (jiukun_abs s) (Create_Cache name sObj jf) (Ret_Cache c) (jiukun_abs s')"
      using spec_step.created [of c "jiukun_abs s" name sObj jf] A cr(2,3) g by simp
    then show ?thesis using Some res c cr(1) by (simp add: call_ok_def ret_opt_def)
  qed
qed

lemma exec_destroy:
  assumes s: "jiukun_inv osmem cs s" and a: "call_allowed (jiukun_abs s) (Destroy_Cache c)"
  shows "call_ok osmem cs s (Destroy_Cache c) (jiukun_exec osmem mtx (Destroy_Cache c) s)"
proof -
  have c: "ijs_scCache s c \<noteq> None" "c \<noteq> Cache_cache" "c \<notin> set cs" using a abs_eq [OF s] by (simp_all add: caller_caches_def)
  obtain s' where s': "jf_jiukun_destroyCache (buddy_ops osmem) s c = Some s'" "jiukun_inv osmem cs s'" "objects s' = objects s - {c} \<times> UNIV"
    "\<And>d. ijs_scCache s' d \<noteq> None \<longleftrightarrow> d \<noteq> c \<and> ijs_scCache s d \<noteq> None" "unowned buddy_held s' = unowned buddy_held s"
    by (rule buddy.destroyCache_sys [OF s c]) blast
  have "caller_caches cs s' = caller_caches cs s - {c}" using s'(4) by (auto simp: caller_caches_def)
  then show ?thesis
    using spec_step.destroyed [of "jiukun_abs s" c] abs_eq [OF s] abs_eq [OF s'(2)] s' by (simp add: call_ok_def)
qed

text \<open>An allocation from a cache, whoever chose the cache.\<close>

lemma alloc_abs:
  assumes s: "jiukun_inv osmem cs s" and al: "jiukun_inv osmem cs s'" "object_result c r a s s'" "steady buddy_held s s'"
  shows "if r = JF_ERR_NO_ERROR then a \<noteq> 0 \<and> (c, a) \<notin> js_objects (jiukun_abs s) \<and>
      jiukun_abs s' = (jiukun_abs s)\<lparr>js_objects := insert (c, a) (js_objects (jiukun_abs s))\<rparr>
    else jiukun_abs s' = jiukun_abs s"
  using al(2,3) abs_eq [OF s] abs_eq [OF al(1)] frame_caller [of s s' cs]
  by (auto simp: object_result_def steady_def objects_def split: if_splits)

lemma exec_object:
  assumes s: "jiukun_inv osmem cs s" and a: "call_allowed (jiukun_abs s) (Alloc_Object c)"
  shows "call_ok osmem cs s (Alloc_Object c) (jiukun_exec osmem mtx (Alloc_Object c) s)"
proof -
  have "ijs_scCache s c \<noteq> None"
    using a abs_eq [OF s] general_okD(1,5) [OF sys_invD(7) [OF s]] by (auto simp: caller_caches_def in_set_conv_nth)
  then obtain ca where ca: "ijs_scCache s c = Some ca" by blast
  have eq: "jf_jiukun_allocObject (buddy_ops osmem) s c = allocObj slab_depth (buddy_ops osmem) s c"
    using sys_invD(2) [OF s] by (simp add: jf_jiukun_allocObject_def)
  show ?thesis
  proof (cases "allocObj slab_depth (buddy_ops osmem) s c")
    case None
    then show ?thesis using buddy.allocObj_sys [OF s ca] eq by (auto simp: call_ok_def ret_addr_def)
  next
    case (Some res)
    obtain r x s' where res: "res = (r, x, s')" by (cases res)
    then have al: "jiukun_inv osmem cs s'" "object_result c r x s s'" "steady buddy_held s s'" using buddy.allocObj_sys [OF s ca] Some by simp_all
    show ?thesis
      using alloc_abs [OF s al] al(1) Some res eq spec_step.object [of x c "jiukun_abs s"]
      by (auto simp: call_ok_def ret_addr_def spec_step.failed split: if_splits)
  qed
qed

lemma exec_memory:
  assumes s: "jiukun_inv osmem cs s" and call: "call = Alloc_Memory sz \<or> call = Clone_Memory sz"
  shows "call_ok osmem cs s call (ret_addr (jf_jiukun_allocMemory (buddy_ops osmem) s sz))"
proof (cases "general_index sz")
  case None
  then show ?thesis using buddy.allocMemory_sys [OF s, of sz] s call by (auto simp: call_ok_def ret_addr_def spec_step.failed)
next
  case (Some i)
  note m = buddy.allocMemory_sys [OF s, of sz, unfolded Some option.case]
  show ?thesis
  proof (cases "jf_jiukun_allocMemory (buddy_ops osmem) s sz")
    case None
    then show ?thesis using m by (simp add: call_ok_def ret_addr_def)
  next
    case res: (Some res)
    obtain r x s' where res': "res = (r, x, s')" by (cases res)
    then have al: "jiukun_inv osmem cs s'" "object_result (cs ! i) r x s s'" "steady buddy_held s s'" using m res by simp_all
    have "js_general (jiukun_abs s) = cs" using abs_eq [OF s] by simp
    then have "r = JF_ERR_NO_ERROR \<Longrightarrow> spec_step (jiukun_abs s) call (Ret_Addr x) (jiukun_abs s')"
      using alloc_abs [OF s al] spec_step.memory [OF Some, of x "jiukun_abs s" call] call by auto
    moreover have "r \<noteq> JF_ERR_NO_ERROR \<Longrightarrow> spec_step (jiukun_abs s) call (Ret_Err r) (jiukun_abs s')"
      using alloc_abs [OF s al] call by (auto simp: spec_step.failed)
    ultimately show ?thesis using res res' al(1) by (simp add: call_ok_def ret_addr_def)
  qed
qed

lemma exec_free:
  assumes s: "jiukun_inv osmem cs s" and a: "call_allowed (jiukun_abs s) call" and call: "call = Free_Object c x \<or> call = Free_Memory x"
  shows "call_ok osmem cs s call (jiukun_exec osmem mtx call s)"
proof -
  obtain d where d: "(d, x) \<in> objects s" "call = Free_Object c x \<Longrightarrow> d = c" using a call abs_eq [OF s] by auto
  obtain s' where s': "freeObj (buddy_ops osmem) s d x = Some s'" "jiukun_inv osmem cs s'" "objects s' = objects s - {(d, x)}" "steady buddy_held s s'"
    by (rule buddy.freeObj_sys [OF s d(1)])
  obtain s'' where s'': "jf_jiukun_freeMemory (buddy_ops osmem) s x = Some s''" "jiukun_inv osmem cs s''" "objects s'' = objects s - {(d, x)}" "steady buddy_held s s''"
    by (rule buddy.freeMemory_sys [OF s d(1)])
  have abs: "jiukun_abs t = (jiukun_abs s)\<lparr>js_objects := js_objects (jiukun_abs s) - {(d, x)}\<rparr>"
    if "jiukun_inv osmem cs t" "objects t = objects s - {(d, x)}" "steady buddy_held s t" for t
    using that abs_eq [OF s] abs_eq [OF that(1)] frame_caller [of s t cs] by (simp add: steady_def)
  have "x \<noteq> 0" using buddy.live_cache [OF _ sys_invD(1) [OF s], of d x] d(1) by (auto simp: objects_def)
  then have "call = Free_Object c x \<Longrightarrow> jiukun_exec osmem mtx call s = Some (Ret_Void, s')"
    using s'(1) d(2) sys_invD(2) [OF s] by (simp add: jf_jiukun_freeObject_def)
  moreover have "call = Free_Memory x \<Longrightarrow> jiukun_exec osmem mtx call s = Some (Ret_Void, s'')" using s''(1) by simp
  moreover have "call = Free_Object c x \<Longrightarrow> spec_step (jiukun_abs s) call Ret_Void (jiukun_abs s')"
    using abs [OF s'(2-4)] spec_step.object_freed [of "jiukun_abs s" c x] d(2) by simp
  moreover have "call = Free_Memory x \<Longrightarrow> spec_step (jiukun_abs s) call Ret_Void (jiukun_abs s'')"
    using abs [OF s''(2-4)] spec_step.memory_freed [of d x "jiukun_abs s"] d(1) abs_eq [OF s] by simp
  ultimately show ?thesis using call s'(2) s''(2) by (auto simp: call_ok_def)
qed

lemma exec_page:
  assumes s: "jiukun_inv osmem cs s"
  shows "call_ok osmem cs s (Alloc_Page k f) (jiukun_exec osmem mtx (Alloc_Page k f) s)"
proof (cases "allocPage_loop (buddy_ops osmem) k f s")
  case None
  then show ?thesis using buddy.allocPage_sys [OF s, where k = k and f = f] by (auto simp: call_ok_def ret_opt_def)
next
  case (Some res)
  obtain r pg s' where res: "res = (r, pg, s')" by (cases res)
  then have al: "jiukun_inv osmem cs s'" "objects s' = objects s" "frame s s'" and pg: "case pg of
       None \<Rightarrow> r \<noteq> JF_ERR_NO_ERROR \<and> unowned buddy_held s' = unowned buddy_held s
     | Some a \<Rightarrow> r = JF_ERR_NO_ERROR \<and> 0 < a \<and> (a, k) \<notin> unowned buddy_held s \<and> unowned buddy_held s' = insert (a, k) (unowned buddy_held s)"
    using buddy.allocPage_sys [OF s, where k = k and f = f] Some by simp_all
  note A = abs_eq [OF s] abs_eq [OF al(1)] frame_caller [OF al(3)]
  show ?thesis
  proof (cases pg)
    case None
    then have "r \<noteq> JF_ERR_NO_ERROR" "jiukun_abs s' = jiukun_abs s" using pg A al(2) by simp_all
    then show ?thesis using Some res None al(1) by (simp add: call_ok_def ret_opt_def spec_step.failed)
  next
    case a: (Some a)
    then have "spec_step (jiukun_abs s) (Alloc_Page k f) (Ret_Addr a) (jiukun_abs s')"
      using pg A al(2) spec_step.pages [of a k "jiukun_abs s" f] by simp
    then show ?thesis using Some res a al(1) by (simp add: call_ok_def ret_opt_def)
  qed
qed

lemma exec_free_page:
  assumes s: "jiukun_inv osmem cs s" and a: "call_allowed (jiukun_abs s) (Free_Page x)"
  shows "call_ok osmem cs s (Free_Page x) (jiukun_exec osmem mtx (Free_Page x) s)"
proof -
  obtain k where k: "(x, k) \<in> unowned buddy_held s" using a abs_eq [OF s] by auto
  obtain b where b: "po_free (buddy_ops osmem) (ijs_buddy s) x = Some b" "jiukun_inv osmem cs (s\<lparr>ijs_buddy := b\<rparr>)" "objects (s\<lparr>ijs_buddy := b\<rparr>) = objects s"
    "unowned buddy_held (s\<lparr>ijs_buddy := b\<rparr>) = unowned buddy_held s - {(x, k)}" "frame s (s\<lparr>ijs_buddy := b\<rparr>)"
    by (rule buddy.freePage_sys [OF s k])
  have "spec_step (jiukun_abs s) (Free_Page x) Ret_Void (jiukun_abs (s\<lparr>ijs_buddy := b\<rparr>))"
    using spec_step.pages_freed [of x k "jiukun_abs s"] k abs_eq [OF s] abs_eq [OF b(2)] frame_caller [OF b(5)] b(3,4) by simp
  then show ?thesis using b(1,2) by (simp add: call_ok_def)
qed

lemma exec_ok:
  assumes s: "jiukun_inv osmem cs s" and a: "call_allowed (jiukun_abs s) call"
  shows "call_ok osmem cs s call (jiukun_exec osmem mtx call s)"
proof (cases call)
  case (Clone_Memory sz)
  then have "jiukun_exec osmem mtx call s = ret_addr (jf_jiukun_allocMemory (buddy_ops osmem) s sz)"
    using a by (simp add: jf_jiukun_cloneMemory_def)
  then show ?thesis using exec_memory [OF s, of call sz] Clone_Memory by simp
next
  case (Alloc_Memory sz)
  then show ?thesis using exec_memory [OF s, of call sz] by simp
next
  case (Free_Object c x)
  then show ?thesis using exec_free [OF s a] by blast
next
  case (Free_Memory x)
  then show ?thesis using exec_free [OF s a] by blast
qed (use a exec_create [OF s] exec_destroy [OF s] exec_object [OF s] exec_page [OF s] exec_free_page [OF s] in simp_all)

text \<open>Every reachable state keeps the invariant.\<close>

lemma reach_inv:
  assumes "jiukun_reach osmem mtx s"
  shows "\<exists>cs. jiukun_inv osmem cs s"
  using assms
proof (induction rule: jiukun_reach.induct)
  case (start csize m lockb lock sPool noGrow s)
  have sp: "MIN_JIUKUN_POOL_SIZE \<le> sPool" "sPool \<le> JF_JIUKUN_MAX_POOL_SIZE" using start(1) by (auto simp: jf_jiukun_init_def split: if_splits)
  have "start_resources m lockb lock" using start(1) init_lacking [of m lockb lock csize osmem mtx sPool noGrow] by auto
  from init_enough [OF this start(2) sp start(3,4), of mtx noGrow] start(1)
  have "started (buddy_ops osmem) buddy_pok buddy_held s" by auto
  then show ?case by (auto simp: started_def)
next
  case (call s call ret s')
  then obtain cs where "jiukun_inv osmem cs s" by blast
  then show ?case using exec_ok [of cs s call mtx] call(2,3) by (auto simp: call_ok_def)
qed

lemma free_memory_inv:
  assumes "jiukun_inv osmem cs s" "(c, a) \<in> objects s"
  obtains s' where "jf_jiukun_freeMemory (buddy_ops osmem) s a = Some s'" "jiukun_inv osmem cs s'" "objects s' = objects s - {(c, a)}" "steady buddy_held s s'"
  by (rule buddy.freeMemory_sys [OF assms])

lemma fini_inv:
  assumes s: "jiukun_inv osmem cs s" and only: "caller_caches cs s = {}"
  obtains t s' where "finiJiukunSlab (buddy_ops osmem) s = Some t" "ended (buddy_ops osmem) buddy_pok buddy_held t"
    "buddy_held (ijs_buddy t) = unowned buddy_held s" "jf_jiukun_fini osmem s = Some (False, s')" "\<not> ijb_bInitialized (ijs_buddy s')" "\<not> ijs_bInitialized s'"
proof -
  have dom: "ijs_scCache s c \<noteq> None \<Longrightarrow> c = Cache_cache \<or> c \<in> set cs" for c using only unfolding caller_caches_def by blast
  obtain t where t: "finiJiukunSlab (buddy_ops osmem) s = Some t" "ended (buddy_ops osmem) buddy_pok buddy_held t"
    "unowned buddy_held t = unowned buddy_held s" by (rule buddy.fini_sys [OF s dom])
  have e: "slab_inv (buddy_ops osmem) buddy_pok buddy_held t" "owned t = {}" "\<not> ijs_bInitialized t" using t(2) by (simp_all add: ended_def)
  have "buddy_held (ijs_buddy t) = unowned buddy_held s" using t(3) e(2) by (simp add: unowned_def)
  moreover obtain b where "finiJiukunBuddy (ijs_buddy t) = Some b" "\<not> ijb_bInitialized b"
    by (rule finiBuddy_ok [OF buddy_pokD(1) [OF slab_invD(1) [OF e(1)]]])
  ultimately show ?thesis using that [of t "t\<lparr>ijs_buddy := b\<rparr>"] t(1,2) e(3) by (simp add: jf_jiukun_fini_def)
qed

end

text \<open>A start with one megabyte of memory, and the state after it.\<close>

definition no_mutex_error :: "string \<Rightarrow> jf_err" where
  "no_mutex_error name = JF_ERR_NO_ERROR"

definition demo_start :: "(jf_err \<times> jiukun) option" where
  "demo_start = jf_jiukun_init 176 memory_behind demo_memory JF_ERR_NO_ERROR no_mutex_error JF_ERR_NO_ERROR 1048576 False (False, slab_start ls_ijbBuddy)"

definition demo_jiukun :: caches where
  "demo_jiukun = snd (snd (the demo_start))"

lemma demo_ok:
  "demo_start = Some (JF_ERR_NO_ERROR, True, demo_jiukun)" "started (buddy_ops memory_behind) buddy_pok buddy_held demo_jiukun"
  "unowned buddy_held demo_jiukun = {}" "buddy_rich 13 (ijs_buddy demo_jiukun)" "jiukun_reach memory_behind no_mutex_error demo_jiukun"
proof -
  obtain r s where s: "demo_start = Some (r, r = JF_ERR_NO_ERROR, s)"
    "if r = JF_ERR_NO_ERROR then started (buddy_ops memory_behind) buddy_pok buddy_held s \<and> unowned buddy_held s = {} \<and> buddy_rich 13 (ijs_buddy s)
     else \<not> ijb_bInitialized (ijs_buddy s) \<and> \<not> ijs_bInitialized s"
    "(\<forall>name. no_mutex_error name = JF_ERR_NO_ERROR) \<longrightarrow> r = JF_ERR_NO_ERROR"
    unfolding demo_start_def
    by (rule behind.init_enough [of demo_memory JF_ERR_NO_ERROR JF_ERR_NO_ERROR 1048576 176 no_mutex_error False])
      (simp_all add: start_resources_def demo_memory_def MIN_JIUKUN_POOL_SIZE_def JF_JIUKUN_MAX_POOL_SIZE_def BUDDY_PAGE_SIZE_def
        JF_JIUKUN_PAGE_SHIFT_def JF_JIUKUN_MAX_PAGE_ORDER_def push_bit_eq_mult)
  have r: "r = JF_ERR_NO_ERROR" using s(3) by (simp add: no_mutex_error_def)
  have demo: "demo_jiukun = s" unfolding demo_jiukun_def s(1) by simp
  show start: "demo_start = Some (JF_ERR_NO_ERROR, True, demo_jiukun)" "started (buddy_ops memory_behind) buddy_pok buddy_held demo_jiukun"
    "unowned buddy_held demo_jiukun = {}" "buddy_rich 13 (ijs_buddy demo_jiukun)" unfolding demo using s(1,2) r by simp_all
  show "jiukun_reach memory_behind no_mutex_error demo_jiukun"
    by (rule jiukun_reach.start [OF start(1) [unfolded demo_start_def]]) (simp_all add: demo_memory_def)
qed

section \<open>Properties\<close>

text \<open>
  (C1) The memory manager refines its specification. In every state reachable from a successful start, each allowed call returns and does to the callers'
  caches, objects and pages what the specification says: it fails with an error and changes nothing, or it hands out what nobody held, or it takes back
  exactly what is given back. No block is lost: the pages in use are those of slabs and those the callers hold. A call does not return only if it
  was asked to wait for pages, or if the reaper would have to destroy a free slab of a cache that keeps its management structures elsewhere.
\<close>

theorem jiukun_refines:
  assumes "os_memory osmem" and "jiukun_reach osmem mtx s" and "call_allowed (jiukun_abs s) call"
  shows "case jiukun_exec osmem mtx call s of
      None \<Rightarrow> stuck s \<or> call_waits s call
    | Some (ret, s') \<Rightarrow> spec_step (jiukun_abs s) call ret (jiukun_abs s')"
  using os_memory.reach_inv [OF assms(1,2)] os_memory.exec_ok [OF assms(1) _ assms(3), of _ mtx]
  by (auto simp: call_ok_def split: option.splits)

theorem jiukun_refines_witness:
  "\<exists>a s'. jiukun_exec memory_behind no_mutex_error (Alloc_Memory 100) demo_jiukun = Some (Ret_Addr a, s') \<and>
    spec_step (jiukun_abs demo_jiukun) (Alloc_Memory 100) (Ret_Addr a) (jiukun_abs s')"
proof -
  obtain cs where cs: "jiukun_inv memory_behind cs demo_jiukun" using demo_ok(2) by (auto simp: started_def)
  have rich: "buddy_rich (Suc 12) (ijs_buddy demo_jiukun)" using demo_ok(4) by simp
  obtain a s' where "jf_jiukun_allocMemory (buddy_ops memory_behind) demo_jiukun 100 = Some (JF_ERR_NO_ERROR, a, s')"
    by (rule behind.buddy.allocMemory_supply [OF cs _ rich, of 100]) simp
  then show ?thesis
    using jiukun_refines [OF behind.os_memory_axioms demo_ok(5), of "Alloc_Memory 100"] by (simp add: ret_addr_def)
qed

definition obj_bytes :: "caches \<Rightarrow> cache_id \<times> addr \<Rightarrow> addr set" where
  "obj_bytes s u = (case ijs_scCache s (fst u) of None \<Rightarrow> {} | Some ca \<Rightarrow> {snd u ..< snd u + sc_u32ObjSize ca})"

lemma objectE:
  assumes "u \<in> objects s"
  obtains c a ca where "u = (c, a)" "(c, a) \<in> live s" "ijs_scCache s c = Some ca" "obj_bytes s u = {a ..< a + sc_u32ObjSize ca}"
proof -
  obtain c a where u: "u = (c, a)" by (cases u)
  obtain ca where "ijs_scCache s c = Some ca" using objects_cache [of c a s] assms u by blast
  then show ?thesis using that u assms by (simp add: objects_def obj_bytes_def)
qed

context os_memory
begin

lemma objects_apart:
  assumes s: "jiukun_inv osmem cs s" and u: "u \<in> objects s" and v: "v \<in> objects s" and ne: "u \<noteq> v"
  shows "obj_bytes s u \<inter> obj_bytes s v = {}"
proof -
  obtain c a ca where u': "u = (c, a)" "(c, a) \<in> live s" "ijs_scCache s c = Some ca" "obj_bytes s u = {a ..< a + sc_u32ObjSize ca}" by (rule objectE [OF u])
  obtain d b da where v': "v = (d, b)" "(d, b) \<in> live s" "ijs_scCache s d = Some da" "obj_bytes s v = {b ..< b + sc_u32ObjSize da}" by (rule objectE [OF v])
  show ?thesis using buddy.live_apart [OF sys_invD(1) [OF s] u'(3,2) v'(3,2)] ne u'(1,4) v'(1,4) by blast
qed

lemma object_apart:
  assumes s: "jiukun_inv osmem cs s" and u: "u \<in> objects s"
  shows "snd u \<noteq> 0" "obj_bytes s u \<noteq> {}" "v \<in> unowned buddy_held s \<Longrightarrow> obj_bytes s u \<inter> blk v = {}"
proof -
  note inv = sys_invD(1) [OF s]
  obtain c a ca where u': "u = (c, a)" "(c, a) \<in> live s" "ijs_scCache s c = Some ca" "obj_bytes s u = {a ..< a + sc_u32ObjSize ca}" by (rule objectE [OF u])
  show "snd u \<noteq> 0" "obj_bytes s u \<noteq> {}" using buddy.live_cache [OF u'(2) inv] u' by auto
  show "v \<in> unowned buddy_held s \<Longrightarrow> obj_bytes s u \<inter> blk v = {}" using buddy.object_page_apart [OF inv u'(2,3)] u'(4) by simp
qed

lemma pages_apart:
  assumes "jiukun_inv osmem cs s" "u \<in> unowned buddy_held s" "v \<in> unowned buddy_held s" "u \<noteq> v"
  shows "blk u \<inter> blk v = {}"
  using buddy.blocks_apart [OF slab_invD(1) [OF sys_invD(1) [OF assms(1)]], of u v] assms(2-4) by (simp add: unowned_def)

end

text \<open>
  (C2) Memory in use does not overlap, in any reachable state: two objects of the callers have no byte in common, whatever caches they are from, and neither
  have an object and a block of pages of the callers, or two blocks of pages. No object is at the null address.
\<close>

theorem jiukun_memory_apart:
  assumes "os_memory osmem" and "jiukun_reach osmem mtx s"
  shows "(\<forall>u\<in>objects s. \<forall>v\<in>objects s. u \<noteq> v \<longrightarrow> obj_bytes s u \<inter> obj_bytes s v = {}) \<and>
    (\<forall>u\<in>objects s. snd u \<noteq> 0 \<and> obj_bytes s u \<noteq> {} \<and> (\<forall>v\<in>js_pages (jiukun_abs s). obj_bytes s u \<inter> blk v = {})) \<and>
    (\<forall>u\<in>js_pages (jiukun_abs s). \<forall>v\<in>js_pages (jiukun_abs s). u \<noteq> v \<longrightarrow> blk u \<inter> blk v = {})"
proof -
  obtain cs where cs: "jiukun_inv osmem cs s" using os_memory.reach_inv [OF assms] by blast
  then show ?thesis
    using os_memory.objects_apart [OF assms(1) cs] os_memory.object_apart [OF assms(1) cs] os_memory.pages_apart [OF assms(1) cs] by simp
qed

lemma demo_memory_states:
  obtains a s1 b s2 where
    "jiukun_exec memory_behind no_mutex_error (Alloc_Memory 100) demo_jiukun = Some (Ret_Addr a, s1)"
    "jiukun_exec memory_behind no_mutex_error (Alloc_Memory 20) s1 = Some (Ret_Addr b, s2)"
    "jiukun_reach memory_behind no_mutex_error s1" "jiukun_reach memory_behind no_mutex_error s2"
    "\<exists>c d. (c, a) \<in> objects s2 \<and> (d, b) \<in> objects s2 \<and> (c, a) \<noteq> (d, b)"
proof -
  note os = behind.os_memory_axioms
  obtain cs where cs: "jiukun_inv memory_behind cs demo_jiukun" using demo_ok(2) by (auto simp: started_def)
  have rich: "buddy_rich (Suc 12) (ijs_buddy demo_jiukun)" using demo_ok(4) by simp
  obtain a s1 where s1: "jf_jiukun_allocMemory (buddy_ops memory_behind) demo_jiukun 100 = Some (JF_ERR_NO_ERROR, a, s1)" "buddy_rich 12 (ijs_buddy s1)"
    by (rule behind.buddy.allocMemory_supply [OF cs _ rich, of 100]) simp
  have e1: "jiukun_exec memory_behind no_mutex_error (Alloc_Memory 100) demo_jiukun = Some (Ret_Addr a, s1)" using s1(1) by (simp add: ret_addr_def)
  have ok1: "jiukun_inv memory_behind cs s1" "spec_step (jiukun_abs demo_jiukun) (Alloc_Memory 100) (Ret_Addr a) (jiukun_abs s1)"
    using behind.exec_ok [OF cs, of "Alloc_Memory 100" no_mutex_error] e1 by (simp_all add: call_ok_def)
  have rich1: "buddy_rich (Suc 11) (ijs_buddy s1)" using s1(2) by simp
  obtain b s2 where s2: "jf_jiukun_allocMemory (buddy_ops memory_behind) s1 20 = Some (JF_ERR_NO_ERROR, b, s2)"
    by (rule behind.buddy.allocMemory_supply [OF ok1(1) _ rich1, of 20]) simp
  have e2: "jiukun_exec memory_behind no_mutex_error (Alloc_Memory 20) s1 = Some (Ret_Addr b, s2)" using s2 by (simp add: ret_addr_def)
  have ok2: "jiukun_inv memory_behind cs s2" "spec_step (jiukun_abs s1) (Alloc_Memory 20) (Ret_Addr b) (jiukun_abs s2)"
    using behind.exec_ok [OF ok1(1), of "Alloc_Memory 20" no_mutex_error] e2 by (simp_all add: call_ok_def)
  have r1: "jiukun_reach memory_behind no_mutex_error s1" by (rule jiukun_reach.call [OF demo_ok(5) _ e1]) simp
  have r2: "jiukun_reach memory_behind no_mutex_error s2" by (rule jiukun_reach.call [OF r1 _ e2]) simp
  obtain i where i: "jiukun_abs s1 = (jiukun_abs demo_jiukun)\<lparr>js_objects := insert (js_general (jiukun_abs demo_jiukun) ! i, a) (js_objects (jiukun_abs demo_jiukun))\<rparr>"
    using ok1(2) by (rule spec_memoryE) auto
  obtain j where j: "(js_general (jiukun_abs s1) ! j, b) \<notin> js_objects (jiukun_abs s1)"
    "jiukun_abs s2 = (jiukun_abs s1)\<lparr>js_objects := insert (js_general (jiukun_abs s1) ! j, b) (js_objects (jiukun_abs s1))\<rparr>"
    using ok2(2) by (rule spec_memoryE) auto
  have "objects s1 = insert (js_general (jiukun_abs demo_jiukun) ! i, a) (objects demo_jiukun)" using arg_cong [OF i, of js_objects] by simp
  moreover have "objects s2 = insert (js_general (jiukun_abs s1) ! j, b) (objects s1)" using arg_cong [OF j(2), of js_objects] by simp
  ultimately have "\<exists>c d. (c, a) \<in> objects s2 \<and> (d, b) \<in> objects s2 \<and> (c, a) \<noteq> (d, b)"
    using j(1) by (intro exI [of _ "js_general (jiukun_abs demo_jiukun) ! i"] exI [of _ "js_general (jiukun_abs s1) ! j"]) auto
  then show ?thesis using that e1 e2 r1 r2 by blast
qed

theorem jiukun_memory_apart_witness:
  "\<exists>s u v. jiukun_reach memory_behind no_mutex_error s \<and> u \<in> objects s \<and> v \<in> objects s \<and> u \<noteq> v \<and> obj_bytes s u \<inter> obj_bytes s v = {}"
proof -
  obtain a s1 b s2 where s2: "jiukun_reach memory_behind no_mutex_error s2" "\<exists>c d. (c, a) \<in> objects s2 \<and> (d, b) \<in> objects s2 \<and> (c, a) \<noteq> (d, b)"
    by (rule demo_memory_states)
  obtain c d where cd: "(c, a) \<in> objects s2" "(d, b) \<in> objects s2" "(c, a) \<noteq> (d, b)" using s2(2) by (elim exE conjE)
  have "obj_bytes s2 (c, a) \<inter> obj_bytes s2 (d, b) = {}"
    using conjunct1 [OF jiukun_memory_apart [OF behind.os_memory_axioms s2(1)]] cd by simp
  then show ?thesis using s2(1) cd by (intro exI conjI)
qed





text \<open>
  (C14) \<^verbatim>\<open>jf_jiukun_fini\<close>, once the callers have destroyed the caches they made: it returns, every slab is destroyed and its pages are given back before the
  zones are released, so that the pages then in use are exactly those the callers still hold; and the module is off.
\<close>

theorem jiukun_fini_releases:
  assumes "os_memory osmem" and "jiukun_reach osmem mtx s" and "js_caches (jiukun_abs s) = {}"
  shows "\<exists>t s'. finiJiukunSlab (buddy_ops osmem) s = Some t \<and> owned t = {} \<and> live t = {} \<and> buddy_held (ijs_buddy t) = js_pages (jiukun_abs s) \<and>
    jf_jiukun_fini osmem s = Some (False, s') \<and> \<not> ijb_bInitialized (ijs_buddy s') \<and> \<not> ijs_bInitialized s'"
proof -
  obtain cs where cs: "jiukun_inv osmem cs s" using os_memory.reach_inv [OF assms(1,2)] by blast
  have "caller_caches cs s = {}" using assms(3) abs_eq [OF cs] by simp
  then obtain t s' where "finiJiukunSlab (buddy_ops osmem) s = Some t" "ended (buddy_ops osmem) buddy_pok buddy_held t"
    "buddy_held (ijs_buddy t) = unowned buddy_held s" "jf_jiukun_fini osmem s = Some (False, s')" "\<not> ijb_bInitialized (ijs_buddy s')" "\<not> ijs_bInitialized s'"
    by (rule os_memory.fini_inv [OF assms(1) cs])
  then show ?thesis by (intro exI conjI) (simp_all add: ended_def)
qed

theorem jiukun_fini_releases_witness:
  "\<exists>t s'. finiJiukunSlab (buddy_ops memory_behind) demo_jiukun = Some t \<and> buddy_held (ijs_buddy t) = {} \<and> jf_jiukun_fini memory_behind demo_jiukun = Some (False, s')"
proof -
  obtain cs where cs: "jiukun_inv memory_behind cs demo_jiukun" "\<forall>c. ijs_scCache demo_jiukun c \<noteq> None \<longleftrightarrow> c = Cache_cache \<or> c \<in> set cs"
    using demo_ok(2) unfolding started_def by (elim exE conjE)
  have "js_caches (jiukun_abs demo_jiukun) = {}" using cs(2) abs_eq [OF cs(1)] by (auto simp: caller_caches_def)
  then show ?thesis using jiukun_fini_releases [OF behind.os_memory_axioms demo_ok(5)] demo_ok(3) by auto
qed

text \<open>
  (C9) Memory and its release are inverse. Memory that \<^verbatim>\<open>jf_jiukun_allocMemory\<close> gives is an object of the smallest general cache whose objects are not smaller than the
  request; \<^verbatim>\<open>jf_jiukun_freeMemory\<close> finds that cache from the address alone and returns, and all that the callers see is then as it was before.
\<close>

theorem jiukun_memory_roundtrip:
  assumes "os_memory osmem" and "jiukun_reach osmem mtx s" and "jiukun_exec osmem mtx (Alloc_Memory sz) s = Some (Ret_Addr a, s1)"
  shows "\<exists>i s2. general_index sz = Some i \<and> sz \<le> int (ls_sCacheSize ! i) \<and> (\<forall>j<i. int (ls_sCacheSize ! j) < sz) \<and>
    obj_bytes s1 (js_general (jiukun_abs s) ! i, a) = {a ..< a + ls_sCacheSize ! i} \<and>
    jiukun_exec osmem mtx (Free_Memory a) s1 = Some (Ret_Void, s2) \<and> jiukun_abs s2 = jiukun_abs s"
proof -
  obtain cs where cs: "jiukun_inv osmem cs s" using os_memory.reach_inv [OF assms(1,2)] by blast
  have ok: "jiukun_inv osmem cs s1" "spec_step (jiukun_abs s) (Alloc_Memory sz) (Ret_Addr a) (jiukun_abs s1)"
    using os_memory.exec_ok [OF assms(1) cs, of "Alloc_Memory sz" mtx] assms(3) by (simp_all add: call_ok_def)
  obtain i where i: "general_index sz = Some i" "(js_general (jiukun_abs s) ! i, a) \<notin> js_objects (jiukun_abs s)"
    "jiukun_abs s1 = (jiukun_abs s)\<lparr>js_objects := insert (js_general (jiukun_abs s) ! i, a) (js_objects (jiukun_abs s))\<rparr>"
    using ok(2) by (rule spec_memoryE) auto
  have gen: "js_general (jiukun_abs s) = cs" using abs_eq [OF cs] by simp
  have o1: "objects s1 = insert (cs ! i, a) (objects s)" using arg_cong [OF i(3), of js_objects] gen by simp
  then have mem: "(cs ! i, a) \<in> objects s1" by simp
  obtain s2 where s2: "jf_jiukun_freeMemory (buddy_ops osmem) s1 a = Some s2" "jiukun_inv osmem cs s2" "objects s2 = objects s1 - {(cs ! i, a)}" "steady buddy_held s1 s2"
    by (rule os_memory.free_memory_inv [OF assms(1) ok(1) mem])
  have "objects s2 = objects s" using s2(3) o1 i(2) gen by auto
  moreover have "caller_caches cs s2 = caller_caches cs s1" "unowned buddy_held s2 = unowned buddy_held s1"
    using s2(4) frame_caller by (auto simp: steady_def)
  moreover have "caller_caches cs s1 = caller_caches cs s" "unowned buddy_held s1 = unowned buddy_held s"
    using arg_cong [OF i(3), of js_caches] arg_cong [OF i(3), of js_pages] abs_eq [OF cs] abs_eq [OF ok(1)] by simp_all
  ultimately have "jiukun_abs s2 = jiukun_abs s" using abs_eq [OF cs] abs_eq [OF s2(2)] by simp
  moreover have "sz \<le> int (ls_sCacheSize ! i)" "\<forall>j<i. int (ls_sCacheSize ! j) < sz" using i(1) by (auto simp: general_index_def find_Some_iff)
  moreover obtain ca where "ijs_scCache s1 (cs ! i) = Some ca" "sc_u32ObjSize ca = ls_sCacheSize ! i"
    using general_okD(5) [OF sys_invD(7) [OF ok(1)] general_index_Some(1) [OF i(1)]] by (elim exE conjE)
  then have "obj_bytes s1 (cs ! i, a) = {a ..< a + ls_sCacheSize ! i}" by (simp add: obj_bytes_def)
  ultimately show ?thesis using i(1) gen s2(1) by (intro exI [of _ i] exI [of _ s2]) simp
qed

theorem jiukun_memory_roundtrip_witness:
  "\<exists>a s1 s2. jiukun_exec memory_behind no_mutex_error (Alloc_Memory 100) demo_jiukun = Some (Ret_Addr a, s1) \<and>
    jiukun_exec memory_behind no_mutex_error (Free_Memory a) s1 = Some (Ret_Void, s2) \<and> jiukun_abs s2 = jiukun_abs demo_jiukun"
proof -
  obtain a s1 b s2 where s1: "jiukun_exec memory_behind no_mutex_error (Alloc_Memory 100) demo_jiukun = Some (Ret_Addr a, s1)" by (rule demo_memory_states)
  then show ?thesis using jiukun_memory_roundtrip [OF behind.os_memory_axioms demo_ok(5) s1] by auto
qed

context os_memory
begin

lemma reap_inv:
  assumes s: "jiukun_inv osmem cs s"
  shows "case reapJiukun (buddy_ops osmem) s of None \<Rightarrow> stuck s | Some s' \<Rightarrow> \<not> stuck s \<and> jiukun_inv osmem cs s' \<and> jiukun_abs s' = jiukun_abs s"
proof (cases "reapJiukun (buddy_ops osmem) s")
  case None
  then show ?thesis using buddy.reapJiukun_ok [OF sys_invD(1) [OF s]] by simp
next
  case (Some s')
  then have r: "\<not> stuck s" "released (buddy_ops osmem) buddy_pok buddy_held s s'"
    using buddy.reapJiukun_ok [OF sys_invD(1) [OF s]] by (simp_all add: reaped_def)
  note k = releasedD [OF r(2)]
  have s': "jiukun_inv osmem cs s'" by (rule sys_frame [OF k(2) s k(1)])
  moreover have "objects s' = objects s" "unowned buddy_held s' = unowned buddy_held s" using r(2) by (simp_all add: released_def objects_def)
  then have "jiukun_abs s' = jiukun_abs s" using abs_eq [OF s] abs_eq [OF s'] frame_caller [OF k(2)] by simp
  ultimately show ?thesis using Some r(1) by simp
qed

lemma createCache_inv:
  assumes s: "jiukun_inv osmem cs s" and sObj: "SLAB_ALIGN_SIZE \<le> sObj" "sObj \<le> push_bit MAX_JP_ORDER 1 * BUDDY_PAGE_SIZE"
    and jf: "JF_FLAG_GET jf SC_FLAG_OFF_SLAB = 0" "JF_FLAG_GET jf SC_FLAG_DESTROY = 0"
    and al: "jf_jiukun_allocObject (buddy_ops osmem) s Cache_cache = Some (JF_ERR_NO_ERROR, a, s1)"
  shows "jf_jiukun_createCache (buddy_ops osmem) mtx s name sObj jf \<noteq> None \<longleftrightarrow> order_found (ALIGN_CEIL sObj SLAB_ALIGN_SIZE)"
proof -
  have init: "ijs_bInitialized s" by (rule sys_invD(2) [OF s])
  have al': "allocObj slab_depth (buddy_ops osmem) s Cache_cache = Some (JF_ERR_NO_ERROR, a, s1)"
    using al init by (simp add: jf_jiukun_allocObject_def)
  have eq: "jf_jiukun_createCache (buddy_ops osmem) mtx s name sObj jf = createSlabCache (buddy_ops osmem) mtx s name sObj jf"
    using init sObj by (simp add: jf_jiukun_createCache_def)
  show ?thesis
  proof (cases "order_found (ALIGN_CEIL sObj SLAB_ALIGN_SIZE)")
    case True
    then show ?thesis using buddy.createCache_returns [OF s sObj True jf al', of mtx name] eq by auto
  next
    case False
    then show ?thesis using buddy.createCache_diverges [OF s sObj False al', of mtx name jf] by simp
  qed
qed

lemma alloc_descriptor:
  assumes s: "jiukun_inv osmem cs s" and rich: "buddy_rich (Suc n) (ijs_buddy s)" and o: "ijs_scCache s Cache_cache = Some cc" "sc_u32Order cc = 0"
  obtains a s1 where "jf_jiukun_allocObject (buddy_ops osmem) s Cache_cache = Some (JF_ERR_NO_ERROR, a, s1)"
proof -
  note k = sys_invD [OF s]
  have on: "\<not> OFF_SLAB cc" using slab_invD(5) [OF k(1)] o(1) by auto
  obtain x b where b: "po_alloc (buddy_ops osmem) (ijs_buddy s) (sc_u32Order cc) = Some (JF_ERR_NO_ERROR, Some x, b)"
    using buddy.rich_alloc [OF slab_invD(1) [OF k(1)] rich] o(2) by auto
  show ?thesis
    using buddy.allocObj_page [OF k(1) o(1) on b, of 2] that k(2) by (auto simp: jf_jiukun_allocObject_def slab_depth_def numeral_3_eq_3)
qed

end



text \<open>
  (C12) Creating a cache returns exactly for the sizes for which the search for an order ends. Once there is memory for its descriptor, \<^verbatim>\<open>jf_jiukun_createCache\<close>
  returns if the objects are smaller than 512 bytes, or if slabs of the least order that fits an object waste at most an eighth
  of their memory, or if that order is the highest; for every other size its loop runs for ever, since it tries the same order again.
\<close>

theorem createCache_returns_iff:
  assumes "os_memory osmem" and "jiukun_reach osmem mtx s" and "SLAB_ALIGN_SIZE \<le> sObj" and "sObj \<le> push_bit MAX_JP_ORDER 1 * BUDDY_PAGE_SIZE"
    and "JF_FLAG_GET jf SC_FLAG_OFF_SLAB = 0" and "JF_FLAG_GET jf SC_FLAG_DESTROY = 0"
    and "jf_jiukun_allocObject (buddy_ops osmem) s Cache_cache = Some (JF_ERR_NO_ERROR, a, s1)"
  shows "jf_jiukun_createCache (buddy_ops osmem) mtx s name sObj jf \<noteq> None \<longleftrightarrow>
    (let sz = ALIGN_CEIL sObj SLAB_ALIGN_SIZE; k = least_order sz
     in sz < 512 \<or> k = MAX_JP_ORDER \<or> (2 ^ k * BUDDY_PAGE_SIZE) mod sz * 8 \<le> 2 ^ k * BUDDY_PAGE_SIZE)"
proof -
  obtain cs where cs: "jiukun_inv osmem cs s" using os_memory.reach_inv [OF assms(1,2)] by blast
  show ?thesis using os_memory.createCache_inv [OF assms(1) cs assms(3-7)] by (simp add: order_found_def order_waste_def Let_def)
qed

theorem createCache_returns_iff_witness:
  "jf_jiukun_createCache (buddy_ops memory_behind) no_mutex_error demo_jiukun ''lost'' 712 0 = None"
proof -
  obtain cs where cs: "jiukun_inv memory_behind cs demo_jiukun" using demo_ok(2) by (auto simp: started_def)
  have rich: "buddy_rich (Suc 12) (ijs_buddy demo_jiukun)" using demo_ok(4) by simp
  obtain a s1 where al: "jf_jiukun_allocObject (buddy_ops memory_behind) demo_jiukun Cache_cache = Some (JF_ERR_NO_ERROR, a, s1)"
    using behind.alloc_descriptor [OF cs rich] demo_ok(2) by (auto simp: started_def)
  have page: "BUDDY_PAGE_SIZE = 4096" by (simp add: BUDDY_PAGE_SIZE_def JF_JIUKUN_PAGE_SHIFT_def push_bit_eq_mult)
  have "least_order 712 = 0" unfolding least_order_def page by (rule Least_equality) simp_all
  then show ?thesis
    using createCache_returns_iff [OF behind.os_memory_axioms demo_ok(5) _ _ _ _ al, of 712 0 "''lost''"]
    by (simp add: page SLAB_ALIGN_SIZE_def ALIGN_CEIL_def MAX_JP_ORDER_def push_bit_eq_mult JF_FLAG_GET_bit del: not_None_eq)
qed

end
