(* ===== verification/Spec2Isabelle.thy ===== *)
theory Spec2Isabelle
  imports Jf_Bitarray Jf_Listhead Jf_Base64 Jf_Hex Jf_Date Jf_Linklist Jf_Dispatcher Jf_Hsm Jf_Hashtable Jf_Jiukun
begin

text \<open>
  \<^bold>\<open>Jiufeng\<close> is a C library of system services: basic types and containers (\<^verbatim>\<open>src/jiutai\<close>), a memory
  manager called jiukun (\<^verbatim>\<open>src/jiukun\<close>), encoders and parsers (\<^verbatim>\<open>src/encode\<close>, \<^verbatim>\<open>src/string\<close>,
  \<^verbatim>\<open>src/httpparser\<close>, \<^verbatim>\<open>src/xmlparser\<close>), networking, and daemons with their clients (\<^verbatim>\<open>src/dispatcher\<close>,
  \<^verbatim>\<open>src/configmgr\<close>, \<^verbatim>\<open>src/servmgmt\<close>, \<^verbatim>\<open>src/logserver\<close>). The containers are used by everything above them: the
  intrusive lists carry the free lists of jiukun and the tables of the state machine, the queue carries the
  messages of the dispatcher, and every allocation ends in jiukun.

  \<^bold>\<open>Conventions.\<close> A C function is a function of the same name (a leading underscore is dropped) that
  takes and returns the state it changes. Error codes are the datatype \<open>jf_err\<close>. \<open>None\<close> is what C leaves undefined
  or aborts on: a failed assertion, an access outside of an array or to a node that is not allocated, a call
  through a null pointer; a theorem whose conclusion is \<open>f x = Some y\<close> excludes these. Integers keep their width where
  it matters (\<open>u8\<close> to \<open>u64\<close>). Whether an allocation succeeds, clocks, and callbacks of the caller are arguments.
  Loops are recursive functions with a termination proof; the loops that follow pointers, retry, or may not end
  (\<open>remove_loop\<close>, \<open>getPage_loop\<close>, \<open>allocPage_loop\<close>, \<open>order_loop\<close> and the like) are \<open>partial_function (option)\<close>, and the theorems on them prove
  that they return, or exactly when they do. One function has a bound: \<open>allocObj\<close> calls itself for the management structure
  of a slab that lies in another cache, and its first argument bounds the depth. The functions of the interface use \<open>slab_depth\<close>, which is 3; two are
  enough, since a cache with its management structures elsewhere keeps them in one that does not (lemma \<open>allocObj_ok\<close>).

  \<^bold>\<open>Theories.\<close>

  \<^item> \<open>Jf_Prelude\<close>: integer types, error codes, the contract of a coder (locale \<open>codec\<close>), buffers.
  \<^item> \<open>Jf_Bitop\<close>, \<open>Jf_Bitarray\<close>: \<^verbatim>\<open>jf_bitop.h\<close>, \<^verbatim>\<open>jf_flag.h\<close> and \<^verbatim>\<open>jf_bitarray.h\<close>. Fields are written and read back without touching others;
    shifting a bit array moves its bits; increment and decrement are inverse; setting, testing and clearing a bit.
  \<^item> \<open>Jf_Listhead\<close>: \<^verbatim>\<open>jf_listhead.h\<close> and \<^verbatim>\<open>jf_hlisthead.h\<close> on a store of pointers. Both provide the interface
    \<open>intrusive_list\<close>; every operation is the operation on sequences that its name says.
  \<^item> \<open>Jf_Buddy\<close> (the code), \<open>Jf_Buddy_Zone\<close> (one zone), \<open>Jf_Buddy_Alloc\<close> (the allocator and the interface \<open>block_allocator\<close>):
    \<^verbatim>\<open>buddy.c\<close> and \<^verbatim>\<open>buddy.h\<close>. Pages handed out are disjoint and in bounds, freeing
    merges buddies until the zone is one block again, double frees are caught, addresses and pages correspond.
  \<^item> \<open>Jf_Slab\<close>: the code of \<^verbatim>\<open>slab.c\<close> and the reaping of \<^verbatim>\<open>jiukun.c\<close>, over a page allocator given by the record \<open>page_ops\<close>. \<open>Jf_Slab_Inv\<close>: the contract of a page
    allocator (locale \<open>page_provider\<close>) and the invariant of caches and slabs. \<open>Jf_Slab_Alloc\<close> (one object), \<open>Jf_Slab_Destroy\<close> (slabs, reaping), \<open>Jf_Slab_Grow\<close> (new slabs,
    allocation), \<open>Jf_Slab_Create\<close> (new caches, the search for an order), \<open>Jf_Slab_System\<close> (the interface) and \<open>Jf_Slab_Init\<close> (start and end, locale \<open>page_supply\<close>) show
    that every operation keeps it, what it does to the objects in use, and when it does not return.
  \<^item> \<open>Jf_Slab_Buddy\<close>: the page allocator keeps the contract of the caches, given an operating system that hands out unused memory (locale \<open>os_memory\<close>);
    \<^verbatim>\<open>jf_jiukun_init\<close> and \<^verbatim>\<open>jf_jiukun_fini\<close>. \<open>Jf_Jiukun\<close>: the calls of \<^verbatim>\<open>jf_jiukun.h\<close>, their abstract specification (the caches, objects and pages of the callers),
    and the proof that every reachable state refines it: memory in use never overlaps, nothing is lost, and memory given back is
    free again.
  \<^item> \<open>Jf_Base64\<close>, \<open>Jf_Hex\<close> (with \<open>Jf_Clib\<close>, the parts of the C library in use): \<^verbatim>\<open>base64.c\<close> and \<^verbatim>\<open>jf_hex.c\<close>. Decoding inverts
    encoding, no store leaves the buffer, and exactly when the two unsafe writers overflow.
  \<^item> \<open>Jf_Date\<close>: \<^verbatim>\<open>jf_date.c\<close>. The day of the week agrees with counting days; dates survive conversion and printing.
  \<^item> \<open>Jf_Chain\<close> (heaps of nodes, locales \<open>container\<close> and \<open>appendable\<close>), \<open>Jf_Queue\<close>, \<open>Jf_Linklist\<close>: \<^verbatim>\<open>jf_queue.c\<close>, \<^verbatim>\<open>jf_stack.c\<close>,
    \<^verbatim>\<open>jf_linklist.c\<close>, \<^verbatim>\<open>jf_dlinklist.c\<close>. The containers refine lists.
  \<^item> \<open>Jf_Dispatcher\<close>: \<^verbatim>\<open>dispatchercommon.c\<close> and \<^verbatim>\<open>prioqueue.c\<close>. The queue of messages keeps its bound, its order and its
    reference counts; what its counters get wrong.
  \<^item> \<open>Jf_Hashtable\<close>: \<^verbatim>\<open>jf_hashtable.c\<close>. The table with its chains and resizing refines a map; iteration visits every entry once.
  \<^item> \<open>Jf_Hsm\<close>: \<^verbatim>\<open>jf_hsm.c\<close>. What an event does, and an invariant of every machine reachable through the interface.

  \<^bold>\<open>Not modelled.\<close> Code that is a wrapper of the operating system or of a third-party library (threads, sockets, files,
  SQLite, terminals), the daemons built from it, and the floating-point code. Mutexes are left out: each
  operation of a locked structure is atomic, and there is one thread of control; the one place where a thread takes a lock that it
  holds (the reaper of the object caches) is a call that does not return. The contents of objects, and so the copying routines of \<^verbatim>\<open>slab.c\<close>, and its
  debug build are left out. The string, cryptography, HTTP and XML parts, the property tree and the smaller
  containers have no theory here. The order of the destructors' frees is modelled where the callback of the
  caller sees it.
\<close>

end
